(* ===== verification/Prelude.thy ===== *)
theory Prelude
  imports "HOL-Library.Word"
begin

text \<open>
  Shared vocabulary of the development: the C integer types as machine words, the result
  conventions, bounded array scans, NUL-terminated strings, little-endian fields, and the word
  and list lemmas the component theories share.

  Conventions used throughout.
  \<^item> \<open>uint8_t\<close> .. \<open>uint64_t\<close> are \<open>8 word\<close> .. \<open>64 word\<close>: arithmetic wraps as in C.
    Loop counters that are bounded by a compile-time table size are \<open>nat\<close>.
  \<^item> A C pointer to an element of a static table is the element's index; a pointer that may be
    null is an \<open>option\<close>.
  \<^item> A function that returns 0 or -1 returns an \<open>option\<close> (\<open>None\<close> is the error); out-parameters
    become components of the result, static state is passed in and returned.
  \<^item> A C string is the list of its characters before the terminating NUL.
\<close>

unbundle bit_operations_syntax

type_synonym u8 = "8 word"
type_synonym u16 = "16 word"
type_synonym u32 = "32 word"
type_synonym u64 = "64 word"

named_theorems kernel_inv
named_theorems kernel_frame

section \<open>Bounded scans\<close>

text \<open>
  The kernel's tables are scanned by loops of the form
  \<^verbatim>\<open>for (i = 0; i < n; i++) if (P(i)) return i;\<close>.
\<close>

definition first_index :: "nat \<Rightarrow> (nat \<Rightarrow> bool) \<Rightarrow> nat option" where
  "first_index n P = find P [0..<n]"

lemma first_index_Some_iff:
  "first_index n P = Some i \<longleftrightarrow> i < n \<and> P i \<and> (\<forall>j<i. \<not> P j)"
proof -
  have "find P [0..<n] = Some i \<longleftrightarrow>
      (\<exists>k<length [0..<n]. P ([0..<n] ! k) \<and> i = [0..<n] ! k \<and> (\<forall>j<k. \<not> P ([0..<n] ! j)))"
    by (rule find_Some_iff)
  also have "\<dots> \<longleftrightarrow> i < n \<and> P i \<and> (\<forall>j<i. \<not> P j)"
    by auto
  finally show ?thesis by (simp add: first_index_def)
qed

lemma first_index_None_iff: "first_index n P = None \<longleftrightarrow> (\<forall>i<n. \<not> P i)"
  by (auto simp: first_index_def find_None_iff)

lemma first_index_SomeD:
  assumes "first_index n P = Some i"
  shows "i < n" and "P i" and "\<And>j. j < i \<Longrightarrow> \<not> P j"
  using assms by (auto simp: first_index_Some_iff)

lemma first_index_exists: "i < n \<Longrightarrow> P i \<Longrightarrow> \<exists>j. first_index n P = Some j"
  by (metis first_index_None_iff not_None_eq)

lemma first_index_cong [fundef_cong]:
  "n = m \<Longrightarrow> (\<And>i. i < m \<Longrightarrow> P i = Q i) \<Longrightarrow> first_index n P = first_index m Q"
  by (auto simp: first_index_def intro: find_cong)

lemma map_nth_take: "n \<le> length xs \<Longrightarrow> map (\<lambda>i. xs ! i) [0..<n] = take n xs"
  by (rule nth_equalityI) auto

text \<open>The byte-copy loop \<^verbatim>\<open>for (i = 0; i < n; i++) dst[off + i] = src[i];\<close>.\<close>

definition copy_loop :: "'a list \<Rightarrow> nat \<Rightarrow> 'a list \<Rightarrow> nat \<Rightarrow> 'a list" where
  "copy_loop dst off src n = fold (\<lambda>i d. d[off + i := src ! i]) [0..<n] dst"

lemma length_copy_loop [simp]: "length (copy_loop dst off src n) = length dst"
  unfolding copy_loop_def by (induction n) auto

lemma copy_loop_eq:
  assumes "off + n \<le> length dst" and "n \<le> length src"
  shows "copy_loop dst off src n = take off dst @ take n src @ drop (off + n) dst"
  using assms
proof (induction n)
  case 0
  then show ?case by (simp add: copy_loop_def)
next
  case (Suc n)
  have "copy_loop dst off src (Suc n) = (copy_loop dst off src n)[off + n := src ! n]"
    by (simp add: copy_loop_def)
  also have "\<dots> = (take off dst @ take n src @ drop (off + n) dst)[off + n := src ! n]"
    using Suc by simp
  also have "\<dots> = take off dst @ take (Suc n) src @ drop (off + Suc n) dst"
    using Suc.prems
    by (simp add: list_update_append take_Suc_conv_app_nth Cons_nth_drop_Suc [symmetric])
  finally show ?case .
qed

lemma map_nth_shift: "off + n \<le> length xs \<Longrightarrow> map (\<lambda>i. xs ! (off + i)) [0..<n] = take n (drop off xs)"
  by (rule nth_equalityI) auto

section \<open>Strings\<close>

text \<open>
  The loop \<^verbatim>\<open>while (*l != 0 && *r != 0) { if (*l != *r) return 0; l++; r++; } return *l == *r;\<close>
  that \<open>vfs.c\<close>, \<open>tmpfs.c\<close>, \<open>bootfs.c\<close> and \<open>boot_program.c\<close> each carry a copy of.
\<close>

fun cstr_loop_eq :: "string \<Rightarrow> string \<Rightarrow> bool" where
  "cstr_loop_eq (l # ls) (r # rs) = (if l \<noteq> r then False else cstr_loop_eq ls rs)"
| "cstr_loop_eq [] [] = True"
| "cstr_loop_eq [] (r # rs) = False"
| "cstr_loop_eq (l # ls) [] = False"

lemma cstr_loop_eq_iff [simp]: "cstr_loop_eq l r \<longleftrightarrow> l = r"
  by (induction l r rule: cstr_loop_eq.induct) auto

definition cstr_opt_eq :: "string option \<Rightarrow> string option \<Rightarrow> bool" where
  "cstr_opt_eq l r = (case (l, r) of (Some a, Some b) \<Rightarrow> cstr_loop_eq a b | _ \<Rightarrow> False)"

lemma cstr_opt_eq_Some [simp]: "cstr_opt_eq (Some a) (Some b) \<longleftrightarrow> a = b"
  by (simp add: cstr_opt_eq_def)

lemma cstr_opt_eq_iff: "cstr_opt_eq l r \<longleftrightarrow> (\<exists>a. l = Some a \<and> r = Some a)"
  by (auto simp: cstr_opt_eq_def split: option.splits)

section \<open>Bits of a word\<close>

lemma and_single_bit_eq_0:
  fixes x :: "'a::len word"
  shows "x AND 2 ^ n = 0 \<longleftrightarrow> \<not> bit x n"
proof
  assume "x AND 2 ^ n = 0"
  then have "\<not> bit (x AND 2 ^ n) n" by simp
  then show "\<not> bit x n"
    by (auto simp: bit_simps dest: bit_imp_le_length)
next
  assume "\<not> bit x n"
  then show "x AND 2 ^ n = 0"
    by (intro bit_word_eqI) (auto simp: bit_simps)
qed

lemma bit_or_single:
  fixes x :: "'a::len word"
  shows "bit (x OR 2 ^ n) k \<longleftrightarrow> bit x k \<or> (k = n \<and> n < LENGTH('a))"
  by (auto simp: bit_simps)

lemma bit_and_not_single:
  fixes x :: "'a::len word"
  shows "bit (x AND NOT (2 ^ n)) k \<longleftrightarrow> bit x k \<and> k \<noteq> n"
  by (auto simp: bit_simps dest: bit_imp_le_length)

section \<open>Unsigned arithmetic\<close>

lemma unat_add_bounded:
  "unat (a::'a::len word) + unat b < 2 ^ LENGTH('a) \<Longrightarrow> unat (a + b) = unat a + unat b"
  by (simp add: unat_word_ariths)

lemma unat_mult_bounded:
  "unat (a::'a::len word) * unat b < 2 ^ LENGTH('a) \<Longrightarrow> unat (a * b) = unat a * unat b"
  by (simp add: unat_word_ariths)

lemma unat_of_nat_u64 [simp]: "n < 2 ^ 64 \<Longrightarrow> unat (of_nat n :: u64) = n"
  by (simp add: unat_of_nat)

lemma unat_of_nat_u32 [simp]: "n < 2 ^ 32 \<Longrightarrow> unat (of_nat n :: u32) = n"
  by (simp add: unat_of_nat)

lemma unat_max_u64 [simp]: "unat (- 1 :: u64) = 18446744073709551615"
  by (simp add: unsigned_minus_1_eq_mask mask_eq_exp_minus_1)

lemma unat_max_minus: "unat (- 1 - b :: u64) = 18446744073709551615 - unat b"
proof -
  have "b \<le> - 1" by (rule word_order.extremum)
  then show ?thesis by (simp add: unat_sub)
qed

lemma sum_in_range:
  assumes "\<not> (a::u64) > - 1 - b"
  shows "unat a + unat b < 18446744073709551616"
proof -
  have "unat b < 18446744073709551616" using unsigned_less [of b, where ?'a = nat] by simp
  moreover have "unat a \<le> 18446744073709551615 - unat b"
    using assms unat_max_minus [of b] by (simp add: word_less_nat_alt)
  ultimately show ?thesis by linarith
qed

lemma unat_take_bit_mod: "unat (take_bit n (x::'a::len word)) = unat x mod 2 ^ n"
  by (metis take_bit_eq_mod unsigned_take_bit_eq)

lemma and_not_mask_eq: "(x::'a::len word) AND NOT (mask n) = x - take_bit n x"
proof -
  have "x AND NOT (mask n) = push_bit n (drop_bit n x)"
    by (intro bit_word_eqI) (auto simp: bit_simps)
  also have "\<dots> = x - take_bit n x"
    using bits_ident [of n x] by (simp add: eq_diff_eq)
  finally show ?thesis .
qed

lemma unat_and_not_mask: "unat ((x::'a::len word) AND NOT (mask n)) = unat x - unat x mod 2 ^ n"
proof -
  have "take_bit n x \<le> x"
    by (simp add: word_le_nat_alt unat_take_bit_mod)
  then show ?thesis
    by (simp add: and_not_mask_eq unat_sub unat_take_bit_mod)
qed

lemma unat_and_mask: "unat ((x::'a::len word) AND mask n) = unat x mod 2 ^ n"
  by (simp add: take_bit_eq_mask [symmetric] unat_take_bit_mod)

text \<open>Page offsets: \<open>PAGE_SIZE - 1\<close> is the 12-bit mask.\<close>

lemma mask_12: "(4095 :: u64) = mask 12"
  by (simp add: mask_eq_exp_minus_1)

lemma unat_and_4095: "unat ((x::u64) AND 4095) = unat x mod 4096"
  using unat_and_mask [of x 12] by (simp add: mask_12)

lemma unat_and_not_4095: "unat ((x::u64) AND - 4096) = unat x - unat x mod 4096"
proof -
  have "(- 4096 :: u64) = NOT (mask 12)"
    by (simp add: mask_eq_exp_minus_1)
  then show ?thesis using unat_and_not_mask [of x 12] by simp
qed

lemma and_4095_eq_0: "(x::u64) AND 4095 = 0 \<longleftrightarrow> unat x mod 4096 = 0"
  by (metis unat_and_4095 unat_eq_zero)

end
