(* ===== verification/Pmm.thy ===== *)
theory Pmm
  imports Prelude
begin

text \<open>
  The physical page allocator, \<open>kernel/mm/pmm.c\<close>: one bitmap word array (a set bit is a used
  page), the base of the managed range, the number of managed pages and a running count of free
  pages. The static variables of the file are the fields of \<open>pmm\<close>; every function takes and
  returns that record. Page numbers, which the code bounds by \<open>PMM_MAX_PAGES = 32768\<close>, are
  natural numbers; addresses and sizes are 64-bit words.
\<close>

abbreviation PAGE_SIZE :: u64 where "PAGE_SIZE \<equiv> 4096"
abbreviation PMM_MAX_PAGES :: u64 where "PMM_MAX_PAGES \<equiv> 32768"

record pmm =
  g_bitmap :: "u64 list"
  g_mem_base :: u64
  g_total_pages :: u64
  g_free_pages :: u64

section \<open>Operations\<close>

definition align_down :: "u64 \<Rightarrow> u64" where
  "align_down value = value AND NOT (PAGE_SIZE - 1)"

definition align_up :: "u64 \<Rightarrow> u64" where
  "align_up value = (value + PAGE_SIZE - 1) AND NOT (PAGE_SIZE - 1)"

definition add_saturated :: "u64 \<Rightarrow> u64 \<Rightarrow> u64" where
  "add_saturated a b = (if a > - 1 - b then - 1 else a + b)"

definition align_up_saturated :: "u64 \<Rightarrow> u64" where
  "align_up_saturated value =
     (if value AND (PAGE_SIZE - 1) = 0 then value
      else if value > - 1 - (PAGE_SIZE - 1) then - 1
      else align_up value)"

definition managed_end :: "pmm \<Rightarrow> u64" where
  "managed_end s = add_saturated (g_mem_base s) (g_total_pages s * PAGE_SIZE)"

definition set_used :: "nat \<Rightarrow> pmm \<Rightarrow> pmm" where
  "set_used page s =
     (let word = page div 64; bit = page mod 64;
          msk = push_bit bit 1
      in if g_bitmap s ! word AND msk = 0
         then s\<lparr>g_bitmap := (g_bitmap s)[word := g_bitmap s ! word OR msk],
                g_free_pages := g_free_pages s - 1\<rparr>
         else s)"

definition set_free :: "nat \<Rightarrow> pmm \<Rightarrow> pmm" where
  "set_free page s =
     (let word = page div 64; bit = page mod 64;
          msk = push_bit bit 1
      in if g_bitmap s ! word AND msk \<noteq> 0
         then s\<lparr>g_bitmap := (g_bitmap s)[word := g_bitmap s ! word AND NOT msk],
                g_free_pages := g_free_pages s + 1\<rparr>
         else s)"

definition pmm_init :: "u64 \<Rightarrow> u64 \<Rightarrow> pmm" where
  "pmm_init mem_base mem_size =
     (let pages = mem_size div PAGE_SIZE;
          total = (if pages > PMM_MAX_PAGES then PMM_MAX_PAGES else pages)
      in fold set_free [0..<unat total]
           \<lparr>g_bitmap = replicate 512 (NOT 0), g_mem_base = mem_base,
            g_total_pages = total, g_free_pages = 0\<rparr>)"

definition pmm_reserve_range :: "u64 \<Rightarrow> u64 \<Rightarrow> pmm \<Rightarrow> pmm" where
  "pmm_reserve_range start sz s =
     (if sz = 0 \<or> g_total_pages s = 0 then s
      else let endp = add_saturated start sz; limit = managed_end s
        in if endp \<le> g_mem_base s \<or> start \<ge> limit then s
           else let
             page_start = (if start < g_mem_base s then 0
                           else (align_down start - g_mem_base s) div PAGE_SIZE);
             page_end = (if endp \<ge> limit then g_total_pages s
                         else let pe = (align_up_saturated endp - g_mem_base s) div PAGE_SIZE
                              in if pe > g_total_pages s then g_total_pages s else pe)
           in fold set_used [unat page_start..<unat page_end] s)"

definition page_is_free :: "pmm \<Rightarrow> nat \<Rightarrow> bool" where
  "page_is_free s page \<longleftrightarrow>
     g_bitmap s ! (page div 64) AND push_bit (page mod 64) 1 = 0"

definition pmm_alloc_page :: "pmm \<Rightarrow> u64 \<times> pmm" where
  "pmm_alloc_page s =
     (case first_index (unat (g_total_pages s)) (page_is_free s) of
        Some page \<Rightarrow> (g_mem_base s + of_nat page * PAGE_SIZE, set_used page s)
      | None \<Rightarrow> (0, s))"

text \<open>The scan of \<open>pmm_alloc_pages\<close>: \<open>run_start\<close> and \<open>run_count\<close> describe the free run that
  ends just before \<open>page\<close>.\<close>

function alloc_run_loop :: "pmm \<Rightarrow> nat \<Rightarrow> nat \<Rightarrow> nat \<Rightarrow> nat \<Rightarrow> nat option" where
  "alloc_run_loop s count page run_start run_count =
     (if page < unat (g_total_pages s) then
        if page_is_free s page then
          let rs = (if run_count = 0 then page else run_start); rc = run_count + 1
          in if rc = count then Some rs else alloc_run_loop s count (page + 1) rs rc
        else alloc_run_loop s count (page + 1) run_start 0
      else None)"
  by pat_completeness auto
termination
  by (relation "measure (\<lambda>(s, count, page, rs, rc). unat (g_total_pages s) - page)") auto

declare alloc_run_loop.simps [simp del]

definition pmm_alloc_pages :: "u64 \<Rightarrow> pmm \<Rightarrow> u64 \<times> pmm" where
  "pmm_alloc_pages count s =
     (if count = 0 \<or> count > g_total_pages s then (0, s)
      else case alloc_run_loop s (unat count) 0 0 0 of
        Some run_start \<Rightarrow>
          (g_mem_base s + of_nat run_start * PAGE_SIZE,
           fold set_used [run_start..<run_start + unat count] s)
      | None \<Rightarrow> (0, s))"

definition pmm_free_page :: "u64 \<Rightarrow> pmm \<Rightarrow> pmm" where
  "pmm_free_page paddr s =
     (if paddr < g_mem_base s \<or> paddr AND (PAGE_SIZE - 1) \<noteq> 0 then s
      else let page = (paddr - g_mem_base s) div PAGE_SIZE
           in if page \<ge> g_total_pages s then s else set_free (unat page) s)"

definition pmm_free_count :: "pmm \<Rightarrow> u64" where
  "pmm_free_count s = g_free_pages s"

definition pmm_total_count :: "pmm \<Rightarrow> u64" where
  "pmm_total_count s = g_total_pages s"

section \<open>The allocator as a set of free pages\<close>

definition n_pages :: "pmm \<Rightarrow> nat" where
  "n_pages s = unat (g_total_pages s)"

definition free_set :: "pmm \<Rightarrow> nat set" where
  "free_set s = {p. p < n_pages s \<and> page_is_free s p}"

definition pmm_inv :: "pmm \<Rightarrow> bool" where
  "pmm_inv s \<longleftrightarrow> length (g_bitmap s) = 512 \<and> n_pages s \<le> 32768 \<and>
     unat (g_free_pages s) = card (free_set s)"

definition pmm_ready :: "pmm \<Rightarrow> bool" where
  "pmm_ready s \<longleftrightarrow> pmm_inv s \<and> g_mem_base s \<noteq> 0 \<and> unat (g_mem_base s) mod 4096 = 0 \<and>
     unat (g_mem_base s) + n_pages s * 4096 < 2 ^ 64"

definition page_addr :: "pmm \<Rightarrow> nat \<Rightarrow> u64" where
  "page_addr s p = g_mem_base s + of_nat p * PAGE_SIZE"

lemma finite_free_set [simp]: "finite (free_set s)"
  by (auto simp: free_set_def intro: finite_subset [of _ "{..<n_pages s}"])

lemma page_is_free_bit:
  "page_is_free s p \<longleftrightarrow> \<not> bit (g_bitmap s ! (p div 64)) (p mod 64)"
  by (simp add: page_is_free_def and_single_bit_eq_0)

lemma word_index_bound: "p < 32768 \<Longrightarrow> p div 64 < (512::nat)"
  by simp

lemma page_eqI: "p div 64 = q div 64 \<Longrightarrow> p mod 64 = q mod 64 \<Longrightarrow> (p::nat) = q"
  by (metis div_mult_mod_eq)

lemma set_used_fields [simp]:
  "g_mem_base (set_used p s) = g_mem_base s" "g_total_pages (set_used p s) = g_total_pages s"
  "length (g_bitmap (set_used p s)) = length (g_bitmap s)" "n_pages (set_used p s) = n_pages s"
  by (simp_all add: set_used_def Let_def n_pages_def)

lemma set_free_fields [simp]:
  "g_mem_base (set_free p s) = g_mem_base s" "g_total_pages (set_free p s) = g_total_pages s"
  "length (g_bitmap (set_free p s)) = length (g_bitmap s)" "n_pages (set_free p s) = n_pages s"
  by (simp_all add: set_free_def Let_def n_pages_def)

lemma page_is_free_set_used:
  assumes "length (g_bitmap s) = 512" and "p < 32768" and "q < 32768"
  shows "page_is_free (set_used p s) q \<longleftrightarrow> page_is_free s q \<and> q \<noteq> p"
proof (cases "page_is_free s p")
  case True
  then have "page_is_free (set_used p s) q \<longleftrightarrow>
      \<not> bit (((g_bitmap s)[p div 64 := g_bitmap s ! (p div 64) OR 2 ^ (p mod 64)])
              ! (q div 64)) (q mod 64)"
    by (simp add: page_is_free_bit [of "set_used p s"] set_used_def Let_def page_is_free_def and_single_bit_eq_0)
  also have "\<dots> \<longleftrightarrow> page_is_free s q \<and> q \<noteq> p"
  proof (cases "p div 64 = q div 64")
    case same: True
    then have "q mod 64 = p mod 64 \<longleftrightarrow> q = p" using page_eqI [of q p] by auto
    moreover have "q div 64 < length (g_bitmap s)" using assms by simp
    ultimately show ?thesis using same
      by (simp add: page_is_free_bit bit_or_single)
  next
    case False
    then show ?thesis by (auto simp: page_is_free_bit)
  qed
  finally show ?thesis .
next
  case False
  then show ?thesis by (auto simp: set_used_def Let_def page_is_free_def)
qed

lemma page_is_free_set_free:
  assumes "length (g_bitmap s) = 512" and "p < 32768" and "q < 32768"
  shows "page_is_free (set_free p s) q \<longleftrightarrow> page_is_free s q \<or> q = p"
proof (cases "page_is_free s p")
  case False
  then have "page_is_free (set_free p s) q \<longleftrightarrow>
      \<not> bit (((g_bitmap s)[p div 64 := g_bitmap s ! (p div 64) AND NOT (2 ^ (p mod 64))])
              ! (q div 64)) (q mod 64)"
    by (simp add: page_is_free_bit [of "set_free p s"] set_free_def Let_def page_is_free_def and_single_bit_eq_0)
  also have "\<dots> \<longleftrightarrow> page_is_free s q \<or> q = p"
  proof (cases "p div 64 = q div 64")
    case same: True
    then have "q mod 64 = p mod 64 \<longleftrightarrow> q = p" using page_eqI [of q p] by auto
    moreover have "q div 64 < length (g_bitmap s)" using assms by simp
    ultimately show ?thesis using same
      by (simp only: page_is_free_bit bit_and_not_single nth_list_update_eq) blast
  next
    case False
    then show ?thesis by (auto simp: page_is_free_bit)
  qed
  finally show ?thesis .
next
  case True
  then show ?thesis by (auto simp: set_free_def Let_def page_is_free_def)
qed


lemma page_is_free_simps [simp]:
  "page_is_free (s\<lparr>g_free_pages := x\<rparr>) = page_is_free s"
  by (simp add: page_is_free_def fun_eq_iff)

lemma free_set_set_used:
  assumes "pmm_inv s" and "p < 32768"
  shows "free_set (set_used p s) = free_set s - {p}"
  using assms page_is_free_set_used [of s p]
  by (auto simp: free_set_def pmm_inv_def)

lemma free_set_set_free:
  assumes "pmm_inv s" and "p < n_pages s"
  shows "free_set (set_free p s) = insert p (free_set s)"
  using assms page_is_free_set_free [of s p]
  by (auto simp: free_set_def pmm_inv_def)

lemma set_used_count:
  assumes "pmm_inv s" and "p < n_pages s"
  shows "unat (g_free_pages (set_used p s)) = card (free_set s - {p})"
proof (cases "page_is_free s p")
  case True
  with assms have "p \<in> free_set s" by (simp add: free_set_def)
  then have pos: "0 < card (free_set s)" by (auto simp: card_gt_0_iff)
  with assms have "g_free_pages s \<noteq> 0" by (auto simp: pmm_inv_def)
  then have "unat (g_free_pages s - 1) = unat (g_free_pages s) - 1"
    by (simp add: unat_minus_one)
  with True assms \<open>p \<in> free_set s\<close> show ?thesis
    by (simp add: set_used_def Let_def page_is_free_def pmm_inv_def card_Diff_singleton)
next
  case False
  with assms show ?thesis
    by (simp add: set_used_def Let_def page_is_free_def pmm_inv_def free_set_def)
qed

lemma card_free_set_le: "card (free_set s) \<le> n_pages s"
  using card_mono [of "{..<n_pages s}" "free_set s"] by (auto simp: free_set_def)

lemma set_free_count:
  assumes "pmm_inv s" and "p < n_pages s"
  shows "unat (g_free_pages (set_free p s)) = card (insert p (free_set s))"
proof (cases "page_is_free s p")
  case True
  with assms have "insert p (free_set s) = free_set s" by (auto simp: free_set_def)
  with True assms show ?thesis
    by (simp add: set_free_def Let_def page_is_free_def pmm_inv_def)
next
  case False
  then have "p \<notin> free_set s" by (simp add: free_set_def)
  moreover have "unat (g_free_pages s + 1) = unat (g_free_pages s) + 1"
    using assms card_free_set_le [of s] by (simp add: pmm_inv_def unat_add_bounded)
  ultimately show ?thesis using False assms
    by (simp add: set_free_def Let_def page_is_free_def pmm_inv_def)
qed

lemma pmm_inv_set_used [kernel_inv]: "pmm_inv s \<Longrightarrow> p < n_pages s \<Longrightarrow> pmm_inv (set_used p s)"
  using set_used_count [of s p] free_set_set_used [of s p] by (simp add: pmm_inv_def)

lemma pmm_inv_set_free [kernel_inv]: "pmm_inv s \<Longrightarrow> p < n_pages s \<Longrightarrow> pmm_inv (set_free p s)"
  using set_free_count [of s p] free_set_set_free [of s p] by (simp add: pmm_inv_def)

text \<open>Ranges of pages are marked by a fold of the single-page operations.\<close>

lemma fold_set_used:
  assumes "pmm_inv s" and "set ps \<subseteq> {..<n_pages s}"
  shows "pmm_inv (fold set_used ps s) \<and> free_set (fold set_used ps s) = free_set s - set ps \<and>
     g_mem_base (fold set_used ps s) = g_mem_base s \<and>
     g_total_pages (fold set_used ps s) = g_total_pages s"
  using assms
proof (induction ps arbitrary: s)
  case Nil
  then show ?case by simp
next
  case (Cons p ps)
  have "p < 32768" using Cons.prems by (auto simp: pmm_inv_def)
  moreover have "pmm_inv (set_used p s)" using Cons.prems by (simp add: pmm_inv_set_used)
  ultimately show ?case using Cons.IH [of "set_used p s"] Cons.prems
    by (auto simp: free_set_set_used)
qed

lemma fold_set_free:
  assumes "pmm_inv s" and "set ps \<subseteq> {..<n_pages s}"
  shows "pmm_inv (fold set_free ps s) \<and> free_set (fold set_free ps s) = free_set s \<union> set ps \<and>
     g_mem_base (fold set_free ps s) = g_mem_base s \<and>
     g_total_pages (fold set_free ps s) = g_total_pages s"
  using assms
proof (induction ps arbitrary: s)
  case Nil
  then show ?case by simp
next
  case (Cons p ps)
  moreover have "pmm_inv (set_free p s)" using Cons.prems by (simp add: pmm_inv_set_free)
  ultimately show ?case using Cons.IH [of "set_free p s"] Cons.prems
    by (auto simp: free_set_set_free)
qed

section \<open>Initialisation\<close>

definition pmm_blank :: "u64 \<Rightarrow> u64 \<Rightarrow> pmm" where
  "pmm_blank b t = \<lparr>g_bitmap = replicate 512 (NOT 0), g_mem_base = b, g_total_pages = t,
     g_free_pages = 0\<rparr>"

lemma pmm_blank_inv: "t \<le> PMM_MAX_PAGES \<Longrightarrow> pmm_inv (pmm_blank b t) \<and> free_set (pmm_blank b t) = {}"
proof -
  assume t: "t \<le> PMM_MAX_PAGES"
  then have "unat t \<le> 32768" by (simp add: word_le_nat_alt)
  moreover have "free_set (pmm_blank b t) = {}"
    using calculation by (auto simp: free_set_def page_is_free_bit pmm_blank_def n_pages_def)
  ultimately show ?thesis by (simp add: pmm_inv_def pmm_blank_def n_pages_def)
qed

lemma pmm_init_props:
  fixes b sz :: u64
  defines "t \<equiv> (if sz div PAGE_SIZE > PMM_MAX_PAGES then PMM_MAX_PAGES else sz div PAGE_SIZE)"
  shows "pmm_inv (pmm_init b sz)" and "free_set (pmm_init b sz) = {..<unat t}"
    and "g_mem_base (pmm_init b sz) = b" and "g_total_pages (pmm_init b sz) = t"
proof -
  have t: "t \<le> PMM_MAX_PAGES" by (auto simp: t_def not_less)
  have eq: "pmm_init b sz = fold set_free [0..<unat t] (pmm_blank b t)"
    by (simp add: pmm_init_def Let_def pmm_blank_def t_def)
  have "n_pages (pmm_blank b t) = unat t" by (simp add: n_pages_def pmm_blank_def)
  then have "pmm_inv (pmm_init b sz) \<and> free_set (pmm_init b sz) = {} \<union> set [0..<unat t] \<and>
      g_mem_base (pmm_init b sz) = b \<and> g_total_pages (pmm_init b sz) = t"
    using fold_set_free [of "pmm_blank b t" "[0..<unat t]"] pmm_blank_inv [OF t, of b]
    by (simp add: eq pmm_blank_def lessThan_atLeast0)
  then show "pmm_inv (pmm_init b sz)" "free_set (pmm_init b sz) = {..<unat t}"
    "g_mem_base (pmm_init b sz) = b" "g_total_pages (pmm_init b sz) = t"
    by (auto simp: lessThan_atLeast0)
qed

section \<open>Allocation and release\<close>

lemma pmm_ready_inv: "pmm_ready s \<Longrightarrow> pmm_inv s"
  by (simp add: pmm_ready_def)

lemma unat_page_addr:
  assumes "pmm_ready s" and "p < n_pages s"
  shows "unat (page_addr s p) = unat (g_mem_base s) + p * 4096"
proof -
  have p: "p < 32768" using assms by (simp add: pmm_ready_def pmm_inv_def)
  have m: "unat (of_nat p * 4096 :: u64) = p * 4096"
    using p by (simp add: unat_mult_bounded)
  have "p * 4096 + 4096 \<le> n_pages s * 4096" using assms(2) by simp
  then have "unat (g_mem_base s) + p * 4096 < 2 ^ 64"
    using assms(1) unfolding pmm_ready_def by linarith
  then show ?thesis by (simp add: page_addr_def unat_add_bounded m)
qed

lemma page_addr_inj:
  assumes "pmm_ready s" and "p < n_pages s" and "q < n_pages s"
  shows "page_addr s p = page_addr s q \<longleftrightarrow> p = q"
proof
  assume "page_addr s p = page_addr s q"
  then have "unat (g_mem_base s) + p * 4096 = unat (g_mem_base s) + q * 4096"
    unfolding unat_page_addr [OF assms(1,2), symmetric] unat_page_addr [OF assms(1,3), symmetric]
    by (rule arg_cong)
  then show "p = q" by simp
qed simp

lemma page_addr_nonzero:
  assumes "pmm_ready s" and "p < n_pages s"
  shows "page_addr s p \<noteq> 0"
proof -
  have "0 < unat (page_addr s p)"
    using assms by (simp add: unat_page_addr) (simp add: pmm_ready_def unat_gt_0)
  then show ?thesis by auto
qed

lemma page_addr_aligned:
  assumes "pmm_ready s" and "p < n_pages s"
  shows "unat (page_addr s p) mod 4096 = 0"
  using assms by (simp add: unat_page_addr) (simp add: pmm_ready_def)

lemma pmm_ready_mono:
  assumes "pmm_ready s" and "pmm_inv s'" and "g_mem_base s' = g_mem_base s"
    and "g_total_pages s' = g_total_pages s"
  shows "pmm_ready s'"
  using assms by (simp add: pmm_ready_def n_pages_def)

lemma page_addr_set_used [simp]: "page_addr (set_used p s) = page_addr s"
  by (simp add: page_addr_def fun_eq_iff)

lemma free_set_less: "p \<in> free_set s \<Longrightarrow> p < n_pages s"
  by (simp add: free_set_def)

lemma first_free_page:
  "first_index (unat (g_total_pages s)) (page_is_free s) =
     (if free_set s = {} then None else Some (Min (free_set s)))"
proof (cases "free_set s = {}")
  case True
  then show ?thesis by (auto simp: first_index_None_iff free_set_def n_pages_def)
next
  case False
  define m where "m = Min (free_set s)"
  have m: "m < n_pages s" "page_is_free s m"
    using False Min_in [of "free_set s"] by (auto simp: m_def free_set_def)
  have least: "\<not> page_is_free s j" if "j < m" for j
  proof
    assume "page_is_free s j"
    with that m have "j \<in> free_set s" by (simp add: free_set_def)
    then have "m \<le> j" by (simp add: m_def)
    with that show False by simp
  qed
  from m least have "first_index (unat (g_total_pages s)) (page_is_free s) = Some m"
    by (simp add: first_index_Some_iff n_pages_def)
  with False show ?thesis by (simp add: m_def)
qed

lemma pmm_alloc_page_none: "free_set s = {} \<Longrightarrow> pmm_alloc_page s = (0, s)"
  by (simp add: pmm_alloc_page_def first_free_page)

lemma pmm_alloc_page_some:
  "free_set s \<noteq> {} \<Longrightarrow>
     pmm_alloc_page s = (page_addr s (Min (free_set s)), set_used (Min (free_set s)) s)"
  by (simp add: pmm_alloc_page_def first_free_page page_addr_def)

lemma Min_free_set: "free_set s \<noteq> {} \<Longrightarrow> Min (free_set s) \<in> free_set s"
  by simp

lemma pmm_ready_set_used [kernel_inv]:
  "pmm_ready s \<Longrightarrow> p < n_pages s \<Longrightarrow> pmm_ready (set_used p s)"
  by (rule pmm_ready_mono) (simp_all add: pmm_ready_inv pmm_inv_set_used)

lemma pmm_ready_set_free [kernel_inv]:
  "pmm_ready s \<Longrightarrow> p < n_pages s \<Longrightarrow> pmm_ready (set_free p s)"
  by (rule pmm_ready_mono) (simp_all add: pmm_ready_inv pmm_inv_set_free)

lemma n_pages_bound: "pmm_inv s \<Longrightarrow> n_pages s \<le> 32768"
  by (simp add: pmm_inv_def)

text \<open>Freeing: the address is mapped back to its page number.\<close>

lemma page_of_addr:
  assumes "pmm_ready s" and "p < n_pages s"
  shows "(page_addr s p - g_mem_base s) div PAGE_SIZE = of_nat p"
proof -
  have "p < 32768" using assms n_pages_bound [of s] by (simp add: pmm_ready_inv)
  then have "unat (of_nat p * 4096 :: u64) = p * 4096" by (simp add: unat_mult_bounded)
  then have "unat ((of_nat p * 4096 :: u64) div 4096) = p" by (simp add: unat_div)
  then have "(of_nat p * 4096 :: u64) div 4096 = of_nat p"
    using \<open>p < 32768\<close> by (simp add: word_unat_eq_iff)
  then show ?thesis by (simp add: page_addr_def)
qed

lemma pmm_free_page_addr:
  assumes "pmm_ready s" and "p < n_pages s"
  shows "pmm_free_page (page_addr s p) s = set_free p s"
proof -
  have p: "p < 32768" using assms n_pages_bound [of s] by (simp add: pmm_ready_inv)
  have "\<not> page_addr s p < g_mem_base s"
    using unat_page_addr [OF assms] by (simp add: word_less_nat_alt)
  moreover have "page_addr s p AND 4095 = 0"
    using page_addr_aligned [OF assms] by (simp add: and_4095_eq_0)
  moreover have "\<not> of_nat p \<ge> g_total_pages s"
    using assms(2) p by (simp add: word_le_nat_alt n_pages_def)
  ultimately show ?thesis using page_of_addr [OF assms] p
    by (simp add: pmm_free_page_def Let_def)
qed

text \<open>Contiguous allocation.\<close>

definition free_run :: "pmm \<Rightarrow> nat \<Rightarrow> nat \<Rightarrow> bool" where
  "free_run s r c \<longleftrightarrow> r + c \<le> n_pages s \<and> (\<forall>k<c. page_is_free s (r + k))"

definition run_scan_inv :: "pmm \<Rightarrow> nat \<Rightarrow> nat \<Rightarrow> nat \<Rightarrow> nat \<Rightarrow> bool" where
  "run_scan_inv s c page rs rc \<longleftrightarrow> rc < c \<and> rc \<le> page \<and> (0 < rc \<longrightarrow> rs + rc = page) \<and>
     (\<forall>k<rc. page_is_free s (page - rc + k)) \<and> (\<forall>r<page - rc. \<not> free_run s r c)"

lemma run_scan_inv_free:
  assumes "run_scan_inv s c page rs rc" and "page_is_free s page" and "rc + 1 \<noteq> c"
  shows "run_scan_inv s c (page + 1) (if rc = 0 then page else rs) (rc + 1)"
proof -
  have "page_is_free s (page + 1 - (rc + 1) + k)" if "k < rc + 1" for k
    using assms that by (cases "k = rc") (auto simp: run_scan_inv_def)
  then show ?thesis using assms by (auto simp: run_scan_inv_def)
qed

lemma run_scan_inv_used:
  assumes "run_scan_inv s c page rs rc" and "\<not> page_is_free s page"
  shows "run_scan_inv s c (page + 1) rs 0"
proof -
  have "\<not> free_run s r c" if "r < page + 1" for r
  proof (cases "r < page - rc")
    case True
    then show ?thesis using assms by (simp add: run_scan_inv_def)
  next
    case False
    then have "page - r < c" using assms by (auto simp: run_scan_inv_def)
    moreover have "r + (page - r) = page" using that by simp
    ultimately show ?thesis using assms(2) unfolding free_run_def by metis
  qed
  then show ?thesis using assms(1) by (auto simp: run_scan_inv_def)
qed

lemma alloc_run_loop_spec:
  assumes "run_scan_inv s c page rs rc" and "page \<le> n_pages s"
  shows "alloc_run_loop s c page rs rc =
     first_index (Suc (n_pages s)) (\<lambda>r. free_run s r c)"
  using assms
proof (induction s c page rs rc rule: alloc_run_loop.induct)
  case (1 s c page rs rc)
  consider (over) "page = n_pages s"
    | (used) "page < n_pages s" "\<not> page_is_free s page"
    | (found) "page < n_pages s" "page_is_free s page" "rc + 1 = c"
    | (step) "page < n_pages s" "page_is_free s page" "rc + 1 \<noteq> c"
    using "1.prems" by linarith
  then show ?case
  proof cases
    case over
    have "\<not> free_run s r c" for r
      using "1.prems" over by (cases "r < page - rc") (auto simp: run_scan_inv_def free_run_def)
    then show ?thesis using over
      by (subst alloc_run_loop.simps)
         (simp add: n_pages_def first_index_None_iff [THEN iffD2])
  next
    case used
    then show ?thesis using "1.IH"(2) run_scan_inv_used [OF "1.prems"(1)]
      by (subst alloc_run_loop.simps) (simp add: n_pages_def)
  next
    case found
    define r where "r = page - rc"
    have r: "(if rc = 0 then page else rs) = r"
      using "1.prems" by (auto simp: run_scan_inv_def r_def)
    have "free_run s r c"
      using "1.prems" found unfolding free_run_def r_def run_scan_inv_def
      by (metis Nat.add_diff_assoc2 Suc_eq_plus1 Suc_leI add.commute add_Suc_right
          diff_add_inverse2 le_add_diff_inverse2 less_Suc_eq)
    moreover have "\<forall>j<r. \<not> free_run s j c"
      using "1.prems" by (simp add: run_scan_inv_def r_def)
    moreover have "r < Suc (n_pages s)" using found by (simp add: r_def)
    ultimately have "first_index (Suc (n_pages s)) (\<lambda>r. free_run s r c) = Some r"
      by (simp add: first_index_Some_iff)
    then show ?thesis using found r
      by (subst alloc_run_loop.simps) (simp add: n_pages_def Let_def)
  next
    case step
    then show ?thesis using "1.IH"(1) run_scan_inv_free [OF "1.prems"(1)]
      by (subst alloc_run_loop.simps) (simp add: n_pages_def Let_def)
  qed
qed

lemma run_scan_inv_0: "0 < c \<Longrightarrow> run_scan_inv s c 0 0 0"
  by (simp add: run_scan_inv_def)

lemma free_run_subset: "free_run s r c \<Longrightarrow> {r..<r + c} \<subseteq> free_set s"
proof
  fix p assume f: "free_run s r c" and p: "p \<in> {r..<r + c}"
  then have "p - r < c" and "r + (p - r) = p" by auto
  then have "page_is_free s p" using f unfolding free_run_def by metis
  with f p show "p \<in> free_set s" by (auto simp: free_run_def free_set_def)
qed

lemma free_run_iff:
  "0 < c \<Longrightarrow> free_run s r c \<longleftrightarrow> {r..<r + c} \<subseteq> free_set s"
proof
  assume c: "0 < c" and sub: "{r..<r + c} \<subseteq> free_set s"
  then have "r + (c - 1) \<in> free_set s" by auto
  then have "r + c \<le> n_pages s" using c by (auto simp: free_set_def)
  moreover have "page_is_free s (r + k)" if "k < c" for k
    using sub that subsetD [OF sub, of "r + k"] by (simp add: free_set_def)
  ultimately show "free_run s r c" by (simp add: free_run_def)
qed (rule free_run_subset)

lemma pmm_alloc_pages_none:
  assumes "count \<noteq> 0" and "\<And>r. \<not> {r..<r + unat count} \<subseteq> free_set s"
  shows "pmm_alloc_pages count s = (0, s)"
proof -
  have c: "0 < unat count" using assms(1) by (simp add: unat_gt_0)
  have "alloc_run_loop s (unat count) 0 0 0 = None"
    using alloc_run_loop_spec [OF run_scan_inv_0 [OF c], of s] assms(2)
    by (simp add: first_index_None_iff free_run_iff [OF c])
  then show ?thesis by (simp add: pmm_alloc_pages_def)
qed

lemma pmm_alloc_pages_some:
  assumes "count \<noteq> 0" and run: "{r..<r + unat count} \<subseteq> free_set s"
    and least: "\<And>j. j < r \<Longrightarrow> \<not> {j..<j + unat count} \<subseteq> free_set s"
  shows "pmm_alloc_pages count s = (page_addr s r, fold set_used [r..<r + unat count] s)"
proof -
  have c: "0 < unat count" using assms(1) by (simp add: unat_gt_0)
  have fr: "free_run s r (unat count)" using run c by (simp add: free_run_iff)
  then have "unat count \<le> n_pages s" and r: "r < Suc (n_pages s)" by (simp_all add: free_run_def)
  then have "\<not> g_total_pages s < count" by (simp add: n_pages_def word_less_nat_alt)
  moreover have "alloc_run_loop s (unat count) 0 0 0 = Some r"
    using alloc_run_loop_spec [OF run_scan_inv_0 [OF c], of s] run least r
    by (simp add: first_index_Some_iff free_run_iff [OF c])
  ultimately show ?thesis using assms(1) by (simp add: pmm_alloc_pages_def page_addr_def)
qed

text \<open>Freeing a page that was free before its allocation restores the very state.\<close>

lemma set_free_set_used:
  assumes "pmm_inv s" and "p < n_pages s" and "page_is_free s p"
  shows "set_free p (set_used p s) = s"
proof -
  define i w where "i = p div 64" and "w = g_bitmap s ! i"
  have "p < 32768" using assms n_pages_bound [of s] by simp
  then have i: "i < length (g_bitmap s)" using assms(1) by (simp add: i_def pmm_inv_def)
  have z: "w AND 2 ^ (p mod 64) = 0" using assms(3) by (simp add: page_is_free_def w_def i_def)
  then have nb: "\<not> bit w (p mod 64)" by (simp add: and_single_bit_eq_0)
  have set: "(w OR 2 ^ (p mod 64)) AND 2 ^ (p mod 64) \<noteq> 0"
    unfolding and_single_bit_eq_0 by (simp add: bit_or_single)
  have undo: "(w OR 2 ^ (p mod 64)) AND NOT (2 ^ (p mod 64)) = w"
    using nb by (intro bit_word_eqI) (auto simp: bit_and_not_single bit_or_single)
  show ?thesis using i z set undo
    by (simp add: set_free_def set_used_def Let_def flip: i_def w_def) (simp add: w_def)
qed

text \<open>Reserving: page rounding of the two ends.\<close>

lemma unat_align_down: "unat (align_down x) = unat x div 4096 * 4096"
  by (simp add: align_down_def unat_and_not_4095 minus_mod_eq_div_mult)

lemma unat_add_saturated:
  "unat (add_saturated a b) = min (unat a + unat b) 18446744073709551615"
proof (cases "a > - 1 - b")
  case True
  then show ?thesis
    using unat_max_minus [of b] by (simp add: add_saturated_def word_less_nat_alt)
next
  case False
  moreover have "unat b < 2 ^ 64" using unsigned_less [of b] by simp
  ultimately have "unat a + unat b \<le> 18446744073709551615"
    using unat_max_minus [of b] by (simp add: word_less_nat_alt)
  then show ?thesis using False by (simp add: add_saturated_def unat_add_bounded)
qed

lemma unat_align_up_saturated:
  assumes "unat x + 4096 \<le> 2 ^ 64"
  shows "unat (align_up_saturated x) = (unat x + 4095) div 4096 * 4096"
proof (cases "unat x mod 4096 = 0")
  case True
  then obtain k where "unat x = 4096 * k" by auto
  moreover have "(4096 * k + 4095) div 4096 = k" by simp
  ultimately show ?thesis using True by (simp add: align_up_saturated_def and_4095_eq_0)
next
  case False
  have "unat (4095 + x) = unat x + 4095" using assms by (simp add: unat_add_bounded)
  moreover have "\<not> x > - 1 - 4095"
    using assms by (simp add: word_less_nat_alt)
  ultimately show ?thesis using False
    by (simp add: align_up_saturated_def and_4095_eq_0 align_up_def unat_and_not_4095
        minus_mod_eq_div_mult)
qed

text \<open>The pages a byte range touches.\<close>

definition overlapping_pages :: "pmm \<Rightarrow> u64 \<Rightarrow> u64 \<Rightarrow> nat set" where
  "overlapping_pages s start sz =
     {p. p < n_pages s \<and> unat start < unat (page_addr s p) + 4096 \<and>
         unat (page_addr s p) < unat start + unat sz}"

lemma unat_managed_end:
  assumes "pmm_ready s"
  shows "unat (managed_end s) = unat (g_mem_base s) + n_pages s * 4096"
proof -
  have "n_pages s \<le> 32768" using assms by (simp add: pmm_ready_def pmm_inv_def)
  then have "unat (g_total_pages s * 4096) = n_pages s * 4096"
    by (simp add: unat_mult_bounded n_pages_def)
  then show ?thesis using assms
    by (simp add: managed_end_def unat_add_saturated pmm_ready_def)
qed

lemma page_floor_less:
  fixes b x p :: nat
  assumes "4096 * b \<le> x"
  shows "(x div 4096 * 4096 - 4096 * b) div 4096 \<le> p \<longleftrightarrow> x < 4096 * b + p * 4096 + 4096"
proof -
  have "x div 4096 * 4096 - 4096 * b = (x div 4096 - b) * 4096" by (simp add: diff_mult_distrib)
  then have "(x div 4096 * 4096 - 4096 * b) div 4096 = x div 4096 - b" by simp
  moreover have "x div 4096 - b \<le> p \<longleftrightarrow> x div 4096 < b + p + 1" by linarith
  moreover have "x div 4096 < b + p + 1 \<longleftrightarrow> x < (b + p + 1) * 4096" by (rule div_less_iff_less_mult) simp
  ultimately show ?thesis by (simp add: algebra_simps)
qed

lemma page_ceil_less:
  fixes b x p :: nat
  assumes "4096 * b \<le> x"
  shows "p < ((x + 4095) div 4096 * 4096 - 4096 * b) div 4096 \<longleftrightarrow> 4096 * b + p * 4096 < x"
proof -
  have "(x + 4095) div 4096 * 4096 - 4096 * b = ((x + 4095) div 4096 - b) * 4096"
    by (simp add: diff_mult_distrib)
  then have "((x + 4095) div 4096 * 4096 - 4096 * b) div 4096 = (x + 4095) div 4096 - b" by simp
  moreover have "p < (x + 4095) div 4096 - b \<longleftrightarrow> b + p + 1 \<le> (x + 4095) div 4096" by linarith
  moreover have "b + p + 1 \<le> (x + 4095) div 4096 \<longleftrightarrow> (b + p + 1) * 4096 \<le> x + 4095"
    by (rule less_eq_div_iff_mult_less_eq) simp
  ultimately show ?thesis by (simp add: algebra_simps) linarith
qed

lemma pmm_ready_base:
  assumes "pmm_ready s"
  obtains b where "unat (g_mem_base s) = 4096 * b"
    and "unat (g_mem_base s) + n_pages s * 4096 + 4096 \<le> 2 ^ 64"
proof -
  obtain b where b: "unat (g_mem_base s) = 4096 * b"
    using assms by (auto simp: pmm_ready_def)
  moreover have "4096 * (b + n_pages s) < 4096 * 2 ^ 52"
    using assms b by (simp add: pmm_ready_def)
  then have "Suc (b + n_pages s) \<le> 2 ^ 52" by simp
  then have "4096 * Suc (b + n_pages s) \<le> 4096 * 2 ^ 52" by (rule mult_le_mono2)
  then have "4096 * b + n_pages s * 4096 + 4096 \<le> 2 ^ 64" by simp
  ultimately show ?thesis using that by simp
qed

lemma reserve_first_page:
  assumes "pmm_ready s"
  shows "unat (if start < g_mem_base s then 0 else (align_down start - g_mem_base s) div PAGE_SIZE) \<le> p
     \<longleftrightarrow> unat start < unat (g_mem_base s) + p * 4096 + 4096"
proof (cases "start < g_mem_base s")
  case True
  then show ?thesis by (simp add: word_less_nat_alt)
next
  case False
  obtain b where b: "unat (g_mem_base s) = 4096 * b" using pmm_ready_base [OF assms] by metis
  then have SB: "4096 * b \<le> unat start" using False by (simp add: word_less_nat_alt)
  then have "b \<le> unat start div 4096" by (simp add: less_eq_div_iff_mult_less_eq mult.commute)
  then have "4096 * b \<le> unat start div 4096 * 4096" by simp
  then have "unat ((align_down start - g_mem_base s) div 4096) =
      (unat start div 4096 * 4096 - 4096 * b) div 4096"
    using b by (simp add: unat_div unat_sub word_le_nat_alt unat_align_down)
  then show ?thesis using page_floor_less [OF SB] b False by simp
qed

lemma reserve_last_page:
  fixes e :: u64
  assumes "pmm_ready s" and "e > g_mem_base s"
  shows "p < unat (if e \<ge> managed_end s then g_total_pages s
       else let q = (align_up_saturated e - g_mem_base s) div PAGE_SIZE
            in if q > g_total_pages s then g_total_pages s else q)
     \<longleftrightarrow> p < n_pages s \<and> unat (g_mem_base s) + p * 4096 < unat e"
proof -
  obtain b where b: "unat (g_mem_base s) = 4096 * b"
    and bound: "unat (g_mem_base s) + n_pages s * 4096 + 4096 \<le> 2 ^ 64"
    using pmm_ready_base [OF assms(1)] by metis
  note lim = unat_managed_end [OF assms(1)]
  show ?thesis
  proof (cases "e \<ge> managed_end s")
    case True
    then show ?thesis using lim by (auto simp: n_pages_def word_le_nat_alt)
  next
    case False
    then have lt: "unat e + 4096 \<le> 2 ^ 64" and EB: "4096 * b \<le> unat e"
      using lim bound assms(2) b by (auto simp: word_le_nat_alt word_less_nat_alt)
    define q where "q = (align_up_saturated e - g_mem_base s) div 4096"
    have "4096 * b \<le> (unat e + 4095) div 4096 * 4096"
      using EB by linarith
    then have "unat q = ((unat e + 4095) div 4096 * 4096 - 4096 * b) div 4096"
      using b unat_align_up_saturated [OF lt]
      by (simp add: q_def unat_div unat_sub word_le_nat_alt)
    then have "p < unat q \<longleftrightarrow> 4096 * b + p * 4096 < unat e" using page_ceil_less [OF EB] by simp
    then show ?thesis using False b
      by (auto simp: q_def [symmetric] Let_def n_pages_def word_less_nat_alt)
  qed
qed

lemma pmm_reserve_range_pages:
  assumes "pmm_ready s" and "sz \<noteq> 0"
  shows "\<exists>a b. pmm_reserve_range start sz s = fold set_used [a..<b] s \<and>
     b \<le> n_pages s \<and> {a..<b} = overlapping_pages s start sz"
proof -
  define B S E n where "B = unat (g_mem_base s)" and "S = unat start"
    and "E = unat start + unat sz" and "n = n_pages s"
  define e where "e = add_saturated start sz"
  have lim: "unat (managed_end s) = B + n * 4096" and lt: "B + n * 4096 < 2 ^ 64"
    using assms(1) unat_managed_end [of s] by (auto simp: pmm_ready_def B_def n_def)
  have endp: "unat e = min E 18446744073709551615" by (simp add: unat_add_saturated E_def e_def)
  have ov: "overlapping_pages s start sz =
      {p. p < n \<and> S < B + p * 4096 + 4096 \<and> B + p * 4096 < E}"
    using unat_page_addr [OF assms(1)] by (auto simp: overlapping_pages_def S_def E_def B_def n_def)
  consider (out) "n = 0 \<or> E \<le> B \<or> B + n * 4096 \<le> S"
    | (inside) "0 < n" "B < E" "S < B + n * 4096" by linarith
  then show ?thesis
  proof cases
    case out
    then have "g_total_pages s = 0 \<or> e \<le> g_mem_base s \<or> managed_end s \<le> start"
      using endp lim by (auto simp: word_le_nat_alt B_def S_def n_def n_pages_def unat_eq_zero)
    then have "pmm_reserve_range start sz s = s"
      using assms(2) by (auto simp: pmm_reserve_range_def Let_def e_def)
    moreover have "overlapping_pages s start sz = {}" using out unfolding ov by auto
    ultimately show ?thesis by (intro exI [of _ 0]) simp
  next
    case inside
    then have ge: "\<not> e \<le> g_mem_base s" and "\<not> managed_end s \<le> start" and "g_total_pages s \<noteq> 0"
      using endp lim lt by (auto simp: word_le_nat_alt B_def S_def n_def n_pages_def)
    then obtain a b where eq: "pmm_reserve_range start sz s = fold set_used [a..<b] s"
      and a: "\<And>p. a \<le> p \<longleftrightarrow> S < B + p * 4096 + 4096"
      and b: "\<And>p. p < b \<longleftrightarrow> p < n \<and> B + p * 4096 < unat e"
      using assms(2) reserve_first_page [OF assms(1), of start] reserve_last_page [OF assms(1), of e]
      unfolding pmm_reserve_range_def Let_def e_def [symmetric] B_def S_def n_def
      by (simp add: not_le)
    have "p < b \<longleftrightarrow> p < n \<and> B + p * 4096 < E" for p
      using b [of p] endp lt by (auto simp: min_def)
    then have "{a..<b} = overlapping_pages s start sz"
      unfolding ov set_eq_iff atLeastLessThan_iff mem_Collect_eq a by blast
    moreover have "b \<le> n" using b [of n] by simp
    ultimately show ?thesis using eq n_def by blast
  qed
qed

section \<open>The interface the rest of the kernel uses\<close>

text \<open>
  The page tables, the process tables and the program loader see the allocator only as a set of
  available page addresses: \<open>alloc\<close> removes one of them or returns 0 when there is none,
  \<open>release\<close> gives a managed page back.
\<close>

locale page_allocator =
  fixes ready :: "'p \<Rightarrow> bool"
    and managed :: "'p \<Rightarrow> u64 set"
    and avail :: "'p \<Rightarrow> u64 set"
    and alloc :: "'p \<Rightarrow> u64 \<times> 'p"
    and release :: "u64 \<Rightarrow> 'p \<Rightarrow> 'p"
  assumes avail_managed: "ready s \<Longrightarrow> avail s \<subseteq> managed s"
    and managed_page: "ready s \<Longrightarrow> a \<in> managed s \<Longrightarrow> a \<noteq> 0 \<and> unat a mod 4096 = 0"
    and finite_avail: "finite (avail s)"
    and alloc_exhausted: "ready s \<Longrightarrow> avail s = {} \<Longrightarrow> alloc s = (0, s)"
    and alloc_takes: "ready s \<Longrightarrow> avail s \<noteq> {} \<Longrightarrow> alloc s = (a, s') \<Longrightarrow>
      a \<in> avail s \<and> avail s' = avail s - {a} \<and> managed s' = managed s \<and> ready s'"
    and release_gives: "ready s \<Longrightarrow> a \<in> managed s \<Longrightarrow>
      ready (release a s) \<and> avail (release a s) = insert a (avail s) \<and>
      managed (release a s) = managed s"
begin

lemma alloc_cases:
  assumes "ready s" and "alloc s = (a, s')"
  obtains (none) "a = 0" "s' = s" "avail s = {}"
    | (page) "a \<noteq> 0" "unat a mod 4096 = 0" "a \<in> avail s" "avail s' = avail s - {a}"
      "managed s' = managed s" "ready s'"
proof (cases "avail s = {}")
  case True
  with assms alloc_exhausted show ?thesis by (intro none) auto
next
  case False
  with assms alloc_takes have "a \<in> avail s" "avail s' = avail s - {a}" "managed s' = managed s"
    "ready s'" by blast+
  with managed_page avail_managed assms(1) show ?thesis by (intro page) blast+
qed

lemma alloc_ready: "ready s \<Longrightarrow> alloc s = (a, s') \<Longrightarrow> ready s'"
  by (rule alloc_cases) auto

lemma release_list:
  assumes "ready s" and "set as \<subseteq> managed s"
  shows "ready (fold release as s) \<and> avail (fold release as s) = avail s \<union> set as \<and>
     managed (fold release as s) = managed s"
  using assms
proof (induction as arbitrary: s)
  case (Cons a as)
  then have "ready (release a s)" "avail (release a s) = insert a (avail s)"
    "managed (release a s) = managed s"
    using release_gives by auto
  then show ?case using Cons.IH [of "release a s"] Cons.prems by auto
qed simp

text \<open>Pages that are held at the same time are distinct: an allocated page is not handed out
  again before it is released.\<close>

lemma alloc_twice_distinct:
  assumes "ready s" and "alloc s = (a, s1)" and "alloc s1 = (b, s2)" and "b \<noteq> 0"
  shows "a \<noteq> 0 \<and> a \<noteq> b"
proof -
  from assms(1,2) show ?thesis
  proof (cases rule: alloc_cases)
    case none
    then have "alloc s1 = (0, s)" using assms(1) alloc_exhausted by simp
    with assms(3,4) show ?thesis by simp
  next
    case page
    from \<open>ready s1\<close> assms(3) have "b \<in> avail s1"
      using assms(4) by (cases rule: alloc_cases) auto
    with page show ?thesis by auto
  qed
qed

end

definition managed_pages :: "pmm \<Rightarrow> u64 set" where
  "managed_pages s = page_addr s ` {..<n_pages s}"

definition avail_pages :: "pmm \<Rightarrow> u64 set" where
  "avail_pages s = page_addr s ` free_set s"

lemma managed_pages_set [simp]:
  "managed_pages (set_used p s) = managed_pages s" "managed_pages (set_free p s) = managed_pages s"
  by (simp_all add: managed_pages_def n_pages_def page_addr_def)

lemma avail_pages_set_used:
  assumes "pmm_ready s" and "p < n_pages s"
  shows "avail_pages (set_used p s) = avail_pages s - {page_addr s p}"
proof -
  have "p < 32768" using assms n_pages_bound pmm_ready_inv by fastforce
  then show ?thesis using assms free_set_set_used [of s p] page_addr_inj [OF assms(1)]
    by (auto simp: avail_pages_def pmm_ready_inv dest: free_set_less)
qed

lemma avail_pages_set_free:
  assumes "pmm_ready s" and "p < n_pages s"
  shows "avail_pages (set_free p s) = insert (page_addr s p) (avail_pages s)"
  using assms free_set_set_free [of s p]
  by (simp add: avail_pages_def pmm_ready_inv page_addr_def)

interpretation pages: page_allocator pmm_ready managed_pages avail_pages pmm_alloc_page pmm_free_page
proof
  fix s :: pmm
  show "finite (avail_pages s)" by (simp add: avail_pages_def)
  assume s: "pmm_ready s"
  show "avail_pages s \<subseteq> managed_pages s"
    by (auto simp: avail_pages_def managed_pages_def dest: free_set_less)
  show "avail_pages s = {} \<Longrightarrow> pmm_alloc_page s = (0, s)"
    by (simp add: avail_pages_def pmm_alloc_page_none)
  fix a assume "a \<in> managed_pages s"
  then obtain p where p: "p < n_pages s" "a = page_addr s p" by (auto simp: managed_pages_def)
  then show "a \<noteq> 0 \<and> unat a mod 4096 = 0"
    using page_addr_nonzero page_addr_aligned s by simp
  show "pmm_ready (pmm_free_page a s) \<and> avail_pages (pmm_free_page a s) = insert a (avail_pages s) \<and>
      managed_pages (pmm_free_page a s) = managed_pages s"
    using s p by (simp add: pmm_free_page_addr pmm_ready_set_free avail_pages_set_free)
next
  fix s s' :: pmm and a
  assume s: "pmm_ready s" and "avail_pages s \<noteq> {}" and eq: "pmm_alloc_page s = (a, s')"
  then have ne: "free_set s \<noteq> {}" by (simp add: avail_pages_def)
  define p where "p = Min (free_set s)"
  have p: "p \<in> free_set s" using ne by (simp add: p_def)
  then have lt: "p < n_pages s" by (rule free_set_less)
  have "a = page_addr s p" "s' = set_used p s"
    using eq ne by (simp_all add: pmm_alloc_page_some p_def)
  then show "a \<in> avail_pages s \<and> avail_pages s' = avail_pages s - {a} \<and>
      managed_pages s' = managed_pages s \<and> pmm_ready s'"
    using s p lt
    by (simp add: avail_pages_set_used pmm_ready_set_used) (simp add: avail_pages_def)
qed

section \<open>Properties\<close>

lemma pmm_free_page_foreign:
  assumes "pmm_ready s" and "a \<notin> managed_pages s"
  shows "pmm_free_page a s = s"
proof (rule ccontr)
  assume ne: "pmm_free_page a s \<noteq> s"
  define q where "q = unat ((a - g_mem_base s) div 4096)"
  have ge: "g_mem_base s \<le> a" and al: "unat a mod 4096 = 0" and "\<not> g_total_pages s \<le> (a - g_mem_base s) div 4096"
    using ne by (auto simp: pmm_free_page_def Let_def and_4095_eq_0 not_less split: if_splits)
  then have q: "q < n_pages s" by (simp add: q_def n_pages_def word_le_nat_alt)
  obtain b where b: "unat (g_mem_base s) = 4096 * b" using pmm_ready_base [OF assms(1)] by metis
  obtain c where c: "unat a = 4096 * c" using al by auto
  have "q = c - b" and "b \<le> c"
    using ge b c by (auto simp: q_def unat_div unat_sub word_le_nat_alt simp flip: diff_mult_distrib2)
  then have "unat (page_addr s q) = unat a" using unat_page_addr [OF assms(1) q] b c by simp
  then have "a = page_addr s q" by (simp add: word_unat_eq_iff)
  with q assms(2) show False by (auto simp: managed_pages_def)
qed

lemma Min_three: "Min {..<3::nat} = 0" "{..<3::nat} \<noteq> {}"
proof -
  show "Min {..<3::nat} = 0" by (rule Min_eqI) auto
  have "0 \<in> {..<3::nat}" by simp
  then show "{..<3::nat} \<noteq> {}" by blast
qed

lemma pmm_demo:
  "pmm_ready (pmm_init 0x40000000 0x3000)" "free_set (pmm_init 0x40000000 0x3000) = {..<3}"
  "g_mem_base (pmm_init 0x40000000 0x3000) = 0x40000000" "n_pages (pmm_init 0x40000000 0x3000) = 3"
  using pmm_init_props [of "0x40000000" "0x3000"]
  by (simp_all add: pmm_ready_def n_pages_def)

lemma pmm_alloc_free_restores:
  assumes "pmm_ready s" and a: "pmm_alloc_page s = (a, s')" "a \<noteq> 0"
  shows "pmm_free_page a s' = s"
proof -
  have ne: "free_set s \<noteq> {}" using a pmm_alloc_page_none by fastforce
  define p where "p = Min (free_set s)"
  have p: "p \<in> free_set s" "p < n_pages s" using ne by (auto simp: p_def dest!: Min_free_set free_set_less)
  have "a = page_addr (set_used p s) p" "s' = set_used p s"
    using a ne by (auto simp: pmm_alloc_page_some p_def)
  then show ?thesis
    using p assms(1) pmm_free_page_addr [of "set_used p s" p] pmm_ready_set_used [OF assms(1) p(2)]
      set_free_set_used [of s p]
    by (simp add: pmm_ready_inv free_set_def)
qed

lemma pmm_free_page_idem:
  assumes "pmm_ready s"
  shows "pmm_free_page b (pmm_free_page b s) = pmm_free_page b s"
proof (cases "b \<in> managed_pages s")
  case True
  then obtain p where p: "p < n_pages s" "b = page_addr s p" by (auto simp: managed_pages_def)
  have "page_is_free (set_free p s) p"
    using page_is_free_set_free [of s p p] n_pages_bound [of s] assms p(1)
    by (simp add: pmm_ready_def pmm_inv_def)
  then have "set_free p (set_free p s) = set_free p s"
    unfolding set_free_def [of p "set_free p s"] by (simp add: page_is_free_def)
  moreover have "page_addr (set_free p s) p = b" by (simp add: p page_addr_def)
  ultimately show ?thesis
    using p assms pmm_free_page_addr [of s p] pmm_free_page_addr [of "set_free p s" p]
      pmm_ready_set_free [OF assms p(1)] by simp
qed (simp add: pmm_free_page_foreign [OF assms])

text \<open>\<open>pmm_alloc_page\<close>: when a page is free the lowest free page is returned: a non-null,
  page-aligned address; exactly that page stops being free, the free count drops by one and the
  allocator stays well-formed. When no page is free the result is 0 and nothing changes.\<close>

theorem pmm_alloc_page_correct:
  assumes "pmm_ready s" and "pmm_alloc_page s = (a, s')"
  shows "if free_set s = {} then a = 0 \<and> s' = s
     else a = page_addr s (Min (free_set s)) \<and> a \<noteq> 0 \<and> unat a mod 4096 = 0 \<and>
       free_set s' = free_set s - {Min (free_set s)} \<and> pmm_ready s' \<and>
       unat (pmm_free_count s) = unat (pmm_free_count s') + 1"
proof (cases "free_set s = {}")
  case True
  with assms(2) show ?thesis by (simp add: pmm_alloc_page_none)
next
  case False
  define p where "p = Min (free_set s)"
  have p: "p \<in> free_set s" "p < n_pages s" using False by (auto simp: p_def dest!: Min_free_set free_set_less)
  note inv = pmm_ready_inv [OF assms(1)]
  have "p < 32768" using p(2) n_pages_bound [OF inv] by simp
  note fs = free_set_set_used [OF inv this]
  have "unat (g_free_pages s) = unat (g_free_pages (set_used p s)) + 1"
    using set_used_count [OF inv p(2)] inv card_Suc_Diff1 [OF finite_free_set p(1)]
    by (simp add: pmm_inv_def)
  moreover have "a = page_addr s p" "s' = set_used p s"
    using assms(2) False by (simp_all add: pmm_alloc_page_some p_def)
  ultimately show ?thesis
    using False fs assms(1) p page_addr_nonzero page_addr_aligned pmm_ready_set_used
    by (simp add: pmm_free_count_def p_def [symmetric])
qed

theorem pmm_alloc_page_correct_witness:
  "let s = pmm_init 0x40000000 0x3000 in
   fst (pmm_alloc_page s) = 0x40000000 \<and> free_set (snd (pmm_alloc_page s)) = {1, 2}"
proof -
  let ?s = "pmm_init 0x40000000 0x3000"
  obtain a s' where eq: "pmm_alloc_page ?s = (a, s')" by fastforce
  from pmm_alloc_page_correct [OF pmm_demo(1) eq]
  have "a = 0x40000000" "free_set s' = {..<3} - {0}"
    by (simp_all add: pmm_demo page_addr_def Min_three)
  moreover have "{..<3} - {0} = {1, 2::nat}" by auto
  ultimately show ?thesis by (simp add: eq)
qed

lemma pmm_alloc_pages_split:
  assumes "pmm_ready s" and "count \<noteq> 0" and "pmm_alloc_pages count s = (a, s')"
  shows "if \<forall>r. \<not> {r..<r + unat count} \<subseteq> free_set s then a = 0 \<and> s' = s
     else \<exists>r. {r..<r + unat count} \<subseteq> free_set s \<and>
       (\<forall>j<r. \<not> {j..<j + unat count} \<subseteq> free_set s) \<and> a = page_addr s r \<and> a \<noteq> 0 \<and>
       free_set s' = free_set s - {r..<r + unat count} \<and> pmm_ready s'"
proof (cases "\<forall>r. \<not> {r..<r + unat count} \<subseteq> free_set s")
  case True
  with assms show ?thesis by (simp add: pmm_alloc_pages_none)
next
  case False
  then obtain r where run: "{r..<r + unat count} \<subseteq> free_set s"
    and least: "\<And>j. j < r \<Longrightarrow> \<not> {j..<j + unat count} \<subseteq> free_set s"
    using exists_least_iff [of "\<lambda>r. {r..<r + unat count} \<subseteq> free_set s"] by auto
  have "r \<in> {r..<r + unat count}" using assms(2) by (simp add: unat_gt_0)
  with run have r: "r < n_pages s" using free_set_less by blast
  from run have "set [r..<r + unat count] \<subseteq> {..<n_pages s}" using free_set_less by fastforce
  note f = fold_set_used [OF pmm_ready_inv [OF assms(1)] this]
  have "a = page_addr s r" "s' = fold set_used [r..<r + unat count] s"
    using assms(3) pmm_alloc_pages_some [OF assms(2) run least] by simp_all
  moreover from this f have "pmm_ready s'" using pmm_ready_mono [OF assms(1)] by blast
  moreover have "free_set s' = free_set s - {r..<r + unat count}" using f calculation(2) by simp
  moreover have "a \<noteq> 0" using calculation(1) page_addr_nonzero [OF assms(1) r] by simp
  ultimately show ?thesis unfolding if_not_P [OF False] using run least by blast
qed

lemma pmm_alloc_pages_zero:
  "pmm_ready s \<Longrightarrow> count \<noteq> 0 \<Longrightarrow> pmm_alloc_pages count s = (0, s') \<Longrightarrow> s' = s"
  using pmm_alloc_pages_split [of s count 0 s'] by (auto split: if_splits)

lemma pmm_alloc_pages_nonzero:
  assumes "pmm_ready s" and "count \<noteq> 0" and "pmm_alloc_pages count s = (a, s')" and "a \<noteq> 0"
  obtains r where "{r..<r + unat count} \<subseteq> free_set s" "a = page_addr s r"
    "free_set s' = free_set s - {r..<r + unat count}" "pmm_ready s'"
  using pmm_alloc_pages_split [OF assms(1-3)] assms(4) that by (auto split: if_splits)

text \<open>C31 \<open>pmm_alloc_pages\<close> is first fit and complete: it returns the address of the lowest run of
  \<open>count\<close> free pages, marking exactly these pages used, and returns 0 without any change if
  and only if no such run exists.\<close>

theorem pmm_alloc_pages_first_fit:
  assumes "pmm_ready s" and "count \<noteq> 0" and "pmm_alloc_pages count s = (a, s')"
  shows "if \<forall>r. \<not> {r..<r + unat count} \<subseteq> free_set s then a = 0 \<and> s' = s
     else \<exists>r. {r..<r + unat count} \<subseteq> free_set s \<and>
       (\<forall>j<r. \<not> {j..<j + unat count} \<subseteq> free_set s) \<and> a = page_addr s r \<and> a \<noteq> 0 \<and>
       free_set s' = free_set s - {r..<r + unat count} \<and> pmm_ready s'"
  using assms by (rule pmm_alloc_pages_split)

theorem pmm_alloc_pages_first_fit_witness:
  "let s = pmm_init 0x40000000 0x3000 in
   fst (pmm_alloc_pages 2 s) = 0x40000000 \<and> free_set (snd (pmm_alloc_pages 2 s)) = {2} \<and>
   fst (pmm_alloc_pages 4 s) = 0"
proof -
  let ?s = "pmm_init 0x40000000 0x3000"
  obtain a s' where eq: "pmm_alloc_pages 2 ?s = (a, s')" by fastforce
  obtain b t where eq4: "pmm_alloc_pages 4 ?s = (b, t)" by fastforce
  have sub: "{r..<Suc (Suc r)} \<subseteq> {..<3::nat} \<longleftrightarrow> r \<le> 1" "{r..<r + 4} \<subseteq> {..<3::nat} \<longleftrightarrow> False" for r
    by (auto simp: lessThan_atLeast0)
  have "\<exists>r. r \<le> 1 \<and> (\<forall>j<r. \<not> j \<le> 1) \<and> a = 0x40000000 + of_nat r * 4096 \<and>
      free_set s' = {..<3} - {r..<Suc (Suc r)}"
    using pmm_alloc_pages_first_fit [OF pmm_demo(1) _ eq]
    by (simp add: pmm_demo page_addr_def sub split: if_splits) (blast | fastforce)+
  then have "a = 0x40000000 \<and> free_set s' = {..<3} - {0..<2}"
    by (metis One_nat_def Suc_1 add.right_neutral gr0I le_zero_eq linear mult_zero_left of_nat_0)
  moreover have "b = 0" using pmm_alloc_pages_first_fit [OF pmm_demo(1) _ eq4] by (simp add: pmm_demo sub)
  moreover have "{..<3} - {0..<2} = {2::nat}" by auto
  ultimately show ?thesis by (simp add: eq eq4)
qed

text \<open>C32 \<open>pmm_reserve_range\<close> marks used exactly the managed pages that the byte range
  \<open>[start, start + size)\<close> touches, also when the range begins below the managed memory, ends beyond
  it, or runs past the end of the address space; nothing else changes.\<close>

theorem pmm_reserve_range_exact:
  assumes "pmm_ready s" and "sz \<noteq> 0"
  shows "free_set (pmm_reserve_range start sz s) = free_set s - overlapping_pages s start sz \<and>
    pmm_ready (pmm_reserve_range start sz s)"
proof -
  obtain a b where eq: "pmm_reserve_range start sz s = fold set_used [a..<b] s"
    and b: "b \<le> n_pages s" and ov: "{a..<b} = overlapping_pages s start sz"
    using pmm_reserve_range_pages [OF assms] by blast
  have "set [a..<b] \<subseteq> {..<n_pages s}" using b by auto
  note f = fold_set_used [OF pmm_ready_inv [OF assms(1)] this]
  then show ?thesis using pmm_ready_mono [OF assms(1)] by (simp add: eq ov [symmetric])
qed

theorem pmm_reserve_range_exact_witness:
  "free_set (pmm_reserve_range 0x40000800 0x1000 (pmm_init 0x40000000 0x3000)) = {2}"
proof -
  let ?s = "pmm_init 0x40000000 0x3000"
  have "overlapping_pages ?s 0x40000800 0x1000 =
      {p. p < 3 \<and> 0x40000800 < 0x40000000 + p * 4096 + 4096 \<and> 0x40000000 + p * 4096 < 0x40001800}"
    unfolding overlapping_pages_def pmm_demo
    by (rule Collect_cong, rule conj_cong [OF refl])
       (simp add: unat_page_addr [OF pmm_demo(1)] pmm_demo)
  also have "\<dots> = {0, 1}" by (rule set_eqI) (simp, arith)
  finally have ov: "overlapping_pages ?s 0x40000800 0x1000 = {0, 1}" .
  have nz: "(0x1000 :: u64) \<noteq> 0" by simp
  have "free_set (pmm_reserve_range 0x40000800 0x1000 ?s) = {..<3} - {0, 1}"
    using conjunct1 [OF pmm_reserve_range_exact [OF pmm_demo(1) nz, of "0x40000800"]]
    unfolding ov pmm_demo(2) .
  also have "\<dots> = {2}" by (rule set_eqI) (simp, arith)
  finally show ?thesis .
qed

text \<open>C33 Releasing a page: the page given by \<open>pmm_alloc_page\<close> can be given back, and this restores the
  allocator bit for bit; a second release of the same page changes nothing; an address outside the
  managed pages (foreign or unaligned) is ignored.\<close>

theorem pmm_free_page_round_trip:
  assumes "pmm_ready s"
  shows "(pmm_alloc_page s = (a, s') \<longrightarrow> a \<noteq> 0 \<longrightarrow> pmm_free_page a s' = s) \<and>
    pmm_free_page b (pmm_free_page b s) = pmm_free_page b s \<and>
    (b \<notin> managed_pages s \<longrightarrow> pmm_free_page b s = s)"
  using pmm_alloc_free_restores [OF assms] pmm_free_page_idem [OF assms]
    pmm_free_page_foreign [OF assms] by blast

theorem pmm_free_page_round_trip_witness:
  "pmm_free_page 0x40000000 (snd (pmm_alloc_page (pmm_init 0x40000000 0x3000))) =
   pmm_init 0x40000000 0x3000"
proof -
  let ?s = "pmm_init 0x40000000 0x3000"
  have "pmm_alloc_page ?s = (0x40000000, set_used 0 ?s)"
    using pmm_alloc_page_some [of ?s] by (simp add: pmm_demo page_addr_def Min_three)
  then show ?thesis using pmm_free_page_round_trip [OF pmm_demo(1), of "0x40000000"] by simp
qed

end
