(* ===== verification/Ipc.thy ===== *)
theory Ipc
  imports Prelude "HOL-Library.Multiset"
begin

text \<open>
  Inter-process messages, \<open>kernel/ipc.c\<close>: eight slots shared by all processes, a global sequence
  number, and delivery of the oldest message of a target. A mailbox is the list of the messages
  of one target in the order of their sequence numbers; sending appends to it and receiving takes
  its first message, which is what \<open>ipc.h\<close> calls FIFO for each target PID.
\<close>

abbreviation IPC_MAX_MESSAGES :: nat where "IPC_MAX_MESSAGES \<equiv> 8"
abbreviation IPC_MAX_MESSAGE_SIZE :: nat where "IPC_MAX_MESSAGE_SIZE \<equiv> 16"

record ipc_message =
  sender_pid :: u32
  target_pid :: u32
  msg_size :: u32
  msg_data :: "u8 list"

record ipc_slot =
  message :: ipc_message
  slot_sequence :: u64
  slot_used :: bool

record ipc =
  g_ipc_slots :: "ipc_slot list"
  g_ipc_next_sequence :: u64

section \<open>Operations\<close>

definition ipc_copy_payload :: "u8 list \<Rightarrow> u32 \<Rightarrow> u8 list" where
  "ipc_copy_payload src sz =
     map (\<lambda>i. src ! i) [0..<unat sz] @ replicate (IPC_MAX_MESSAGE_SIZE - unat sz) 0"

definition ipc_zero_payload :: "u8 list" where
  "ipc_zero_payload = replicate IPC_MAX_MESSAGE_SIZE 0"

definition ipc_clear_slot :: ipc_slot where
  "ipc_clear_slot =
     \<lparr>message = \<lparr>sender_pid = 0, target_pid = 0, msg_size = 0, msg_data = ipc_zero_payload\<rparr>,
      slot_sequence = 0, slot_used = False\<rparr>"

definition ipc_find_free_slot :: "ipc \<Rightarrow> nat option" where
  "ipc_find_free_slot s = first_index IPC_MAX_MESSAGES (\<lambda>i. \<not> slot_used (g_ipc_slots s ! i))"

definition ipc_oldest_step :: "ipc \<Rightarrow> u32 \<Rightarrow> nat \<Rightarrow> nat option \<Rightarrow> nat option" where
  "ipc_oldest_step s target i oldest =
     (let slot = g_ipc_slots s ! i
      in if \<not> slot_used slot \<or> target_pid (message slot) \<noteq> target then oldest
         else case oldest of
             None \<Rightarrow> Some i
           | Some j \<Rightarrow> if slot_sequence slot < slot_sequence (g_ipc_slots s ! j) then Some i
                       else oldest)"

definition ipc_find_oldest_target_slot :: "ipc \<Rightarrow> u32 \<Rightarrow> nat option" where
  "ipc_find_oldest_target_slot s target =
     fold (ipc_oldest_step s target) [0..<IPC_MAX_MESSAGES] None"

definition ipc_init :: ipc where
  "ipc_init = \<lparr>g_ipc_slots = replicate IPC_MAX_MESSAGES ipc_clear_slot, g_ipc_next_sequence = 1\<rparr>"

definition ipc_send :: "u32 \<Rightarrow> u32 \<Rightarrow> u8 list option \<Rightarrow> u32 \<Rightarrow> ipc \<Rightarrow> ipc option" where
  "ipc_send sender target data sz s =
     (if sender = 0 \<or> target = 0 \<or> data = None \<or> sz = 0 \<or> sz > of_nat IPC_MAX_MESSAGE_SIZE
      then None
      else case ipc_find_free_slot s of
          None \<Rightarrow> None
        | Some i \<Rightarrow> Some (s\<lparr>g_ipc_slots := (g_ipc_slots s)[i :=
              \<lparr>message = \<lparr>sender_pid = sender, target_pid = target, msg_size = sz,
                          msg_data = ipc_copy_payload (the data) sz\<rparr>,
               slot_sequence = g_ipc_next_sequence s, slot_used = True\<rparr>],
            g_ipc_next_sequence := g_ipc_next_sequence s + 1\<rparr>))"

definition ipc_recv :: "u32 \<Rightarrow> ipc \<Rightarrow> (ipc_message \<times> ipc) option" where
  "ipc_recv target s =
     (if target = 0 then None
      else case ipc_find_oldest_target_slot s target of
          None \<Rightarrow> None
        | Some i \<Rightarrow>
            (let m = message (g_ipc_slots s ! i)
             in Some (\<lparr>sender_pid = sender_pid m, target_pid = target_pid m, msg_size = msg_size m,
                       msg_data = ipc_copy_payload (msg_data m) (msg_size m)\<rparr>,
                      s\<lparr>g_ipc_slots := (g_ipc_slots s)[i := ipc_clear_slot]\<rparr>)))"

section \<open>Mailboxes\<close>

definition held :: "u32 \<Rightarrow> ipc_slot \<Rightarrow> bool" where
  "held t sl \<longleftrightarrow> slot_used sl \<and> target_pid (message sl) = t"

definition mailbox_of :: "ipc_slot list \<Rightarrow> u32 \<Rightarrow> ipc_slot list" where
  "mailbox_of sls t = sort_key slot_sequence (filter (held t) sls)"

definition mailbox :: "ipc \<Rightarrow> u32 \<Rightarrow> ipc_message list" where
  "mailbox s t = map message (mailbox_of (g_ipc_slots s) t)"

definition msg_ok :: "ipc_message \<Rightarrow> bool" where
  "msg_ok m \<longleftrightarrow> 0 < unat (msg_size m) \<and> unat (msg_size m) \<le> 16 \<and> length (msg_data m) = 16 \<and>
     (\<forall>i. unat (msg_size m) \<le> i \<longrightarrow> i < 16 \<longrightarrow> msg_data m ! i = 0)"

text \<open>\<open>ipc_ok n s\<close>: the queue is well-formed and the sequence counter has room for \<open>n\<close> more
  messages before it wraps.\<close>

definition ipc_ok :: "nat \<Rightarrow> ipc \<Rightarrow> bool" where
  "ipc_ok n s \<longleftrightarrow> length (g_ipc_slots s) = 8 \<and>
     (\<forall>sl\<in>set (g_ipc_slots s). slot_used sl \<longrightarrow> slot_sequence sl < g_ipc_next_sequence s \<and> msg_ok (message sl)) \<and>
     distinct (map slot_sequence (filter slot_used (g_ipc_slots s))) \<and>
     unat (g_ipc_next_sequence s) + n < 2 ^ 64"

definition slots_in_use :: "ipc \<Rightarrow> nat" where
  "slots_in_use s = length (filter slot_used (g_ipc_slots s))"

lemma filter_list_update:
  assumes "i < length xs"
  shows "filter P (xs[i := x]) =
     filter P (take i xs) @ (if P x then [x] else []) @ filter P (drop (Suc i) xs)"
  using assms by (simp add: upd_conv_take_nth_drop)

lemma filter_split_nth:
  assumes "i < length xs"
  shows "filter P xs =
     filter P (take i xs) @ (if P (xs ! i) then [xs ! i] else []) @ filter P (drop (Suc i) xs)"
  using assms by (subst id_take_nth_drop [of i xs]) simp_all

text \<open>Sorting by distinct keys: inserting the largest key appends, the smallest key comes first.\<close>

lemma sort_key_snoc_max:
  fixes f :: "'a \<Rightarrow> 'b::linorder"
  assumes "inj_on f (set (xs @ ys))" and "\<And>y. y \<in> set (xs @ ys) \<Longrightarrow> f y < f x"
  shows "sort_key f (xs @ x # ys) = sort_key f (xs @ ys) @ [x]"
proof (rule sort_key_inj_key_eq)
  show "mset (xs @ x # ys) = mset (sort_key f (xs @ ys) @ [x])" by simp
  show "inj_on f (set (xs @ x # ys))"
    using assms by (auto simp: inj_on_def) (metis UnI1 UnI2 less_irrefl set_append)+
  show "sorted (map f (sort_key f (xs @ ys) @ [x]))"
    using assms(2) by (auto simp: sorted_append less_imp_le)
qed

lemma sort_key_cons_min:
  fixes f :: "'a \<Rightarrow> 'b::linorder"
  assumes "inj_on f (set (xs @ x # ys))" and "\<And>y. y \<in> set (xs @ ys) \<Longrightarrow> f x \<le> f y"
  shows "sort_key f (xs @ x # ys) = x # sort_key f (xs @ ys)"
proof (rule sort_key_inj_key_eq)
  show "mset (xs @ x # ys) = mset (x # sort_key f (xs @ ys))" by simp
  show "sorted (map f (x # sort_key f (xs @ ys)))" using assms(2) by auto
qed (rule assms(1))

lemma used_keys_inj:
  assumes "ipc_ok n s"
  shows "inj_on slot_sequence (set (filter (held t) (g_ipc_slots s)))"
proof -
  have "inj_on slot_sequence (set (filter slot_used (g_ipc_slots s)))"
    using assms by (simp add: ipc_ok_def distinct_map)
  then show ?thesis by (rule inj_on_subset) (auto simp: held_def)
qed

lemma held_clear [simp]: "\<not> held t ipc_clear_slot"
  by (simp add: held_def ipc_clear_slot_def)

lemma mailbox_insert:
  assumes "ipc_ok n s" and "i < 8" and "\<not> slot_used (g_ipc_slots s ! i)"
    and "slot_used sl" and "slot_sequence sl = g_ipc_next_sequence s"
  shows "mailbox_of ((g_ipc_slots s)[i := sl]) t =
     mailbox_of (g_ipc_slots s) t @ (if target_pid (message sl) = t then [sl] else [])"
proof -
  let ?xs = "filter (held t) (take i (g_ipc_slots s))"
  let ?ys = "filter (held t) (drop (Suc i) (g_ipc_slots s))"
  have len: "i < length (g_ipc_slots s)" using assms by (simp add: ipc_ok_def)
  have old: "filter (held t) (g_ipc_slots s) = ?xs @ ?ys"
    using filter_split_nth [OF len, of "held t"] assms(3) by (simp add: held_def)
  have new: "filter (held t) ((g_ipc_slots s)[i := sl]) =
      ?xs @ (if target_pid (message sl) = t then [sl] else []) @ ?ys"
    using filter_list_update [OF len, of "held t"] assms(4) by (simp add: held_def)
  have "slot_sequence y < slot_sequence sl" if "y \<in> set (?xs @ ?ys)" for y
  proof -
    have "y \<in> set (filter (held t) (g_ipc_slots s))" using that old by simp
    then show ?thesis using assms(1,5) by (auto simp: ipc_ok_def held_def)
  qed
  then have "sort_key slot_sequence (?xs @ sl # ?ys) = sort_key slot_sequence (?xs @ ?ys) @ [sl]"
    using used_keys_inj [OF assms(1), of t] unfolding old by (intro sort_key_snoc_max)
  then show ?thesis unfolding mailbox_of_def old new by simp
qed

lemma mailbox_remove:
  assumes "ipc_ok n s" and "i < 8" and "held u (g_ipc_slots s ! i)"
    and least: "\<And>j. j < 8 \<Longrightarrow> held u (g_ipc_slots s ! j) \<Longrightarrow>
      slot_sequence (g_ipc_slots s ! i) \<le> slot_sequence (g_ipc_slots s ! j)"
  shows "mailbox_of (g_ipc_slots s) t =
     (if t = u then [g_ipc_slots s ! i] else []) @
       mailbox_of ((g_ipc_slots s)[i := ipc_clear_slot]) t"
proof -
  let ?xs = "filter (held t) (take i (g_ipc_slots s))"
  let ?ys = "filter (held t) (drop (Suc i) (g_ipc_slots s))"
  let ?x = "g_ipc_slots s ! i"
  have len: "i < length (g_ipc_slots s)" and l8: "length (g_ipc_slots s) = 8"
    using assms by (simp_all add: ipc_ok_def)
  have old: "filter (held t) (g_ipc_slots s) = ?xs @ (if t = u then [?x] else []) @ ?ys"
    using filter_split_nth [OF len, of "held t"] assms(3) by (auto simp: held_def)
  have new: "filter (held t) ((g_ipc_slots s)[i := ipc_clear_slot]) = ?xs @ ?ys"
    using filter_list_update [OF len, of "held t"] by simp
  show ?thesis
  proof (cases "t = u")
    case True
    have "slot_sequence ?x \<le> slot_sequence y" if "y \<in> set (?xs @ ?ys)" for y
    proof -
      have "y \<in> set (g_ipc_slots s)" "held u y"
        using that True by (auto dest: in_set_takeD in_set_dropD)
      then show ?thesis using least l8 by (auto simp: in_set_conv_nth)
    qed
    then have "sort_key slot_sequence (?xs @ ?x # ?ys) = ?x # sort_key slot_sequence (?xs @ ?ys)"
      using used_keys_inj [OF assms(1), of t] True unfolding old
      by (intro sort_key_cons_min) auto
    then show ?thesis using True unfolding mailbox_of_def old new by simp
  next
    case False
    then show ?thesis unfolding mailbox_of_def old new by simp
  qed
qed

text \<open>The scan for the oldest message of a target.\<close>

definition oldest_upto :: "ipc \<Rightarrow> u32 \<Rightarrow> nat \<Rightarrow> nat option \<Rightarrow> bool" where
  "oldest_upto s t k r \<longleftrightarrow> (case r of
       None \<Rightarrow> \<forall>j<k. \<not> held t (g_ipc_slots s ! j)
     | Some i \<Rightarrow> i < k \<and> held t (g_ipc_slots s ! i) \<and>
         (\<forall>j<k. held t (g_ipc_slots s ! j) \<longrightarrow>
            slot_sequence (g_ipc_slots s ! i) \<le> slot_sequence (g_ipc_slots s ! j)))"

lemma oldest_scan: "oldest_upto s t k (fold (ipc_oldest_step s t) [0..<k] None)"
proof (induction k)
  case 0
  then show ?case by (simp add: oldest_upto_def)
next
  case (Suc k)
  then show ?case
    by (auto simp: oldest_upto_def ipc_oldest_step_def Let_def held_def less_Suc_eq
        split: option.splits)
qed

lemma find_oldest_None:
  "ipc_find_oldest_target_slot s t = None \<Longrightarrow> j < 8 \<Longrightarrow> \<not> held t (g_ipc_slots s ! j)"
  using oldest_scan [of s t 8] by (simp add: ipc_find_oldest_target_slot_def oldest_upto_def)

lemma find_oldest_Some:
  assumes "ipc_find_oldest_target_slot s t = Some i"
  shows "i < 8" and "held t (g_ipc_slots s ! i)"
    and "\<And>j. j < 8 \<Longrightarrow> held t (g_ipc_slots s ! j) \<Longrightarrow>
      slot_sequence (g_ipc_slots s ! i) \<le> slot_sequence (g_ipc_slots s ! j)"
  using oldest_scan [of s t 8] assms
  by (auto simp: ipc_find_oldest_target_slot_def oldest_upto_def)

section \<open>What the operations do to the mailboxes\<close>

definition letter :: "u32 \<Rightarrow> u32 \<Rightarrow> u8 list \<Rightarrow> u32 \<Rightarrow> ipc_message" where
  "letter sender target data sz = \<lparr>sender_pid = sender, target_pid = target, msg_size = sz,
     msg_data = ipc_copy_payload data sz\<rparr>"

lemma length_copy_payload: "unat sz \<le> 16 \<Longrightarrow> length (ipc_copy_payload src sz) = 16"
  by (simp add: ipc_copy_payload_def)

lemma letter_ok: "sz \<noteq> 0 \<Longrightarrow> unat sz \<le> 16 \<Longrightarrow> msg_ok (letter sender target data sz)"
  by (auto simp: msg_ok_def letter_def length_copy_payload unat_gt_0)
     (simp add: ipc_copy_payload_def nth_append)

lemma copy_payload_again:
  assumes "msg_ok m"
  shows "ipc_copy_payload (msg_data m) (msg_size m) = msg_data m"
proof (rule nth_equalityI)
  show "length (ipc_copy_payload (msg_data m) (msg_size m)) = length (msg_data m)"
    using assms by (simp add: msg_ok_def length_copy_payload)
  fix i assume "i < length (ipc_copy_payload (msg_data m) (msg_size m))"
  then show "ipc_copy_payload (msg_data m) (msg_size m) ! i = msg_data m ! i"
    using assms by (auto simp: msg_ok_def ipc_copy_payload_def nth_append)
qed

lemma find_free_iff:
  assumes "ipc_ok n s"
  shows "ipc_find_free_slot s = None \<longleftrightarrow> slots_in_use s = 8"
proof -
  have len: "length (g_ipc_slots s) = 8" using assms by (simp add: ipc_ok_def)
  have "ipc_find_free_slot s = None \<longleftrightarrow> (\<forall>sl\<in>set (g_ipc_slots s). slot_used sl)"
    by (auto simp: ipc_find_free_slot_def first_index_None_iff all_set_conv_all_nth len)
  also have "\<dots> \<longleftrightarrow> slots_in_use s = 8"
    unfolding slots_in_use_def using len
    by (metis filter_True length_filter_less less_irrefl)
  finally show ?thesis .
qed

lemma ipc_send_cases:
  assumes "ipc_send sender target data sz s = Some s'"
  obtains i d where "data = Some d" "sender \<noteq> 0" "target \<noteq> 0" "sz \<noteq> 0" "unat sz \<le> 16"
    "i < 8" "\<not> slot_used (g_ipc_slots s ! i)"
    "s' = s\<lparr>g_ipc_slots := (g_ipc_slots s)[i := \<lparr>message = letter sender target d sz,
        slot_sequence = g_ipc_next_sequence s, slot_used = True\<rparr>],
      g_ipc_next_sequence := g_ipc_next_sequence s + 1\<rparr>"
proof -
  obtain i d where "ipc_find_free_slot s = Some i" and r: "data = Some d" "sender \<noteq> 0" "target \<noteq> 0"
    "sz \<noteq> 0" "unat sz \<le> 16"
    "s' = s\<lparr>g_ipc_slots := (g_ipc_slots s)[i := \<lparr>message = letter sender target d sz,
        slot_sequence = g_ipc_next_sequence s, slot_used = True\<rparr>],
      g_ipc_next_sequence := g_ipc_next_sequence s + 1\<rparr>"
    using assms by (auto simp: ipc_send_def letter_def word_less_nat_alt not_less
      split: if_splits option.splits)
  moreover have "i < 8" "\<not> slot_used (g_ipc_slots s ! i)"
    using calculation(1) by (auto simp: ipc_find_free_slot_def first_index_Some_iff)
  ultimately show ?thesis using that by blast
qed

lemma ipc_send_ok [kernel_inv]:
  assumes ok: "ipc_ok (Suc n) s" and "ipc_send sender target (Some d) sz s = Some s'"
  shows "ipc_ok n s'"
    and "mailbox s' = (mailbox s)(target := mailbox s target @ [letter sender target d sz])"
    and "slots_in_use s' = Suc (slots_in_use s)"
proof -
  obtain i where h: "sz \<noteq> 0" "unat sz \<le> 16" "i < 8" "\<not> slot_used (g_ipc_slots s ! i)"
    and s': "s' = s\<lparr>g_ipc_slots := (g_ipc_slots s)[i := \<lparr>message = letter sender target d sz,
        slot_sequence = g_ipc_next_sequence s, slot_used = True\<rparr>],
      g_ipc_next_sequence := g_ipc_next_sequence s + 1\<rparr>"
    using ipc_send_cases [OF assms(2)] by (metis option.inject)
  let ?sl = "\<lparr>message = letter sender target d sz, slot_sequence = g_ipc_next_sequence s, slot_used = True\<rparr>"
  have len: "i < length (g_ipc_slots s)" using ok h by (simp add: ipc_ok_def)
  have next1: "unat (g_ipc_next_sequence s + 1) = unat (g_ipc_next_sequence s) + 1"
    using ok by (simp add: ipc_ok_def unat_add_bounded)
  have "x \<in> set (g_ipc_slots s) \<or> x = ?sl" if "x \<in> set ((g_ipc_slots s)[i := ?sl])" for x
    using that set_update_subset_insert [of "g_ipc_slots s" i ?sl] by auto
  then have bound: "slot_sequence x < g_ipc_next_sequence s + 1 \<and> msg_ok (message x)"
    if "x \<in> set ((g_ipc_slots s)[i := ?sl])" "slot_used x" for x
    using that ok h next1 letter_ok [of sz sender target d]
    by (fastforce simp: ipc_ok_def word_less_nat_alt)
  have "filter slot_used (g_ipc_slots s) =
      filter slot_used (take i (g_ipc_slots s)) @ filter slot_used (drop (Suc i) (g_ipc_slots s))"
    using filter_split_nth [OF len, of slot_used] h by simp
  moreover have "filter slot_used ((g_ipc_slots s)[i := ?sl]) =
      filter slot_used (take i (g_ipc_slots s)) @ ?sl # filter slot_used (drop (Suc i) (g_ipc_slots s))"
    using filter_list_update [OF len, of slot_used] by simp
  moreover have "g_ipc_next_sequence s \<notin> slot_sequence ` set (filter slot_used (g_ipc_slots s))"
    using ok by (auto simp: ipc_ok_def)
  ultimately have "distinct (map slot_sequence (filter slot_used ((g_ipc_slots s)[i := ?sl])))"
    and use: "length (filter slot_used ((g_ipc_slots s)[i := ?sl])) = Suc (slots_in_use s)"
    using ok by (auto simp: ipc_ok_def slots_in_use_def)
  then show "ipc_ok n s'"
    using ok bound next1 h by (simp add: s' ipc_ok_def)
  show "slots_in_use s' = Suc (slots_in_use s)" using use h by (simp add: s' slots_in_use_def)
  show "mailbox s' = (mailbox s)(target := mailbox s target @ [letter sender target d sz])"
    using mailbox_insert [OF ok h(3,4), of ?sl] h
    by (auto simp: fun_eq_iff mailbox_def s' letter_def)
qed

lemma ipc_recv_ok [kernel_inv]:
  assumes ok: "ipc_ok n s" and "ipc_recv t s = Some (m, s')"
  shows "ipc_ok n s'" and "mailbox s t = m # mailbox s' t"
    and "\<And>u. u \<noteq> t \<Longrightarrow> mailbox s' u = mailbox s u"
    and "slots_in_use s = Suc (slots_in_use s')"
proof -
  obtain i where i: "ipc_find_oldest_target_slot s t = Some i"
    and s': "s' = s\<lparr>g_ipc_slots := (g_ipc_slots s)[i := ipc_clear_slot]\<rparr>"
    and m: "m = (let m = message (g_ipc_slots s ! i) in
      \<lparr>sender_pid = sender_pid m, target_pid = target_pid m, msg_size = msg_size m,
       msg_data = ipc_copy_payload (msg_data m) (msg_size m)\<rparr>)"
    using assms(2) by (auto simp: ipc_recv_def Let_def split: if_splits option.splits)
  note o = find_oldest_Some [OF i]
  have len: "i < length (g_ipc_slots s)" using ok o(1) by (simp add: ipc_ok_def)
  have used: "slot_used (g_ipc_slots s ! i)" using o(2) by (simp add: held_def)
  then have "msg_ok (message (g_ipc_slots s ! i))" using ok len by (simp add: ipc_ok_def)
  then have m': "m = message (g_ipc_slots s ! i)" by (simp add: m Let_def copy_payload_again)
  note rm = mailbox_remove [OF ok o]
  show "mailbox s t = m # mailbox s' t" using rm [of t] by (simp add: mailbox_def s' m')
  show "mailbox s' u = mailbox s u" if "u \<noteq> t" for u
    using rm [of u] that by (simp add: mailbox_def s')
  have new: "filter slot_used ((g_ipc_slots s)[i := ipc_clear_slot]) =
      filter slot_used (take i (g_ipc_slots s)) @ filter slot_used (drop (Suc i) (g_ipc_slots s))"
    using filter_list_update [OF len, of slot_used] by (simp add: ipc_clear_slot_def)
  moreover have old: "filter slot_used (g_ipc_slots s) =
      filter slot_used (take i (g_ipc_slots s)) @ (g_ipc_slots s ! i) # filter slot_used (drop (Suc i) (g_ipc_slots s))"
    using filter_split_nth [OF len, of slot_used] used by simp
  ultimately show "slots_in_use s = Suc (slots_in_use s')" by (simp add: slots_in_use_def s')
  have "x \<in> set (g_ipc_slots s) \<or> x = ipc_clear_slot" if "x \<in> set ((g_ipc_slots s)[i := ipc_clear_slot])" for x
    using that set_update_subset_insert [of "g_ipc_slots s" i ipc_clear_slot] by auto
  moreover have "\<not> slot_used ipc_clear_slot" by (simp add: ipc_clear_slot_def)
  ultimately show "ipc_ok n s'"
    using ok old new by (auto simp: ipc_ok_def s')
qed

lemma ipc_recv_empty:
  assumes "ipc_ok n s" and "t \<noteq> 0"
  shows "ipc_recv t s = None \<longleftrightarrow> mailbox s t = []"
proof
  assume "ipc_recv t s = None"
  then have "ipc_find_oldest_target_slot s t = None"
    using assms(2) by (auto simp: ipc_recv_def Let_def split: option.splits)
  then have "\<forall>sl\<in>set (g_ipc_slots s). \<not> held t sl"
    using find_oldest_None assms(1) by (auto simp: in_set_conv_nth ipc_ok_def)
  then have "filter (held t) (g_ipc_slots s) = []" by (simp add: filter_empty_conv)
  then show "mailbox s t = []" by (simp add: mailbox_def mailbox_of_def)
next
  assume "mailbox s t = []"
  then show "ipc_recv t s = None"
    using ipc_recv_ok(2) [OF assms(1), of t] by (cases "ipc_recv t s") auto
qed

section \<open>The mailbox contract\<close>

datatype 'r mail_op = Send 'r | Recv u32

text \<open>A run of sends and receives: the accepted requests, the deliveries (target and message) and
  the final state, in the order in which the operations took place.\<close>

fun mail_run :: "('r \<Rightarrow> 's \<Rightarrow> 's option) \<Rightarrow> (u32 \<Rightarrow> 's \<Rightarrow> ('m \<times> 's) option) \<Rightarrow> 'r mail_op list \<Rightarrow> 's \<Rightarrow>
    'r list \<times> (u32 \<times> 'm) list \<times> 's" where
  "mail_run send recv [] s = ([], [], s)"
| "mail_run send recv (Send r # ops) s =
     (case send r s of
        None \<Rightarrow> mail_run send recv ops s
      | Some s' \<Rightarrow> (case mail_run send recv ops s' of (acc, del, t) \<Rightarrow> (r # acc, del, t)))"
| "mail_run send recv (Recv u # ops) s =
     (case recv u s of
        None \<Rightarrow> mail_run send recv ops s
      | Some (m, s') \<Rightarrow> (case mail_run send recv ops s' of (acc, del, t) \<Rightarrow> (acc, (u, m) # del, t)))"

locale mailboxes =
  fixes ok :: "nat \<Rightarrow> 's \<Rightarrow> bool"
    and box :: "'s \<Rightarrow> u32 \<Rightarrow> 'm list"
    and dest :: "'r \<Rightarrow> u32"
    and content :: "'r \<Rightarrow> 'm"
    and send :: "'r \<Rightarrow> 's \<Rightarrow> 's option"
    and recv :: "u32 \<Rightarrow> 's \<Rightarrow> ('m \<times> 's) option"
  assumes ok_mono: "ok (Suc n) s \<Longrightarrow> ok n s"
    and send_delivers: "ok (Suc n) s \<Longrightarrow> send r s = Some s' \<Longrightarrow>
      ok n s' \<and> box s' = (box s)(dest r := box s (dest r) @ [content r])"
    and recv_takes: "ok n s \<Longrightarrow> recv u s = Some (m, s') \<Longrightarrow>
      ok n s' \<and> box s = (box s')(u := m # box s' u)"
begin

lemma run_keeps_order:
  assumes "ok (length ops) s" and "mail_run send recv ops s = (acc, del, s')"
  shows "map snd (filter (\<lambda>d. fst d = t) del) @ box s' t =
     box s t @ map content (filter (\<lambda>r. dest r = t) acc)"
  using assms
proof (induction ops arbitrary: s acc del)
  case Nil
  then show ?case by simp
next
  case (Cons op ops)
  show ?case
  proof (cases op)
    case (Send r)
    show ?thesis
    proof (cases "send r s")
      case None
      then show ?thesis using Cons Send ok_mono by simp
    next
      case (Some s1)
      obtain acc' where "mail_run send recv ops s1 = (acc', del, s')" "acc = r # acc'"
        using Cons.prems(2) Send Some by (auto split: prod.splits)
      then show ?thesis using Cons.IH [of s1 acc' del] send_delivers [OF _ Some] Cons.prems(1) by auto
    qed
  next
    case (Recv u)
    have ok: "ok (length ops) s" using Cons.prems(1) ok_mono by simp
    show ?thesis
    proof (cases "recv u s")
      case None
      then show ?thesis using Cons ok Recv by simp
    next
      case (Some p)
      then obtain m s1 where p: "recv u s = Some (m, s1)" by (cases p) auto
      obtain del' where "mail_run send recv ops s1 = (acc, del', s')" "del = (u, m) # del'"
        using Cons.prems(2) Recv p by (auto split: prod.splits)
      then show ?thesis using Cons.IH [of s1 acc del'] recv_takes [OF ok p] by auto
    qed
  qed
qed

end

type_synonym ipc_request = "u32 \<times> u32 \<times> u8 list \<times> u32"

definition request_send :: "ipc_request \<Rightarrow> ipc \<Rightarrow> ipc option" where
  "request_send r s = (case r of (sender, target, data, sz) \<Rightarrow> ipc_send sender target (Some data) sz s)"

definition request_dest :: "ipc_request \<Rightarrow> u32" where
  "request_dest r = (case r of (sender, target, data, sz) \<Rightarrow> target)"

definition request_letter :: "ipc_request \<Rightarrow> ipc_message" where
  "request_letter r = (case r of (sender, target, data, sz) \<Rightarrow> letter sender target data sz)"

interpretation ipcq: mailboxes ipc_ok mailbox request_dest request_letter request_send ipc_recv
proof
  show "ipc_ok n s" if "ipc_ok (Suc n) s" for n s using that by (simp add: ipc_ok_def)
  show "ipc_ok n s' \<and> mailbox s' = (mailbox s)(request_dest r := mailbox s (request_dest r) @ [request_letter r])"
    if "ipc_ok (Suc n) s" "request_send r s = Some s'" for n s r s'
    using that ipc_send_ok
    by (cases r) (simp add: request_send_def request_dest_def request_letter_def)
  show "ipc_ok n s' \<and> mailbox s = (mailbox s')(u := m # mailbox s' u)"
    if "ipc_ok n s" "ipc_recv u s = Some (m, s')" for n s u m s'
    using that ipc_recv_ok [OF that] by (auto simp: fun_eq_iff)
qed

section \<open>Properties\<close>

lemma ipc_init_ok: "n < 2 ^ 64 - 1 \<Longrightarrow> ipc_ok n ipc_init"
  by (auto simp: ipc_ok_def ipc_init_def ipc_clear_slot_def)

lemma mailbox_init [simp]: "mailbox ipc_init t = []"
  by (simp add: mailbox_def mailbox_of_def ipc_init_def)

text \<open>C29 Messages are delivered first in, first out for each target, whatever the interleaving with
  the traffic of other processes: over any run of sends and receives, the messages delivered to a
  target followed by those still queued for it are the messages queued before followed by those
  accepted for it, in order, unaltered, none lost and none invented. The only assumption is that
  the 64-bit sequence counter does not wrap during the run.\<close>

theorem ipc_fifo_per_target:
  assumes "ipc_ok (length ops) s" and "mail_run request_send ipc_recv ops s = (acc, del, s')"
  shows "map snd (filter (\<lambda>d. fst d = t) del) @ mailbox s' t =
     mailbox s t @ map request_letter (filter (\<lambda>r. request_dest r = t) acc)"
  using assms by (rule ipcq.run_keeps_order)

theorem ipc_fifo_per_target_witness:
  "let ops = [Send (1, 2, [7], 1), Send (1, 3, [8], 1), Send (1, 2, [9], 1), Recv 2];
       (acc, del, s') = mail_run request_send ipc_recv ops ipc_init
   in map snd (filter (\<lambda>d. fst d = 2) del) @ mailbox s' 2 =
      map request_letter (filter (\<lambda>r. request_dest r = 2) acc)"
proof -
  let ?ops = "[Send (1, 2, [7], 1), Send (1, 3, [8], 1), Send (1, 2, [9], 1), Recv 2] :: ipc_request mail_op list"
  obtain acc del s' where r: "mail_run request_send ipc_recv ?ops ipc_init = (acc, del, s')"
    by (metis prod.exhaust)
  have "ipc_ok (length ?ops) ipc_init" by (rule ipc_init_ok) simp
  from ipc_fifo_per_target [OF this r, of 2] show ?thesis by (simp add: r Let_def del: mail_run.simps)
qed

text \<open>\<open>ipc_send\<close> succeeds exactly on valid arguments while one of the eight slots is free; it then
  appends one message to the target's mailbox, whose payload is the given bytes padded with zeros,
  touches no other mailbox and uses one slot.\<close>

theorem ipc_send_correct:
  assumes "ipc_ok (Suc n) s" and "unat sz \<le> length d"
  shows "if sender \<noteq> 0 \<and> target \<noteq> 0 \<and> 0 < unat sz \<and> unat sz \<le> 16 \<and> slots_in_use s < 8
     then \<exists>s'. ipc_send sender target (Some d) sz s = Some s' \<and> ipc_ok n s' \<and>
       slots_in_use s' = slots_in_use s + 1 \<and>
       mailbox s' = (mailbox s)(target := mailbox s target @
         [\<lparr>sender_pid = sender, target_pid = target, msg_size = sz,
           msg_data = take (unat sz) d @ replicate (16 - unat sz) 0\<rparr>])
     else ipc_send sender target (Some d) sz s = None"
proof -
  have "slots_in_use s \<le> 8"
    unfolding slots_in_use_def using assms(1) length_filter_le [of slot_used "g_ipc_slots s"]
    by (simp add: ipc_ok_def)
  then have free: "ipc_find_free_slot s = None \<longleftrightarrow> \<not> slots_in_use s < 8"
    using find_free_iff [OF assms(1)] by auto
  have pay: "ipc_copy_payload d sz = take (unat sz) d @ replicate (16 - unat sz) 0"
    using assms(2) by (simp add: ipc_copy_payload_def map_nth_take)
  show ?thesis
  proof (cases "sender \<noteq> 0 \<and> target \<noteq> 0 \<and> 0 < unat sz \<and> unat sz \<le> 16 \<and> slots_in_use s < 8")
    case True
    then obtain s' where "ipc_send sender target (Some d) sz s = Some s'"
      using free by (auto simp: ipc_send_def word_less_nat_alt unat_gt_0)
    with True show ?thesis using ipc_send_ok [OF assms(1)] pay by (auto simp: letter_def)
  next
    case False
    then show ?thesis using free
      by (auto simp: ipc_send_def word_less_nat_alt unat_gt_0 split: option.splits)
  qed
qed

theorem ipc_send_correct_witness:
  "\<exists>s'. ipc_send 1 2 (Some [7, 8, 9]) 2 ipc_init = Some s' \<and>
     mailbox s' 2 = [\<lparr>sender_pid = 1, target_pid = 2, msg_size = 2,
       msg_data = [7, 8] @ replicate 14 0\<rparr>]"
proof -
  have ok: "ipc_ok (Suc 0) ipc_init" by (rule ipc_init_ok) simp
  have "slots_in_use ipc_init = 0"
    by (simp add: slots_in_use_def ipc_init_def ipc_clear_slot_def)
  then show ?thesis using ipc_send_correct [OF ok, of 2 "[7, 8, 9]" 1 2] by auto
qed

text \<open>\<open>ipc_recv\<close> fails exactly when the target's mailbox is empty (or the PID is 0); otherwise it
  returns the oldest message of that mailbox, removes it from there only, and frees its slot.\<close>

theorem ipc_recv_correct:
  assumes "ipc_ok n s" and "t \<noteq> 0"
  shows "case mailbox s t of
       [] \<Rightarrow> ipc_recv t s = None
     | m # q \<Rightarrow> \<exists>s'. ipc_recv t s = Some (m, s') \<and> ipc_ok n s' \<and> mailbox s' = (mailbox s)(t := q) \<and>
         slots_in_use s = slots_in_use s' + 1"
proof (cases "ipc_recv t s")
  case None
  then show ?thesis using ipc_recv_empty [OF assms] by simp
next
  case (Some p)
  then obtain m s' where p: "ipc_recv t s = Some (m, s')" by (cases p) auto
  note r = ipc_recv_ok [OF assms(1) p]
  then show ?thesis using p by (auto simp: fun_eq_iff)
qed

theorem ipc_recv_correct_witness:
  "\<exists>s. ipc_send 1 2 (Some [7]) 1 ipc_init = Some s \<and>
     (\<exists>s'. ipc_recv 2 s = Some (letter 1 2 [7] 1, s') \<and> mailbox s' 2 = [])"
proof -
  have ok: "ipc_ok (Suc 0) ipc_init" by (rule ipc_init_ok) simp
  have use: "slots_in_use ipc_init = 0"
    by (simp add: slots_in_use_def ipc_init_def ipc_clear_slot_def)
  then have "ipc_find_free_slot ipc_init \<noteq> None" using find_free_iff [OF ok] by simp
  then obtain s where s: "ipc_send 1 2 (Some [7]) 1 ipc_init = Some s"
    by (auto simp: ipc_send_def)
  note f = ipc_send_ok [OF ok s]
  show ?thesis using ipc_recv_correct [OF f(1), of 2] f(2) s by auto
qed

end
