(* ===== verification/Ring.thy ===== *)
theory Ring
  imports Prelude
begin

text \<open>
  Ring buffers. Two components keep their events in a fixed array with a head index, a tail index
  and a count: the input queue (\<open>drivers/input/input.c\<close>) and the event queue of a window
  (\<open>kernel/gui_events.c\<close>). This theory gives the list a ring stands for, the lemmas on the three
  index updates, and the contract \<open>fifo\<close> of a bounded queue with its client lemmas.
\<close>

definition ring_content :: "nat \<Rightarrow> 'e list \<Rightarrow> nat \<Rightarrow> nat \<Rightarrow> 'e list" where
  "ring_content cap b h c = map (\<lambda>i. b ! ((h + i) mod cap)) [0..<c]"

definition ring_ok :: "nat \<Rightarrow> 'e list \<Rightarrow> nat \<Rightarrow> nat \<Rightarrow> nat \<Rightarrow> bool" where
  "ring_ok cap b h t c \<longleftrightarrow> 0 < cap \<and> length b = cap \<and> h < cap \<and> c \<le> cap \<and> t = (h + c) mod cap"

lemma length_ring_content [simp]: "length (ring_content cap b h c) = c"
  by (simp add: ring_content_def)

lemma ring_index_inj:
  fixes cap :: nat
  assumes "i < cap" and "j < cap" and "(h + i) mod cap = (h + j) mod cap"
  shows "i = j"
proof -
  obtain q r where "h + i + cap * q = h + j + cap * r"
    using assms(3) by (auto simp: nat_mod_eq_iff)
  then have "i + cap * q = j + cap * r" by simp
  then have "i mod cap = j mod cap" by (metis mod_mult_self2)
  then show ?thesis using assms by simp
qed

lemma ring_content_upd_other:
  assumes "length b = cap" and "c \<le> k" and "k < cap"
  shows "ring_content cap (b[(h + k) mod cap := e]) h c = ring_content cap b h c"
proof -
  have "(h + k) mod cap \<noteq> (h + i) mod cap" if "i < c" for i
    using ring_index_inj [of k cap i h] that assms by auto
  then show ?thesis by (auto simp: ring_content_def)
qed

lemma ring_push:
  assumes "ring_ok cap b h t c" and "c < cap"
  shows "ring_ok cap (b[t := e]) h ((t + 1) mod cap) (c + 1)"
    and "ring_content cap (b[t := e]) h (c + 1) = ring_content cap b h c @ [e]"
proof -
  have t: "t = (h + c) mod cap" and len: "length b = cap" and "t < cap"
    using assms by (auto simp: ring_ok_def)
  then show "ring_ok cap (b[t := e]) h ((t + 1) mod cap) (c + 1)"
    using assms by (auto simp: ring_ok_def mod_simps)
  have "ring_content cap (b[t := e]) h (c + 1) = ring_content cap (b[t := e]) h c @ [e]"
    using \<open>t < cap\<close> len by (simp add: ring_content_def t)
  then show "ring_content cap (b[t := e]) h (c + 1) = ring_content cap b h c @ [e]"
    using ring_content_upd_other [OF len order_refl assms(2), of h e] by (simp add: t)
qed

lemma ring_pop:
  assumes "ring_ok cap b h t c" and "0 < c"
  shows "ring_ok cap b ((h + 1) mod cap) t (c - 1)"
    and "ring_content cap b h c = b ! h # ring_content cap b ((h + 1) mod cap) (c - 1)"
proof -
  obtain n where n: "c = Suc n" using assms(2) by (cases c) auto
  show "ring_ok cap b ((h + 1) mod cap) t (c - 1)"
    using assms n by (auto simp: ring_ok_def mod_simps)
  have "h < cap" using assms(1) by (simp add: ring_ok_def)
  then show "ring_content cap b h c = b ! h # ring_content cap b ((h + 1) mod cap) (c - 1)"
    unfolding n ring_content_def by (simp add: upt_conv_Cons map_Suc_upt [symmetric] mod_simps del: upt_Suc)
qed

lemma ring_last:
  assumes "ring_ok cap b h t c" and "0 < c"
    and "p = (if t = 0 then cap - 1 else t - 1)"
  shows "p = (h + (c - 1)) mod cap" and "p < cap"
    and "b ! p = last (ring_content cap b h c)"
    and "ring_content cap (b[p := e]) h c = butlast (ring_content cap b h c) @ [e]"
proof -
  obtain n where n: "c = Suc n" using assms(2) by (cases c) auto
  have cap: "0 < cap" "n < cap" "length b = cap" "h < cap" "t = Suc (h + n) mod cap"
    using assms(1) n by (auto simp: ring_ok_def)
  show p: "p = (h + (c - 1)) mod cap"
    using cap assms(3) n by (auto simp: mod_Suc split: if_splits)
  then show "p < cap" using cap by simp
  show "b ! p = last (ring_content cap b h c)"
    using p n by (simp add: ring_content_def)
  have "ring_content cap (b[p := e]) h c = ring_content cap (b[p := e]) h n @ [e]"
    using p n cap by (simp add: ring_content_def)
  also have "ring_content cap (b[p := e]) h n = ring_content cap b h n"
    using ring_content_upd_other [OF cap(3) order_refl cap(2), of h e] p n by simp
  also have "\<dots> = butlast (ring_content cap b h c)" by (simp add: ring_content_def n)
  finally show "ring_content cap (b[p := e]) h c = butlast (ring_content cap b h c) @ [e]" .
qed

lemma ring_ok_upd [simp]: "ring_ok cap (b[p := e]) h t c = ring_ok cap b h t c"
  by (simp add: ring_ok_def)

section \<open>Bounded queues\<close>

fun push_all :: "('e \<Rightarrow> 's \<Rightarrow> 's option) \<Rightarrow> 'e list \<Rightarrow> 's \<Rightarrow> 's option" where
  "push_all push [] s = Some s"
| "push_all push (e # es) s = Option.bind (push e s) (push_all push es)"

fun pop_n :: "('s \<Rightarrow> ('e \<times> 's) option) \<Rightarrow> nat \<Rightarrow> 's \<Rightarrow> ('e list \<times> 's) option" where
  "pop_n pop 0 s = Some ([], s)"
| "pop_n pop (Suc n) s =
     (case pop s of None \<Rightarrow> None
      | Some (e, s') \<Rightarrow> map_option (\<lambda>(es, s''). (e # es, s'')) (pop_n pop n s'))"

locale fifo =
  fixes cap :: nat
    and good :: "'s \<Rightarrow> bool"
    and contents :: "'s \<Rightarrow> 'e list"
    and push :: "'e \<Rightarrow> 's \<Rightarrow> 's option"
    and pop :: "'s \<Rightarrow> ('e \<times> 's) option"
  assumes push_room: "good s \<Longrightarrow> length (contents s) < cap \<Longrightarrow>
      \<exists>s'. push e s = Some s' \<and> good s' \<and> contents s' = contents s @ [e]"
    and push_full: "good s \<Longrightarrow> length (contents s) \<ge> cap \<Longrightarrow> push e s = None"
    and pop_empty: "good s \<Longrightarrow> contents s = [] \<Longrightarrow> pop s = None"
    and pop_front: "good s \<Longrightarrow> contents s = e # q \<Longrightarrow>
      \<exists>s'. pop s = Some (e, s') \<and> good s' \<and> contents s' = q"
begin

lemma push_all_appends:
  assumes "good s" and "length (contents s) + length es \<le> cap"
  shows "\<exists>s'. push_all push es s = Some s' \<and> good s' \<and> contents s' = contents s @ es"
  using assms
proof (induction es arbitrary: s)
  case (Cons e es)
  obtain s1 where s1: "push e s = Some s1" "good s1" "contents s1 = contents s @ [e]"
    using push_room [of s e] Cons.prems by auto
  then show ?case using Cons.IH [of s1] Cons.prems by auto
qed simp

lemma pop_n_front:
  assumes "good s" and "contents s = es @ q"
  shows "\<exists>s'. pop_n pop (length es) s = Some (es, s') \<and> good s' \<and> contents s' = q"
  using assms
proof (induction es arbitrary: s)
  case (Cons e es)
  obtain s1 where s1: "pop s = Some (e, s1)" "good s1" "contents s1 = es @ q"
    using pop_front [of s e "es @ q"] Cons.prems by auto
  then show ?case using Cons.IH [of s1] by auto
qed simp

lemma first_in_first_out:
  assumes "good s" and "contents s = []" and "length es \<le> cap"
  shows "\<exists>s' s''. push_all push es s = Some s' \<and> pop_n pop (length es) s' = Some (es, s'') \<and>
     good s'' \<and> contents s'' = []"
  using push_all_appends [OF assms(1), of es] pop_n_front [where q = "[]"] assms(2,3)
  by fastforce

lemma overfull_rejects:
  assumes "good s" and "length (contents s) + length es = cap"
  shows "push_all push (es @ e # fs) s = None"
proof -
  obtain s' where s': "push_all push es s = Some s'" "good s'" "contents s' = contents s @ es"
    using push_all_appends [OF assms(1), of es] assms(2) by auto
  have "push_all push (es @ gs) s = Option.bind (push_all push es s) (push_all push gs)" for gs
    by (induction es arbitrary: s) (auto split: Option.bind_splits)
  then show ?thesis using s' push_full [of s' e] assms(2) by simp
qed

end

end
