(* ===== verification/Input.thy ===== *)
theory Input
  imports Ring
begin

text \<open>
  The input queue and the ANSI escape-sequence parser, \<open>drivers/input/input.c\<close>. The queue indices,
  which stay below 64, are natural numbers; a C \<open>int\<close> byte argument is an \<open>int\<close>. The UART read of
  \<open>input_uart_poll\<close> is an argument: the value the device returned.
\<close>

abbreviation INPUT_EVENT_QUEUE_SIZE :: nat where "INPUT_EVENT_QUEUE_SIZE \<equiv> 64"
abbreviation INPUT_KEY_UP :: u32 where "INPUT_KEY_UP \<equiv> 0x101"
abbreviation INPUT_KEY_DOWN :: u32 where "INPUT_KEY_DOWN \<equiv> 0x102"
abbreviation INPUT_KEY_LEFT :: u32 where "INPUT_KEY_LEFT \<equiv> 0x103"
abbreviation INPUT_KEY_RIGHT :: u32 where "INPUT_KEY_RIGHT \<equiv> 0x104"
abbreviation INPUT_KEY_PGUP :: u32 where "INPUT_KEY_PGUP \<equiv> 0x105"
abbreviation INPUT_KEY_PGDN :: u32 where "INPUT_KEY_PGDN \<equiv> 0x106"

text \<open>An event with its tag, its timestamp and the member of the union that the tag selects.\<close>

datatype input_event =
    INPUT_EVENT_KEY_PRESS u64 u32
  | INPUT_EVENT_KEY_RELEASE u64 u32
  | INPUT_EVENT_MOUSE_MOVE u64 int int
  | INPUT_EVENT_MOUSE_BUTTON u64 u32 u32

datatype esc_state =
    ESC_STATE_IDLE
  | ESC_STATE_GOT_ESC
  | ESC_STATE_GOT_BRACKET
  | ESC_STATE_GOT_BRACKET_DIGIT

record input =
  g_event_queue :: "input_event list"
  g_event_head :: nat
  g_event_tail :: nat
  g_event_count :: nat
  g_esc_state :: esc_state
  g_esc_discard :: u8

section \<open>Operations\<close>

definition input_queue_init :: "input \<Rightarrow> input" where
  "input_queue_init s = s\<lparr>g_event_head := 0, g_event_tail := 0, g_event_count := 0\<rparr>"

definition input_queue_push :: "input_event \<Rightarrow> input \<Rightarrow> input option" where
  "input_queue_push event s =
     (if g_event_count s \<ge> INPUT_EVENT_QUEUE_SIZE then None
      else Some (s\<lparr>g_event_queue := (g_event_queue s)[g_event_tail s := event],
                   g_event_tail := (g_event_tail s + 1) mod INPUT_EVENT_QUEUE_SIZE,
                   g_event_count := g_event_count s + 1\<rparr>))"

definition input_queue_poll :: "input \<Rightarrow> (input_event \<times> input) option" where
  "input_queue_poll s =
     (if g_event_count s = 0 then None
      else Some (g_event_queue s ! g_event_head s,
                 s\<lparr>g_event_head := (g_event_head s + 1) mod INPUT_EVENT_QUEUE_SIZE,
                   g_event_count := g_event_count s - 1\<rparr>))"

definition input_queue_peek :: "input \<Rightarrow> input_event option" where
  "input_queue_peek s =
     (if g_event_count s = 0 then None else Some (g_event_queue s ! g_event_head s))"

text \<open>The integer result and the state: an event that is not a key press is consumed and gives -1.\<close>

definition input_queue_poll_char :: "input \<Rightarrow> int \<times> input" where
  "input_queue_poll_char s =
     (case input_queue_poll s of
        None \<Rightarrow> (-1, s)
      | Some (INPUT_EVENT_KEY_PRESS ts key, s') \<Rightarrow> (uint (key AND 0xff), s')
      | Some (_, s') \<Rightarrow> (-1, s'))"

definition input_queue_available :: "input \<Rightarrow> int" where
  "input_queue_available s = int (g_event_count s)"

definition push_key_event :: "u32 \<Rightarrow> input \<Rightarrow> input" where
  "push_key_event key s =
     (case input_queue_push (INPUT_EVENT_KEY_PRESS 0 key) s of None \<Rightarrow> s | Some s' \<Rightarrow> s')"

definition push_escape_key :: "u8 \<Rightarrow> input \<Rightarrow> input" where
  "push_escape_key direction s =
     (if direction = 0x41 then push_key_event INPUT_KEY_UP s
      else if direction = 0x42 then push_key_event INPUT_KEY_DOWN s
      else if direction = 0x43 then push_key_event INPUT_KEY_RIGHT s
      else if direction = 0x44 then push_key_event INPUT_KEY_LEFT s
      else s)"

definition push_escape_tilde :: "u8 \<Rightarrow> input \<Rightarrow> input" where
  "push_escape_tilde digit s =
     (if digit = 0x35 then push_key_event INPUT_KEY_PGUP s
      else if digit = 0x36 then push_key_event INPUT_KEY_PGDN s
      else s)"

definition input_inject_byte :: "int \<Rightarrow> input \<Rightarrow> input" where
  "input_inject_byte c s =
     (case g_esc_state s of
        ESC_STATE_IDLE \<Rightarrow>
          if c = 0x1B
          then push_key_event (word_of_int c) (s\<lparr>g_esc_state := ESC_STATE_GOT_ESC\<rparr>)
          else push_key_event (word_of_int c) s
      | ESC_STATE_GOT_ESC \<Rightarrow>
          if c = 0x5B then s\<lparr>g_esc_state := ESC_STATE_GOT_BRACKET\<rparr>
          else if c = 0x1B
          then push_key_event (word_of_int c) (s\<lparr>g_esc_state := ESC_STATE_GOT_ESC\<rparr>)
          else push_key_event (word_of_int c) (s\<lparr>g_esc_state := ESC_STATE_IDLE\<rparr>)
      | ESC_STATE_GOT_BRACKET \<Rightarrow>
          if c \<ge> 0x30 \<and> c \<le> 0x39
          then s\<lparr>g_esc_state := ESC_STATE_GOT_BRACKET_DIGIT, g_esc_discard := word_of_int c\<rparr>
          else push_escape_key (word_of_int c) (s\<lparr>g_esc_state := ESC_STATE_IDLE\<rparr>)
      | ESC_STATE_GOT_BRACKET_DIGIT \<Rightarrow>
          if c = 0x7E
          then push_escape_tilde (g_esc_discard s) (s\<lparr>g_esc_state := ESC_STATE_IDLE\<rparr>)
          else s\<lparr>g_esc_state := ESC_STATE_IDLE\<rparr>)"

definition input_uart_poll :: "int \<Rightarrow> input \<Rightarrow> int \<times> input" where
  "input_uart_poll c s = (if c < 0 then (-1, s) else (0, input_inject_byte c s))"

section \<open>The queue as a list of events\<close>

definition input_ok :: "input \<Rightarrow> bool" where
  "input_ok s \<longleftrightarrow> ring_ok 64 (g_event_queue s) (g_event_head s) (g_event_tail s) (g_event_count s)"

definition input_events :: "input \<Rightarrow> input_event list" where
  "input_events s = ring_content 64 (g_event_queue s) (g_event_head s) (g_event_count s)"

lemma length_input_events [simp]: "length (input_events s) = g_event_count s"
  by (simp add: input_events_def)

lemma input_push_room:
  assumes "input_ok s" and "g_event_count s < 64"
  shows "\<exists>s'. input_queue_push e s = Some s' \<and> input_ok s' \<and> input_events s' = input_events s @ [e] \<and>
     g_esc_state s' = g_esc_state s \<and> g_esc_discard s' = g_esc_discard s"
  using assms ring_push [of 64 "g_event_queue s" "g_event_head s" "g_event_tail s" "g_event_count s" e]
  by (simp add: input_queue_push_def input_ok_def input_events_def)

lemma input_poll_front:
  assumes "input_ok s" and "0 < g_event_count s"
  shows "\<exists>s'. input_queue_poll s = Some (hd (input_events s), s') \<and> input_ok s' \<and>
     input_events s' = tl (input_events s) \<and> g_esc_state s' = g_esc_state s"
  using assms ring_pop [of 64 "g_event_queue s" "g_event_head s" "g_event_tail s" "g_event_count s"]
  by (simp add: input_queue_poll_def input_ok_def input_events_def)

interpretation inq: fifo INPUT_EVENT_QUEUE_SIZE input_ok input_events input_queue_push input_queue_poll
proof
  fix s :: input and e q
  assume ok: "input_ok s"
  show "length (input_events s) < 64 \<Longrightarrow>
      \<exists>s'. input_queue_push e s = Some s' \<and> input_ok s' \<and> input_events s' = input_events s @ [e]"
    using input_push_room [OF ok] by fastforce
  show "length (input_events s) \<ge> 64 \<Longrightarrow> input_queue_push e s = None"
    by (simp add: input_queue_push_def)
  show "input_events s = [] \<Longrightarrow> input_queue_poll s = None"
    using length_input_events [of s] by (simp add: input_queue_poll_def)
  show "\<exists>s'. input_queue_poll s = Some (e, s') \<and> input_ok s' \<and> input_events s' = q"
    if "input_events s = e # q"
    using input_poll_front [OF ok] that length_input_events [of s] by fastforce
qed

text \<open>A key event is appended when there is room and dropped when the queue is full.\<close>

lemma push_key_event_room:
  assumes "input_ok s" and "g_event_count s < 64"
  shows "input_ok (push_key_event k s)"
    and "input_events (push_key_event k s) = input_events s @ [INPUT_EVENT_KEY_PRESS 0 k]"
    and "g_esc_state (push_key_event k s) = g_esc_state s"
  using input_push_room [OF assms, of "INPUT_EVENT_KEY_PRESS 0 k"] by (auto simp: push_key_event_def)

lemma push_key_event_full: "g_event_count s \<ge> 64 \<Longrightarrow> push_key_event k s = s"
  by (simp add: push_key_event_def input_queue_push_def)

lemma push_key_event_ok [kernel_inv]: "input_ok s \<Longrightarrow> input_ok (push_key_event k s)"
  using push_key_event_room [of s k] push_key_event_full [of s k] by (cases "g_event_count s < 64") auto

lemma input_ok_esc [simp]:
  "input_ok (s\<lparr>g_esc_state := x\<rparr>) = input_ok s" "input_ok (s\<lparr>g_esc_discard := y\<rparr>) = input_ok s"
  "input_events (s\<lparr>g_esc_state := x\<rparr>) = input_events s"
  "input_events (s\<lparr>g_esc_discard := y\<rparr>) = input_events s"
  by (simp_all add: input_ok_def input_events_def)

lemma inject_ok [kernel_inv]: "input_ok s \<Longrightarrow> input_ok (input_inject_byte c s)"
  by (auto simp: input_inject_byte_def push_escape_key_def push_escape_tilde_def push_key_event_ok
      split: esc_state.splits)

lemma push_key_frame [simp]:
  "g_esc_state (push_key_event k s) = g_esc_state s"
  "g_esc_discard (push_key_event k s) = g_esc_discard s"
  by (auto simp: push_key_event_def input_queue_push_def split: option.splits if_splits)

lemma inject_plain:
  assumes "input_ok s" and "g_esc_state s = ESC_STATE_IDLE" and "c \<noteq> 0x1B" and "g_event_count s < 64"
  shows "input_ok (input_inject_byte c s)"
    and "g_esc_state (input_inject_byte c s) = ESC_STATE_IDLE"
    and "input_events (input_inject_byte c s) =
      input_events s @ [INPUT_EVENT_KEY_PRESS 0 (word_of_int c)]"
  using assms push_key_event_room [OF assms(1,4)] by (simp_all add: input_inject_byte_def)

lemma inject_text:
  assumes "input_ok s" and "g_esc_state s = ESC_STATE_IDLE" and "0x1B \<notin> set cs"
    and "g_event_count s + length cs \<le> 64"
  shows "input_ok (fold input_inject_byte cs s) \<and>
     g_esc_state (fold input_inject_byte cs s) = ESC_STATE_IDLE \<and>
     input_events (fold input_inject_byte cs s) =
       input_events s @ map (\<lambda>c. INPUT_EVENT_KEY_PRESS 0 (word_of_int c)) cs"
  using assms
proof (induction cs arbitrary: s)
  case (Cons c cs)
  have p: "input_ok (input_inject_byte c s)" "g_esc_state (input_inject_byte c s) = ESC_STATE_IDLE"
    "input_events (input_inject_byte c s) = input_events s @ [INPUT_EVENT_KEY_PRESS 0 (word_of_int c)]"
    using inject_plain [of s c] Cons.prems by auto
  moreover have "g_event_count (input_inject_byte c s) = Suc (g_event_count s)"
    using arg_cong [OF p(3), of length] by simp
  ultimately show ?case using Cons.IH [of "input_inject_byte c s"] Cons.prems by simp
qed simp

lemma uint_and_ff: "uint (x AND 0xff :: u32) = uint x mod 256"
proof -
  have "(0xff :: u32) = mask 8" by (simp add: mask_eq_exp_minus_1)
  then have "x AND 0xff = take_bit 8 x" by (simp add: take_bit_eq_mask)
  then show ?thesis by (simp add: take_bit_eq_mod uint_mod)
qed

fun poll_chars :: "nat \<Rightarrow> input \<Rightarrow> int list \<times> input" where
  "poll_chars 0 s = ([], s)"
| "poll_chars (Suc n) s =
     (let (c, s') = input_queue_poll_char s; (cs, s'') = poll_chars n s' in (c # cs, s''))"

lemma poll_chars_keys:
  assumes "input_ok s" and "input_events s = map (\<lambda>c. INPUT_EVENT_KEY_PRESS 0 (word_of_int c)) cs @ q"
    and "\<forall>c\<in>set cs. 0 \<le> c \<and> c < 256"
  shows "\<exists>s'. poll_chars (length cs) s = (cs, s') \<and> input_ok s' \<and> input_events s' = q"
  using assms
proof (induction cs arbitrary: s)
  case (Cons c cs)
  then have "0 < g_event_count s" by (metis length_input_events length_greater_0_conv list.simps(3,9) append_Cons)
  then obtain s1 where s1: "input_queue_poll s = Some (hd (input_events s), s1)" "input_ok s1"
    "input_events s1 = tl (input_events s)"
    using input_poll_front [OF Cons.prems(1)] by blast
  have "uint (word_of_int c AND 0xff :: u32) = c"
    using Cons.prems(3) uint_and_ff [of "word_of_int c"] by (simp add: uint_word_of_int_eq take_bit_eq_mod)
  then have "input_queue_poll_char s = (c, s1)"
    using s1 Cons.prems(2) by (simp add: input_queue_poll_char_def)
  then show ?case using Cons.IH [of s1] s1 Cons.prems by auto
qed simp

section \<open>Properties\<close>

definition input_reset :: input where
  "input_reset = \<lparr>g_event_queue = replicate 64 (INPUT_EVENT_KEY_PRESS 0 0), g_event_head = 0,
     g_event_tail = 0, g_event_count = 0, g_esc_state = ESC_STATE_IDLE, g_esc_discard = 0\<rparr>"

lemma input_reset_ok [simp]: "input_ok input_reset" "input_events input_reset = []"
  "g_esc_state input_reset = ESC_STATE_IDLE" "g_event_count input_reset = 0"
  by (simp_all add: input_reset_def input_ok_def ring_ok_def input_events_def ring_content_def)

text \<open>The event queue is a bounded FIFO: from an empty queue, any list of up to 64 events is
  accepted and polled back in the same order, leaving the queue empty again, and a push into a
  full queue is refused; this holds wherever the ring currently starts in the array.\<close>

theorem input_queue_fifo:
  assumes "input_ok s" and "input_events s = []"
  shows "(length es \<le> 64 \<longrightarrow> (\<exists>s' s''. push_all input_queue_push es s = Some s' \<and>
       pop_n input_queue_poll (length es) s' = Some (es, s'') \<and> input_ok s'' \<and> input_events s'' = [])) \<and>
     (64 < length es \<longrightarrow> push_all input_queue_push es s = None)"
proof (intro conjI impI)
  assume "length es \<le> 64"
  then show "\<exists>s' s''. push_all input_queue_push es s = Some s' \<and>
       pop_n input_queue_poll (length es) s' = Some (es, s'') \<and> input_ok s'' \<and> input_events s'' = []"
    using inq.first_in_first_out [OF assms] by blast
next
  assume long: "64 < length es"
  then have "es = take 64 es @ es ! 64 # drop (Suc 64) es" by (rule id_take_nth_drop)
  then show "push_all input_queue_push es s = None"
    using inq.overfull_rejects [OF assms(1), of "take 64 es" "es ! 64" "drop (Suc 64) es"] assms(2) long
    by simp
qed

theorem input_queue_fifo_witness:
  "\<exists>s' s''. push_all input_queue_push [INPUT_EVENT_KEY_PRESS 0 65, INPUT_EVENT_MOUSE_MOVE 1 2 3] input_reset = Some s' \<and>
     pop_n input_queue_poll 2 s' = Some ([INPUT_EVENT_KEY_PRESS 0 65, INPUT_EVENT_MOUSE_MOVE 1 2 3], s'')"
  using input_queue_fifo [OF input_reset_ok(1,2), of "[INPUT_EVENT_KEY_PRESS 0 65, INPUT_EVENT_MOUSE_MOVE 1 2 3]"]
  by (auto simp: numeral_2_eq_2 simp del: push_all.simps pop_n.simps)

text \<open>C40 Plain text typed on the serial line comes back unchanged: bytes other than ESC injected in
  the idle state, as long as the queue has room for them, are read by \<open>input_queue_poll_char\<close> in the
  order they arrived.\<close>

theorem input_text_round_trip:
  assumes "input_ok s" and "input_events s = []" and "g_esc_state s = ESC_STATE_IDLE"
    and "\<forall>c\<in>set cs. 0 \<le> c \<and> c < 256 \<and> c \<noteq> 0x1B" and "length cs \<le> 64"
  shows "fst (poll_chars (length cs) (fold input_inject_byte cs s)) = cs"
proof -
  have "g_event_count s = 0" using assms(2) length_input_events [of s] by simp
  then have "input_ok (fold input_inject_byte cs s) \<and>
      input_events (fold input_inject_byte cs s) = map (\<lambda>c. INPUT_EVENT_KEY_PRESS 0 (word_of_int c)) cs @ []"
    using inject_text [of s cs] assms by auto
  then show ?thesis using poll_chars_keys [of "fold input_inject_byte cs s" cs "[]"] assms(4) by auto
qed

theorem input_text_round_trip_witness:
  "fst (poll_chars 2 (fold input_inject_byte [0x6C, 0x73] input_reset)) = [0x6C, 0x73]"
  using input_text_round_trip [of input_reset "[0x6C, 0x73]"]
  by (simp add: numeral_2_eq_2 del: poll_chars.simps)

definition arrow_key :: "int \<Rightarrow> u32 list" where
  "arrow_key x = (if x = 0x41 then [INPUT_KEY_UP] else if x = 0x42 then [INPUT_KEY_DOWN]
     else if x = 0x43 then [INPUT_KEY_RIGHT] else if x = 0x44 then [INPUT_KEY_LEFT] else [])"

definition tilde_key :: "int \<Rightarrow> u32 list" where
  "tilde_key d = (if d = 0x35 then [INPUT_KEY_PGUP] else if d = 0x36 then [INPUT_KEY_PGDN] else [])"

definition key_press :: "u32 \<Rightarrow> input_event" where
  "key_press k = INPUT_EVENT_KEY_PRESS 0 k"

lemma uint_byte: "0 \<le> x \<Longrightarrow> x < 256 \<Longrightarrow> uint (word_of_int x :: u8) = x"
  by (simp add: uint_word_of_int_eq take_bit_eq_mod)

lemma push_escape_key_events:
  assumes "input_ok s" and "g_event_count s < 64" and "0 \<le> x" and "x < 256"
  shows "input_events (push_escape_key (word_of_int x) s) = input_events s @ map key_press (arrow_key x)"
    and "g_esc_state (push_escape_key (word_of_int x) s) = g_esc_state s"
  using push_key_event_room(2) [OF assms(1,2)] uint_byte [OF assms(3,4)]
  by (auto simp: push_escape_key_def arrow_key_def key_press_def word_uint_eq_iff)

lemma push_escape_tilde_events:
  assumes "input_ok s" and "g_event_count s < 64" and "0 \<le> x" and "x < 256"
  shows "input_events (push_escape_tilde (word_of_int x) s) = input_events s @ map key_press (tilde_key x)"
    and "g_esc_state (push_escape_tilde (word_of_int x) s) = g_esc_state s"
  using push_key_event_room(2) [OF assms(1,2)] uint_byte [OF assms(3,4)]
  by (auto simp: push_escape_tilde_def tilde_key_def key_press_def word_uint_eq_iff)

lemma inject_csi:
  assumes "input_ok s" and "g_esc_state s = ESC_STATE_IDLE" and "g_event_count s < 64"
  defines "s2 \<equiv> input_inject_byte 0x5B (input_inject_byte 0x1B s)"
  shows "input_ok s2" and "input_events s2 = input_events s @ [key_press 0x1B]"
    and "g_esc_state s2 = ESC_STATE_GOT_BRACKET"
proof -
  define s0 where "s0 = s\<lparr>g_esc_state := ESC_STATE_GOT_ESC\<rparr>"
  have "s2 = (push_key_event 0x1B s0)\<lparr>g_esc_state := ESC_STATE_GOT_BRACKET\<rparr>"
    using assms(2) by (simp add: s2_def input_inject_byte_def s0_def)
  then show "input_ok s2" "input_events s2 = input_events s @ [key_press 0x1B]"
    "g_esc_state s2 = ESC_STATE_GOT_BRACKET"
    using push_key_event_room [of s0 "0x1B"] assms(1,3) by (simp_all add: s0_def key_press_def)
qed

text \<open>The escape-sequence parser: from the idle state with room for two events, the three bytes
  ESC [ x queue the ESC key and then the arrow key of x (nothing more if x is not one of A, B, C, D and not
  a digit), the four bytes ESC [ d ~ queue ESC and then Page Up or Page Down for the digits 5 and 6
  (nothing more for other digits); in each case the parser is idle again.\<close>

theorem input_escape_sequences:
  assumes "input_ok s" and "g_esc_state s = ESC_STATE_IDLE" and "g_event_count s + 2 \<le> 64"
    and "0 \<le> x" and "x < 256"
  shows "if 0x30 \<le> x \<and> x \<le> 0x39
    then input_events (fold input_inject_byte [0x1B, 0x5B, x, 0x7E] s) =
           input_events s @ map key_press (0x1B # tilde_key x) \<and>
         g_esc_state (fold input_inject_byte [0x1B, 0x5B, x, 0x7E] s) = ESC_STATE_IDLE
    else input_events (fold input_inject_byte [0x1B, 0x5B, x] s) =
           input_events s @ map key_press (0x1B # arrow_key x) \<and>
         g_esc_state (fold input_inject_byte [0x1B, 0x5B, x] s) = ESC_STATE_IDLE"
proof -
  define s2 where "s2 = input_inject_byte 0x5B (input_inject_byte 0x1B s)"
  have s2: "input_ok s2" "input_events s2 = input_events s @ [key_press 0x1B]"
    "g_esc_state s2 = ESC_STATE_GOT_BRACKET"
    unfolding s2_def using inject_csi [of s] assms by auto
  have cnt: "g_event_count s2 < 64"
    using arg_cong [OF s2(2), of length] assms(3) by simp
  show ?thesis
  proof (cases "0x30 \<le> x \<and> x \<le> 0x39")
    case True
    let ?t = "s2\<lparr>g_esc_discard := word_of_int x, g_esc_state := ESC_STATE_IDLE\<rparr>"
    have "input_inject_byte 0x7E (input_inject_byte x s2) = push_escape_tilde (word_of_int x) ?t"
      using True s2(3) by (simp add: input_inject_byte_def)
    then show ?thesis using True push_escape_tilde_events [of ?t x] s2 cnt assms(4,5)
      by (simp add: s2_def [symmetric])
  next
    case False
    let ?t = "s2\<lparr>g_esc_state := ESC_STATE_IDLE\<rparr>"
    have "input_inject_byte x s2 = push_escape_key (word_of_int x) ?t"
      using False s2(3) by (auto simp: input_inject_byte_def)
    then show ?thesis unfolding if_not_P [OF False] using push_escape_key_events [of ?t x] s2 cnt assms(4,5)
      by (simp add: s2_def [symmetric])
  qed
qed

theorem input_escape_sequences_witness:
  "input_events (fold input_inject_byte [0x1B, 0x5B, 0x41] input_reset) =
     map key_press [0x1B, INPUT_KEY_UP]"
  using input_escape_sequences [of input_reset "0x41"] by (simp add: arrow_key_def)

text \<open>The comment of the parser says that a stray byte is never queued as a key event; a byte that
  follows a lone ESC is queued.\<close>

lemma stray_byte_after_escape:
  "input_events (fold input_inject_byte [0x1B, 0x78] input_reset) = map key_press [0x1B, 0x78]"
proof -
  let ?s0 = "input_reset\<lparr>g_esc_state := ESC_STATE_GOT_ESC\<rparr>"
  let ?s1 = "push_key_event 0x1B ?s0"
  have "fold input_inject_byte [0x1B, 0x78] input_reset =
      push_key_event 0x78 (?s1\<lparr>g_esc_state := ESC_STATE_IDLE\<rparr>)"
    by (simp add: input_inject_byte_def)
  moreover have ok: "input_ok ?s1" "input_events ?s1 = [key_press 0x1B]"
    using push_key_event_room [of ?s0 "0x1B"] by (simp_all add: key_press_def)
  moreover have "g_event_count ?s1 = 1" using arg_cong [OF ok(2), of length] by simp
  ultimately show ?thesis
    using push_key_event_room [of "?s1\<lparr>g_esc_state := ESC_STATE_IDLE\<rparr>" "0x78"] by (simp add: key_press_def)
qed

end
