(* ===== verification/RoundRobin.thy ===== *)
theory RoundRobin
  imports Prelude
begin

text \<open>
  Cyclic scans. The kernel-thread scheduler (\<open>sched.c\<close>) and the process dispatcher (\<open>process.c\<close>)
  choose the next runnable entry of a fixed table by scanning it in cyclic order from the entry
  after the current one. This theory has the distance such a scan travels and the contract
  \<open>round_robin\<close>, from which no ready entry waits longer than one round.
\<close>

definition cyclic_scan :: "nat \<Rightarrow> nat \<Rightarrow> nat \<Rightarrow> (nat \<Rightarrow> bool) \<Rightarrow> nat option" where
  "cyclic_scan N start count P =
     map_option (\<lambda>k. (start + k) mod N) (first_index count (\<lambda>k. P ((start + k) mod N)))"

text \<open>The number of entries a scan that starts after \<open>c\<close> passes before it reaches \<open>i\<close>.\<close>

definition cdist :: "nat \<Rightarrow> nat \<Rightarrow> nat \<Rightarrow> nat" where
  "cdist N c i = (if c < i then i - c - 1 else i + N - 1 - c)"

lemma wrap_mod: "(x::nat) < 2 * N \<Longrightarrow> x mod N = (if x < N then x else x - N)"
  by (simp add: mod_if)

lemma cdist_index: "c < N \<Longrightarrow> i < N \<Longrightarrow> (c + 1 + cdist N c i) mod N = i"
  by (auto simp: cdist_def wrap_mod)

lemma cdist_of_offset: "c < N \<Longrightarrow> k < N \<Longrightarrow> cdist N c ((c + 1 + k) mod N) = k"
  by (auto simp: cdist_def wrap_mod)

lemma cdist_less: "c < N \<Longrightarrow> i < N \<Longrightarrow> cdist N c i < N"
  by (auto simp: cdist_def)

lemma cdist_other: "c < N \<Longrightarrow> i < N \<Longrightarrow> i \<noteq> c \<Longrightarrow> cdist N c i + 1 < N"
  by (auto simp: cdist_def)

lemma cdist_step:
  "c < N \<Longrightarrow> n < N \<Longrightarrow> i < N \<Longrightarrow> cdist N c n < cdist N c i \<Longrightarrow> cdist N n i < cdist N c i"
  by (auto simp: cdist_def split: if_splits)

lemma cdist_inj: "c < N \<Longrightarrow> i < N \<Longrightarrow> j < N \<Longrightarrow> cdist N c i = cdist N c j \<longleftrightarrow> i = j"
  by (auto simp: cdist_def split: if_splits)

lemma cyclic_scan_Some:
  "0 < N \<Longrightarrow> cyclic_scan N st count P = Some n \<Longrightarrow> n < N \<and> P n"
  by (auto simp: cyclic_scan_def dest: first_index_SomeD)

lemma cyclic_scan_nearest:
  assumes "c < N" and "count \<le> N" and "cyclic_scan N (c + 1) count P = Some n" and "i < N" and "P i"
  shows "cdist N c n \<le> cdist N c i"
proof (rule ccontr)
  assume far: "\<not> cdist N c n \<le> cdist N c i"
  obtain k where k: "first_index count (\<lambda>k. P ((c + 1 + k) mod N)) = Some k" "n = (c + 1 + k) mod N"
    using assms(3) by (auto simp: cyclic_scan_def)
  then have "k < N" using first_index_SomeD(1) [OF k(1)] assms(2) by simp
  then have "cdist N c n = k" using cdist_of_offset [OF assms(1)] k(2) by simp
  then have "\<not> P ((c + 1 + cdist N c i) mod N)"
    using first_index_SomeD(3) [OF k(1)] far by simp
  then show False using cdist_index [OF assms(1,4)] assms(5) by simp
qed

lemma cyclic_scan_None:
  assumes "c < N" and "cyclic_scan N (c + 1) count P = None" and "i < N" and "cdist N c i < count"
  shows "\<not> P i"
  using assms cdist_index [OF assms(1,3)]
  by (auto simp: cyclic_scan_def first_index_None_iff)

lemma cyclic_scan_all_None:
  assumes "cyclic_scan N st N P = None" and "i < N"
  shows "\<not> P i"
proof -
  obtain m where m: "m = st mod N" "m < N" using assms(2) by (metis gr_implies_not0 mod_less_divisor neq0_conv)
  define k where "k = (if m \<le> i then i - m else i + N - m)"
  have k: "k < N" and "m + k = (if m \<le> i then i else i + N)"
    using m(2) assms(2) by (auto simp: k_def)
  then have "(m + k) mod N = i" using assms(2) by simp
  then have "(st + k) mod N = i" by (simp add: m(1) mod_add_left_eq)
  then show ?thesis using assms(1) k by (auto simp: cyclic_scan_def first_index_None_iff)
qed

locale round_robin =
  fixes N :: nat
    and good :: "'s \<Rightarrow> bool"
    and current :: "'s \<Rightarrow> nat option"
    and ready :: "'s \<Rightarrow> nat \<Rightarrow> bool"
    and rotate :: "'s \<Rightarrow> 's"
  assumes current_entry: "good s \<Longrightarrow> current s = Some c \<Longrightarrow> c < N \<and> \<not> ready s c"
    and rotate_good: "good s \<Longrightarrow> good (rotate s)"
    and rotate_next: "good s \<Longrightarrow> current s = Some c \<Longrightarrow> i < N \<Longrightarrow> ready s i \<Longrightarrow>
      \<exists>n<N. current (rotate s) = Some n \<and> ready s n \<and> (\<forall>j<N. ready s j \<longrightarrow> cdist N c n \<le> cdist N c j) \<and>
        (\<forall>j<N. ready s j \<longrightarrow> j \<noteq> n \<longrightarrow> ready (rotate s) j)"
begin

lemma served_within:
  assumes "good s" and "current s = Some c" and "i < N" and "ready s i"
  shows "\<exists>k\<le>cdist N c i + 1. current ((rotate ^^ k) s) = Some i"
  using assms
proof (induction "cdist N c i" arbitrary: s c rule: less_induct)
  case less
  obtain n where n: "n < N" "current (rotate s) = Some n" "cdist N c n \<le> cdist N c i"
    "i \<noteq> n \<Longrightarrow> ready (rotate s) i"
    using rotate_next [OF less.prems] less.prems(3,4) by blast
  have c: "c < N" using current_entry [OF less.prems(1,2)] by simp
  show ?case
  proof (cases "i = n")
    case True
    then show ?thesis using n(2) by (intro exI [of _ 1]) simp
  next
    case False
    then have "cdist N c n < cdist N c i"
      using n cdist_inj [OF c n(1) less.prems(3)] by force
    then have shorter: "cdist N n i < cdist N c i" using cdist_step c n(1) less.prems(3) by blast
    then obtain k where k: "k \<le> cdist N n i + 1" "current ((rotate ^^ k) (rotate s)) = Some i"
      using less.hyps [OF shorter rotate_good [OF less.prems(1)] n(2) less.prems(3) n(4) [OF False]] by blast
    then show ?thesis using shorter by (intro exI [of _ "Suc k"]) (simp add: funpow_Suc_right del: funpow.simps)
  qed
qed

lemma served_in_one_round:
  assumes "good s" and "current s = Some c" and "i < N" and "ready s i"
  shows "\<exists>k<N. current ((rotate ^^ k) s) = Some i"
proof -
  have "i \<noteq> c" and "c < N" using current_entry [OF assms(1,2)] assms(4) by auto
  then have "cdist N c i + 1 < N" using cdist_other assms(3) by blast
  then show ?thesis using served_within [OF assms] by (meson le_less_trans)
qed

end

end
