(* ===== verification/Sched.thy ===== *)
theory Sched
  imports Pmm RoundRobin
begin

text \<open>
  The cooperative kernel-thread scheduler, \<open>kernel/sched/sched.c\<close>, with the register save and
  restore of \<open>switch.S\<close>. The thread table has four slots; a thread pointer is the slot's index.
  The processor's callee-saved registers are the field \<open>cpu\<close>, the interrupt mask the field
  \<open>irq_on\<close>. \<open>switch_context\<close> saves \<open>cpu\<close> with the return address of its call in the link register and
  loads the new context. What runs after it is the code the new link register points to: the
  trampoline of a fresh thread, or the rest of the \<open>sched_yield\<close> call in which the thread gave up the
  processor; \<open>sched_switched_in\<close> is that continuation. The addresses of the trampoline and of
  the return point are chosen by the linker and are parameters.
\<close>

abbreviation SCHED_MAX_THREADS :: nat where "SCHED_MAX_THREADS \<equiv> 4"
abbreviation SCHED_STACK_PAGES :: u64 where "SCHED_STACK_PAGES \<equiv> 4"

record sched_context =
  x19 :: u64
  x20 :: u64
  x21_29 :: "u64 list"
  ctx_sp :: u64
  ctx_lr :: u64

datatype thread_state = THREAD_UNUSED | THREAD_READY | THREAD_RUNNING | THREAD_ZOMBIE

record kernel_thread =
  th_pid :: u32
  th_state :: thread_state
  th_context :: sched_context
  th_stack_base :: u64
  th_name :: "string option"

record sched =
  g_sched_ticks :: u64
  g_sched_quantums :: u64
  g_quantum_ticks :: u32
  g_ticks_left :: u32
  g_threads :: "kernel_thread list"
  g_current_thread :: "nat option"
  g_thread_count :: u32
  g_next_pid :: u32
  cpu :: sched_context
  irq_on :: bool

section \<open>Operations\<close>

definition set_thread :: "nat \<Rightarrow> (kernel_thread \<Rightarrow> kernel_thread) \<Rightarrow> sched \<Rightarrow> sched" where
  "set_thread i f s = s\<lparr>g_threads := (g_threads s)[i := f (g_threads s ! i)]\<rparr>"

definition sched_init :: "u32 \<Rightarrow> sched \<Rightarrow> sched" where
  "sched_init quantum_ticks s =
     (let q = (if quantum_ticks = 0 then 1 else quantum_ticks)
      in s\<lparr>g_sched_ticks := 0, g_sched_quantums := 0, g_quantum_ticks := q, g_ticks_left := q,
           g_current_thread := None, g_thread_count := 0, g_next_pid := 1,
           g_threads := map (\<lambda>t. t\<lparr>th_pid := 0, th_state := THREAD_UNUSED, th_stack_base := 0,
                                    th_name := None\<rparr>) (g_threads s)\<rparr>)"

definition next_runnable_thread :: "sched \<Rightarrow> nat option" where
  "next_runnable_thread s =
     (let start = (case g_current_thread s of Some c \<Rightarrow> c + 1 | None \<Rightarrow> 0)
      in cyclic_scan SCHED_MAX_THREADS start SCHED_MAX_THREADS
           (\<lambda>index. th_state (g_threads s ! index) = THREAD_READY))"

definition sched_create_kernel_thread ::
    "u64 \<Rightarrow> u64 \<Rightarrow> u64 \<Rightarrow> string option \<Rightarrow> sched \<Rightarrow> pmm \<Rightarrow> bool \<times> sched \<times> pmm" where
  "sched_create_kernel_thread tramp entry arg name s p =
     (if entry = 0 then (False, s, p)
      else case first_index SCHED_MAX_THREADS (\<lambda>i. th_state (g_threads s ! i) = THREAD_UNUSED) of
          None \<Rightarrow> (False, s, p)
        | Some i \<Rightarrow>
            (let (stack, p') = pmm_alloc_pages SCHED_STACK_PAGES p
             in if stack = 0 then (False, s, p')
                else (True,
                  (set_thread i (\<lambda>t. \<lparr>th_pid = g_next_pid s, th_state = THREAD_READY,
                       th_context = \<lparr>x19 = entry, x20 = arg, x21_29 = replicate 9 0,
                         ctx_sp = stack + SCHED_STACK_PAGES * PAGE_SIZE, ctx_lr = tramp\<rparr>,
                       th_stack_base = stack, th_name = name\<rparr>) s)
                    \<lparr>g_next_pid := g_next_pid s + 1, g_thread_count := g_thread_count s + 1\<rparr>,
                  p')))"

text \<open>\<open>switch_context\<close> with the address it returns to when the saved context is resumed; the boot
  context of \<open>sched_start\<close> lives on the stack and is never resumed.\<close>

definition switch_context :: "u64 \<Rightarrow> nat option \<Rightarrow> nat \<Rightarrow> sched \<Rightarrow> sched" where
  "switch_context ret old new s =
     (let s' = (case old of None \<Rightarrow> s
                | Some o' \<Rightarrow> set_thread o' (\<lambda>t. t\<lparr>th_context := (cpu s)\<lparr>ctx_lr := ret\<rparr>\<rparr>) s)
      in s'\<lparr>cpu := th_context (g_threads s' ! new)\<rparr>)"

definition sched_switched_in :: "u64 \<Rightarrow> sched \<Rightarrow> sched" where
  "sched_switched_in tramp s = (if ctx_lr (cpu s) = tramp then s else s\<lparr>irq_on := True\<rparr>)"

definition sched_start :: "sched \<Rightarrow> sched" where
  "sched_start s =
     (case next_runnable_thread s of
        None \<Rightarrow> s
      | Some n \<Rightarrow>
          switch_context 0 None n
            (set_thread n (\<lambda>t. t\<lparr>th_state := THREAD_RUNNING\<rparr>) (s\<lparr>g_current_thread := Some n\<rparr>)))"

definition sched_yield :: "u64 \<Rightarrow> u64 \<Rightarrow> sched \<Rightarrow> sched" where
  "sched_yield tramp ret s =
     (case g_current_thread s of
        None \<Rightarrow> s
      | Some old \<Rightarrow>
          (let s0 = s\<lparr>irq_on := False\<rparr>
           in case next_runnable_thread s0 of
                None \<Rightarrow> s0\<lparr>irq_on := True\<rparr>
              | Some n \<Rightarrow>
                  if n = old then s0\<lparr>irq_on := True\<rparr>
                  else
                    (let s1 = set_thread old (\<lambda>t. t\<lparr>th_state := THREAD_READY\<rparr>) s0;
                         s2 = set_thread n (\<lambda>t. t\<lparr>th_state := THREAD_RUNNING\<rparr>) s1
                     in sched_switched_in tramp
                          (switch_context ret (Some old) n (s2\<lparr>g_current_thread := Some n\<rparr>)))))"

text \<open>A first component \<open>False\<close> says that the processor idles for ever in \<open>sched_wait_for_event\<close>; the
  second component is then the state it idles in.\<close>

definition sched_thread_exit :: "u64 \<Rightarrow> u64 \<Rightarrow> sched \<Rightarrow> bool \<times> sched" where
  "sched_thread_exit tramp ret s =
     (let s0 = s\<lparr>irq_on := False\<rparr>
      in case g_current_thread s0 of
           None \<Rightarrow> (False, s0\<lparr>irq_on := True\<rparr>)
         | Some old \<Rightarrow>
             (let s1 = set_thread old (\<lambda>t. t\<lparr>th_state := THREAD_ZOMBIE\<rparr>) s0;
                  s2 = (if g_thread_count s1 > 0 then s1\<lparr>g_thread_count := g_thread_count s1 - 1\<rparr> else s1)
              in case next_runnable_thread s2 of
                   None \<Rightarrow> (False, s2\<lparr>irq_on := True\<rparr>)
                 | Some n \<Rightarrow>
                     (True, sched_switched_in tramp
                        (switch_context ret (Some old) n
                          ((set_thread n (\<lambda>t. t\<lparr>th_state := THREAD_RUNNING\<rparr>) s2)
                             \<lparr>g_current_thread := Some n\<rparr>)))))"

definition sched_on_timer_tick :: "sched \<Rightarrow> sched" where
  "sched_on_timer_tick s =
     (let s1 = s\<lparr>g_sched_ticks := g_sched_ticks s + 1\<rparr>;
          s2 = (if g_ticks_left s1 > 0 then s1\<lparr>g_ticks_left := g_ticks_left s1 - 1\<rparr> else s1)
      in if g_ticks_left s2 = 0
         then s2\<lparr>g_sched_quantums := g_sched_quantums s2 + 1, g_ticks_left := g_quantum_ticks s2\<rparr>
         else s2)"

definition sched_ticks :: "sched \<Rightarrow> u64" where
  "sched_ticks s = g_sched_ticks s"

definition sched_quantums :: "sched \<Rightarrow> u64" where
  "sched_quantums s = g_sched_quantums s"

section \<open>The thread table\<close>

definition tstate :: "sched \<Rightarrow> nat \<Rightarrow> thread_state" where
  "tstate s i = th_state (g_threads s ! i)"

definition active_threads :: "sched \<Rightarrow> nat set" where
  "active_threads s = {i. i < 4 \<and> tstate s i \<in> {THREAD_READY, THREAD_RUNNING}}"

text \<open>\<open>live\<close> is false once the processor idles for ever.\<close>

definition sched_inv :: "bool \<Rightarrow> sched \<Rightarrow> bool" where
  "sched_inv live s \<longleftrightarrow> length (g_threads s) = 4 \<and>
     {i. i < 4 \<and> tstate s i = THREAD_RUNNING} \<subseteq> set_option (g_current_thread s) \<and>
     (\<forall>c. g_current_thread s = Some c \<longrightarrow>
        c < 4 \<and> tstate s c = (if live then THREAD_RUNNING else THREAD_ZOMBIE)) \<and>
     unat (g_thread_count s) = card (active_threads s)"

lemma sched_inv_current:
  "sched_inv True s \<Longrightarrow> g_current_thread s = Some c \<Longrightarrow> c < 4 \<and> tstate s c = THREAD_RUNNING"
  by (simp add: sched_inv_def)

lemma finite_active [simp]: "finite (active_threads s)"
  by (auto simp: active_threads_def intro: finite_subset [of _ "{..<4}"])

lemma card_active_le: "card (active_threads s) \<le> 4"
  using card_mono [of "{..<4}" "active_threads s"] by (auto simp: active_threads_def)

lemma set_thread_simps [simp]:
  "length (g_threads (set_thread i f s)) = length (g_threads s)"
  "g_current_thread (set_thread i f s) = g_current_thread s"
  "g_thread_count (set_thread i f s) = g_thread_count s"
  "cpu (set_thread i f s) = cpu s" "irq_on (set_thread i f s) = irq_on s"
  "g_threads (set_thread i f s) = (g_threads s)[i := f (g_threads s ! i)]"
  by (simp_all add: set_thread_def)

lemma switch_context_simps [simp]:
  "length (g_threads (switch_context r old n s)) = length (g_threads s)"
  "g_current_thread (switch_context r old n s) = g_current_thread s"
  "g_thread_count (switch_context r old n s) = g_thread_count s"
  "irq_on (switch_context r old n s) = irq_on s"
  by (simp_all add: switch_context_def Let_def split: option.splits)

lemma tstate_switch_context [simp]: "tstate (switch_context r old n s) i = tstate s i"
  by (cases "\<exists>o'. old = Some o' \<and> o' < length (g_threads s)")
     (auto simp: switch_context_def tstate_def Let_def nth_list_update list_update_beyond
       split: option.splits)

lemma switched_in_simps [simp]:
  "g_threads (sched_switched_in tr s) = g_threads s" "cpu (sched_switched_in tr s) = cpu s"
  "g_current_thread (sched_switched_in tr s) = g_current_thread s"
  "g_thread_count (sched_switched_in tr s) = g_thread_count s" "tstate (sched_switched_in tr s) = tstate s"
  by (simp_all add: sched_switched_in_def tstate_def fun_eq_iff)

lemma tstate_set_thread:
  assumes "length (g_threads s) = 4" and "i < 4"
  shows "tstate (set_thread i f s) j = (if j = i then th_state (f (g_threads s ! i)) else tstate s j)"
  using assms by (simp add: tstate_def)

lemma tstate_frame [simp]:
  "tstate (s\<lparr>irq_on := b\<rparr>) = tstate s" "tstate (s\<lparr>g_current_thread := c\<rparr>) = tstate s"
  "tstate (s\<lparr>g_thread_count := k\<rparr>) = tstate s" "tstate (s\<lparr>cpu := r\<rparr>) = tstate s"
  "tstate (s\<lparr>g_next_pid := q\<rparr>) = tstate s"
  by (simp_all add: tstate_def fun_eq_iff)

lemma next_runnable_Some:
  assumes "next_runnable_thread s = Some n"
  shows "n < 4" and "tstate s n = THREAD_READY"
  using assms cyclic_scan_Some [of 4]
  by (auto simp: next_runnable_thread_def Let_def tstate_def)

lemma next_runnable_None_iff:
  "next_runnable_thread s = None \<longleftrightarrow> (\<forall>i<4. tstate s i \<noteq> THREAD_READY)"
proof
  assume "next_runnable_thread s = None"
  then show "\<forall>i<4. tstate s i \<noteq> THREAD_READY"
    unfolding next_runnable_thread_def Let_def tstate_def using cyclic_scan_all_None by blast
next
  assume "\<forall>i<4. tstate s i \<noteq> THREAD_READY"
  then show "next_runnable_thread s = None" using next_runnable_Some [of s] by (cases "next_runnable_thread s") auto
qed

lemma next_runnable_nearest:
  assumes "g_current_thread s = Some c" and "c < 4" and "next_runnable_thread s = Some n"
    and "i < 4" and "tstate s i = THREAD_READY"
  shows "cdist 4 c n \<le> cdist 4 c i"
proof -
  have "cyclic_scan 4 (c + 1) 4 (\<lambda>i. tstate s i = THREAD_READY) = Some n"
    using assms(1,3) by (simp add: next_runnable_thread_def tstate_def)
  from cyclic_scan_nearest [OF assms(2) order_refl this assms(4)] assms(5) show ?thesis by simp
qed

section \<open>Invariant\<close>

text \<open>Handing the processor to a ready thread.\<close>

definition hand_over :: "u64 \<Rightarrow> nat option \<Rightarrow> nat \<Rightarrow> sched \<Rightarrow> sched" where
  "hand_over r old n s =
     switch_context r old n ((set_thread n (\<lambda>t. t\<lparr>th_state := THREAD_RUNNING\<rparr>) s)\<lparr>g_current_thread := Some n\<rparr>)"

lemma hand_over_tstate:
  assumes "length (g_threads s) = 4" and "n < 4"
  shows "tstate (hand_over r old n s) i = (if i = n then THREAD_RUNNING else tstate s i)"
  using assms by (simp add: hand_over_def tstate_set_thread)

lemma hand_over_simps [simp]:
  "g_current_thread (hand_over r old n s) = Some n" "g_thread_count (hand_over r old n s) = g_thread_count s"
  "length (g_threads (hand_over r old n s)) = length (g_threads s)"
  by (simp_all add: hand_over_def)

lemma hand_over_inv:
  assumes "length (g_threads s) = 4" and "n < 4" and "tstate s n = THREAD_READY"
    and "\<forall>i<4. tstate s i \<noteq> THREAD_RUNNING" and "unat (g_thread_count s) = card (active_threads s)"
  shows "sched_inv True (hand_over r old n s)"
proof -
  have "active_threads (hand_over r old n s) = active_threads s"
    using assms(1-4) by (auto simp: active_threads_def hand_over_tstate)
  then show ?thesis using assms by (auto simp: sched_inv_def hand_over_tstate)
qed

lemma sched_inv_switched_in [simp]: "sched_inv l (sched_switched_in tr s) = sched_inv l s"
  by (simp add: sched_inv_def active_threads_def)

lemma sched_inv_irq [simp]: "sched_inv l (s\<lparr>irq_on := b\<rparr>) = sched_inv l s"
  by (simp add: sched_inv_def active_threads_def)

lemma sched_start_inv [kernel_inv]:
  assumes "sched_inv True s" and "g_current_thread s = None"
  shows "sched_inv True (sched_start s)"
proof (cases "next_runnable_thread s")
  case None
  then show ?thesis using assms by (simp add: sched_start_def)
next
  case (Some n)
  have "sched_start s = hand_over 0 None n s"
    using Some by (cases s) (simp add: sched_start_def hand_over_def set_thread_def)
  then show ?thesis using hand_over_inv [of s n] next_runnable_Some [OF Some] assms
    by (auto simp: sched_inv_def)
qed

lemma sched_yield_cases:
  assumes "g_current_thread s = Some c" and "sched_inv True s"
  obtains (stay) "sched_yield tr r s = s\<lparr>irq_on := True\<rparr>" "\<forall>i<4. tstate s i \<noteq> THREAD_READY"
    | (switch) n where "next_runnable_thread s = Some n" "n \<noteq> c"
      "sched_yield tr r s = sched_switched_in tr (hand_over r (Some c) n
         (set_thread c (\<lambda>t. t\<lparr>th_state := THREAD_READY\<rparr>) (s\<lparr>irq_on := False\<rparr>)))"
proof -
  have nr: "next_runnable_thread (s\<lparr>irq_on := False\<rparr>) = next_runnable_thread s"
    by (simp add: next_runnable_thread_def)
  show ?thesis
  proof (cases "next_runnable_thread s")
    case None
    then have "sched_yield tr r s = s\<lparr>irq_on := True\<rparr>"
      using assms(1) nr by (simp add: sched_yield_def Let_def)
    moreover have "\<forall>i<4. tstate s i \<noteq> THREAD_READY" using None by (simp add: next_runnable_None_iff)
    ultimately show ?thesis by (rule stay)
  next
    case (Some n)
    have "tstate s n \<noteq> tstate s c"
      using next_runnable_Some(2) [OF Some] sched_inv_current [OF assms(2,1)] by simp
    then have "n \<noteq> c" by blast
    then show ?thesis using Some assms(1) nr
      by (intro switch [of n]) (simp_all add: sched_yield_def hand_over_def)
  qed
qed

lemma yielded_state:
  assumes "g_current_thread s = Some c" and "sched_inv True s"
  defines "s1 \<equiv> set_thread c (\<lambda>t. t\<lparr>th_state := THREAD_READY\<rparr>) (s\<lparr>irq_on := False\<rparr>)"
  shows "length (g_threads s1) = 4"
    and "\<And>i. tstate s1 i = (if i = c then THREAD_READY else tstate s i)"
    and "active_threads s1 = active_threads s" and "g_thread_count s1 = g_thread_count s"
    and "\<forall>i<4. tstate s1 i \<noteq> THREAD_RUNNING"
proof -
  have c: "c < 4" "tstate s c = THREAD_RUNNING" and len: "length (g_threads s) = 4"
    using assms(1,2) by (auto simp: sched_inv_def)
  show ts: "tstate s1 i = (if i = c then THREAD_READY else tstate s i)" for i
    using c len by (simp add: s1_def tstate_set_thread)
  show "length (g_threads s1) = 4" using len by (simp add: s1_def)
  show "active_threads s1 = active_threads s" using c by (auto simp: active_threads_def ts)
  show "g_thread_count s1 = g_thread_count s" by (simp add: s1_def)
  show "\<forall>i<4. tstate s1 i \<noteq> THREAD_RUNNING"
    using assms(1,2) by (auto simp: ts sched_inv_def)
qed

lemma sched_yield_inv [kernel_inv]:
  assumes "sched_inv True s"
  shows "sched_inv True (sched_yield tr r s)"
proof (cases "g_current_thread s")
  case None
  then show ?thesis using assms by (simp add: sched_yield_def)
next
  case (Some c)
  from Some assms show ?thesis
  proof (cases rule: sched_yield_cases [where tr = tr and r = r])
    case stay
    then show ?thesis using assms by simp
  next
    case (switch n)
    note y = yielded_state [OF Some assms]
    have "unat (g_thread_count s) = card (active_threads s)" using assms by (simp add: sched_inv_def)
    then show ?thesis using switch y next_runnable_Some [OF switch(1)] by (simp add: hand_over_inv)
  qed
qed

text \<open>The state in which \<open>sched_thread_exit\<close> looks for a successor.\<close>

definition exited :: "nat \<Rightarrow> sched \<Rightarrow> sched" where
  "exited c s =
     (let s1 = set_thread c (\<lambda>t. t\<lparr>th_state := THREAD_ZOMBIE\<rparr>) (s\<lparr>irq_on := False\<rparr>)
      in if g_thread_count s1 > 0 then s1\<lparr>g_thread_count := g_thread_count s1 - 1\<rparr> else s1)"

lemma exited_state:
  assumes "g_current_thread s = Some c" and "sched_inv True s"
  shows "length (g_threads (exited c s)) = 4" and "g_current_thread (exited c s) = Some c"
    and "\<And>i. tstate (exited c s) i = (if i = c then THREAD_ZOMBIE else tstate s i)"
    and "unat (g_thread_count (exited c s)) = card (active_threads (exited c s))"
    and "\<forall>i<4. tstate (exited c s) i \<noteq> THREAD_RUNNING"
proof -
  have c: "c < 4" "tstate s c = THREAD_RUNNING" and len: "length (g_threads s) = 4"
    and cnt: "unat (g_thread_count s) = card (active_threads s)"
    using assms by (auto simp: sched_inv_def)
  show ts: "tstate (exited c s) i = (if i = c then THREAD_ZOMBIE else tstate s i)" for i
    using c len by (simp add: exited_def Let_def tstate_set_thread)
  have act: "active_threads (exited c s) = active_threads s - {c}"
    by (auto simp: active_threads_def ts)
  have "c \<in> active_threads s" using c by (simp add: active_threads_def)
  then have "card (active_threads s) = Suc (card (active_threads s - {c}))"
    by (metis card_Suc_Diff1 finite_active)
  then have "g_thread_count s \<noteq> 0" and "card (active_threads s) - 1 = card (active_threads s - {c})"
    using cnt by auto
  moreover from this have "g_thread_count (exited c s) = g_thread_count s - 1"
    by (simp add: exited_def Let_def word_neq_0_conv)
  ultimately show "unat (g_thread_count (exited c s)) = card (active_threads (exited c s))"
    using cnt by (simp add: act unat_minus_one)
  show "length (g_threads (exited c s)) = 4" "g_current_thread (exited c s) = Some c"
    using len assms(1) by (simp_all add: exited_def Let_def)
  show "\<forall>i<4. tstate (exited c s) i \<noteq> THREAD_RUNNING"
    using assms by (auto simp: ts sched_inv_def)
qed

lemma sched_thread_exit_cases:
  assumes "g_current_thread s = Some c"
  obtains (idle) "sched_thread_exit tr r s = (False, (exited c s)\<lparr>irq_on := True\<rparr>)"
      "next_runnable_thread (exited c s) = None"
    | (switch) n where "next_runnable_thread (exited c s) = Some n"
      "sched_thread_exit tr r s = (True, sched_switched_in tr (hand_over r (Some c) n (exited c s)))"
  using assms
  by (cases "next_runnable_thread (exited c s)")
     (simp_all add: sched_thread_exit_def exited_def hand_over_def Let_def)

lemma sched_thread_exit_inv [kernel_inv]:
  assumes "sched_inv True s" and "g_current_thread s = Some c" and "sched_thread_exit tr r s = (live, s')"
  shows "sched_inv live s'"
proof -
  note e = exited_state [OF assms(2,1)]
  have c: "c < 4" using assms by (simp add: sched_inv_def)
  from assms(2) show ?thesis
  proof (cases rule: sched_thread_exit_cases [where tr = tr and r = r])
    case idle
    then show ?thesis using e assms(3) c by (auto simp: sched_inv_def active_threads_def)
  next
    case (switch n)
    then show ?thesis using e assms(3) hand_over_inv [of "exited c s" n] next_runnable_Some [OF switch(1)]
      by auto
  qed
qed

lemma sched_create_cases:
  assumes "sched_create_kernel_thread tr entry arg name s p = (True, s', p')"
  obtains i stack t where "i < 4" "tstate s i = THREAD_UNUSED" "pmm_alloc_pages 4 p = (stack, p')" "stack \<noteq> 0"
    "t = \<lparr>th_pid = g_next_pid s, th_state = THREAD_READY,
       th_context = \<lparr>x19 = entry, x20 = arg, x21_29 = replicate 9 0, ctx_sp = stack + 16384, ctx_lr = tr\<rparr>,
       th_stack_base = stack, th_name = name\<rparr>"
    "s' = (set_thread i (\<lambda>_. t) s)\<lparr>g_next_pid := g_next_pid s + 1, g_thread_count := g_thread_count s + 1\<rparr>"
proof -
  let ?first = "first_index 4 (\<lambda>i. th_state (g_threads s ! i) = THREAD_UNUSED)"
  obtain i stack where "?first = Some i" "pmm_alloc_pages 4 p = (stack, p')" "stack \<noteq> 0"
    "s' = (set_thread i (\<lambda>_. \<lparr>th_pid = g_next_pid s, th_state = THREAD_READY,
       th_context = \<lparr>x19 = entry, x20 = arg, x21_29 = replicate 9 0, ctx_sp = stack + 16384, ctx_lr = tr\<rparr>,
       th_stack_base = stack, th_name = name\<rparr>) s)\<lparr>g_next_pid := g_next_pid s + 1, g_thread_count := g_thread_count s + 1\<rparr>"
    using assms by (auto simp: sched_create_kernel_thread_def split: if_splits option.splits prod.splits)
  moreover from this have "i < 4" "tstate s i = THREAD_UNUSED"
    by (auto simp: tstate_def dest: first_index_SomeD)
  ultimately show ?thesis using that by blast
qed

lemma sched_create_inv [kernel_inv]:
  assumes "sched_inv live s" and "sched_create_kernel_thread tr entry arg name s p = (ok, s', p')"
  shows "sched_inv live s'"
proof (cases ok)
  case False
  then show ?thesis using assms
    by (auto simp: sched_create_kernel_thread_def split: if_splits option.splits prod.splits)
next
  case True
  then obtain i t where i: "i < 4" "tstate s i = THREAD_UNUSED" and t: "th_state t = THREAD_READY"
    and s': "s' = (set_thread i (\<lambda>_. t) s)\<lparr>g_next_pid := g_next_pid s + 1, g_thread_count := g_thread_count s + 1\<rparr>"
    using sched_create_cases assms(2) by (metis kernel_thread.select_convs(2))
  have len: "length (g_threads s) = 4" using assms(1) by (simp add: sched_inv_def)
  have ts: "tstate s' j = (if j = i then THREAD_READY else tstate s j)" for j
    using i len t by (simp add: s' tstate_set_thread)
  have "active_threads s' = insert i (active_threads s)" "i \<notin> active_threads s"
    using i by (auto simp: active_threads_def ts)
  moreover have "unat (g_thread_count s + 1) = unat (g_thread_count s) + 1"
    using assms(1) card_active_le [of s] by (simp add: sched_inv_def unat_add_bounded)
  moreover have "length (g_threads s') = 4" "g_thread_count s' = g_thread_count s + 1"
    and cur: "g_current_thread s' = g_current_thread s" using len by (simp_all add: s')
  ultimately have cnt: "length (g_threads s') = 4 \<and> unat (g_thread_count s') = card (active_threads s')"
    using assms(1) by (simp add: sched_inv_def)
  have "tstate s c \<noteq> THREAD_UNUSED" if "g_current_thread s = Some c" for c
  proof -
    have "tstate s c = (if live then THREAD_RUNNING else THREAD_ZOMBIE)"
      using assms(1) that unfolding sched_inv_def by blast
    then show ?thesis by simp
  qed
  then have "\<forall>c. g_current_thread s = Some c \<longrightarrow> c \<noteq> i" using i(2) by blast
  then show ?thesis using assms(1) cnt cur by (auto simp: sched_inv_def ts split: if_splits)
qed

section \<open>Runs\<close>

text \<open>The steps of the system: a thread (or the boot code) creates a thread, the boot code starts the
  scheduler, the running thread computes (the registers change), yields or exits, and the timer
  ticks. The last component is false once the processor idles for ever, after which only the timer
  is served.\<close>

type_synonym sched_sys = "sched \<times> pmm \<times> bool"

inductive sched_step :: "u64 \<Rightarrow> u64 \<Rightarrow> sched_sys \<Rightarrow> sched_sys \<Rightarrow> bool" for tr r where
  create: "sched_create_kernel_thread tr entry arg name s p = (ok, s', p') \<Longrightarrow>
     sched_step tr r (s, p, True) (s', p', True)"
| start: "g_current_thread s = None \<Longrightarrow> sched_step tr r (s, p, True) (sched_start s, p, True)"
| compute: "g_current_thread s = Some c \<Longrightarrow> sched_step tr r (s, p, True) (s\<lparr>cpu := regs\<rparr>, p, True)"
| yield: "g_current_thread s = Some c \<Longrightarrow> sched_step tr r (s, p, True) (sched_yield tr r s, p, True)"
| exit: "g_current_thread s = Some c \<Longrightarrow> sched_thread_exit tr r s = (live, s') \<Longrightarrow>
     sched_step tr r (s, p, True) (s', p, live)"
| tick: "sched_step tr r (s, p, live) (sched_on_timer_tick s, p, live)"

inductive_cases sched_stepE: "sched_step tr r (s, p, live) (s', p', live')"

inductive sched_reach :: "u64 \<Rightarrow> u64 \<Rightarrow> sched_sys \<Rightarrow> sched_sys \<Rightarrow> bool" for tr r a where
  refl: "sched_reach tr r a a"
| step: "sched_reach tr r a b \<Longrightarrow> sched_step tr r b d \<Longrightarrow> sched_reach tr r a d"

lemma tick_frame [simp]:
  "g_threads (sched_on_timer_tick s) = g_threads s"
  "g_current_thread (sched_on_timer_tick s) = g_current_thread s"
  "g_thread_count (sched_on_timer_tick s) = g_thread_count s" "cpu (sched_on_timer_tick s) = cpu s"
  by (simp_all add: sched_on_timer_tick_def Let_def)

lemma tick_tstate [simp]: "tstate (sched_on_timer_tick s) = tstate s"
  by (simp add: tstate_def fun_eq_iff)

lemma sched_inv_cong:
  "g_threads s' = g_threads s \<Longrightarrow> g_current_thread s' = g_current_thread s \<Longrightarrow>
     g_thread_count s' = g_thread_count s \<Longrightarrow> sched_inv l s' = sched_inv l s"
  by (simp add: sched_inv_def active_threads_def tstate_def)

lemma sched_step_inv [kernel_inv]:
  assumes "sched_step tr r (s, p, live) (s', p', live')" and "sched_inv live s"
  shows "sched_inv live' s'"
  using assms(1)
proof cases
  case (create entry arg name ok)
  then show ?thesis using assms(2) sched_create_inv by blast
next
  case (compute c regs)
  then show ?thesis using assms(2) sched_inv_cong [of "s\<lparr>cpu := regs\<rparr>" s] by simp
next
  case tick
  then show ?thesis using assms(2) sched_inv_cong [of "sched_on_timer_tick s" s] by simp
qed (use assms(2) sched_start_inv sched_yield_inv sched_thread_exit_inv in auto)

text \<open>Once the processor idles, only the timer is served.\<close>

lemma idle_only_ticks:
  "sched_step tr r (s, p, False) (s', p', live') \<Longrightarrow> s' = sched_on_timer_tick s \<and> p' = p \<and> \<not> live'"
  by (elim sched_stepE) auto

lemma sched_init_inv:
  assumes "length (g_threads s) = 4"
  shows "sched_inv True (sched_init q s)"
proof -
  have "tstate (sched_init q s) i = THREAD_UNUSED" if "i < 4" for i
    using that assms by (simp add: tstate_def sched_init_def Let_def)
  then have "active_threads (sched_init q s) = {}" "{i. i < 4 \<and> tstate (sched_init q s) i = THREAD_RUNNING} = {}"
    by (auto simp: active_threads_def)
  then show ?thesis using assms by (simp add: sched_inv_def) (simp add: sched_init_def Let_def)
qed

lemma sched_reach_inv:
  assumes "sched_reach tr r (s, p, live) b" and "sched_inv live s"
  shows "sched_inv (snd (snd b)) (fst b)"
  using assms(1)
proof induction
  case refl
  then show ?case using assms(2) by simp
next
  case (step b d)
  then show ?case using sched_step_inv by (cases b; cases d) auto
qed

interpretation threads: round_robin SCHED_MAX_THREADS "sched_inv True" g_current_thread
  "\<lambda>s i. tstate s i = THREAD_READY" "sched_yield tr r"
proof
  fix s :: sched and c i
  assume inv: "sched_inv True s"
  show "sched_inv True (sched_yield tr r s)" using inv by (rule sched_yield_inv)
  assume c: "g_current_thread s = Some c"
  show "c < 4 \<and> tstate s c \<noteq> THREAD_READY" using sched_inv_current [OF inv c] by simp
  assume i: "i < 4" "tstate s i = THREAD_READY"
  from c inv show "\<exists>n<4. g_current_thread (sched_yield tr r s) = Some n \<and> tstate s n = THREAD_READY \<and>
      (\<forall>j<4. tstate s j = THREAD_READY \<longrightarrow> cdist 4 c n \<le> cdist 4 c j) \<and>
      (\<forall>j<4. tstate s j = THREAD_READY \<longrightarrow> j \<noteq> n \<longrightarrow> tstate (sched_yield tr r s) j = THREAD_READY)"
  proof (cases rule: sched_yield_cases [where tr = tr and r = r])
    case stay
    then show ?thesis using i by blast
  next
    case (switch n)
    have len: "length (g_threads s) = 4" and "c < 4" using inv sched_inv_current [OF inv c] by (auto simp: sched_inv_def)
    note n = next_runnable_Some [OF switch(1)]
    have "tstate (sched_yield tr r s) j = (if j = n then THREAD_RUNNING else if j = c then THREAD_READY else tstate s j)" for j
      using n yielded_state(1,2) [OF c inv] unfolding switch(3) by (simp add: hand_over_tstate)
    then show ?thesis
      using n next_runnable_nearest [OF c \<open>c < 4\<close> switch(1)] unfolding switch(3) by auto
  qed
qed

section \<open>Contexts\<close>

lemma hand_over_threads:
  assumes "length (g_threads s) = 4" and "n < 4" and "\<And>c. old = Some c \<Longrightarrow> c < 4 \<and> c \<noteq> n"
  shows "cpu (hand_over r old n s) = th_context (g_threads s ! n)"
    and "\<And>c. old = Some c \<Longrightarrow> th_context (g_threads (hand_over r old n s) ! c) = (cpu s)\<lparr>ctx_lr := r\<rparr>"
    and "\<And>i. i \<noteq> n \<Longrightarrow> old \<noteq> Some i \<Longrightarrow> th_context (g_threads (hand_over r old n s) ! i) = th_context (g_threads s ! i)"
  using assms by (cases old; simp add: hand_over_def switch_context_def Let_def)+

lemma sched_start_context:
  assumes "sched_inv True s" and "g_current_thread s = None" and "i < 4" and "tstate s i = THREAD_READY"
  shows "if g_current_thread (sched_start s) = Some i then cpu (sched_start s) = th_context (g_threads s ! i)
    else tstate (sched_start s) i = THREAD_READY \<and> th_context (g_threads (sched_start s) ! i) = th_context (g_threads s ! i)"
proof -
  obtain n where n: "next_runnable_thread s = Some n"
    using assms(3,4) next_runnable_None_iff [of s] by fastforce
  have eq: "sched_start s = hand_over 0 None n s"
    using n by (cases s) (simp add: sched_start_def hand_over_def set_thread_def)
  have len: "length (g_threads s) = 4" using assms(1) by (simp add: sched_inv_def)
  show ?thesis unfolding eq
    using hand_over_threads [of s n None] len next_runnable_Some [OF n] hand_over_tstate [of s n] assms(4) by auto
qed

lemma sched_yield_context:
  assumes "sched_inv True s" and "g_current_thread s = Some c" and "i < 4" and "tstate s i = THREAD_READY"
  shows "if g_current_thread (sched_yield tr r s) = Some i
    then cpu (sched_yield tr r s) = th_context (g_threads s ! i) \<and>
      th_context (g_threads (sched_yield tr r s) ! c) = (cpu s)\<lparr>ctx_lr := r\<rparr>
    else tstate (sched_yield tr r s) i = THREAD_READY \<and>
      th_context (g_threads (sched_yield tr r s) ! i) = th_context (g_threads s ! i)"
  using assms(2,1)
proof (cases rule: sched_yield_cases [where tr = tr and r = r])
  case stay
  then show ?thesis using assms(3,4) by blast
next
  case (switch n)
  let ?s1 = "set_thread c (\<lambda>t. t\<lparr>th_state := THREAD_READY\<rparr>) (s\<lparr>irq_on := False\<rparr>)"
  have c: "c < 4" "tstate s c = THREAD_RUNNING" using sched_inv_current [OF assms(1,2)] by auto
  then have "i \<noteq> c" using assms(4) by auto
  moreover note next_runnable_Some [OF switch(1)] switch(2) yielded_state(1,2) [OF assms(2,1)]
  moreover have "th_context (g_threads ?s1 ! j) = th_context (g_threads s ! j)" for j
    using yielded_state(1) [OF assms(2,1)] c by (cases "j = c") auto
  ultimately show ?thesis unfolding switch(3)
    using hand_over_threads [of ?s1 n "Some c"] hand_over_tstate [of ?s1 n] assms(4) c by auto
qed

lemma sched_exit_context:
  assumes "sched_inv True s" and "g_current_thread s = Some c" and "i < 4" and "tstate s i = THREAD_READY"
    and "sched_thread_exit tr r s = (live, s')"
  shows "if g_current_thread s' = Some i then cpu s' = th_context (g_threads s ! i)
    else tstate s' i = THREAD_READY \<and> th_context (g_threads s' ! i) = th_context (g_threads s ! i)"
proof -
  note e = exited_state [OF assms(2,1)]
  have c: "c < 4" "tstate s c = THREAD_RUNNING" using sched_inv_current [OF assms(1,2)] by auto
  then have ic: "i \<noteq> c" using assms(4) by auto
  have same: "th_context (g_threads (exited c s) ! j) = th_context (g_threads s ! j)" for j
    using c assms(1) by (cases "j = c") (auto simp: exited_def Let_def sched_inv_def)
  from assms(2) show ?thesis
  proof (cases rule: sched_thread_exit_cases [where tr = tr and r = r])
    case idle
    then show ?thesis using e ic assms(3,4) next_runnable_None_iff [of "exited c s"] by auto
  next
    case (switch n)
    note n = next_runnable_Some [OF switch(1)]
    have "n \<noteq> c" using n(2) e(3) [of n] by auto
    then show ?thesis
      using switch assms(4,5) e same ic n c hand_over_threads [of "exited c s" n "Some c"]
        hand_over_tstate [of "exited c s" n] by auto
  qed
qed

section \<open>Timer ticks\<close>

definition tick_inv :: "nat \<Rightarrow> nat \<Rightarrow> sched \<Rightarrow> bool" where
  "tick_inv Q n s \<longleftrightarrow> 0 < Q \<and> unat (g_quantum_ticks s) = Q \<and> unat (g_sched_ticks s) = n \<and>
     unat (g_sched_quantums s) = n div Q \<and> unat (g_ticks_left s) = Q - n mod Q"

lemma tick_inv_step:
  assumes "tick_inv Q n s" and "n + 1 < 2 ^ 64"
  shows "tick_inv Q (n + 1) (sched_on_timer_tick s)"
proof -
  have Q: "0 < Q" "n mod Q < Q" using assms(1) by (auto simp: tick_inv_def)
  have left: "unat (g_ticks_left s) = Q - n mod Q" "g_ticks_left s \<noteq> 0"
    using assms(1) Q by (auto simp: tick_inv_def)
  then have dec: "unat (g_ticks_left s - 1) = Q - n mod Q - 1" by (simp add: unat_minus_one)
  have tk: "unat (g_sched_ticks s + 1) = n + 1"
    using assms by (simp add: tick_inv_def unat_add_bounded)
  have "n div Q \<le> n" by simp
  then have "n div Q + 1 < 2 ^ 64" using assms(2) by linarith
  then have qs: "unat (g_sched_quantums s + 1) = n div Q + 1"
    using assms(1) by (simp add: tick_inv_def unat_add_bounded)
  show ?thesis
  proof (cases "n mod Q + 1 = Q")
    case True
    then have "unat (g_ticks_left s - 1) = 0" using dec by simp
    then have "g_ticks_left s - 1 = 0" by (simp only: unat_eq_zero)
    moreover have "(n + 1) div Q = n div Q + 1" "(n + 1) mod Q = 0"
      using True Q by (auto simp: div_Suc mod_Suc)
    moreover have "unat (g_quantum_ticks s) = Q" using assms(1) by (simp add: tick_inv_def)
    ultimately show ?thesis using Q(1) left(2) tk qs
      by (simp add: tick_inv_def sched_on_timer_tick_def Let_def word_neq_0_conv)
  next
    case False
    then have "unat (g_ticks_left s - 1) \<noteq> 0" using dec Q by simp
    then have "g_ticks_left s - 1 \<noteq> 0" by (metis unat_0)
    moreover have "(n + 1) div Q = n div Q" "(n + 1) mod Q = n mod Q + 1"
      using False Q by (auto simp: div_Suc mod_Suc)
    ultimately show ?thesis using assms(1) left(2) tk dec
      by (simp add: tick_inv_def sched_on_timer_tick_def Let_def word_neq_0_conv)
  qed
qed

lemma tick_inv_init: "tick_inv (max 1 (unat q)) 0 (sched_init q s)"
  by (auto simp: tick_inv_def sched_init_def Let_def max_def unat_gt_0 not_le)

lemma tick_inv_iter: "tick_inv Q 0 s \<Longrightarrow> n < 2 ^ 64 \<Longrightarrow> tick_inv Q n ((sched_on_timer_tick ^^ n) s)"
  by (induction n) (auto intro: tick_inv_step [of Q _ _, simplified])

section \<open>Properties\<close>

definition blank_thread :: kernel_thread where
  "blank_thread = \<lparr>th_pid = 0, th_state = THREAD_UNUSED,
     th_context = \<lparr>x19 = 0, x20 = 0, x21_29 = replicate 9 0, ctx_sp = 0, ctx_lr = 0\<rparr>,
     th_stack_base = 0, th_name = None\<rparr>"

definition blank_sched :: sched where
  "blank_sched = \<lparr>g_sched_ticks = 0, g_sched_quantums = 0, g_quantum_ticks = 1, g_ticks_left = 1,
     g_threads = replicate 4 blank_thread, g_current_thread = None, g_thread_count = 0, g_next_pid = 1,
     cpu = th_context blank_thread, irq_on = True\<rparr>"

text \<open>Two ready threads, the first one started.\<close>

definition two_threads :: sched where
  "two_threads = sched_start (blank_sched\<lparr>g_threads :=
     [blank_thread\<lparr>th_state := THREAD_READY\<rparr>, blank_thread, blank_thread\<lparr>th_state := THREAD_READY\<rparr>, blank_thread],
     g_thread_count := 2\<rparr>)"

lemma four_cases: "(\<forall>i<4. P i) \<longleftrightarrow> P 0 \<and> P 1 \<and> P 2 \<and> P (3::nat)"
  by (auto simp: less_Suc_eq numeral_eq_Suc)

lemma two_threads_ok: "sched_inv True two_threads" "g_current_thread two_threads = Some 0"
  "tstate two_threads 2 = THREAD_READY" "length (g_threads two_threads) = 4"
proof -
  let ?b = "blank_sched\<lparr>g_threads :=
     [blank_thread\<lparr>th_state := THREAD_READY\<rparr>, blank_thread, blank_thread\<lparr>th_state := THREAD_READY\<rparr>, blank_thread],
     g_thread_count := 2\<rparr>"
  have "tstate ?b i = (if i = 0 \<or> i = 2 then THREAD_READY else THREAD_UNUSED)" if "i < 4" for i
  proof -
    have "i = 0 \<or> i = 1 \<or> i = 2 \<or> i = 3" using that by auto
    then show ?thesis by (auto simp: tstate_def blank_thread_def)
  qed
  then have "active_threads ?b = {0, 2}" "{i. i < 4 \<and> tstate ?b i = THREAD_RUNNING} = {}"
    by (auto simp: active_threads_def split: if_splits)
  then have "sched_inv True ?b" and cur: "g_current_thread ?b = None"
    by (auto simp: sched_inv_def blank_sched_def)
  then show "sched_inv True two_threads" unfolding two_threads_def by (rule sched_start_inv)
  have "next_runnable_thread ?b = Some 0"
    by (simp add: next_runnable_thread_def cur cyclic_scan_def first_index_def upt_rec [of 0])
  then have eq: "two_threads = hand_over 0 None 0 ?b"
    unfolding two_threads_def by (simp add: sched_start_def hand_over_def set_thread_def blank_sched_def)
  show "g_current_thread two_threads = Some 0" "length (g_threads two_threads) = 4"
    unfolding eq by simp_all
  have "tstate ?b 2 = THREAD_READY" by (simp add: tstate_def)
  then show "tstate two_threads 2 = THREAD_READY"
    unfolding eq using hand_over_tstate [of ?b 0 0 None 2] by simp
qed

text \<open>C26 In every reachable state of the scheduler at most one thread runs: before the start none;
  afterwards exactly the current thread; and none once the processor idles because no thread is left. The
  number of ready and running threads is the count the scheduler keeps.\<close>

theorem sched_one_running:
  assumes "length (g_threads s0) = 4" and "sched_reach tr r (sched_init q s0, p0, True) (s, p, live)"
  shows "{i. i < 4 \<and> tstate s i = THREAD_RUNNING} = (if live then set_option (g_current_thread s) else {}) \<and>
     unat (g_thread_count s) = card {i. i < 4 \<and> tstate s i \<in> {THREAD_READY, THREAD_RUNNING}}"
proof -
  have inv: "sched_inv live s"
    using sched_reach_inv [OF assms(2) sched_init_inv [OF assms(1)]] by simp
  have "{i. i < 4 \<and> tstate s i = THREAD_RUNNING} = (if live then set_option (g_current_thread s) else {})"
  proof (cases "g_current_thread s")
    case None
    then show ?thesis using inv by (simp add: sched_inv_def)
  next
    case (Some c)
    then show ?thesis using inv by (auto simp: sched_inv_def)
  qed
  then show ?thesis using inv by (simp add: sched_inv_def active_threads_def)
qed

theorem sched_one_running_witness:
  "length (g_threads blank_sched) = 4 \<and>
   {i. i < 4 \<and> tstate (sched_on_timer_tick (sched_init 5 blank_sched)) i = THREAD_RUNNING} = {}"
proof -
  have len: "length (g_threads blank_sched) = 4" by (simp add: blank_sched_def)
  have "sched_reach 1 2 (sched_init 5 blank_sched, pmm_init 0 0, True)
      (sched_on_timer_tick (sched_init 5 blank_sched), pmm_init 0 0, True)"
    by (rule sched_reach.step [OF sched_reach.refl sched_step.tick])
  from sched_one_running [OF len this] show ?thesis
    by (simp add: len) (simp add: sched_init_def Let_def)
qed

text \<open>Round robin: a ready thread gets the processor after at most three yields, whichever threads are
  ready besides it.\<close>

theorem sched_yield_fair:
  assumes "sched_inv True s" and "g_current_thread s = Some c" and "i < 4" and "tstate s i = THREAD_READY"
  shows "\<exists>k<4. g_current_thread ((sched_yield tr r ^^ k) s) = Some i"
  using threads.served_in_one_round [OF assms] .

theorem sched_yield_fair_witness: "\<exists>k<4. g_current_thread ((sched_yield 1 2 ^^ k) two_threads) = Some 2"
  using sched_yield_fair [OF two_threads_ok(1,2) _ two_threads_ok(3)] by simp

text \<open>C27 A thread's registers survive its absence: whatever step the system takes, a ready thread
  either stays ready with its saved context untouched, or becomes the current thread with exactly that
  context loaded into the processor.\<close>

theorem sched_context_preserved:
  assumes "sched_step tr r (s, p, live) (s', p', live')" and "sched_inv live s"
    and "i < 4" and "tstate s i = THREAD_READY"
  shows "if g_current_thread s' = Some i then cpu s' = th_context (g_threads s ! i)
     else tstate s' i = THREAD_READY \<and> th_context (g_threads s' ! i) = th_context (g_threads s ! i)"
proof -
  have nc: "g_current_thread s \<noteq> Some i" using assms(2,4) by (cases live) (auto simp: sched_inv_def)
  from assms(1) show ?thesis
  proof cases
    case (create entry arg name ok)
    show ?thesis
    proof (cases ok)
      case False
      then have "s' = s" using create
        by (auto simp: sched_create_kernel_thread_def split: if_splits option.splits prod.splits)
      then show ?thesis using nc assms(4) by simp
    next
      case True
      then obtain j t where j: "j < 4" "tstate s j = THREAD_UNUSED"
        and s': "s' = (set_thread j (\<lambda>_. t) s)\<lparr>g_next_pid := g_next_pid s + 1, g_thread_count := g_thread_count s + 1\<rparr>"
        using create True by (auto elim: sched_create_cases)
      have "i \<noteq> j" using j(2) assms(4) by auto
      then show ?thesis using nc assms(4) by (simp add: s' tstate_def)
    qed
  next
    case start
    then show ?thesis using sched_start_context assms by auto
  next
    case (yield c)
    then show ?thesis using sched_yield_context [of s c i tr r] assms by (auto split: if_splits)
  next
    case (exit c)
    then show ?thesis using sched_exit_context [of s c i tr r live' s'] assms by simp
  qed (use nc assms(4) in \<open>auto simp: tstate_def\<close>)
qed

theorem sched_context_preserved_witness:
  "if g_current_thread (sched_yield 1 2 two_threads) = Some 2
   then cpu (sched_yield 1 2 two_threads) = th_context (g_threads two_threads ! 2)
   else tstate (sched_yield 1 2 two_threads) 2 = THREAD_READY \<and>
     th_context (g_threads (sched_yield 1 2 two_threads) ! 2) = th_context (g_threads two_threads ! 2)"
  using sched_context_preserved [OF sched_step.yield [OF two_threads_ok(2)] two_threads_ok(1) _ two_threads_ok(3)]
  by simp

text \<open>Time accounting: after \<open>n\<close> timer ticks (less than \<open>2 ^ 64\<close>) the scheduler has counted \<open>n\<close>
  ticks and \<open>n\<close> divided by the quantum length complete quanta; a quantum length of 0 counts as 1.\<close>

theorem sched_tick_accounting:
  assumes "n < 2 ^ 64"
  shows "unat (sched_ticks ((sched_on_timer_tick ^^ n) (sched_init q s))) = n \<and>
     unat (sched_quantums ((sched_on_timer_tick ^^ n) (sched_init q s))) = n div max 1 (unat q)"
  using tick_inv_iter [OF tick_inv_init assms] by (simp add: tick_inv_def sched_ticks_def sched_quantums_def)

theorem sched_tick_accounting_witness:
  "unat (sched_quantums ((sched_on_timer_tick ^^ 12) (sched_init 5 blank_sched))) = 2"
  using sched_tick_accounting [of 12 5 blank_sched] by simp

text \<open>A created thread gets a stack of its own: the four pages of the stack were free before and
  are used afterwards, the stack pointer is their upper end, and the thread is ready in a slot that was
  unused; when creation fails, the thread table is unchanged.\<close>

theorem sched_create_stack:
  assumes "pmm_ready p" and "sched_inv live s"
    and "sched_create_kernel_thread tr entry arg name s p = (ok, s', p')"
  shows "if ok then \<exists>i k. i < 4 \<and> tstate s i = THREAD_UNUSED \<and> tstate s' i = THREAD_READY \<and>
       {k..<k + 4} \<subseteq> free_set p \<and> free_set p' = free_set p - {k..<k + 4} \<and>
       ctx_sp (th_context (g_threads s' ! i)) = page_addr p k + 4 * PAGE_SIZE \<and>
       th_stack_base (g_threads s' ! i) = page_addr p k
     else s' = s \<and> free_set p' = free_set p"
proof (cases ok)
  case True
  with assms(3) have created: "sched_create_kernel_thread tr entry arg name s p = (True, s', p')" by simp
  obtain i stack t where c: "i < 4" "tstate s i = THREAD_UNUSED" "pmm_alloc_pages 4 p = (stack, p')" "stack \<noteq> 0"
    and t': "t = \<lparr>th_pid = g_next_pid s, th_state = THREAD_READY,
       th_context = \<lparr>x19 = entry, x20 = arg, x21_29 = replicate 9 0, ctx_sp = stack + 16384, ctx_lr = tr\<rparr>,
       th_stack_base = stack, th_name = name\<rparr>"
    and s': "s' = (set_thread i (\<lambda>_. t) s)\<lparr>g_next_pid := g_next_pid s + 1, g_thread_count := g_thread_count s + 1\<rparr>"
    using created by (rule sched_create_cases)
  have t: "th_state t = THREAD_READY" "ctx_sp (th_context t) = stack + 16384" "th_stack_base t = stack"
    by (simp_all add: t')
  have len: "length (g_threads s) = 4" using assms(2) by (simp add: sched_inv_def)
  obtain k where "{k..<k + 4} \<subseteq> free_set p" "stack = page_addr p k" "free_set p' = free_set p - {k..<k + 4}"
    using pmm_alloc_pages_nonzero [OF assms(1) _ c(3,4)] by auto
  then have "i < 4 \<and> tstate s i = THREAD_UNUSED \<and> tstate s' i = THREAD_READY \<and>
      {k..<k + 4} \<subseteq> free_set p \<and> free_set p' = free_set p - {k..<k + 4} \<and>
      ctx_sp (th_context (g_threads s' ! i)) = page_addr p k + 4 * PAGE_SIZE \<and>
      th_stack_base (g_threads s' ! i) = page_addr p k"
    using c(1,2) t len by (simp add: s' tstate_def)
  then show ?thesis using True by auto
next
  case False
  then show ?thesis using assms(3) pmm_alloc_pages_zero [OF assms(1), of 4]
    by (auto simp: sched_create_kernel_thread_def split: if_splits option.splits prod.splits)
qed

lemma pmm_eight_ready: "pmm_ready (pmm_init 0x40000000 0x8000)"
  using pmm_init_props [of "0x40000000" "0x8000"] by (simp add: pmm_ready_def n_pages_def)

theorem sched_create_stack_witness:
  "case sched_create_kernel_thread 1 0x80000 0 None (sched_init 5 blank_sched) (pmm_init 0x40000000 0x8000) of
     (ok, s', p') \<Rightarrow> ok \<longrightarrow> (\<exists>i. tstate s' i = THREAD_READY)"
proof -
  let ?s = "sched_init 5 blank_sched" and ?p = "pmm_init 0x40000000 0x8000"
  obtain ok s' p' where eq: "sched_create_kernel_thread 1 0x80000 0 None ?s ?p = (ok, s', p')"
    by (metis prod.exhaust)
  have "sched_inv True ?s" by (rule sched_init_inv) (simp add: blank_sched_def)
  from sched_create_stack [OF pmm_eight_ready this eq] show ?thesis by (auto simp: eq)
qed

text \<open>A thread that has never run is entered by \<open>sched_yield\<close> with interrupts masked: its link register
  is the trampoline, which does not reach the \<open>irq_enable\<close> that follows the switch.\<close>

lemma fresh_thread_enters_masked:
  assumes "sched_inv True s" and "g_current_thread s = Some c" and "next_runnable_thread s = Some n"
    and "ctx_lr (th_context (g_threads s ! n)) = tr"
  shows "g_current_thread (sched_yield tr r s) = Some n \<and> \<not> irq_on (sched_yield tr r s)"
  using assms(2,1)
proof (cases rule: sched_yield_cases [where tr = tr and r = r])
  case stay
  then show ?thesis using next_runnable_Some [OF assms(3)] by blast
next
  case (switch m)
  let ?s1 = "set_thread c (\<lambda>t. t\<lparr>th_state := THREAD_READY\<rparr>) (s\<lparr>irq_on := False\<rparr>)"
  have m: "m = n" using switch(1) assms(3) by simp
  have c: "c < 4" using sched_inv_current [OF assms(1,2)] by simp
  have "cpu (hand_over r (Some c) n ?s1) = th_context (g_threads s ! n)"
    using hand_over_threads(1) [of ?s1 n "Some c"] yielded_state(1) [OF assms(2,1)]
      next_runnable_Some [OF assms(3)] c switch(2) m by simp
  then show ?thesis unfolding switch(3) m using assms(4) by (simp add: sched_switched_in_def) (simp add: hand_over_def)
qed

end
