(* ===== verification/Tmpfs.thy ===== *)
theory Tmpfs
  imports Prelude
begin

text \<open>
  The temporary file system, \<open>kernel/tmpfs.c\<close>: eight files of at most 256 bytes with names of at most
  31 characters, in static storage. The abstract state is a map from names to contents; the contract
  \<open>file_store\<close> says what the operations do to it. The staging nodes that \<open>tmpfs_mount_vfs\<close> hands to the
  VFS are modelled with the VFS.
\<close>

abbreviation TMPFS_MAX_FILES :: nat where "TMPFS_MAX_FILES \<equiv> 8"
abbreviation TMPFS_MAX_FILE_SIZE :: u64 where "TMPFS_MAX_FILE_SIZE \<equiv> 256"
abbreviation TMPFS_MAX_NAME :: nat where "TMPFS_MAX_NAME \<equiv> 32"

record tmpfs_file =
  f_name :: string
  f_data :: "u8 list"
  f_size :: u64
  f_used :: bool

record tmpfs =
  g_tmpfs_files :: "tmpfs_file list"
  g_tmpfs_vfs_names :: "string list"
  g_tmpfs_vfs_node_count :: nat

section \<open>Operations\<close>

definition tmpfs_clear_file :: tmpfs_file where
  "tmpfs_clear_file = \<lparr>f_name = '''', f_data = replicate (unat TMPFS_MAX_FILE_SIZE) 0, f_size = 0, f_used = False\<rparr>"

definition tmpfs_clear_vfs_slot :: "nat \<Rightarrow> tmpfs \<Rightarrow> tmpfs" where
  "tmpfs_clear_vfs_slot index s =
     (if index \<ge> TMPFS_MAX_FILES then s
      else s\<lparr>g_tmpfs_vfs_names := (g_tmpfs_vfs_names s)[index := '''']\<rparr>)"

definition tmpfs_name_equals :: "string option \<Rightarrow> string option \<Rightarrow> bool" where
  "tmpfs_name_equals left right =
     (case (left, right) of (Some l, Some r) \<Rightarrow> cstr_loop_eq l r | _ \<Rightarrow> False)"

definition tmpfs_find_file :: "string option \<Rightarrow> tmpfs \<Rightarrow> nat option" where
  "tmpfs_find_file name s =
     (if name = None \<or> name = Some '''' then None
      else first_index TMPFS_MAX_FILES (\<lambda>i. f_used (g_tmpfs_files s ! i) \<and>
             tmpfs_name_equals (Some (f_name (g_tmpfs_files s ! i))) name))"

text \<open>The result and the destination: a name that is too long leaves its first 31 characters there.\<close>

definition tmpfs_copy_name :: "string \<Rightarrow> string option \<Rightarrow> bool \<times> string" where
  "tmpfs_copy_name dest name =
     (case name of
        None \<Rightarrow> (False, dest)
      | Some n \<Rightarrow>
          if n = '''' then (False, dest)
          else (length n + 1 \<le> TMPFS_MAX_NAME, take (TMPFS_MAX_NAME - 1) n))"

definition tmpfs_reset :: "tmpfs \<Rightarrow> tmpfs" where
  "tmpfs_reset s =
     (fold tmpfs_clear_vfs_slot [0..<TMPFS_MAX_FILES]
        (s\<lparr>g_tmpfs_files := map (\<lambda>_. tmpfs_clear_file) (g_tmpfs_files s)\<rparr>))\<lparr>g_tmpfs_vfs_node_count := 0\<rparr>"

definition tmpfs_create :: "string option \<Rightarrow> tmpfs \<Rightarrow> bool \<times> tmpfs" where
  "tmpfs_create name s =
     (if name = None \<or> name = Some '''' \<or> tmpfs_find_file name s \<noteq> None then (False, s)
      else case first_index TMPFS_MAX_FILES (\<lambda>i. \<not> f_used (g_tmpfs_files s ! i)) of
          None \<Rightarrow> (False, s)
        | Some i \<Rightarrow>
            (let (ok, n) = tmpfs_copy_name (f_name tmpfs_clear_file) name
             in if \<not> ok
                then (False, s\<lparr>g_tmpfs_files := (g_tmpfs_files s)[i := tmpfs_clear_file\<lparr>f_name := n\<rparr>]\<rparr>)
                else (True, s\<lparr>g_tmpfs_files := (g_tmpfs_files s)[i :=
                        tmpfs_clear_file\<lparr>f_name := n, f_size := 0, f_used := True\<rparr>]\<rparr>)))"

definition tmpfs_delete :: "string option \<Rightarrow> tmpfs \<Rightarrow> bool \<times> tmpfs" where
  "tmpfs_delete name s =
     (case tmpfs_find_file name s of
        None \<Rightarrow> (False, s)
      | Some i \<Rightarrow> (True, s\<lparr>g_tmpfs_files := (g_tmpfs_files s)[i := tmpfs_clear_file]\<rparr>))"

text \<open>\<open>None\<close> is the error return; a success gives the number of bytes written.\<close>

definition tmpfs_write :: "string option \<Rightarrow> u64 \<Rightarrow> u8 list option \<Rightarrow> u64 \<Rightarrow> tmpfs \<Rightarrow> u64 option \<times> tmpfs" where
  "tmpfs_write name offset buffer sz s =
     (case (tmpfs_find_file name s, buffer) of
        (Some i, Some buf) \<Rightarrow>
          if offset > TMPFS_MAX_FILE_SIZE then (None, s)
          else
            (let count = (if sz > TMPFS_MAX_FILE_SIZE - offset then TMPFS_MAX_FILE_SIZE - offset else sz);
                 file = g_tmpfs_files s ! i;
                 file1 = file\<lparr>f_data := copy_loop (f_data file) (unat offset) buf (unat count)\<rparr>;
                 file2 = (if offset + count > f_size file1 then file1\<lparr>f_size := offset + count\<rparr> else file1)
             in (Some count, s\<lparr>g_tmpfs_files := (g_tmpfs_files s)[i := file2]\<rparr>))
      | _ \<Rightarrow> (None, s))"

text \<open>A success gives the bytes copied into the caller's buffer.\<close>

definition tmpfs_read :: "string option \<Rightarrow> u64 \<Rightarrow> u64 \<Rightarrow> tmpfs \<Rightarrow> u8 list option" where
  "tmpfs_read name offset capacity s =
     (case tmpfs_find_file name s of
        None \<Rightarrow> None
      | Some i \<Rightarrow>
          (let file = g_tmpfs_files s ! i
           in if offset > f_size file then None
              else
                (let count = (if capacity > f_size file - offset then f_size file - offset else capacity)
                 in Some (map (\<lambda>k. f_data file ! (unat offset + k)) [0..<unat count]))))"

definition tmpfs_stat :: "string option \<Rightarrow> tmpfs \<Rightarrow> u64 option" where
  "tmpfs_stat name s = map_option (\<lambda>i. f_size (g_tmpfs_files s ! i)) (tmpfs_find_file name s)"

section \<open>The files as a map\<close>

definition file_ok :: "tmpfs_file \<Rightarrow> bool" where
  "file_ok f \<longleftrightarrow> length (f_data f) = 256 \<and> unat (f_size f) \<le> 256 \<and>
     (\<forall>k. unat (f_size f) \<le> k \<longrightarrow> k < 256 \<longrightarrow> f_data f ! k = 0) \<and>
     (f_used f \<longrightarrow> f_name f \<noteq> '''' \<and> length (f_name f) < 32)"

definition tmpfs_ok :: "tmpfs \<Rightarrow> bool" where
  "tmpfs_ok s \<longleftrightarrow> length (g_tmpfs_files s) = 8 \<and> length (g_tmpfs_vfs_names s) = 8 \<and>
     (\<forall>i<8. file_ok (g_tmpfs_files s ! i)) \<and>
     (\<forall>i<8. \<forall>j<8. f_used (g_tmpfs_files s ! i) \<longrightarrow> f_used (g_tmpfs_files s ! j) \<longrightarrow>
        f_name (g_tmpfs_files s ! i) = f_name (g_tmpfs_files s ! j) \<longrightarrow> i = j)"

definition content :: "tmpfs_file \<Rightarrow> u8 list" where
  "content f = take (unat (f_size f)) (f_data f)"

definition tmpfs_files :: "tmpfs \<Rightarrow> string \<Rightarrow> u8 list option" where
  "tmpfs_files s n = map_option (\<lambda>i. content (g_tmpfs_files s ! i)) (tmpfs_find_file (Some n) s)"

lemma name_equals_Some [simp]: "tmpfs_name_equals (Some l) (Some r) \<longleftrightarrow> l = r"
  by (simp add: tmpfs_name_equals_def)

lemma find_file_Some_iff:
  assumes "tmpfs_ok s"
  shows "tmpfs_find_file (Some n) s = Some i \<longleftrightarrow>
     i < 8 \<and> f_used (g_tmpfs_files s ! i) \<and> f_name (g_tmpfs_files s ! i) = n"
proof
  assume "tmpfs_find_file (Some n) s = Some i"
  then show "i < 8 \<and> f_used (g_tmpfs_files s ! i) \<and> f_name (g_tmpfs_files s ! i) = n"
    by (auto simp: tmpfs_find_file_def first_index_Some_iff split: if_splits)
next
  assume i: "i < 8 \<and> f_used (g_tmpfs_files s ! i) \<and> f_name (g_tmpfs_files s ! i) = n"
  then have "n \<noteq> ''''" using assms by (auto simp: tmpfs_ok_def file_ok_def)
  moreover have "\<not> (f_used (g_tmpfs_files s ! j) \<and> f_name (g_tmpfs_files s ! j) = n)" if "j < i" for j
    using assms i that unfolding tmpfs_ok_def by (metis less_trans nat_neq_iff)
  ultimately show "tmpfs_find_file (Some n) s = Some i"
    using i by (auto simp: tmpfs_find_file_def first_index_Some_iff)
qed

lemma find_file_None: "tmpfs_find_file None s = None"
  by (simp add: tmpfs_find_file_def)

lemma find_file_None_iff:
  assumes "tmpfs_ok s"
  shows "tmpfs_find_file (Some n) s = None \<longleftrightarrow>
     (\<forall>i<8. f_used (g_tmpfs_files s ! i) \<longrightarrow> f_name (g_tmpfs_files s ! i) \<noteq> n)"
  using find_file_Some_iff [OF assms, of n] by (metis not_None_eq)

lemma unat_256 [simp]: "unat (256 :: u64) = 256"
  by simp

lemma clear_file_ok [simp]: "file_ok tmpfs_clear_file" "\<not> f_used tmpfs_clear_file"
  by (simp_all add: file_ok_def tmpfs_clear_file_def)

lemma files_Some:
  "tmpfs_ok s \<Longrightarrow> i < 8 \<Longrightarrow> f_used (g_tmpfs_files s ! i) \<Longrightarrow>
     tmpfs_files s (f_name (g_tmpfs_files s ! i)) = Some (content (g_tmpfs_files s ! i))"
  using find_file_Some_iff [of s "f_name (g_tmpfs_files s ! i)" i] by (simp add: tmpfs_files_def)

lemma files_None:
  "tmpfs_ok s \<Longrightarrow> \<forall>i<8. f_used (g_tmpfs_files s ! i) \<longrightarrow> f_name (g_tmpfs_files s ! i) \<noteq> n \<Longrightarrow>
     tmpfs_files s n = None"
  using find_file_None_iff [of s n] by (simp add: tmpfs_files_def)

text \<open>Replacing the file in one slot.\<close>

lemma tmpfs_ok_update [kernel_inv]:
  assumes "tmpfs_ok s" and "i < 8" and "file_ok f"
    and "f_used f \<Longrightarrow> \<forall>j<8. j \<noteq> i \<longrightarrow> f_used (g_tmpfs_files s ! j) \<longrightarrow> f_name (g_tmpfs_files s ! j) \<noteq> f_name f"
  shows "tmpfs_ok (s\<lparr>g_tmpfs_files := (g_tmpfs_files s)[i := f]\<rparr>)"
proof -
  have "length (g_tmpfs_files s) = 8" using assms(1) by (simp add: tmpfs_ok_def)
  then have nth: "(g_tmpfs_files s)[i := f] ! j = (if j = i then f else g_tmpfs_files s ! j)" for j
    using assms(2) by simp
  show ?thesis using assms unfolding tmpfs_ok_def
    by (simp add: nth) (metis (full_types))
qed

lemma files_update:
  assumes "tmpfs_ok s" and "i < 8" and "tmpfs_ok s'"
    and s': "s' = s\<lparr>g_tmpfs_files := (g_tmpfs_files s)[i := f]\<rparr>"
  shows "tmpfs_files s' n =
     (if f_used f \<and> n = f_name f then Some (content f)
      else if f_used (g_tmpfs_files s ! i) \<and> n = f_name (g_tmpfs_files s ! i) then None
      else tmpfs_files s n)"
proof -
  have "length (g_tmpfs_files s) = 8" using assms(1) by (simp add: tmpfs_ok_def)
  then have nth: "g_tmpfs_files s' ! j = (if j = i then f else g_tmpfs_files s ! j)" for j
    using assms(2) by (simp add: s')
  consider (new) "f_used f" "n = f_name f"
    | (other) j where "j < 8" "j \<noteq> i" "f_used (g_tmpfs_files s ! j)" "n = f_name (g_tmpfs_files s ! j)"
        "\<not> (f_used f \<and> n = f_name f)"
    | (none) "\<forall>j<8. f_used (g_tmpfs_files s' ! j) \<longrightarrow> f_name (g_tmpfs_files s' ! j) \<noteq> n"
        "\<not> (f_used f \<and> n = f_name f)"
    unfolding nth by metis
  then show ?thesis
  proof cases
    case new
    then show ?thesis using files_Some [OF assms(3,2)] by (simp add: nth)
  next
    case (other j)
    have "\<not> (f_used (g_tmpfs_files s ! i) \<and> n = f_name (g_tmpfs_files s ! i))"
      using assms(1,2) other unfolding tmpfs_ok_def by metis
    then show ?thesis
      using other files_Some [OF assms(1) other(1,3)] files_Some [OF assms(3) other(1)] by (auto simp: nth)
  next
    case none
    have "tmpfs_files s n = None" if "\<not> (f_used (g_tmpfs_files s ! i) \<and> n = f_name (g_tmpfs_files s ! i))"
      using that none(1) by (intro files_None [OF assms(1)]) (metis nth)
    then show ?thesis using none files_None [OF assms(3) none(1)] by auto
  qed
qed

section \<open>What the operations do to the files\<close>

definition splice :: "u8 list \<Rightarrow> nat \<Rightarrow> u8 list \<Rightarrow> u8 list" where
  "splice c off b = take off (c @ replicate (off - length c) 0) @ b @ drop (off + length b) c"

lemma content_eq: "file_ok f \<Longrightarrow> f_data f = content f @ replicate (256 - unat (f_size f)) 0"
  by (rule nth_equalityI) (auto simp: file_ok_def content_def nth_append)

lemma length_content [simp]: "file_ok f \<Longrightarrow> length (content f) = unat (f_size f)"
  by (simp add: content_def file_ok_def)

lemma splice_take:
  assumes "d = c @ replicate (L - length c) 0" and "length c \<le> L" and "off + length b \<le> L"
  shows "take (max (length c) (off + length b)) (take off d @ b @ drop (off + length b) d) = splice c off b"
proof -
  let ?e = "off + length b"
  have len: "length (take off d) = off" using assms by simp
  have "take (max (length c) ?e - ?e) (drop ?e d) = drop ?e c"
    using assms(1) by (cases "?e \<le> length c") (simp_all add: max_def)
  moreover have "take off d = take off (c @ replicate (off - length c) 0)"
    using assms by (simp add: min_def)
  ultimately show ?thesis
    using len by (auto simp: splice_def max_def)
qed

definition write_file :: "u64 \<Rightarrow> u8 list \<Rightarrow> u64 \<Rightarrow> tmpfs_file \<Rightarrow> tmpfs_file" where
  "write_file offset buf count file =
     (let file1 = file\<lparr>f_data := copy_loop (f_data file) (unat offset) buf (unat count)\<rparr>
      in if offset + count > f_size file1 then file1\<lparr>f_size := offset + count\<rparr> else file1)"

lemma write_file_spec:
  assumes f: "file_ok f" and "unat offset + unat count \<le> 256" and "unat count \<le> length buf"
  shows "file_ok (write_file offset buf count f)"
    and "content (write_file offset buf count f) = splice (content f) (unat offset) (take (unat count) buf)"
    and "f_used (write_file offset buf count f) = f_used f" "f_name (write_file offset buf count f) = f_name f"
proof -
  let ?o = "unat offset" and ?n = "unat count" and ?g = "write_file offset buf count f"
  have sum: "unat (offset + count) = ?o + ?n" using assms(2) by (simp add: unat_add_bounded)
  have len: "length (f_data f) = 256" using f by (simp add: file_ok_def)
  have data: "f_data ?g = take ?o (f_data f) @ take ?n buf @ drop (?o + ?n) (f_data f)"
    using assms(2,3) len by (simp add: write_file_def Let_def copy_loop_eq)
  have size: "unat (f_size ?g) = max (unat (f_size f)) (?o + ?n)"
    using sum by (simp add: write_file_def Let_def word_less_nat_alt)
  show "f_used ?g = f_used f" "f_name ?g = f_name f" by (simp_all add: write_file_def Let_def)
  moreover have "f_data ?g ! k = 0" if "max (unat (f_size f)) (?o + ?n) \<le> k" "k < 256" for k
    using that f assms(2,3) len by (auto simp: data nth_append file_ok_def)
  ultimately show "file_ok ?g" using f assms(2) len
    by (simp add: file_ok_def size) (simp add: data assms(3))
  have "content ?g = take (max (length (content f)) (?o + length (take ?n buf)))
      (take ?o (f_data f) @ take ?n buf @ drop (?o + length (take ?n buf)) (f_data f))"
    using assms(3) f by (simp add: content_def [of ?g] size data)
  also have "\<dots> = splice (content f) ?o (take ?n buf)"
    using assms(2,3) f content_eq [OF f] by (intro splice_take [where L = 256]) (auto simp: file_ok_def)
  finally show "content ?g = splice (content f) ?o (take ?n buf)" .
qed

lemma tmpfs_find_content:
  assumes "tmpfs_ok s" and "tmpfs_files s n = Some c"
  obtains i where "tmpfs_find_file (Some n) s = Some i" "i < 8" "f_used (g_tmpfs_files s ! i)"
    "f_name (g_tmpfs_files s ! i) = n" "content (g_tmpfs_files s ! i) = c" "file_ok (g_tmpfs_files s ! i)"
proof -
  obtain i where i: "tmpfs_find_file (Some n) s = Some i" "content (g_tmpfs_files s ! i) = c"
    using assms(2) by (auto simp: tmpfs_files_def)
  moreover have "i < 8" "f_used (g_tmpfs_files s ! i)" "f_name (g_tmpfs_files s ! i) = n"
    using i(1) find_file_Some_iff [OF assms(1)] by auto
  moreover have "file_ok (g_tmpfs_files s ! i)" using \<open>i < 8\<close> assms(1) by (simp add: tmpfs_ok_def)
  ultimately show ?thesis using that by blast
qed

lemma tmpfs_files_None: "tmpfs_files s n = None \<longleftrightarrow> tmpfs_find_file (Some n) s = None"
  by (simp add: tmpfs_files_def)

lemma tmpfs_write_absent: "tmpfs_files s n = None \<Longrightarrow> tmpfs_write (Some n) offset (Some buf) sz s = (None, s)"
  by (simp add: tmpfs_files_None tmpfs_write_def)

lemma tmpfs_write_spec:
  assumes "tmpfs_ok s" and "tmpfs_files s n = Some c" and "unat offset \<le> 256" and "unat sz \<le> length buf"
  defines "k \<equiv> min (unat sz) (256 - unat offset)"
  shows "\<exists>s' m. tmpfs_write (Some n) offset (Some buf) sz s = (Some m, s') \<and> unat m = k \<and> tmpfs_ok s' \<and>
     tmpfs_files s' = (tmpfs_files s)(n \<mapsto> splice c (unat offset) (take k buf))"
proof -
  obtain i where i: "tmpfs_find_file (Some n) s = Some i" "i < 8" "f_used (g_tmpfs_files s ! i)"
    "f_name (g_tmpfs_files s ! i) = n" "content (g_tmpfs_files s ! i) = c" "file_ok (g_tmpfs_files s ! i)"
    using tmpfs_find_content [OF assms(1,2)] .
  define m where "m = (if sz > 256 - offset then 256 - offset else sz)"
  have diff: "unat (256 - offset) = 256 - unat offset"
    using assms(3) by (simp add: unat_sub word_le_nat_alt)
  then have m: "unat m = k" by (auto simp: m_def k_def word_less_nat_alt)
  let ?f = "write_file offset buf m (g_tmpfs_files s ! i)"
  let ?s = "s\<lparr>g_tmpfs_files := (g_tmpfs_files s)[i := ?f]\<rparr>"
  have w: "file_ok ?f" "content ?f = splice c (unat offset) (take k buf)" "f_used ?f" "f_name ?f = n"
    using write_file_spec [OF i(6), of offset m buf] i m assms(3,4) by (auto simp: k_def)
  have ok: "tmpfs_ok ?s"
    using assms(1) i w by (intro tmpfs_ok_update) (auto simp: tmpfs_ok_def)
  have "tmpfs_files ?s = (tmpfs_files s)(n \<mapsto> splice c (unat offset) (take k buf))"
    using files_update [OF assms(1) i(2) ok refl] w i by (auto simp: fun_eq_iff)
  moreover have "tmpfs_write (Some n) offset (Some buf) sz s = (Some m, ?s)"
    using i(1) assms(3) by (simp add: tmpfs_write_def m_def write_file_def Let_def word_less_nat_alt)
  ultimately show ?thesis using m ok by blast
qed

lemma tmpfs_read_spec:
  assumes "tmpfs_ok s" and "tmpfs_files s n = Some c"
  shows "tmpfs_read (Some n) offset capacity s =
     (if unat offset \<le> length c then Some (take (unat capacity) (drop (unat offset) c)) else None)"
proof -
  obtain i where i: "tmpfs_find_file (Some n) s = Some i" "content (g_tmpfs_files s ! i) = c"
    "file_ok (g_tmpfs_files s ! i)"
    using tmpfs_find_content [OF assms] by metis
  let ?f = "g_tmpfs_files s ! i"
  have len: "length c = unat (f_size ?f)" "unat (f_size ?f) \<le> length (f_data ?f)"
    using i by (auto simp: file_ok_def)
  define m where "m = (if capacity > f_size ?f - offset then f_size ?f - offset else capacity)"
  show ?thesis
  proof (cases "unat offset \<le> length c")
    case True
    then have m: "unat m = min (unat capacity) (unat (f_size ?f) - unat offset)"
      using len by (auto simp: m_def word_less_nat_alt unat_sub word_le_nat_alt)
    then have "map (\<lambda>k. f_data ?f ! (unat offset + k)) [0..<unat m] = take (unat m) (drop (unat offset) (f_data ?f))"
      using True len by (intro map_nth_shift) simp
    also have "\<dots> = take (unat capacity) (drop (unat offset) c)"
      using m i(2) len by (auto simp: content_def drop_take min_def)
    finally show ?thesis using True i(1) len
      by (simp add: tmpfs_read_def Let_def m_def [symmetric] not_less word_le_nat_alt)
  next
    case False
    then show ?thesis using i(1) len by (simp add: tmpfs_read_def Let_def word_less_nat_alt)
  qed
qed

definition tmpfs_full :: "tmpfs \<Rightarrow> bool" where
  "tmpfs_full s \<longleftrightarrow> (\<forall>i<8. f_used (g_tmpfs_files s ! i))"

lemma files_update_unused:
  assumes "tmpfs_ok s" and "i < 8" and "\<not> f_used (g_tmpfs_files s ! i)" and "file_ok f"
    and "f_used f \<Longrightarrow> tmpfs_files s (f_name f) = None"
  shows "tmpfs_ok (s\<lparr>g_tmpfs_files := (g_tmpfs_files s)[i := f]\<rparr>)" (is "tmpfs_ok ?s")
    and "tmpfs_files (s\<lparr>g_tmpfs_files := (g_tmpfs_files s)[i := f]\<rparr>) =
      (if f_used f then (tmpfs_files s)(f_name f \<mapsto> content f) else tmpfs_files s)"
proof -
  have "\<forall>j<8. j \<noteq> i \<longrightarrow> f_used (g_tmpfs_files s ! j) \<longrightarrow> f_name (g_tmpfs_files s ! j) \<noteq> f_name f" if "f_used f"
    using assms(5) [OF that] find_file_None_iff [OF assms(1)] by (simp add: tmpfs_files_None)
  then show ok: "tmpfs_ok ?s" using assms by (intro tmpfs_ok_update) auto
  show "tmpfs_files ?s = (if f_used f then (tmpfs_files s)(f_name f \<mapsto> content f) else tmpfs_files s)"
    using files_update [OF assms(1,2) ok refl] assms(3) by (auto simp: fun_eq_iff)
qed

lemma tmpfs_create_spec:
  assumes "tmpfs_ok s" and "tmpfs_create (Some n) s = (r, s')"
  shows "tmpfs_ok s' \<and> (r \<longleftrightarrow> n \<noteq> '''' \<and> length n < 32 \<and> tmpfs_files s n = None \<and> \<not> tmpfs_full s) \<and>
    tmpfs_files s' = (if r then (tmpfs_files s)(n \<mapsto> []) else tmpfs_files s)"
proof (cases "n = '''' \<or> tmpfs_files s n \<noteq> None")
  case True
  then show ?thesis using assms by (auto simp: tmpfs_create_def tmpfs_files_None)
next
  case new: False
  show ?thesis
  proof (cases "first_index 8 (\<lambda>i. \<not> f_used (g_tmpfs_files s ! i))")
    case None
    then have "(r, s') = (False, s)" using assms(2) new by (auto simp: tmpfs_create_def tmpfs_files_None)
    moreover have "tmpfs_full s" using None by (simp add: first_index_None_iff tmpfs_full_def)
    ultimately show ?thesis using assms(1) by simp
  next
    case (Some i)
    then have i: "i < 8" "\<not> f_used (g_tmpfs_files s ! i)" by (auto dest: first_index_SomeD)
    let ?g = "tmpfs_clear_file\<lparr>f_name := take 31 n\<rparr>"
    let ?f = "if length n < 32 then ?g\<lparr>f_size := 0, f_used := True\<rparr> else ?g"
    have eq: "s' = s\<lparr>g_tmpfs_files := (g_tmpfs_files s)[i := ?f]\<rparr>" "r \<longleftrightarrow> length n < 32"
      using assms(2) Some new
      by (auto simp: tmpfs_create_def tmpfs_files_None tmpfs_copy_name_def Let_def split: if_splits)
    have "file_ok ?f" using new by (auto simp: file_ok_def tmpfs_clear_file_def)
    then have "tmpfs_ok s'" "tmpfs_files s' = (if f_used ?f then (tmpfs_files s)(f_name ?f \<mapsto> content ?f) else tmpfs_files s)"
      using files_update_unused [OF assms(1) i, of ?f] new unfolding eq by (auto simp: tmpfs_clear_file_def split: if_splits)
    moreover have "\<not> tmpfs_full s" using i by (auto simp: tmpfs_full_def)
    ultimately show ?thesis using new eq(2) by (auto simp: content_def tmpfs_clear_file_def)
  qed
qed

lemma tmpfs_delete_spec:
  assumes "tmpfs_ok s" and "tmpfs_delete (Some n) s = (r, s')"
  shows "tmpfs_ok s' \<and> (r \<longleftrightarrow> tmpfs_files s n \<noteq> None) \<and> tmpfs_files s' = (tmpfs_files s)(n := None)"
proof (cases "tmpfs_files s n")
  case None
  then show ?thesis using assms by (auto simp: tmpfs_delete_def tmpfs_files_None fun_eq_iff)
next
  case (Some c)
  obtain i where i: "tmpfs_find_file (Some n) s = Some i" "i < 8" "f_used (g_tmpfs_files s ! i)"
    "f_name (g_tmpfs_files s ! i) = n"
    using tmpfs_find_content [OF assms(1) Some] by metis
  then have eq: "r" "s' = s\<lparr>g_tmpfs_files := (g_tmpfs_files s)[i := tmpfs_clear_file]\<rparr>"
    using assms(2) by (auto simp: tmpfs_delete_def)
  have ok: "tmpfs_ok s'" unfolding eq using assms(1) i by (intro tmpfs_ok_update) auto
  show ?thesis using files_update [OF assms(1) i(2) ok eq(2)] i eq(1) Some ok by (auto simp: fun_eq_iff)
qed

section \<open>The file-store contract\<close>

locale file_store =
  fixes cap :: nat
    and good :: "'s \<Rightarrow> bool"
    and files :: "'s \<Rightarrow> string \<Rightarrow> u8 list option"
    and create :: "string \<Rightarrow> 's \<Rightarrow> bool \<times> 's"
    and delete :: "string \<Rightarrow> 's \<Rightarrow> bool \<times> 's"
    and put :: "string \<Rightarrow> u64 \<Rightarrow> u8 list \<Rightarrow> u64 \<Rightarrow> 's \<Rightarrow> u64 option \<times> 's"
    and get :: "string \<Rightarrow> u64 \<Rightarrow> u64 \<Rightarrow> 's \<Rightarrow> u8 list option"
  assumes cap_small: "cap < 2 ^ 64"
    and create_law: "good s \<Longrightarrow> create n s = (r, s') \<Longrightarrow>
      good s' \<and> files s' = (if r then (files s)(n \<mapsto> []) else files s)"
    and delete_law: "good s \<Longrightarrow> delete n s = (r, s') \<Longrightarrow> good s' \<and> files s' = (files s)(n := None)"
    and write_law: "good s \<Longrightarrow> files s n = Some c \<Longrightarrow> unat off \<le> cap \<Longrightarrow> unat sz \<le> length buf \<Longrightarrow>
      \<exists>s' m. put n off buf sz s = (Some m, s') \<and> unat m = min (unat sz) (cap - unat off) \<and> good s' \<and>
        files s' = (files s)(n \<mapsto> splice c (unat off) (take (unat m) buf))"
    and read_law: "good s \<Longrightarrow> files s n = Some c \<Longrightarrow> get n off k s =
      (if unat off \<le> length c then Some (take (unat k) (drop (unat off) c)) else None)"
    and read_absent: "good s \<Longrightarrow> files s n = None \<Longrightarrow> get n off k s = None"
begin

lemma write_all:
  assumes "good s" and "files s n = Some c" and "unat off + unat sz \<le> cap" and "unat sz \<le> length buf"
  obtains s' where "put n off buf sz s = (Some sz, s')" "good s'"
    "files s' = (files s)(n \<mapsto> splice c (unat off) (take (unat sz) buf))"
proof -
  obtain s' m where w: "put n off buf sz s = (Some m, s')" "unat m = min (unat sz) (cap - unat off)"
    "good s'" "files s' = (files s)(n \<mapsto> splice c (unat off) (take (unat m) buf))"
    using write_law [OF assms(1,2) _ assms(4), of off] assms(3) by auto
  have "m = sz" using w(2) assms(3) by (simp add: word_unat_eq_iff)
  then show ?thesis using w that by simp
qed

lemma read_after_write:
  assumes "good s" and "files s n = Some c" and "unat off + unat sz \<le> cap" and "unat sz \<le> length buf"
  shows "\<exists>s'. put n off buf sz s = (Some sz, s') \<and> good s' \<and> get n off sz s' = Some (take (unat sz) buf) \<and>
     (\<forall>m o' k. m \<noteq> n \<longrightarrow> get m o' k s' = get m o' k s)"
proof -
  obtain s' where w: "put n off buf sz s = (Some sz, s')" "good s'"
    "files s' = (files s)(n \<mapsto> splice c (unat off) (take (unat sz) buf))"
    using write_all [OF assms] .
  let ?c = "splice c (unat off) (take (unat sz) buf)"
  have "unat off \<le> length ?c" "take (unat sz) (drop (unat off) ?c) = take (unat sz) buf"
    using assms(4) by (auto simp: splice_def)
  then have "get n off sz s' = Some (take (unat sz) buf)"
    using read_law [OF w(2), of n ?c] w(3) by simp
  moreover have "get x o' k s' = get x o' k s" if "x \<noteq> n" for x o' k
    using that read_law [OF w(2)] read_law [OF assms(1)] read_absent [OF w(2)] read_absent [OF assms(1)] w(3)
    by (cases "files s x") auto
  ultimately show ?thesis using w by blast
qed

text \<open>A file in a reused slot starts empty, and bytes it never wrote get as zero.\<close>

lemma reuse_is_clean:
  assumes "good s" and "delete a s = (d, s1)" and "create b s1 = (True, s2)"
    and "unat off + unat sz \<le> cap" and "unat sz \<le> length buf"
  shows "\<exists>s3. put b off buf sz s2 = (Some sz, s3) \<and>
     get b 0 (off + sz) s3 = Some (replicate (unat off) 0 @ take (unat sz) buf)"
proof -
  have s1: "good s1" using delete_law [OF assms(1,2)] by simp
  have s2: "good s2" "files s2 b = Some []" using create_law [OF s1 assms(3)] by auto
  obtain s3 where w: "put b off buf sz s2 = (Some sz, s3)" "good s3"
    "files s3 = (files s2)(b \<mapsto> splice [] (unat off) (take (unat sz) buf))"
    using write_all [OF s2 assms(4,5)] .
  have "unat (off + sz) = unat off + unat sz" using assms(4) cap_small by (simp add: unat_add_bounded)
  then have "get b 0 (off + sz) s3 = Some (replicate (unat off) 0 @ take (unat sz) buf)"
    using read_law [OF w(2), of b "splice [] (unat off) (take (unat sz) buf)" 0] w(3) assms(5)
    by (simp add: splice_def)
  then show ?thesis using w by blast
qed

end

interpretation tmp: file_store 256 tmpfs_ok tmpfs_files
  "\<lambda>n. tmpfs_create (Some n)" "\<lambda>n. tmpfs_delete (Some n)"
  "\<lambda>n off buf. tmpfs_write (Some n) off (Some buf)" "\<lambda>n. tmpfs_read (Some n)"
proof
  fix s s' :: tmpfs and n r c buf and off sz k :: u64
  show "(256::nat) < 2 ^ 64" by simp
  assume s: "tmpfs_ok s"
  show "tmpfs_create (Some n) s = (r, s') \<Longrightarrow>
      tmpfs_ok s' \<and> tmpfs_files s' = (if r then (tmpfs_files s)(n \<mapsto> []) else tmpfs_files s)"
    using tmpfs_create_spec [OF s] by blast
  show "tmpfs_delete (Some n) s = (r, s') \<Longrightarrow> tmpfs_ok s' \<and> tmpfs_files s' = (tmpfs_files s)(n := None)"
    using tmpfs_delete_spec [OF s] by blast
  show "tmpfs_files s n = None \<Longrightarrow> tmpfs_read (Some n) off k s = None"
    by (simp add: tmpfs_files_None tmpfs_read_def)
  assume c: "tmpfs_files s n = Some c"
  show "tmpfs_read (Some n) off k s =
      (if unat off \<le> length c then Some (take (unat k) (drop (unat off) c)) else None)"
    by (rule tmpfs_read_spec [OF s c])
  show "unat off \<le> 256 \<Longrightarrow> unat sz \<le> length buf \<Longrightarrow>
      \<exists>s' m. tmpfs_write (Some n) off (Some buf) sz s = (Some m, s') \<and>
        unat m = min (unat sz) (256 - unat off) \<and> tmpfs_ok s' \<and>
        tmpfs_files s' = (tmpfs_files s)(n \<mapsto> splice c (unat off) (take (unat m) buf))"
    using tmpfs_write_spec [OF s c] by metis
qed

section \<open>Properties\<close>

definition tmpfs_blank :: tmpfs where
  "tmpfs_blank = \<lparr>g_tmpfs_files = replicate 8 tmpfs_clear_file, g_tmpfs_vfs_names = replicate 8 '''',
     g_tmpfs_vfs_node_count = 0\<rparr>"

lemma tmpfs_blank_ok: "tmpfs_ok tmpfs_blank" "tmpfs_files tmpfs_blank n = None" "\<not> tmpfs_full tmpfs_blank"
proof -
  show ok: "tmpfs_ok tmpfs_blank" by (auto simp: tmpfs_ok_def tmpfs_blank_def)
  show "tmpfs_files tmpfs_blank n = None" by (rule files_None [OF ok]) (simp add: tmpfs_blank_def)
  have "\<not> f_used (g_tmpfs_files tmpfs_blank ! 0)" by (simp add: tmpfs_blank_def)
  then show "\<not> tmpfs_full tmpfs_blank" unfolding tmpfs_full_def by (metis zero_less_numeral)
qed

lemma tmpfs_blank_create:
  "n \<noteq> '''' \<Longrightarrow> length n < 32 \<Longrightarrow> \<exists>s. tmpfs_create (Some n) tmpfs_blank = (True, s) \<and> tmpfs_ok s \<and>
     tmpfs_files s n = Some []"
  using tmpfs_create_spec [OF tmpfs_blank_ok(1), of n] tmpfs_blank_ok(2,3)
  by (cases "tmpfs_create (Some n) tmpfs_blank") auto

text \<open>\<open>tmpfs_read\<close> returns what \<open>tmpfs_write\<close> stored: a write that fits the 256 bytes of a file is taken
  whole, reading the same range gives back the written bytes, and every other file reads as before.\<close>

theorem tmpfs_read_after_write:
  assumes "tmpfs_ok s" and "tmpfs_files s n = Some c" and "unat off + unat sz \<le> 256" and "unat sz \<le> length buf"
  shows "\<exists>s'. tmpfs_write (Some n) off (Some buf) sz s = (Some sz, s') \<and> tmpfs_ok s' \<and>
     tmpfs_read (Some n) off sz s' = Some (take (unat sz) buf) \<and>
     (\<forall>m o' k. m \<noteq> n \<longrightarrow> tmpfs_read (Some m) o' k s' = tmpfs_read (Some m) o' k s)"
  using tmp.read_after_write [OF assms] .

theorem tmpfs_read_after_write_witness:
  "\<exists>s s'. tmpfs_create (Some ''a'') tmpfs_blank = (True, s) \<and>
     tmpfs_write (Some ''a'') 3 (Some [1, 2]) 2 s = (Some 2, s') \<and> tmpfs_read (Some ''a'') 3 2 s' = Some [1, 2]"
proof -
  obtain s where s: "tmpfs_create (Some ''a'') tmpfs_blank = (True, s)" "tmpfs_ok s" "tmpfs_files s ''a'' = Some []"
    using tmpfs_blank_create [of "''a''"] by auto
  show ?thesis using tmpfs_read_after_write [OF s(2,3), of 3 2 "[1, 2]"] s(1) by auto
qed

text \<open>\<open>tmpfs_write\<close> and \<open>tmpfs_read\<close> in full, on the contents of the file: a write at an offset of at
  most 256 stores the bytes that fit, fills a gap before the offset with zeros and never shortens
  the file; beyond 256, or on a missing file, it fails and changes nothing; a read gives the requested part
  of the contents and fails beyond the end.\<close>

theorem tmpfs_write_read_correct:
  assumes "tmpfs_ok s" and "unat sz \<le> length buf"
  shows "(case tmpfs_files s n of
       None \<Rightarrow> tmpfs_write (Some n) off (Some buf) sz s = (None, s) \<and> tmpfs_read (Some n) off k s = None
     | Some c \<Rightarrow>
         (if unat off \<le> 256
          then \<exists>s' m. tmpfs_write (Some n) off (Some buf) sz s = (Some m, s') \<and>
            unat m = min (unat sz) (256 - unat off) \<and> tmpfs_ok s' \<and>
            tmpfs_files s' = (tmpfs_files s)(n \<mapsto> splice c (unat off) (take (unat m) buf))
          else tmpfs_write (Some n) off (Some buf) sz s = (None, s)) \<and>
         tmpfs_read (Some n) off k s =
           (if unat off \<le> length c then Some (take (unat k) (drop (unat off) c)) else None))"
proof (cases "tmpfs_files s n")
  case None
  then show ?thesis using tmpfs_write_absent tmp.read_absent [OF assms(1)] by simp
next
  case (Some c)
  have "tmpfs_write (Some n) off (Some buf) sz s = (None, s)" if "\<not> unat off \<le> 256"
    using that Some by (auto simp: tmpfs_write_def tmpfs_files_def word_less_nat_alt)
  then show ?thesis
    using Some tmp.write_law [OF assms(1) Some _ assms(2)] tmpfs_read_spec [OF assms(1) Some] by simp
qed

theorem tmpfs_write_read_correct_witness:
  "tmpfs_write (Some ''x'') 0 (Some [1]) 1 tmpfs_blank = (None, tmpfs_blank)"
  using tmpfs_write_read_correct [OF tmpfs_blank_ok(1), of 1 "[1]" "''x''" 0 0] tmpfs_blank_ok(2) by simp

text \<open>\<open>tmpfs_create\<close> and \<open>tmpfs_delete\<close>: creation succeeds exactly for a new, non-empty name of at most 31
  characters while a slot is free, and adds one empty file; deletion succeeds exactly for an existing
  file and removes only it; all other files keep their contents, and no failed call changes any file.\<close>

theorem tmpfs_create_delete_correct:
  assumes "tmpfs_ok s"
  shows "(case tmpfs_create (Some n) s of (r, s') \<Rightarrow> tmpfs_ok s' \<and>
       (r \<longleftrightarrow> n \<noteq> '''' \<and> length n < 32 \<and> tmpfs_files s n = None \<and> \<not> tmpfs_full s) \<and>
       tmpfs_files s' = (if r then (tmpfs_files s)(n \<mapsto> []) else tmpfs_files s)) \<and>
     (case tmpfs_delete (Some n) s of (r, s') \<Rightarrow> tmpfs_ok s' \<and>
       (r \<longleftrightarrow> tmpfs_files s n \<noteq> None) \<and> tmpfs_files s' = (tmpfs_files s)(n := None))"
  using tmpfs_create_spec [OF assms] tmpfs_delete_spec [OF assms] by (auto split: prod.splits)

theorem tmpfs_create_delete_correct_witness:
  "fst (tmpfs_create (Some ''a'') tmpfs_blank) \<and> \<not> fst (tmpfs_delete (Some ''a'') tmpfs_blank)"
  using tmpfs_create_delete_correct [OF tmpfs_blank_ok(1), of "''a''"] tmpfs_blank_ok(2,3)
  by (auto split: prod.splits)

text \<open>C36 No file sees the bytes of another: after a slot is freed and reused under a new name, the new
  file reads as zeros up to the first byte it wrote itself.\<close>

theorem tmpfs_reuse_is_clean:
  assumes "tmpfs_ok s" and "tmpfs_delete (Some a) s = (d, s1)" and "tmpfs_create (Some b) s1 = (True, s2)"
    and "unat off + unat sz \<le> 256" and "unat sz \<le> length buf"
  shows "\<exists>s3. tmpfs_write (Some b) off (Some buf) sz s2 = (Some sz, s3) \<and>
     tmpfs_read (Some b) 0 (off + sz) s3 = Some (replicate (unat off) 0 @ take (unat sz) buf)"
  using tmp.reuse_is_clean [OF assms] .

theorem tmpfs_reuse_is_clean_witness:
  "\<exists>s2 s3. tmpfs_create (Some ''b'') tmpfs_blank = (True, s2) \<and>
     tmpfs_write (Some ''b'') 2 (Some [7]) 1 s2 = (Some 1, s3) \<and> tmpfs_read (Some ''b'') 0 3 s3 = Some [0, 0, 7]"
proof -
  obtain s2 where s2: "tmpfs_create (Some ''b'') tmpfs_blank = (True, s2)"
    using tmpfs_blank_create [of "''b''"] by auto
  have "tmpfs_find_file (Some ''a'') tmpfs_blank = None" using tmpfs_blank_ok(2) by (simp add: tmpfs_files_None)
  then have "tmpfs_delete (Some ''a'') tmpfs_blank = (False, tmpfs_blank)" by (simp add: tmpfs_delete_def)
  moreover have "replicate 2 (0::u8) = [0, 0]" by (simp add: numeral_2_eq_2)
  ultimately show ?thesis
    using tmpfs_reuse_is_clean [OF tmpfs_blank_ok(1) _ s2, of "''a''" False 2 1 "[7]"] s2 by auto
qed

end
