(* ===== verification/Vfs.thy ===== *)
theory Vfs
  imports Tmpfs
begin

text \<open>
  The virtual file system, \<open>kernel/vfs.c\<close>: the node table, the open-file table and the list mounts. A
  mounted file system is reached only through the callbacks of its nodes; a node's callbacks with
  their context pointer are functions on the state \<open>'b\<close> of the mounted file systems, which is the field
  \<open>backend\<close>. A read callback returns its status, the count it stored and the bytes it put into the
  buffer; VFS checks the count. The lookup of files on the FAT32 volume by \<open>vfs_open_flags\<close> is the
  argument \<open>dyn\<close>, which the FAT32 part instantiates.
\<close>

abbreviation VFS_MAX_NODES :: nat where "VFS_MAX_NODES \<equiv> 24"
abbreviation VFS_MAX_OPEN_FILES :: nat where "VFS_MAX_OPEN_FILES \<equiv> 8"
abbreviation VFS_MAX_PATH :: nat where "VFS_MAX_PATH \<equiv> 64"
abbreviation VFS_MAX_LIST_MOUNTS :: nat where "VFS_MAX_LIST_MOUNTS \<equiv> 4"
abbreviation VFS_O_RDONLY :: u32 where "VFS_O_RDONLY \<equiv> 0"
abbreviation VFS_O_WRONLY :: u32 where "VFS_O_WRONLY \<equiv> 1"
abbreviation VFS_O_RDWR :: u32 where "VFS_O_RDWR \<equiv> 2"
abbreviation VFS_O_ACCMODE :: u32 where "VFS_O_ACCMODE \<equiv> 3"
abbreviation VFS_O_CREAT :: u32 where "VFS_O_CREAT \<equiv> 0x40"

record 'b vfs_node =
  vn_path :: "string option"
  vn_size :: u64
  vn_read :: "('b \<Rightarrow> u64 \<Rightarrow> u64 \<Rightarrow> int \<times> u64 \<times> u8 list) option"
  vn_write :: "('b \<Rightarrow> u64 \<Rightarrow> u8 list \<Rightarrow> u64 \<Rightarrow> int \<times> u64 \<times> 'b) option"
  vn_stat :: "('b \<Rightarrow> int \<times> u64) option"

record 'b vfs_list_mount =
  lm_path :: string
  lm_list :: "('b \<Rightarrow> u64 \<Rightarrow> int \<times> u64 \<times> u8 list) option"
  lm_used :: bool

record vfs_open_file =
  of_node :: "nat option"
  of_offset :: u64
  of_flags :: u32
  of_used :: bool

record 'b vfs =
  g_vfs_nodes :: "'b vfs_node list"
  g_vfs_node_count :: nat
  g_list_mounts :: "'b vfs_list_mount list"
  g_open_files :: "vfs_open_file list"
  backend :: 'b

section \<open>Operations\<close>

definition vfs_fd_at :: "int \<Rightarrow> 'b vfs \<Rightarrow> nat option" where
  "vfs_fd_at fd s =
     (if fd < 0 \<or> fd \<ge> int VFS_MAX_OPEN_FILES \<or> \<not> of_used (g_open_files s ! nat fd) \<or>
         of_node (g_open_files s ! nat fd) = None
      then None else Some (nat fd))"

definition vfs_path_equals :: "string option \<Rightarrow> string option \<Rightarrow> bool" where
  "vfs_path_equals left right =
     (case (left, right) of (Some l, Some r) \<Rightarrow> cstr_loop_eq l r | _ \<Rightarrow> False)"

definition vfs_path_is_mountable :: "string option \<Rightarrow> bool" where
  "vfs_path_is_mountable path =
     (case path of
        None \<Rightarrow> False
      | Some p \<Rightarrow> (case p of [] \<Rightarrow> False | c # _ \<Rightarrow> c = CHR ''/'' \<and> length p + 1 \<le> VFS_MAX_PATH))"

text \<open>The result and the destination; a path that is too long leaves its first 63 characters there.\<close>

definition vfs_copy_path :: "string \<Rightarrow> string option \<Rightarrow> bool \<times> string" where
  "vfs_copy_path dest path =
     (case path of
        None \<Rightarrow> (False, dest)
      | Some p \<Rightarrow> (case p of [] \<Rightarrow> (False, dest)
          | c # _ \<Rightarrow> if c \<noteq> CHR ''/'' then (False, dest)
                     else (length p + 1 \<le> VFS_MAX_PATH, take (VFS_MAX_PATH - 1) p)))"

definition vfs_node_size :: "'b vfs_node \<Rightarrow> 'b \<Rightarrow> u64 option" where
  "vfs_node_size node b =
     (case vn_stat node of
        Some stat \<Rightarrow> (case stat b of (status, sz) \<Rightarrow> if status \<noteq> 0 then None else Some sz)
      | None \<Rightarrow> Some (vn_size node))"

definition vfs_read_result_valid :: "u64 \<Rightarrow> u64 \<Rightarrow> u64 \<Rightarrow> u64 \<Rightarrow> bool" where
  "vfs_read_result_valid offset file_size capacity count =
     (if offset > file_size \<or> count > capacity then False else count \<le> file_size - offset)"

definition vfs_write_result_valid :: "u64 \<Rightarrow> u64 \<Rightarrow> u64 \<Rightarrow> bool" where
  "vfs_write_result_valid offset requested count =
     (if count > requested \<or> offset > - 1 - count then False else True)"

definition vfs_open_access_mode :: "u32 \<Rightarrow> u32" where
  "vfs_open_access_mode flags = flags AND VFS_O_ACCMODE"

definition vfs_open_flags_valid :: "u32 \<Rightarrow> bool" where
  "vfs_open_flags_valid flags =
     (let mode = vfs_open_access_mode flags
      in if flags AND NOT (VFS_O_ACCMODE OR VFS_O_CREAT) \<noteq> 0 then False
         else mode = VFS_O_RDONLY \<or> mode = VFS_O_WRONLY \<or> mode = VFS_O_RDWR)"

definition vfs_empty_node :: "'b vfs_node" where
  "vfs_empty_node = \<lparr>vn_path = None, vn_size = 0, vn_read = None, vn_write = None, vn_stat = None\<rparr>"

definition vfs_closed_file :: vfs_open_file where
  "vfs_closed_file = \<lparr>of_node = None, of_offset = 0, of_flags = VFS_O_RDONLY, of_used = False\<rparr>"

definition vfs_reset :: "'b vfs \<Rightarrow> 'b vfs" where
  "vfs_reset s = s\<lparr>g_vfs_nodes := replicate VFS_MAX_NODES vfs_empty_node,
     g_open_files := replicate VFS_MAX_OPEN_FILES vfs_closed_file,
     g_list_mounts := replicate VFS_MAX_LIST_MOUNTS \<lparr>lm_path = '''', lm_list = None, lm_used = False\<rparr>,
     g_vfs_node_count := 0\<rparr>"

definition vfs_find :: "string option \<Rightarrow> 'b vfs \<Rightarrow> nat option" where
  "vfs_find path s =
     (if path = None \<or> path = Some '''' then None
      else first_index (g_vfs_node_count s) (\<lambda>i. vfs_path_equals (vn_path (g_vfs_nodes s ! i)) path))"

definition vfs_mount_check :: "'b vfs_node list \<Rightarrow> 'b vfs \<Rightarrow> nat \<Rightarrow> bool" where
  "vfs_mount_check nodes s i =
     (let node = nodes ! i
      in if \<not> vfs_path_is_mountable (vn_path node) \<or> (vn_read node = None \<and> vn_write node = None) \<or>
            vfs_find (vn_path node) s \<noteq> None
         then False
         else \<not> (\<exists>j\<in>set [0..<i]. vfs_path_equals (vn_path (nodes ! j)) (vn_path node)))"

definition vfs_mount_one :: "'b vfs_node \<Rightarrow> 'b vfs \<Rightarrow> 'b vfs" where
  "vfs_mount_one node s =
     (let slot = g_vfs_node_count s;
          dest = (case vn_path (g_vfs_nodes s ! slot) of Some p \<Rightarrow> p | None \<Rightarrow> '''');
          path = snd (vfs_copy_path dest (vn_path node))
      in s\<lparr>g_vfs_nodes := (g_vfs_nodes s)[slot :=
             \<lparr>vn_path = Some path, vn_size = vn_size node, vn_read = vn_read node,
              vn_write = vn_write node, vn_stat = vn_stat node\<rparr>],
           g_vfs_node_count := slot + 1\<rparr>)"

definition vfs_mount_static :: "'b vfs_node list \<Rightarrow> 'b vfs \<Rightarrow> bool \<times> 'b vfs" where
  "vfs_mount_static nodes s =
     (if nodes = [] \<or> g_vfs_node_count s + length nodes > VFS_MAX_NODES then (False, s)
      else if \<not> (\<forall>i\<in>set [0..<length nodes]. vfs_mount_check nodes s i) then (False, s)
      else (True, fold vfs_mount_one nodes s))"

definition vfs_mount_list ::
    "string option \<Rightarrow> ('b \<Rightarrow> u64 \<Rightarrow> int \<times> u64 \<times> u8 list) option \<Rightarrow> 'b vfs \<Rightarrow> bool \<times> 'b vfs" where
  "vfs_mount_list path lst s =
     (if \<not> vfs_path_is_mountable path \<or> lst = None then (False, s)
      else if \<exists>i\<in>set [0..<VFS_MAX_LIST_MOUNTS]. lm_used (g_list_mounts s ! i) \<and>
                vfs_path_equals (Some (lm_path (g_list_mounts s ! i))) path
      then (False, s)
      else case first_index VFS_MAX_LIST_MOUNTS (\<lambda>i. \<not> lm_used (g_list_mounts s ! i)) of
          None \<Rightarrow> (False, s)
        | Some i \<Rightarrow>
            (let (ok, p) = vfs_copy_path (lm_path (g_list_mounts s ! i)) path
             in if \<not> ok then (False, s\<lparr>g_list_mounts := (g_list_mounts s)[i := (g_list_mounts s ! i)\<lparr>lm_path := p\<rparr>]\<rparr>)
                else (True, s\<lparr>g_list_mounts := (g_list_mounts s)[i :=
                       \<lparr>lm_path = p, lm_list = lst, lm_used = True\<rparr>]\<rparr>)))"

fun vfs_strip_loop :: "string \<Rightarrow> string \<Rightarrow> string option" where
  "vfs_strip_loop path [] = (if path = [] then None else Some path)"
| "vfs_strip_loop [] (q # qs) = None"
| "vfs_strip_loop (p # ps) (q # qs) = (if p \<noteq> q then None else vfs_strip_loop ps qs)"

definition vfs_strip_prefix :: "string option \<Rightarrow> string option \<Rightarrow> string option" where
  "vfs_strip_prefix path prefix =
     (case (path, prefix) of
        (Some p, Some q) \<Rightarrow> if q = [] then None else vfs_strip_loop p q
      | _ \<Rightarrow> None)"

text \<open>Results of reads: the status, the count and the bytes in the buffer.\<close>

definition vfs_read_node :: "'b vfs_node \<Rightarrow> u64 \<Rightarrow> u64 \<Rightarrow> 'b \<Rightarrow> int \<times> u64 \<times> u8 list" where
  "vfs_read_node node offset capacity b =
     (case (vn_read node, vfs_node_size node b) of
        (Some rd, Some sz) \<Rightarrow>
          if offset > sz then (-1, 0, [])
          else (case rd b offset capacity of (status, n, bytes) \<Rightarrow>
            if status \<noteq> 0 \<or> \<not> vfs_read_result_valid offset sz capacity n
            then (if status \<noteq> 0 then status else -1, 0, bytes)
            else (0, n, bytes))
      | _ \<Rightarrow> (-1, 0, []))"

definition vfs_write_node ::
    "'b vfs_node \<Rightarrow> u64 \<Rightarrow> u8 list \<Rightarrow> u64 \<Rightarrow> 'b \<Rightarrow> int \<times> u64 \<times> 'b" where
  "vfs_write_node node offset buffer sz b =
     (case (vn_write node, vfs_node_size node b) of
        (Some wr, Some current_size) \<Rightarrow>
          if offset > current_size then (-1, 0, b)
          else (case wr b offset buffer sz of (status, n, b') \<Rightarrow>
            if status \<noteq> 0 \<or> \<not> vfs_write_result_valid offset sz n
            then (if status \<noteq> 0 then status else -1, 0, b')
            else (0, n, b'))
      | _ \<Rightarrow> (-1, 0, b))"

definition vfs_read :: "string option \<Rightarrow> u64 \<Rightarrow> u64 \<Rightarrow> 'b vfs \<Rightarrow> int \<times> u64 \<times> u8 list" where
  "vfs_read path offset capacity s =
     (case vfs_find path s of
        None \<Rightarrow> (-1, 0, [])
      | Some i \<Rightarrow> vfs_read_node (g_vfs_nodes s ! i) offset capacity (backend s))"

definition vfs_write :: "string option \<Rightarrow> u64 \<Rightarrow> u8 list option \<Rightarrow> u64 \<Rightarrow> 'b vfs \<Rightarrow> int \<times> u64 \<times> 'b vfs" where
  "vfs_write path offset buffer sz s =
     (case (vfs_find path s, buffer) of
        (Some i, Some buf) \<Rightarrow>
          (case vfs_write_node (g_vfs_nodes s ! i) offset buf sz (backend s) of
             (status, n, b') \<Rightarrow> (status, n, s\<lparr>backend := b'\<rparr>))
      | _ \<Rightarrow> (-1, 0, s))"

definition vfs_stat :: "string option \<Rightarrow> 'b vfs \<Rightarrow> u64 option" where
  "vfs_stat path s =
     (case vfs_find path s of None \<Rightarrow> None
      | Some i \<Rightarrow> vfs_node_size (g_vfs_nodes s ! i) (backend s))"

text \<open>The root listing: one path per line, cut off at the capacity. The loop returns the buffer and
  whether it stopped because the buffer is full.\<close>

fun vfs_list_chars :: "string \<Rightarrow> u64 \<Rightarrow> u8 list \<Rightarrow> bool \<times> u8 list" where
  "vfs_list_chars [] capacity out = (False, out)"
| "vfs_list_chars (c # cs) capacity out =
     (if of_nat (length out) \<ge> capacity then (True, out)
      else vfs_list_chars cs capacity (out @ [of_char c]))"

fun vfs_list_nodes :: "'b vfs_node list \<Rightarrow> u64 \<Rightarrow> u8 list \<Rightarrow> u8 list" where
  "vfs_list_nodes [] capacity out = out"
| "vfs_list_nodes (node # nodes) capacity out =
     (case vn_path node of
        None \<Rightarrow> vfs_list_nodes nodes capacity out
      | Some p \<Rightarrow>
          (case vfs_list_chars p capacity out of (full, out') \<Rightarrow>
             if full then out'
             else if of_nat (length out') \<ge> capacity then out'
             else vfs_list_nodes nodes capacity (out' @ [10])))"

definition vfs_list :: "string option \<Rightarrow> u64 \<Rightarrow> 'b vfs \<Rightarrow> int \<times> u64 \<times> u8 list" where
  "vfs_list path capacity s =
     (if path = None \<or> path = Some '''' then (-1, 0, [])
      else case first_index VFS_MAX_LIST_MOUNTS (\<lambda>i. lm_used (g_list_mounts s ! i) \<and>
                  vfs_path_equals (Some (lm_path (g_list_mounts s ! i))) path) of
          Some i \<Rightarrow> the (lm_list (g_list_mounts s ! i)) (backend s) capacity
        | None \<Rightarrow>
            if \<not> vfs_path_equals path (Some ''/'') then (-1, 0, [])
            else (let out = vfs_list_nodes (take (g_vfs_node_count s) (g_vfs_nodes s)) capacity []
                  in (0, of_nat (length out), out)))"

definition vfs_open_flags ::
    "(string option \<Rightarrow> u32 \<Rightarrow> 'b vfs \<Rightarrow> nat option \<times> 'b vfs) \<Rightarrow> string option \<Rightarrow> u32 \<Rightarrow> 'b vfs \<Rightarrow> int \<times> 'b vfs" where
  "vfs_open_flags dyn path flags s =
     (let mode = vfs_open_access_mode flags
      in if \<not> vfs_open_flags_valid flags then (-1, s)
         else
           (let (node, s1) = (case vfs_find path s of Some i \<Rightarrow> (Some i, s) | None \<Rightarrow> dyn path flags s)
            in case node of
                 None \<Rightarrow> (-1, s1)
               | Some n \<Rightarrow>
                   if ((mode = VFS_O_RDONLY \<or> mode = VFS_O_RDWR) \<and> vn_read (g_vfs_nodes s1 ! n) = None) \<or>
                      ((mode = VFS_O_WRONLY \<or> mode = VFS_O_RDWR) \<and> vn_write (g_vfs_nodes s1 ! n) = None)
                   then (-1, s1)
                   else case first_index VFS_MAX_OPEN_FILES (\<lambda>i. \<not> of_used (g_open_files s1 ! i)) of
                       None \<Rightarrow> (-1, s1)
                     | Some i \<Rightarrow> (int i, s1\<lparr>g_open_files := (g_open_files s1)[i :=
                           \<lparr>of_node = Some n, of_offset = 0, of_flags = mode, of_used = True\<rparr>]\<rparr>)))"

definition vfs_open ::
    "(string option \<Rightarrow> u32 \<Rightarrow> 'b vfs \<Rightarrow> nat option \<times> 'b vfs) \<Rightarrow> string option \<Rightarrow> 'b vfs \<Rightarrow> int \<times> 'b vfs" where
  "vfs_open dyn path s = vfs_open_flags dyn path VFS_O_RDONLY s"

definition vfs_read_fd :: "int \<Rightarrow> u64 \<Rightarrow> 'b vfs \<Rightarrow> (int \<times> u64 \<times> u8 list) \<times> 'b vfs" where
  "vfs_read_fd fd capacity s =
     (case vfs_fd_at fd s of
        None \<Rightarrow> ((-1, 0, []), s)
      | Some i \<Rightarrow>
          (let file = g_open_files s ! i; node = g_vfs_nodes s ! the (of_node file)
           in if vn_read node = None \<or> of_flags file = VFS_O_WRONLY then ((-1, 0, []), s)
              else case vfs_read_node node (of_offset file) capacity (backend s) of
                  (status, n, bytes) \<Rightarrow>
                    if status \<noteq> 0 then ((status, n, bytes), s)
                    else ((0, n, bytes), s\<lparr>g_open_files := (g_open_files s)[i :=
                           file\<lparr>of_offset := of_offset file + n\<rparr>]\<rparr>)))"

definition vfs_write_fd :: "int \<Rightarrow> u8 list option \<Rightarrow> u64 \<Rightarrow> 'b vfs \<Rightarrow> (int \<times> u64) \<times> 'b vfs" where
  "vfs_write_fd fd buffer sz s =
     (case (buffer, vfs_fd_at fd s) of
        (Some buf, Some i) \<Rightarrow>
          (let file = g_open_files s ! i; node = g_vfs_nodes s ! the (of_node file)
           in if vn_write node = None \<or> of_flags file = VFS_O_RDONLY then ((-1, 0), s)
              else case vfs_write_node node (of_offset file) buf sz (backend s) of
                  (status, n, b') \<Rightarrow>
                    if status \<noteq> 0 then ((status, n), s\<lparr>backend := b'\<rparr>)
                    else ((0, n), s\<lparr>backend := b', g_open_files := (g_open_files s)[i :=
                           file\<lparr>of_offset := of_offset file + n\<rparr>]\<rparr>))
      | _ \<Rightarrow> ((-1, 0), s))"

definition vfs_seek :: "int \<Rightarrow> u64 \<Rightarrow> 'b vfs \<Rightarrow> bool \<times> 'b vfs" where
  "vfs_seek fd offset s =
     (case vfs_fd_at fd s of
        None \<Rightarrow> (False, s)
      | Some i \<Rightarrow>
          (let file = g_open_files s ! i
           in case vfs_node_size (g_vfs_nodes s ! the (of_node file)) (backend s) of
                None \<Rightarrow> (False, s)
              | Some sz \<Rightarrow>
                  if offset > sz then (False, s)
                  else (True, s\<lparr>g_open_files := (g_open_files s)[i := file\<lparr>of_offset := offset\<rparr>]\<rparr>)))"

definition vfs_close :: "int \<Rightarrow> 'b vfs \<Rightarrow> bool \<times> 'b vfs" where
  "vfs_close fd s =
     (if fd < 0 \<or> fd \<ge> int VFS_MAX_OPEN_FILES \<or> \<not> of_used (g_open_files s ! nat fd) then (False, s)
      else (True, s\<lparr>g_open_files := (g_open_files s)[nat fd := vfs_closed_file]\<rparr>))"

section \<open>The node table\<close>

definition mounted :: "'b vfs \<Rightarrow> 'b vfs_node list" where
  "mounted s = take (g_vfs_node_count s) (g_vfs_nodes s)"

definition node_ok :: "'b vfs_node \<Rightarrow> bool" where
  "node_ok node \<longleftrightarrow> vfs_path_is_mountable (vn_path node) \<and> (vn_read node \<noteq> None \<or> vn_write node \<noteq> None)"

definition open_ok :: "'b vfs \<Rightarrow> vfs_open_file \<Rightarrow> bool" where
  "open_ok s f \<longleftrightarrow> (\<exists>n<g_vfs_node_count s. of_node f = Some n \<and>
     of_flags f \<in> {VFS_O_RDONLY, VFS_O_WRONLY, VFS_O_RDWR} \<and>
     (of_flags f \<noteq> VFS_O_WRONLY \<longrightarrow> vn_read (g_vfs_nodes s ! n) \<noteq> None) \<and>
     (of_flags f \<noteq> VFS_O_RDONLY \<longrightarrow> vn_write (g_vfs_nodes s ! n) \<noteq> None))"

definition vfs_ok :: "'b vfs \<Rightarrow> bool" where
  "vfs_ok s \<longleftrightarrow> length (g_vfs_nodes s) = 24 \<and> g_vfs_node_count s \<le> 24 \<and> length (g_list_mounts s) = 4 \<and>
     length (g_open_files s) = 8 \<and> (\<forall>node\<in>set (mounted s). node_ok node) \<and>
     distinct (map vn_path (mounted s)) \<and> (\<forall>i<8. of_used (g_open_files s ! i) \<longrightarrow> open_ok s (g_open_files s ! i))"

lemma path_equals_iff [simp]: "vfs_path_equals l r \<longleftrightarrow> (\<exists>p. l = Some p \<and> r = Some p)"
  by (auto simp: vfs_path_equals_def split: option.splits)

lemma mountable_Some:
  "vfs_path_is_mountable path \<Longrightarrow> \<exists>p. path = Some p \<and> p \<noteq> '''' \<and> length p < 64 \<and> hd p = CHR ''/''"
  by (auto simp: vfs_path_is_mountable_def split: option.splits list.splits)

lemma copy_mountable: "vfs_path_is_mountable (Some p) \<Longrightarrow> vfs_copy_path dest (Some p) = (True, p)"
  by (auto simp: vfs_path_is_mountable_def vfs_copy_path_def split: list.splits)

lemma nth_mounted: "vfs_ok s \<Longrightarrow> i < g_vfs_node_count s \<Longrightarrow> mounted s ! i = g_vfs_nodes s ! i"
  by (simp add: mounted_def)

lemma length_mounted: "vfs_ok s \<Longrightarrow> length (mounted s) = g_vfs_node_count s"
  by (simp add: mounted_def vfs_ok_def)

lemma node_path_Some:
  assumes "vfs_ok s" and "i < g_vfs_node_count s"
  shows "\<exists>p. vn_path (g_vfs_nodes s ! i) = Some p \<and> p \<noteq> ''''"
proof -
  have "g_vfs_nodes s ! i \<in> set (mounted s)"
    using assms length_mounted [OF assms(1)] nth_mounted [OF assms] by (metis nth_mem)
  then have "vfs_path_is_mountable (vn_path (g_vfs_nodes s ! i))"
    using assms(1) by (simp add: vfs_ok_def node_ok_def)
  then show ?thesis using mountable_Some by blast
qed

lemma node_path_inj:
  assumes "vfs_ok s" and "i < g_vfs_node_count s" and "j < g_vfs_node_count s"
    and "vn_path (g_vfs_nodes s ! i) = vn_path (g_vfs_nodes s ! j)"
  shows "i = j"
proof -
  have "distinct (map vn_path (mounted s))" using assms(1) by (simp add: vfs_ok_def)
  then show ?thesis
    using assms(2-4) nth_eq_iff_index_eq [of "map vn_path (mounted s)" i j]
    by (simp add: length_mounted [OF assms(1)] nth_mounted [OF assms(1)])
qed

lemma set_mounted: "vfs_ok s \<Longrightarrow> set (mounted s) = (\<lambda>i. g_vfs_nodes s ! i) ` {..<g_vfs_node_count s}"
  using length_mounted [of s] nth_mounted [of s] by (auto simp: set_conv_nth) (metis nth_mounted)

lemma vfs_find_Some_iff:
  assumes "vfs_ok s"
  shows "vfs_find path s = Some i \<longleftrightarrow> path \<noteq> None \<and> i < g_vfs_node_count s \<and> vn_path (g_vfs_nodes s ! i) = path"
proof
  assume "vfs_find path s = Some i"
  then show "path \<noteq> None \<and> i < g_vfs_node_count s \<and> vn_path (g_vfs_nodes s ! i) = path"
    by (auto simp: vfs_find_def first_index_Some_iff split: if_splits)
next
  assume i: "path \<noteq> None \<and> i < g_vfs_node_count s \<and> vn_path (g_vfs_nodes s ! i) = path"
  have "vn_path (g_vfs_nodes s ! j) \<noteq> path" if "j < i" for j
    using i that node_path_inj [OF assms, of j i] by auto
  moreover have "path \<noteq> Some ''''" using node_path_Some [OF assms, of i] i by auto
  ultimately show "vfs_find path s = Some i"
    using i by (auto simp: vfs_find_def first_index_Some_iff)
qed

lemma vfs_find_None_iff:
  assumes "vfs_ok s"
  shows "vfs_find path s = None \<longleftrightarrow> path = None \<or> path \<notin> vn_path ` set (mounted s)"
proof -
  have "path \<in> vn_path ` set (mounted s) \<longleftrightarrow> (\<exists>i<g_vfs_node_count s. vn_path (g_vfs_nodes s ! i) = path)"
    by (auto simp: set_mounted [OF assms])
  then show ?thesis using vfs_find_Some_iff [OF assms, of path] by (metis not_None_eq)
qed

lemma mount_one:
  assumes "length (g_vfs_nodes s) = 24" and "g_vfs_node_count s < 24" and "vfs_path_is_mountable (vn_path node)"
  shows "vfs_mount_one node s = s\<lparr>g_vfs_nodes := (g_vfs_nodes s)[g_vfs_node_count s := node],
       g_vfs_node_count := g_vfs_node_count s + 1\<rparr>"
    and "mounted (vfs_mount_one node s) = mounted s @ [node]"
proof -
  obtain p where p: "vn_path node = Some p" using mountable_Some [OF assms(3)] by blast
  then have "snd (vfs_copy_path d (vn_path node)) = p" for d
    using copy_mountable assms(3) by simp
  then show eq: "vfs_mount_one node s = s\<lparr>g_vfs_nodes := (g_vfs_nodes s)[g_vfs_node_count s := node],
       g_vfs_node_count := g_vfs_node_count s + 1\<rparr>"
    using p by (cases node) (simp add: vfs_mount_one_def Let_def)
  show "mounted (vfs_mount_one node s) = mounted s @ [node]"
    unfolding eq mounted_def using assms(1,2) by (simp add: take_Suc_conv_app_nth)
qed

lemma mount_fold:
  assumes "length (g_vfs_nodes s) = 24" and "g_vfs_node_count s + length nodes \<le> 24"
    and "\<forall>node\<in>set nodes. vfs_path_is_mountable (vn_path node)"
  shows "length (g_vfs_nodes (fold vfs_mount_one nodes s)) = 24 \<and>
     mounted (fold vfs_mount_one nodes s) = mounted s @ nodes \<and>
     g_vfs_node_count (fold vfs_mount_one nodes s) = g_vfs_node_count s + length nodes \<and>
     g_open_files (fold vfs_mount_one nodes s) = g_open_files s \<and>
     g_list_mounts (fold vfs_mount_one nodes s) = g_list_mounts s \<and>
     backend (fold vfs_mount_one nodes s) = backend s"
  using assms
proof (induction nodes arbitrary: s)
  case (Cons node nodes)
  have m: "vfs_mount_one node s = s\<lparr>g_vfs_nodes := (g_vfs_nodes s)[g_vfs_node_count s := node],
       g_vfs_node_count := g_vfs_node_count s + 1\<rparr>" "mounted (vfs_mount_one node s) = mounted s @ [node]"
    using mount_one [of s node] Cons.prems by auto
  show ?case using Cons.IH [of "vfs_mount_one node s"] Cons.prems m by simp
qed simp

lemma mount_check_iff:
  assumes "vfs_ok s"
  shows "vfs_mount_check nodes s i \<longleftrightarrow> node_ok (nodes ! i) \<and> vn_path (nodes ! i) \<notin> vn_path ` set (mounted s) \<and>
     (\<forall>j<i. vn_path (nodes ! j) \<noteq> vn_path (nodes ! i))"
proof (cases "vfs_path_is_mountable (vn_path (nodes ! i))")
  case True
  then obtain p where "vn_path (nodes ! i) = Some p" using mountable_Some by blast
  then show ?thesis using True vfs_find_None_iff [OF assms, of "Some p"]
    by (auto simp: vfs_mount_check_def Let_def node_ok_def)
next
  case False
  then show ?thesis by (simp add: vfs_mount_check_def Let_def node_ok_def)
qed

lemma distinct_iff_earlier: "distinct xs \<longleftrightarrow> (\<forall>i<length xs. \<forall>j<i. xs ! j \<noteq> xs ! i)"
  by (auto simp: distinct_conv_nth) (metis nat_neq_iff)

lemma mount_checks:
  assumes "vfs_ok s"
  shows "(\<forall>i\<in>set [0..<length nodes]. vfs_mount_check nodes s i) \<longleftrightarrow>
     (\<forall>node\<in>set nodes. node_ok node) \<and> distinct (map vn_path (mounted s @ nodes))"
proof -
  have ms: "distinct (map vn_path (mounted s))" using assms by (simp add: vfs_ok_def)
  have "(\<forall>i\<in>set [0..<length nodes]. vfs_mount_check nodes s i) \<longleftrightarrow>
      (\<forall>i<length nodes. node_ok (nodes ! i)) \<and>
      (\<forall>i<length nodes. vn_path (nodes ! i) \<notin> vn_path ` set (mounted s)) \<and> distinct (map vn_path nodes)"
    by (auto simp: mount_check_iff [OF assms] distinct_iff_earlier)
  also have "\<dots> \<longleftrightarrow> (\<forall>node\<in>set nodes. node_ok node) \<and> distinct (map vn_path (mounted s @ nodes))"
  proof -
    have "(\<forall>i<length nodes. vn_path (nodes ! i) \<notin> vn_path ` set (mounted s)) \<longleftrightarrow>
        vn_path ` set (mounted s) \<inter> vn_path ` set nodes = {}"
      by (auto simp: set_conv_nth [of nodes]) (metis imageI)
    then show ?thesis using ms by (auto simp: all_set_conv_all_nth)
  qed
  finally show ?thesis .
qed

lemma open_ok_grow:
  assumes "open_ok s f" and "mounted s' = mounted s @ nodes" and "vfs_ok s"
    and "g_vfs_node_count s' = g_vfs_node_count s + length nodes" and "length (g_vfs_nodes s') = 24"
  shows "open_ok s' f"
proof -
  obtain n where n: "n < g_vfs_node_count s" "of_node f = Some n" "of_flags f \<in> {VFS_O_RDONLY, VFS_O_WRONLY, VFS_O_RDWR}"
    "of_flags f \<noteq> VFS_O_WRONLY \<longrightarrow> vn_read (g_vfs_nodes s ! n) \<noteq> None"
    "of_flags f \<noteq> VFS_O_RDONLY \<longrightarrow> vn_write (g_vfs_nodes s ! n) \<noteq> None"
    using assms(1) by (auto simp: open_ok_def)
  have "mounted s' ! n = mounted s ! n"
    using n(1) length_mounted [OF assms(3)] assms(2) by (simp add: nth_append)
  then have "g_vfs_nodes s' ! n = g_vfs_nodes s ! n"
    using n(1) assms(4) by (simp add: mounted_def)
  then show ?thesis using n assms(4) by (auto simp: open_ok_def)
qed

lemma vfs_mount_static_spec:
  assumes "vfs_ok s" and "vfs_mount_static nodes s = (r, s')"
  shows "vfs_ok s'"
    and "r \<longleftrightarrow> nodes \<noteq> [] \<and> g_vfs_node_count s + length nodes \<le> 24 \<and> (\<forall>node\<in>set nodes. node_ok node) \<and>
      distinct (map vn_path (mounted s @ nodes))"
    and "r \<Longrightarrow> mounted s' = mounted s @ nodes \<and> g_open_files s' = g_open_files s \<and> backend s' = backend s"
    and "\<not> r \<Longrightarrow> s' = s"
proof -
  let ?c = "nodes \<noteq> [] \<and> g_vfs_node_count s + length nodes \<le> 24 \<and> (\<forall>node\<in>set nodes. node_ok node) \<and>
      distinct (map vn_path (mounted s @ nodes))"
  have "(r, s') = (if ?c then (True, fold vfs_mount_one nodes s) else (False, s))"
    using assms(2) mount_checks [OF assms(1), of nodes] by (auto simp: vfs_mount_static_def split: if_splits)
  then have r: "r \<longleftrightarrow> ?c" and s': "s' = (if ?c then fold vfs_mount_one nodes s else s)"
    by (auto split: if_splits)
  show "r \<longleftrightarrow> ?c" by (rule r)
  show "\<not> r \<Longrightarrow> s' = s" unfolding r by (subst s') (rule if_not_P)
  have f: "length (g_vfs_nodes s') = 24 \<and> mounted s' = mounted s @ nodes \<and>
      g_vfs_node_count s' = g_vfs_node_count s + length nodes \<and> g_open_files s' = g_open_files s \<and>
      g_list_mounts s' = g_list_mounts s \<and> backend s' = backend s" if ?c
    using mount_fold [of s nodes] that assms(1) s' by (simp add: vfs_ok_def node_ok_def)
  then show "r \<Longrightarrow> mounted s' = mounted s @ nodes \<and> g_open_files s' = g_open_files s \<and> backend s' = backend s"
    using r by blast
  show "vfs_ok s'"
  proof (cases ?c)
    case True
    note f = f [OF True]
    have "open_ok s' (g_open_files s' ! i)" if "i < 8" "of_used (g_open_files s' ! i)" for i
      using open_ok_grow [of s "g_open_files s ! i" s' nodes] assms(1) f that by (simp add: vfs_ok_def)
    then show ?thesis using f True assms(1) by (auto simp: vfs_ok_def)
  next
    case False
    have "s' = s" by (subst s') (rule if_not_P [OF False])
    then show ?thesis using assms(1) by simp
  qed
qed

section \<open>Open files\<close>

lemma vfs_ok_set_file:
  assumes "vfs_ok s" and "of_used f \<Longrightarrow> open_ok s f"
  shows "vfs_ok (s\<lparr>g_open_files := (g_open_files s)[i := f]\<rparr>)"
proof -
  have o: "open_ok (s\<lparr>g_open_files := x\<rparr>) g = open_ok s g" for x g by (simp add: open_ok_def)
  have m: "mounted (s\<lparr>g_open_files := x\<rparr>) = mounted s" for x by (simp add: mounted_def)
  show ?thesis
  proof (cases "i < 8")
    case True
    then show ?thesis using assms by (auto simp: vfs_ok_def o m nth_list_update)
  next
    case False
    then show ?thesis using assms(1) by (simp add: vfs_ok_def o m list_update_beyond)
  qed
qed

lemma vfs_ok_backend [simp]: "vfs_ok (s\<lparr>backend := b\<rparr>) = vfs_ok s"
  by (simp add: vfs_ok_def mounted_def open_ok_def)

lemma fd_at_Some_iff:
  assumes "vfs_ok s"
  shows "vfs_fd_at fd s = Some i \<longleftrightarrow> fd = int i \<and> i < 8 \<and> of_used (g_open_files s ! i)"
proof -
  have "of_node (g_open_files s ! i) \<noteq> None" if "i < 8" "of_used (g_open_files s ! i)"
    using that assms by (auto simp: vfs_ok_def open_ok_def)
  then show ?thesis by (auto simp: vfs_fd_at_def)
qed

lemma fd_at_node:
  assumes "vfs_ok s" and "vfs_fd_at fd s = Some i"
  shows "open_ok s (g_open_files s ! i)"
  using assms fd_at_Some_iff [OF assms(1)] by (auto simp: vfs_ok_def)

lemma open_ok_offset [simp]: "open_ok s (f\<lparr>of_offset := x\<rparr>) = open_ok s f"
  by (simp add: open_ok_def)

lemma closed_unused [simp]: "\<not> of_used vfs_closed_file"
  by (simp add: vfs_closed_file_def)

lemma vfs_close_ok [kernel_inv]: "vfs_ok s \<Longrightarrow> vfs_ok (snd (vfs_close fd s))"
  by (auto simp: vfs_close_def intro: vfs_ok_set_file)

lemma vfs_seek_ok [kernel_inv]: "vfs_ok s \<Longrightarrow> vfs_ok (snd (vfs_seek fd off s))"
  by (auto simp: vfs_seek_def Let_def split: option.splits
      intro!: vfs_ok_set_file dest: fd_at_node)

lemma vfs_read_fd_ok [kernel_inv]: "vfs_ok s \<Longrightarrow> vfs_ok (snd (vfs_read_fd fd k s))"
  by (auto simp: vfs_read_fd_def Let_def split: option.splits prod.splits
      intro!: vfs_ok_set_file dest: fd_at_node)

lemma vfs_write_fd_ok [kernel_inv]:
  assumes "vfs_ok s"
  shows "vfs_ok (snd (vfs_write_fd fd buf k s))"
proof -
  have "vfs_ok (s\<lparr>backend := b, g_open_files := (g_open_files s)[i := (g_open_files s ! i)\<lparr>of_offset := x\<rparr>]\<rparr>)"
    if "vfs_fd_at fd s = Some i" for b i x
    using vfs_ok_set_file [of "s\<lparr>backend := b\<rparr>" "(g_open_files s ! i)\<lparr>of_offset := x\<rparr>" i]
      fd_at_node [OF assms that] assms by (simp add: open_ok_def)
  then show ?thesis using assms
    by (auto simp: vfs_write_fd_def Let_def split: option.splits prod.splits)
qed

lemma access_mode_cases:
  assumes "vfs_open_flags_valid flags"
  shows "vfs_open_access_mode flags \<in> {VFS_O_RDONLY, VFS_O_WRONLY, VFS_O_RDWR}"
  using assms by (auto simp: vfs_open_flags_valid_def Let_def split: if_splits)

lemma vfs_open_known:
  assumes "vfs_ok s" and "vfs_find path s = Some n" and "vfs_open_flags_valid flags"
    and "vfs_open_access_mode flags \<noteq> VFS_O_WRONLY \<longrightarrow> vn_read (g_vfs_nodes s ! n) \<noteq> None"
    and "vfs_open_access_mode flags \<noteq> VFS_O_RDONLY \<longrightarrow> vn_write (g_vfs_nodes s ! n) \<noteq> None"
    and "i < 8" and "\<not> of_used (g_open_files s ! i)" and "\<forall>j<i. of_used (g_open_files s ! j)"
  shows "\<exists>s'. vfs_open_flags dyn path flags s = (int i, s') \<and> vfs_ok s' \<and>
     s' = s\<lparr>g_open_files := (g_open_files s)[i := \<lparr>of_node = Some n, of_offset = 0,
        of_flags = vfs_open_access_mode flags, of_used = True\<rparr>]\<rparr>"
proof -
  let ?f = "\<lparr>of_node = Some n, of_offset = 0, of_flags = vfs_open_access_mode flags, of_used = True\<rparr>"
  have "first_index 8 (\<lambda>j. \<not> of_used (g_open_files s ! j)) = Some i"
    using assms(6-8) by (simp add: first_index_Some_iff)
  then have "vfs_open_flags dyn path flags s = (int i, s\<lparr>g_open_files := (g_open_files s)[i := ?f]\<rparr>)"
    using assms(2-5) access_mode_cases [OF assms(3)] by (auto simp: vfs_open_flags_def Let_def)
  moreover have "open_ok s ?f"
    using assms(2-5) vfs_find_Some_iff [OF assms(1)] access_mode_cases [OF assms(3)] by (auto simp: open_ok_def)
  ultimately show ?thesis using vfs_ok_set_file [OF assms(1), of ?f i] by blast
qed

section \<open>Listing\<close>

lemma vfs_list_chars_take:
  assumes "length out \<le> unat cap"
  shows "snd (vfs_list_chars p cap out) = take (unat cap) (out @ map of_char p)"
    and "length (snd (vfs_list_chars p cap out)) \<le> unat cap"
    and "fst (vfs_list_chars p cap out) \<Longrightarrow> length (snd (vfs_list_chars p cap out)) = unat cap"
    and "\<not> fst (vfs_list_chars p cap out) \<Longrightarrow> snd (vfs_list_chars p cap out) = out @ map of_char p"
proof -
  have "unat cap < 2 ^ 64" using unsigned_less [of cap] by simp
  then have ge: "of_nat n \<ge> cap \<longleftrightarrow> n \<ge> unat cap" if "n \<le> unat cap" for n
    using that by (simp add: word_le_nat_alt unat_of_nat)
  have "snd (vfs_list_chars p cap out) = take (unat cap) (out @ map of_char p) \<and>
      length (snd (vfs_list_chars p cap out)) \<le> unat cap \<and>
      (fst (vfs_list_chars p cap out) \<longrightarrow> length (snd (vfs_list_chars p cap out)) = unat cap) \<and>
      (\<not> fst (vfs_list_chars p cap out) \<longrightarrow> snd (vfs_list_chars p cap out) = out @ map of_char p)"
    using assms
  proof (induction p arbitrary: out)
    case (Cons c p)
    show ?case
    proof (cases "length out = unat cap")
      case True
      then show ?thesis using ge [of "length out"] by simp
    next
      case False
      then have "\<not> of_nat (length out) \<ge> cap" and len: "length (out @ [of_char c]) \<le> unat cap"
        using Cons.prems ge [of "length out"] by simp_all
      then have eq: "vfs_list_chars (c # p) cap out = vfs_list_chars p cap (out @ [of_char c])" by simp
      show ?thesis unfolding eq using Cons.IH [OF len] unfolding append_assoc append.simps list.map .
    qed
  qed simp
  then show "snd (vfs_list_chars p cap out) = take (unat cap) (out @ map of_char p)"
    "length (snd (vfs_list_chars p cap out)) \<le> unat cap"
    "fst (vfs_list_chars p cap out) \<Longrightarrow> length (snd (vfs_list_chars p cap out)) = unat cap"
    "\<not> fst (vfs_list_chars p cap out) \<Longrightarrow> snd (vfs_list_chars p cap out) = out @ map of_char p" by blast+
qed

definition path_line :: "'b vfs_node \<Rightarrow> u8 list" where
  "path_line node = (case vn_path node of None \<Rightarrow> [] | Some p \<Rightarrow> map of_char p @ [10])"

lemma vfs_list_nodes_take:
  assumes "length out \<le> unat cap"
  shows "vfs_list_nodes nodes cap out = take (unat cap) (out @ concat (map path_line nodes))"
  using assms
proof (induction nodes arbitrary: out)
  case (Cons node nodes)
  show ?case
  proof (cases "vn_path node")
    case None
    then show ?thesis using Cons by (simp add: path_line_def)
  next
    case (Some p)
    obtain full out' where r: "vfs_list_chars p cap out = (full, out')" by fastforce
    note t = vfs_list_chars_take [OF Cons.prems, of p, unfolded r fst_conv snd_conv]
    have "unat cap < 2 ^ 64" using unsigned_less [of cap] by simp
    then have ge: "of_nat (length out') \<ge> cap \<longleftrightarrow> length out' = unat cap"
      using t(2) by (auto simp: word_le_nat_alt unat_of_nat)
    show ?thesis
    proof (cases "full \<or> length out' = unat cap")
      case True
      then have "length out' = unat cap" using t(3) by blast
      moreover from this have "unat cap \<le> length out + length p" using t(1) by simp
      then have "take (unat cap) (out @ map of_char p @ ys) = out'" for ys using t(1) by simp
      ultimately show ?thesis using Some r True ge by (auto simp: path_line_def)
    next
      case False
      then have "length (out' @ [10]) \<le> unat cap" "out' = out @ map of_char p" using t(2,4) by auto
      then show ?thesis using Some r False ge Cons.IH [of "out' @ [10]"] by (simp add: path_line_def)
    qed
  qed
qed simp

section \<open>Temporary files in the VFS\<close>

text \<open>The state of the mounted file systems; the temporary file system is one of them. The callbacks
  of \<open>tmpfs.c\<close> find the file by the name stored in their slot.\<close>

record fs_state =
  fs_tmpfs :: tmpfs

definition tmpfs_vfs_read :: "nat \<Rightarrow> 'z fs_state_scheme \<Rightarrow> u64 \<Rightarrow> u64 \<Rightarrow> int \<times> u64 \<times> u8 list" where
  "tmpfs_vfs_read slot b offset capacity =
     (case tmpfs_read (Some (g_tmpfs_vfs_names (fs_tmpfs b) ! slot)) offset capacity (fs_tmpfs b) of
        None \<Rightarrow> (-1, 0, [])
      | Some bytes \<Rightarrow> (0, of_nat (length bytes), bytes))"

definition tmpfs_vfs_write ::
    "nat \<Rightarrow> 'z fs_state_scheme \<Rightarrow> u64 \<Rightarrow> u8 list \<Rightarrow> u64 \<Rightarrow> int \<times> u64 \<times> 'z fs_state_scheme" where
  "tmpfs_vfs_write slot b offset buffer sz =
     (case tmpfs_write (Some (g_tmpfs_vfs_names (fs_tmpfs b) ! slot)) offset (Some buffer) sz (fs_tmpfs b) of
        (None, t) \<Rightarrow> (-1, 0, b\<lparr>fs_tmpfs := t\<rparr>)
      | (Some n, t) \<Rightarrow> (0, n, b\<lparr>fs_tmpfs := t\<rparr>))"

definition tmpfs_vfs_stat :: "nat \<Rightarrow> 'z fs_state_scheme \<Rightarrow> int \<times> u64" where
  "tmpfs_vfs_stat slot b =
     (case tmpfs_stat (Some (g_tmpfs_vfs_names (fs_tmpfs b) ! slot)) (fs_tmpfs b) of
        None \<Rightarrow> (-1, 0)
      | Some sz \<Rightarrow> (0, sz))"

definition tmpfs_node :: "string option \<Rightarrow> nat \<Rightarrow> u64 \<Rightarrow> 'z fs_state_scheme vfs_node" where
  "tmpfs_node path slot sz = \<lparr>vn_path = path, vn_size = sz, vn_read = Some (tmpfs_vfs_read slot),
     vn_write = Some (tmpfs_vfs_write slot), vn_stat = Some (tmpfs_vfs_stat slot)\<rparr>"

definition tmpfs_mount_vfs ::
    "string option \<Rightarrow> string option \<Rightarrow> 'z fs_state_scheme vfs \<Rightarrow> bool \<times> 'z fs_state_scheme vfs" where
  "tmpfs_mount_vfs path name s =
     (let t = fs_tmpfs (backend s); index = g_tmpfs_vfs_node_count t
      in case tmpfs_find_file name t of
           None \<Rightarrow> (False, s)
         | Some i \<Rightarrow>
             if path = None \<or> path = Some '''' \<or> hd (the path) \<noteq> CHR ''/'' \<or> index \<ge> TMPFS_MAX_FILES then (False, s)
             else
               (let (ok, nm) = tmpfs_copy_name (g_tmpfs_vfs_names t ! index) name;
                    t1 = t\<lparr>g_tmpfs_vfs_names := (g_tmpfs_vfs_names t)[index := nm]\<rparr>;
                    s1 = s\<lparr>backend := (backend s)\<lparr>fs_tmpfs := t1\<rparr>\<rparr>
                in if \<not> ok then (False, s1)
                   else case vfs_mount_static [tmpfs_node path index (f_size (g_tmpfs_files t ! i))] s1 of
                       (False, s2) \<Rightarrow> (False, s2\<lparr>backend := (backend s2)\<lparr>fs_tmpfs := tmpfs_clear_vfs_slot index t1\<rparr>\<rparr>)
                     | (True, s2) \<Rightarrow> (True, s2\<lparr>backend := (backend s2)\<lparr>fs_tmpfs :=
                           t1\<lparr>g_tmpfs_vfs_node_count := index + 1\<rparr>\<rparr>\<rparr>)))"

text \<open>A node backed by a temporary file of name \<open>n\<close>.\<close>

definition tmpfs_backed :: "'z fs_state_scheme vfs \<Rightarrow> nat \<Rightarrow> string \<Rightarrow> bool" where
  "tmpfs_backed s i n \<longleftrightarrow> (\<exists>slot<8. g_tmpfs_vfs_names (fs_tmpfs (backend s)) ! slot = n \<and>
     vn_read (g_vfs_nodes s ! i) = Some (tmpfs_vfs_read slot) \<and>
     vn_write (g_vfs_nodes s ! i) = Some (tmpfs_vfs_write slot) \<and>
     vn_stat (g_vfs_nodes s ! i) = Some (tmpfs_vfs_stat slot))"

lemma tmpfs_ok_names [simp]:
  "tmpfs_ok (t\<lparr>g_tmpfs_vfs_node_count := k\<rparr>) = tmpfs_ok t"
  "length ns = 8 \<Longrightarrow> tmpfs_ok (t\<lparr>g_tmpfs_vfs_names := ns\<rparr>) \<longleftrightarrow> tmpfs_ok (t\<lparr>g_tmpfs_vfs_names := replicate 8 ''''\<rparr>)"
  "tmpfs_files (t\<lparr>g_tmpfs_vfs_node_count := k\<rparr>) = tmpfs_files t"
  "tmpfs_files (t\<lparr>g_tmpfs_vfs_names := ns\<rparr>) = tmpfs_files t"
  by (simp_all add: tmpfs_ok_def tmpfs_files_def tmpfs_find_file_def fun_eq_iff)

lemma tmpfs_stat_spec:
  assumes "tmpfs_ok t" and "tmpfs_files t n = Some c"
  shows "\<exists>sz. tmpfs_stat (Some n) t = Some sz \<and> unat sz = length c"
proof -
  obtain i where "tmpfs_find_file (Some n) t = Some i" "content (g_tmpfs_files t ! i) = c" "file_ok (g_tmpfs_files t ! i)"
    using tmpfs_find_content [OF assms] by metis
  then show ?thesis by (auto simp: tmpfs_stat_def)
qed

lemma backed_size:
  assumes "tmpfs_backed s i n" and "tmpfs_ok (fs_tmpfs (backend s))" and "tmpfs_files (fs_tmpfs (backend s)) n = Some c"
  shows "\<exists>sz. vfs_node_size (g_vfs_nodes s ! i) (backend s) = Some sz \<and> unat sz = length c"
  using assms(1) tmpfs_stat_spec [OF assms(2,3)]
  by (auto simp: tmpfs_backed_def vfs_node_size_def tmpfs_vfs_stat_def)

lemma backed_write:
  assumes "tmpfs_backed s i n" and "tmpfs_ok (fs_tmpfs (backend s))" and "tmpfs_files (fs_tmpfs (backend s)) n = Some c"
    and "unat off \<le> length c" and "unat off + unat sz \<le> 256" and "unat sz \<le> length buf"
  shows "\<exists>t. vfs_write_node (g_vfs_nodes s ! i) off buf sz (backend s) = (0, sz, (backend s)\<lparr>fs_tmpfs := t\<rparr>) \<and>
     tmpfs_ok t \<and> tmpfs_files t = (tmpfs_files (fs_tmpfs (backend s)))(n \<mapsto> splice c (unat off) (take (unat sz) buf)) \<and>
     g_tmpfs_vfs_names t = g_tmpfs_vfs_names (fs_tmpfs (backend s))"
proof -
  obtain slot where slot: "g_tmpfs_vfs_names (fs_tmpfs (backend s)) ! slot = n"
    "vn_write (g_vfs_nodes s ! i) = Some (tmpfs_vfs_write slot)"
    using assms(1) by (auto simp: tmpfs_backed_def)
  obtain size where size: "vfs_node_size (g_vfs_nodes s ! i) (backend s) = Some size" "unat size = length c"
    using backed_size [OF assms(1-3)] by blast
  obtain t where t: "tmpfs_write (Some n) off (Some buf) sz (fs_tmpfs (backend s)) = (Some sz, t)" "tmpfs_ok t"
    "tmpfs_files t = (tmpfs_files (fs_tmpfs (backend s)))(n \<mapsto> splice c (unat off) (take (unat sz) buf))"
    using tmp.write_all [OF assms(2,3,5,6)] .
  have names: "g_tmpfs_vfs_names t = g_tmpfs_vfs_names (fs_tmpfs (backend s))"
    using t(1) by (auto simp: tmpfs_write_def Let_def split: option.splits if_splits)
  have "\<not> off > - 1 - sz"
    using assms(5) unat_max_minus [of sz] by (simp add: word_less_nat_alt)
  then show ?thesis using slot size t names assms(4)
    by (auto simp: vfs_write_node_def tmpfs_vfs_write_def vfs_write_result_valid_def word_less_nat_alt)
qed

lemma backed_read:
  assumes "tmpfs_backed s i n" and "tmpfs_ok (fs_tmpfs (backend s))" and "tmpfs_files (fs_tmpfs (backend s)) n = Some c"
    and "unat off + unat k \<le> length c"
  shows "vfs_read_node (g_vfs_nodes s ! i) off k (backend s) = (0, k, take (unat k) (drop (unat off) c))"
proof -
  obtain slot where slot: "g_tmpfs_vfs_names (fs_tmpfs (backend s)) ! slot = n"
    "vn_read (g_vfs_nodes s ! i) = Some (tmpfs_vfs_read slot)"
    using assms(1) by (auto simp: tmpfs_backed_def)
  obtain size where size: "vfs_node_size (g_vfs_nodes s ! i) (backend s) = Some size" "unat size = length c"
    using backed_size [OF assms(1-3)] by blast
  have "tmpfs_read (Some n) off k (fs_tmpfs (backend s)) = Some (take (unat k) (drop (unat off) c))"
    using tmpfs_read_spec [OF assms(2,3)] assms(4) by simp
  moreover have "(of_nat (length (take (unat k) (drop (unat off) c))) :: u64) = k"
    using assms(4) by (simp add: min_absorb2)
  moreover have "vfs_read_result_valid off size k k"
    using assms(4) size(2) by (simp add: vfs_read_result_valid_def word_less_nat_alt word_le_nat_alt unat_sub)
  moreover have "\<not> off > size" using assms(4) size(2) by (simp add: word_less_nat_alt)
  ultimately show ?thesis using slot size(1) by (simp add: vfs_read_node_def tmpfs_vfs_read_def)
qed

lemma tmpfs_mount_vfs_ok:
  assumes "vfs_ok s" and "tmpfs_ok (fs_tmpfs (backend s))" and "tmpfs_mount_vfs (Some path) (Some n) s = (True, s')"
  shows "vfs_ok s'" and "tmpfs_ok (fs_tmpfs (backend s'))"
    and "tmpfs_files (fs_tmpfs (backend s')) = tmpfs_files (fs_tmpfs (backend s))"
    and "\<exists>i. vfs_find (Some path) s' = Some i \<and> tmpfs_backed s' i n"
    and "g_open_files s' = g_open_files s"
proof -
  let ?t = "fs_tmpfs (backend s)"
  let ?k = "g_tmpfs_vfs_node_count ?t"
  obtain i nm s2 where i: "tmpfs_find_file (Some n) ?t = Some i" and k: "?k < 8"
    and cp: "tmpfs_copy_name (g_tmpfs_vfs_names ?t ! ?k) (Some n) = (True, nm)"
    and m: "vfs_mount_static [tmpfs_node (Some path) ?k (f_size (g_tmpfs_files ?t ! i))]
      (s\<lparr>backend := (backend s)\<lparr>fs_tmpfs := ?t\<lparr>g_tmpfs_vfs_names := (g_tmpfs_vfs_names ?t)[?k := nm]\<rparr>\<rparr>\<rparr>) = (True, s2)"
    and s': "s' = s2\<lparr>backend := (backend s2)\<lparr>fs_tmpfs := ?t\<lparr>g_tmpfs_vfs_names := (g_tmpfs_vfs_names ?t)[?k := nm],
      g_tmpfs_vfs_node_count := ?k + 1\<rparr>\<rparr>\<rparr>"
    using assms(3) by (auto simp: tmpfs_mount_vfs_def Let_def split: option.splits if_splits prod.splits bool.splits)
  let ?s1 = "s\<lparr>backend := (backend s)\<lparr>fs_tmpfs := ?t\<lparr>g_tmpfs_vfs_names := (g_tmpfs_vfs_names ?t)[?k := nm]\<rparr>\<rparr>\<rparr>"
  let ?node = "tmpfs_node (Some path) ?k (f_size (g_tmpfs_files ?t ! i))"
  have nm: "nm = n" using cp by (auto simp: tmpfs_copy_name_def split: if_splits)
  note spec = vfs_mount_static_spec [OF _ m]
  have s1: "vfs_ok ?s1" using assms(1) by simp
  have s2: "vfs_ok s2" "mounted s2 = mounted s @ [?node]" "g_open_files s2 = g_open_files s"
    using spec(1,3) [OF s1] by (auto simp: mounted_def)
  show ok: "vfs_ok s'" using s2(1) by (simp add: s')
  show "g_open_files s' = g_open_files s" using s2(3) by (simp add: s')
  have len: "length (g_tmpfs_vfs_names ?t) = 8" using assms(2) by (simp add: tmpfs_ok_def)
  then show "tmpfs_ok (fs_tmpfs (backend s'))"
    using assms(2) by (simp add: s' tmpfs_ok_def)
  show "tmpfs_files (fs_tmpfs (backend s')) = tmpfs_files ?t" by (simp add: s')
  let ?c = "g_vfs_node_count s"
  have cnt: "g_vfs_node_count s2 = Suc ?c" using length_mounted [OF s2(1)] length_mounted [OF assms(1)] s2(2) by simp
  have "mounted s2 ! ?c = ?node" using s2(2) length_mounted [OF assms(1)] by (simp add: nth_append)
  then have node: "g_vfs_nodes s2 ! ?c = ?node" using nth_mounted [OF s2(1), of ?c] cnt by simp
  have "vfs_find (Some path) s' = Some ?c"
    using vfs_find_Some_iff [OF ok] cnt node by (simp add: s' tmpfs_node_def)
  moreover have "tmpfs_backed s' ?c n"
    using k len node nm by (auto simp: tmpfs_backed_def s' tmpfs_node_def)
  ultimately show "\<exists>i. vfs_find (Some path) s' = Some i \<and> tmpfs_backed s' i n" by blast
qed

lemma tmpfs_backed_files [simp]: "tmpfs_backed (s\<lparr>g_open_files := x\<rparr>) i n = tmpfs_backed s i n"
  by (simp add: tmpfs_backed_def)

text \<open>Writing from the start of a freshly opened temporary file and reading it back.\<close>

lemma tmpfs_fd_round_trip:
  assumes "vfs_ok s" and "tmpfs_ok (fs_tmpfs (backend s))" and "tmpfs_files (fs_tmpfs (backend s)) n = Some c"
    and "g_open_files s ! fd = \<lparr>of_node = Some i, of_offset = 0, of_flags = VFS_O_RDWR, of_used = True\<rparr>" and "fd < 8"
    and "tmpfs_backed s i n" and "unat sz \<le> 256" and "unat sz \<le> length buf"
  shows "\<exists>s1 s2 s3. vfs_write_fd (int fd) (Some buf) sz s = ((0, sz), s1) \<and> vfs_seek (int fd) 0 s1 = (True, s2) \<and>
     vfs_read_fd (int fd) sz s2 = ((0, sz, take (unat sz) buf), s3)"
proof -
  let ?f = "\<lparr>of_node = Some i, of_offset = 0, of_flags = VFS_O_RDWR, of_used = True\<rparr>"
  have at: "vfs_fd_at (int fd) s = Some fd" using fd_at_Some_iff [OF assms(1)] assms(4,5) by simp
  have wr: "vn_write (g_vfs_nodes s ! i) \<noteq> None" "vn_read (g_vfs_nodes s ! i) \<noteq> None"
    using assms(6) by (auto simp: tmpfs_backed_def)
  obtain t where t: "vfs_write_node (g_vfs_nodes s ! i) 0 buf sz (backend s) = (0, sz, (backend s)\<lparr>fs_tmpfs := t\<rparr>)"
    "tmpfs_ok t" "tmpfs_files t = (tmpfs_files (fs_tmpfs (backend s)))(n \<mapsto> splice c 0 (take (unat sz) buf))"
    "g_tmpfs_vfs_names t = g_tmpfs_vfs_names (fs_tmpfs (backend s))"
    using backed_write [OF assms(6,2,3), of 0 sz buf] assms(7,8) by auto
  define s1 where "s1 = s\<lparr>backend := (backend s)\<lparr>fs_tmpfs := t\<rparr>, g_open_files := (g_open_files s)[fd := ?f\<lparr>of_offset := sz\<rparr>]\<rparr>"
  have w: "vfs_write_fd (int fd) (Some buf) sz s = ((0, sz), s1)"
    using at assms(4) wr t(1) by (auto simp: vfs_write_fd_def s1_def Let_def)
  have ok1: "vfs_ok s1" using vfs_write_fd_ok [OF assms(1), of "int fd" "Some buf" sz] w by simp
  have len: "length (g_open_files s) = 8" using assms(1) by (simp add: vfs_ok_def)
  have back1: "tmpfs_backed s1 i n" using assms(6) t(4) by (simp add: tmpfs_backed_def s1_def)
  let ?c = "splice c 0 (take (unat sz) buf)"
  have files1: "tmpfs_ok (fs_tmpfs (backend s1))" "tmpfs_files (fs_tmpfs (backend s1)) n = Some ?c"
    using t(2,3) by (simp_all add: s1_def)
  define s2 where "s2 = s1\<lparr>g_open_files := (g_open_files s1)[fd := ?f]\<rparr>"
  obtain size where "vfs_node_size (g_vfs_nodes s1 ! i) (backend s1) = Some size"
    using backed_size [OF back1 files1] by blast
  moreover have f1: "g_open_files s1 ! fd = ?f\<lparr>of_offset := sz\<rparr>" using len assms(5) by (simp add: s1_def)
  moreover have at1: "vfs_fd_at (int fd) s1 = Some fd" using fd_at_Some_iff [OF ok1] f1 assms(5) by simp
  ultimately have sk: "vfs_seek (int fd) 0 s1 = (True, s2)" by (auto simp: vfs_seek_def s2_def Let_def)
  have ok2: "vfs_ok s2" using vfs_seek_ok [OF ok1, of "int fd" 0] sk by simp
  have f2: "g_open_files s2 ! fd = ?f" using len assms(5) by (simp add: s2_def s1_def)
  have at2: "vfs_fd_at (int fd) s2 = Some fd" using fd_at_Some_iff [OF ok2] f2 assms(5) by simp
  have same: "g_vfs_nodes s2 = g_vfs_nodes s" "backend s2 = backend s1" "tmpfs_backed s2 i n"
    using back1 by (simp_all add: s2_def s1_def)
  have "vfs_read_node (g_vfs_nodes s2 ! i) 0 sz (backend s2) = (0, sz, take (unat sz) buf)"
    using backed_read [OF same(3), of ?c 0 sz] files1 assms(8) same(2) by (simp add: splice_def min_absorb2)
  then have "\<exists>s3. vfs_read_fd (int fd) sz s2 = ((0, sz, take (unat sz) buf), s3)"
    using at2 f2 wr same(1) by (auto simp: vfs_read_fd_def Let_def)
  then show ?thesis using w sk by blast
qed

section \<open>Properties\<close>

definition fs_blank :: "fs_state vfs" where
  "fs_blank = vfs_reset \<lparr>g_vfs_nodes = [], g_vfs_node_count = 0, g_list_mounts = [], g_open_files = [],
     backend = \<lparr>fs_tmpfs = tmpfs_blank\<rparr>\<rparr>"

lemma fs_blank_ok: "vfs_ok fs_blank" "mounted fs_blank = []" "g_vfs_node_count fs_blank = 0"
  by (simp_all add: vfs_ok_def fs_blank_def vfs_reset_def mounted_def)

lemma vfs_read_node_bound:
  assumes "vfs_read_node node off cap b = (status, n, bytes)"
  shows "if status = 0
     then \<exists>size. vfs_node_size node b = Some size \<and> unat n \<le> unat cap \<and> unat off + unat n \<le> unat size
     else n = 0"
proof (cases "status = 0")
  case True
  then obtain size where size: "vfs_node_size node b = Some size" and valid: "vfs_read_result_valid off size cap n"
    using assms by (auto simp: vfs_read_node_def split: option.splits if_splits prod.splits)
  have "unat n \<le> unat cap" "unat off + unat n \<le> unat size"
    using valid by (auto simp: vfs_read_result_valid_def word_less_nat_alt word_le_nat_alt unat_sub not_less split: if_splits)
  then show ?thesis using True size by simp
next
  case False
  then show ?thesis using assms by (auto simp: vfs_read_node_def split: option.splits if_splits prod.splits)
qed

text \<open>C28 No read through the VFS ever reports more bytes than the buffer holds or than the file has left,
  whatever the mounted file system's callback does. A successful \<open>vfs_read\<close> of \<open>n\<close> bytes at an offset has
  \<open>n\<close> at most the capacity and offset plus \<open>n\<close> at most the size that \<open>vfs_stat\<close> reports, and a failed
  read reports zero bytes. A successful read through a descriptor has the same bounds for the node and the offset of the
  descriptor, which moves on by exactly \<open>n\<close> without wrapping around; a failed one reports zero bytes and leaves the descriptor as
  it was.\<close>

theorem vfs_read_in_bounds:
  "(case vfs_read path off cap s of (status, n, bytes) \<Rightarrow>
      (if status = 0
       then \<exists>size. vfs_stat path s = Some size \<and> unat n \<le> unat cap \<and> unat off + unat n \<le> unat size
       else n = 0)) \<and>
   (case vfs_read_fd fd cap s of ((status, n, bytes), s') \<Rightarrow>
      (if status = 0
       then \<exists>i size. vfs_fd_at fd s = Some i \<and> unat n \<le> unat cap \<and>
         vfs_node_size (g_vfs_nodes s ! the (of_node (g_open_files s ! i))) (backend s) = Some size \<and>
         unat (of_offset (g_open_files s ! i)) + unat n \<le> unat size \<and>
         (\<exists>off'. s' = s\<lparr>g_open_files := (g_open_files s)[i := (g_open_files s ! i)\<lparr>of_offset := off'\<rparr>]\<rparr> \<and>
           unat off' = unat (of_offset (g_open_files s ! i)) + unat n)
       else n = 0 \<and> s' = s))"
proof (intro conjI)
  show "case vfs_read path off cap s of (status, n, bytes) \<Rightarrow>
      (if status = 0 then \<exists>size. vfs_stat path s = Some size \<and> unat n \<le> unat cap \<and> unat off + unat n \<le> unat size else n = 0)"
    using vfs_read_node_bound [of _ off cap "backend s"] by (auto simp: vfs_read_def vfs_stat_def split: option.split prod.split)
  show "case vfs_read_fd fd cap s of ((status, n, bytes), s') \<Rightarrow>
      (if status = 0
       then \<exists>i size. vfs_fd_at fd s = Some i \<and> unat n \<le> unat cap \<and>
         vfs_node_size (g_vfs_nodes s ! the (of_node (g_open_files s ! i))) (backend s) = Some size \<and>
         unat (of_offset (g_open_files s ! i)) + unat n \<le> unat size \<and>
         (\<exists>off'. s' = s\<lparr>g_open_files := (g_open_files s)[i := (g_open_files s ! i)\<lparr>of_offset := off'\<rparr>]\<rparr> \<and>
           unat off' = unat (of_offset (g_open_files s ! i)) + unat n)
       else n = 0 \<and> s' = s)"
  proof (cases "vfs_fd_at fd s")
    case (Some i)
    let ?f = "g_open_files s ! i" and ?n = "g_vfs_nodes s ! the (of_node (g_open_files s ! i))"
    obtain st n bs where r: "vfs_read_node ?n (of_offset ?f) cap (backend s) = (st, n, bs)" by (metis prod_cases3)
    note b = vfs_read_node_bound [OF r]
    have "unat (of_offset ?f + n) = unat (of_offset ?f) + unat n" if z: "st = 0"
    proof (rule unat_add_bounded)
      obtain size where "unat (of_offset ?f) + unat n \<le> unat (size :: u64)" using b z by auto
      then show "unat (of_offset ?f) + unat n < 2 ^ LENGTH(64)" using unsigned_less [of size, where 'a = nat] by simp
    qed
    then have "\<exists>off'. s\<lparr>g_open_files := (g_open_files s)[i := ?f\<lparr>of_offset := of_offset ?f + n\<rparr>]\<rparr> =
        s\<lparr>g_open_files := (g_open_files s)[i := ?f\<lparr>of_offset := off'\<rparr>]\<rparr> \<and> unat off' = unat (of_offset ?f) + unat n" if "st = 0"
      using that by blast
    then show ?thesis using Some r b by (auto simp: vfs_read_fd_def Let_def)
  qed (simp add: vfs_read_fd_def)
qed

text \<open>C34 \<open>vfs_mount_static\<close> mounts all of its nodes or none: it succeeds exactly when the table has room and
  every path is absolute, shorter than 64 characters, has a callback and is new (also among the nodes
  mounted together); then each new path, and every older one, is found at its node; the invariant of the
  tables is kept.\<close>

theorem vfs_mount_static_atomic:
  assumes "vfs_ok s" and "vfs_mount_static nodes s = (r, s')"
  shows "vfs_ok s' \<and> (r \<longleftrightarrow> nodes \<noteq> [] \<and> g_vfs_node_count s + length nodes \<le> 24 \<and>
       (\<forall>node\<in>set nodes. node_ok node) \<and> distinct (map vn_path (mounted s @ nodes))) \<and>
     (\<not> r \<longrightarrow> s' = s) \<and>
     (r \<longrightarrow> (\<forall>node\<in>set (mounted s @ nodes). \<exists>i. vfs_find (vn_path node) s' = Some i \<and> g_vfs_nodes s' ! i = node))"
proof -
  note m = vfs_mount_static_spec [OF assms]
  have "\<exists>i. vfs_find (vn_path node) s' = Some i \<and> g_vfs_nodes s' ! i = node"
    if "r" "node \<in> set (mounted s @ nodes)" for node
  proof -
    have "node \<in> set (mounted s')" using m(3) that by simp
    then obtain i where i: "i < g_vfs_node_count s'" "g_vfs_nodes s' ! i = node"
      using set_mounted [OF m(1)] by auto
    moreover have "vn_path node \<noteq> None" using node_path_Some [OF m(1) i(1)] i(2) by auto
    ultimately show ?thesis using vfs_find_Some_iff [OF m(1)] by blast
  qed
  then show ?thesis using m by blast
qed

theorem vfs_mount_static_atomic_witness:
  "vfs_ok (snd (vfs_mount_static [tmpfs_node (Some ''/t'') 0 0] fs_blank)) \<and>
   fst (vfs_mount_static [tmpfs_node (Some ''/t'') 0 0] fs_blank)"
proof -
  let ?n = "tmpfs_node (Some ''/t'') 0 0 :: fs_state vfs_node"
  obtain r s' where r: "vfs_mount_static [?n] fs_blank = (r, s')" by fastforce
  have "node_ok ?n" by (simp add: node_ok_def tmpfs_node_def vfs_path_is_mountable_def)
  then show ?thesis using vfs_mount_static_atomic [OF fs_blank_ok(1) r] by (simp add: r fs_blank_ok)
qed

definition opens_with :: "u32 \<Rightarrow> 'b vfs_node \<Rightarrow> bool" where
  "opens_with flags node \<longleftrightarrow> vfs_open_flags_valid flags \<and>
     (vfs_open_access_mode flags \<noteq> VFS_O_WRONLY \<longrightarrow> vn_read node \<noteq> None) \<and>
     (vfs_open_access_mode flags \<noteq> VFS_O_RDONLY \<longrightarrow> vn_write node \<noteq> None)"

text \<open>C35 Opening a mounted path succeeds exactly when the flags are valid, the node supports the access mode and a descriptor is
  free. Then the lowest free descriptor is returned, with offset 0 and the access mode of the flags, all other descriptors and
  everything else are as before, and the tables stay well formed; otherwise the result is -1 and nothing changes. A path that is not
  mounted and that the dynamic lookup does not find is refused too, and the only changes are those of that lookup.\<close>

theorem vfs_open_lowest_fd:
  assumes "vfs_ok s"
  shows "case vfs_find path s of
      Some n \<Rightarrow>
        (if opens_with flags (g_vfs_nodes s ! n) \<and> (\<exists>i<8. \<not> of_used (g_open_files s ! i))
         then \<exists>i<8. \<not> of_used (g_open_files s ! i) \<and> (\<forall>j<i. of_used (g_open_files s ! j)) \<and>
           (\<exists>s'. vfs_open_flags dyn path flags s = (int i, s') \<and> vfs_ok s' \<and>
              s' = s\<lparr>g_open_files := (g_open_files s)[i := \<lparr>of_node = Some n, of_offset = 0,
                 of_flags = vfs_open_access_mode flags, of_used = True\<rparr>]\<rparr>)
         else vfs_open_flags dyn path flags s = (-1, s))
    | None \<Rightarrow> (\<not> vfs_open_flags_valid flags \<longrightarrow> vfs_open_flags dyn path flags s = (-1, s)) \<and>
        (fst (dyn path flags s) = None \<longrightarrow> vfs_open_flags_valid flags \<longrightarrow>
           vfs_open_flags dyn path flags s = (-1, snd (dyn path flags s)))"
proof (cases "vfs_find path s")
  case None
  then show ?thesis by (auto simp: vfs_open_flags_def Let_def split: prod.split option.split)
next
  case (Some n)
  show ?thesis
  proof (cases "opens_with flags (g_vfs_nodes s ! n) \<and> (\<exists>i<8. \<not> of_used (g_open_files s ! i))")
    case True
    then obtain i where "first_index 8 (\<lambda>i. \<not> of_used (g_open_files s ! i)) = Some i"
      using first_index_None_iff [of 8 "\<lambda>i. \<not> of_used (g_open_files s ! i)"] by (metis not_None_eq)
    then have i: "i < 8" "\<not> of_used (g_open_files s ! i)" "\<forall>j<i. of_used (g_open_files s ! j)"
      by (simp_all add: first_index_Some_iff)
    show ?thesis using vfs_open_known [OF assms Some _ _ _ i] True i Some by (auto simp: opens_with_def)
  next
    case False
    then have "vfs_open_flags dyn path flags s = (-1, s)"
      using Some access_mode_cases [of flags] by (auto simp: vfs_open_flags_def opens_with_def first_index_Some_iff Let_def split: option.split)
    then show ?thesis using Some False by simp
  qed
qed

text \<open>The file system with one temporary file mounted.\<close>

lemma fs_with_file:
  obtains s where "vfs_ok s" "tmpfs_ok (fs_tmpfs (backend s))" "tmpfs_files (fs_tmpfs (backend s)) ''a'' = Some []"
    "\<exists>i. vfs_find (Some ''/a'') s = Some i \<and> tmpfs_backed s i ''a''" "g_open_files s = replicate 8 vfs_closed_file"
    "\<exists>t. tmpfs_create (Some ''a'') tmpfs_blank = (True, t) \<and>
       tmpfs_mount_vfs (Some ''/a'') (Some ''a'') (fs_blank\<lparr>backend := \<lparr>fs_tmpfs = t\<rparr>\<rparr>) = (True, s)"
proof -
  obtain t where t: "tmpfs_create (Some ''a'') tmpfs_blank = (True, t)" "tmpfs_ok t" "tmpfs_files t ''a'' = Some []"
    using tmpfs_blank_create [of "''a''"] by auto
  have t2: "g_tmpfs_vfs_names t = replicate 8 ''''" "g_tmpfs_vfs_node_count t = 0"
    using t(1) by (auto simp: tmpfs_create_def Let_def tmpfs_blank_def split: if_splits option.splits prod.splits)
  let ?s = "fs_blank\<lparr>backend := \<lparr>fs_tmpfs = t\<rparr>\<rparr>"
  obtain i where i: "tmpfs_find_file (Some ''a'') t = Some i" using t(3) by (auto simp: tmpfs_files_def)
  have cp: "tmpfs_copy_name d (Some ''a'') = (True, ''a'')" for d by (simp add: tmpfs_copy_name_def)
  have mnt: "fst (vfs_mount_static [tmpfs_node (Some ''/a'') 0 z] (fs_blank\<lparr>backend := b\<rparr>))" for z b
  proof -
    obtain r s' where r: "vfs_mount_static [tmpfs_node (Some ''/a'') 0 z] (fs_blank\<lparr>backend := b\<rparr>) = (r, s')" by fastforce
    have "mounted (fs_blank\<lparr>backend := b\<rparr>) = []" by (simp add: mounted_def fs_blank_ok)
    then have "r" using vfs_mount_static_spec(2) [OF _ r]
      by (simp add: fs_blank_ok node_ok_def tmpfs_node_def vfs_path_is_mountable_def)
    then show ?thesis by (simp add: r)
  qed
  have "\<exists>s. tmpfs_mount_vfs (Some ''/a'') (Some ''a'') ?s = (True, s)"
    using i t2 cp mnt by (auto simp: tmpfs_mount_vfs_def Let_def split: prod.splits bool.splits) (metis fst_conv)
  then obtain s where s: "tmpfs_mount_vfs (Some ''/a'') (Some ''a'') ?s = (True, s)" by blast
  have "vfs_ok ?s" "tmpfs_ok (fs_tmpfs (backend ?s))" using fs_blank_ok t by simp_all
  note f = tmpfs_mount_vfs_ok [OF this s]
  show ?thesis
    by (rule that [OF f(1,2) _ f(4)]) (use f(3,5) t s in \<open>auto simp: fs_blank_def vfs_reset_def\<close>)
qed

theorem vfs_open_lowest_fd_witness:
  "\<exists>s :: fs_state vfs. vfs_ok s \<and> (\<exists>s'. vfs_open_flags (\<lambda>p f s. (None, s)) (Some ''/a'') 2 s = (0, s')) \<and>
     vfs_open_flags (\<lambda>p f s. (None, s)) (Some ''/a'') 3 s = (-1, s) \<and> vfs_open_flags (\<lambda>p f s. (None, s)) None 0 s = (-1, s)"
proof -
  let ?d = "\<lambda>p f s. (None, s)"
  obtain s :: "fs_state vfs" where s: "vfs_ok s" "\<exists>i. vfs_find (Some ''/a'') s = Some i \<and> tmpfs_backed s i ''a''"
    "g_open_files s = replicate 8 vfs_closed_file"
    by (rule fs_with_file) blast
  then obtain i where i: "vfs_find (Some ''/a'') s = Some i" "tmpfs_backed s i ''a''" by blast
  have "vfs_open_flags_valid 2" "\<not> vfs_open_flags_valid 3" "vfs_open_flags_valid 0"
    by (simp_all add: vfs_open_flags_valid_def vfs_open_access_mode_def Let_def)
  moreover from this have "opens_with 2 (g_vfs_nodes s ! i)" "\<not> opens_with 3 (g_vfs_nodes s ! i)"
    using i(2) by (auto simp: opens_with_def tmpfs_backed_def)
  moreover have "\<not> of_used (g_open_files s ! j)" if "j < 8" for j using s(3) that by (simp add: vfs_closed_file_def)
  ultimately have "\<exists>s'. vfs_open_flags ?d (Some ''/a'') 2 s = (0, s')" "vfs_open_flags ?d (Some ''/a'') 3 s = (-1, s)"
    "vfs_open_flags ?d None 0 s = (-1, s)"
    using vfs_open_lowest_fd [OF s(1), where path = "Some ''/a''" and flags = 2 and dyn = ?d]
      vfs_open_lowest_fd [OF s(1), where path = "Some ''/a''" and flags = 3 and dyn = ?d]
      vfs_open_lowest_fd [OF s(1), where path = None and flags = 0 and dyn = ?d] i(1) by (auto simp: vfs_find_def split: if_splits) (metis gr0I of_nat_0 zero_less_numeral)+
  then show ?thesis using s(1) by blast
qed

theorem vfs_read_in_bounds_witness:
  "\<exists>(s :: fs_state vfs) s' i size. vfs_read_fd 0 3 s = ((0, 3, [1, 2, 3]), s') \<and> vfs_fd_at 0 s = Some i \<and>
     vfs_node_size (g_vfs_nodes s ! the (of_node (g_open_files s ! i))) (backend s) = Some size \<and>
     unat (of_offset (g_open_files s ! i)) + 3 \<le> unat size"
proof -
  obtain s :: "fs_state vfs" where s: "vfs_ok s" "tmpfs_ok (fs_tmpfs (backend s))" "tmpfs_files (fs_tmpfs (backend s)) ''a'' = Some []"
    "\<exists>i. vfs_find (Some ''/a'') s = Some i \<and> tmpfs_backed s i ''a''" "g_open_files s = replicate 8 vfs_closed_file"
    by (rule fs_with_file) blast
  then obtain i where i: "vfs_find (Some ''/a'') s = Some i" "tmpfs_backed s i ''a''" by blast
  let ?f = "\<lparr>of_node = Some i, of_offset = 0, of_flags = VFS_O_RDWR, of_used = True\<rparr>"
  have v: "vfs_open_flags_valid 2" by (simp add: vfs_open_flags_valid_def vfs_open_access_mode_def Let_def)
  obtain t where t: "vfs_ok t" "t = s\<lparr>g_open_files := (g_open_files s)[0 := ?f]\<rparr>"
    using vfs_open_known [OF s(1) i(1) v, of 0 "\<lambda>p f s. (None, s)"] i(2) s(5)
    by (auto simp: tmpfs_backed_def vfs_open_access_mode_def vfs_closed_file_def)
  have "g_open_files t ! 0 = ?f" "tmpfs_backed t i ''a''" using s(5) i(2) by (simp_all add: t(2))
  then obtain s2 s3 :: "fs_state vfs" where r: "vfs_read_fd 0 3 s2 = ((0, 3, [1, 2, 3]), s3)"
    using tmpfs_fd_round_trip [OF t(1), where n = "''a''" and c = "[]" and fd = 0 and i = i and sz = 3 and buf = "[1, 2, 3]"] s(2,3) t(2) by auto
  show ?thesis using vfs_read_in_bounds [where fd = 0 and cap = 3 and s = s2] r by fastforce
qed

text \<open>Access modes are enforced: a descriptor opened read-only never writes and one opened write-only never
  reads; such a call fails and leaves the whole file-system state as it was. Reading never
  changes the mounted file systems.\<close>

theorem vfs_access_modes:
  assumes "vfs_ok s" and "vfs_fd_at fd s = Some i"
  shows "(of_flags (g_open_files s ! i) = VFS_O_RDONLY \<longrightarrow> vfs_write_fd fd (Some buf) sz s = ((-1, 0), s)) \<and>
     (of_flags (g_open_files s ! i) = VFS_O_WRONLY \<longrightarrow> vfs_read_fd fd sz s = ((-1, 0, []), s)) \<and>
     backend (snd (vfs_read_fd fd sz s)) = backend s"
  using assms(2) by (auto simp: vfs_write_fd_def vfs_read_fd_def Let_def split: prod.splits)

theorem vfs_access_modes_witness:
  "\<exists>s :: fs_state vfs. \<exists>s'. vfs_ok s \<and> vfs_open_flags (\<lambda>p f s. (None, s)) (Some ''/a'') 0 s = (0, s') \<and>
     vfs_write_fd 0 (Some [1]) 1 s' = ((-1, 0), s')"
proof -
  obtain s :: "fs_state vfs" where s: "vfs_ok s" "\<exists>i. vfs_find (Some ''/a'') s = Some i \<and> tmpfs_backed s i ''a''"
    "g_open_files s = replicate 8 vfs_closed_file"
    by (rule fs_with_file) blast
  then obtain i where i: "vfs_find (Some ''/a'') s = Some i" "tmpfs_backed s i ''a''" by blast
  have v: "vfs_open_flags_valid 0" by (simp add: vfs_open_flags_valid_def vfs_open_access_mode_def Let_def)
  obtain s' where s': "vfs_open_flags (\<lambda>p f s. (None, s)) (Some ''/a'') 0 s = (0, s')" "vfs_ok s'"
    "s' = s\<lparr>g_open_files := (g_open_files s)[0 := \<lparr>of_node = Some i, of_offset = 0, of_flags = 0, of_used = True\<rparr>]\<rparr>"
    using vfs_open_known [OF s(1) i(1) v, of 0 "\<lambda>p f s. (None, s)"] i(2) s(3)
    by (auto simp: tmpfs_backed_def vfs_open_access_mode_def)
  have f: "g_open_files s' ! 0 = \<lparr>of_node = Some i, of_offset = 0, of_flags = 0, of_used = True\<rparr>"
    using s(3) by (simp add: s'(3))
  then have "vfs_fd_at 0 s' = Some 0" using fd_at_Some_iff [OF s'(2), of 0 0] by simp
  from vfs_access_modes [OF s'(2) this, of "[1]" 1] f show ?thesis using s(1) s'(1) by auto
qed

text \<open>The root listing is the mounted paths, one per line in mount order, cut off at the capacity of the
  buffer (below \<open>2 ^ 64\<close>): the loop neither overruns the buffer nor leaves out a byte that fits.\<close>

theorem vfs_list_root:
  assumes "vfs_ok s" and "\<forall>i<4. lm_used (g_list_mounts s ! i) \<longrightarrow> lm_path (g_list_mounts s ! i) \<noteq> ''/''"
  shows "vfs_list (Some ''/'') cap s =
     (let out = take (unat cap) (concat (map path_line (mounted s))) in (0, of_nat (length out), out))"
proof -
  have "first_index 4 (\<lambda>i. lm_used (g_list_mounts s ! i) \<and> vfs_path_equals (Some (lm_path (g_list_mounts s ! i))) (Some ''/'')) = None"
    using assms(2) by (auto simp: first_index_None_iff)
  then show ?thesis using vfs_list_nodes_take [of "[]" cap "mounted s"]
    by (simp add: vfs_list_def mounted_def)
qed

theorem vfs_list_root_witness: "vfs_list (Some ''/'') 10 fs_blank = (0, 0, [])"
proof -
  have "\<forall>i<4. lm_used (g_list_mounts fs_blank ! i) \<longrightarrow> lm_path (g_list_mounts fs_blank ! i) \<noteq> ''/''"
    by (simp add: fs_blank_def vfs_reset_def)
  from vfs_list_root [OF fs_blank_ok(1) this, of 10] show ?thesis by (simp add: fs_blank_ok)
qed

text \<open>C30 A temporary file through the VFS: create it, mount it, open it for reading and writing, write up to 256
  bytes, seek to the start and read: the descriptor returns exactly the bytes written.\<close>

theorem tmpfs_vfs_round_trip:
  assumes "vfs_ok s" and "tmpfs_ok (fs_tmpfs (backend s))" and "tmpfs_files (fs_tmpfs (backend s)) n = Some c"
    and "tmpfs_mount_vfs (Some path) (Some n) s = (True, s1)"
    and "fd < 8" and "\<not> of_used (g_open_files s ! fd)" and "\<forall>j<fd. of_used (g_open_files s ! j)"
    and "unat sz \<le> 256" and "unat sz \<le> length buf"
  shows "\<exists>s2 s3 s4 s5. vfs_open_flags dyn (Some path) VFS_O_RDWR s1 = (int fd, s2) \<and>
     vfs_write_fd (int fd) (Some buf) sz s2 = ((0, sz), s3) \<and> vfs_seek (int fd) 0 s3 = (True, s4) \<and>
     vfs_read_fd (int fd) sz s4 = ((0, sz, take (unat sz) buf), s5)"
proof -
  note m = tmpfs_mount_vfs_ok [OF assms(1,2,4)]
  obtain i where i: "vfs_find (Some path) s1 = Some i" "tmpfs_backed s1 i n" using m(4) by blast
  have v: "vfs_open_flags_valid VFS_O_RDWR" "vfs_open_access_mode VFS_O_RDWR = VFS_O_RDWR"
    by (simp_all add: vfs_open_flags_valid_def vfs_open_access_mode_def Let_def)
  let ?f = "\<lparr>of_node = Some i, of_offset = 0, of_flags = VFS_O_RDWR, of_used = True\<rparr>"
  have free: "\<not> of_used (g_open_files s1 ! fd)" "\<forall>j<fd. of_used (g_open_files s1 ! j)" using assms(6,7) m(5) by auto
  have cb: "vfs_open_access_mode VFS_O_RDWR \<noteq> VFS_O_WRONLY \<longrightarrow> vn_read (g_vfs_nodes s1 ! i) \<noteq> None"
    "vfs_open_access_mode VFS_O_RDWR \<noteq> VFS_O_RDONLY \<longrightarrow> vn_write (g_vfs_nodes s1 ! i) \<noteq> None"
    using i(2) by (auto simp: tmpfs_backed_def)
  obtain s2 where s2: "vfs_open_flags dyn (Some path) VFS_O_RDWR s1 = (int fd, s2)" "vfs_ok s2"
    "s2 = s1\<lparr>g_open_files := (g_open_files s1)[fd := ?f]\<rparr>"
    using vfs_open_known [OF m(1) i(1) v(1) cb assms(5) free, of dyn] v(2) by auto
  have "length (g_open_files s1) = 8" using m(1) by (simp add: vfs_ok_def)
  then have "g_open_files s2 ! fd = ?f" using assms(5) by (simp add: s2(3))
  moreover have "tmpfs_backed s2 i n" "tmpfs_ok (fs_tmpfs (backend s2))" "tmpfs_files (fs_tmpfs (backend s2)) n = Some c"
    using i(2) m(2,3) assms(3) by (simp_all add: s2(3))
  ultimately show ?thesis using tmpfs_fd_round_trip [OF s2(2), of n c fd i sz buf] assms(5,8,9) s2(1) by blast
qed

theorem tmpfs_vfs_round_trip_witness:
  "\<exists>(s :: fs_state vfs) s1 s2 s3 s4 s5. tmpfs_mount_vfs (Some ''/a'') (Some ''a'') s = (True, s1) \<and>
     vfs_open_flags (\<lambda>p f s. (None, s)) (Some ''/a'') VFS_O_RDWR s1 = (0, s2) \<and>
     vfs_write_fd 0 (Some [1, 2, 3]) 3 s2 = ((0, 3), s3) \<and> vfs_seek 0 0 s3 = (True, s4) \<and>
     vfs_read_fd 0 3 s4 = ((0, 3, [1, 2, 3]), s5)"
proof -
  obtain s1 :: "fs_state vfs" and t where t: "tmpfs_create (Some ''a'') tmpfs_blank = (True, t)"
    "tmpfs_mount_vfs (Some ''/a'') (Some ''a'') (fs_blank\<lparr>backend := \<lparr>fs_tmpfs = t\<rparr>\<rparr>) = (True, s1)"
    by (rule fs_with_file) blast
  let ?s = "fs_blank\<lparr>backend := \<lparr>fs_tmpfs = t\<rparr>\<rparr>"
  have f: "tmpfs_ok t" "tmpfs_files t ''a'' = Some []"
    using tmpfs_blank_create [of "''a''"] t(1) by auto
  have ok: "vfs_ok ?s" "tmpfs_ok (fs_tmpfs (backend ?s))" "tmpfs_files (fs_tmpfs (backend ?s)) ''a'' = Some []"
    using fs_blank_ok f by simp_all
  have "\<not> of_used (g_open_files ?s ! 0)" by (simp add: fs_blank_def vfs_reset_def)
  with tmpfs_vfs_round_trip [OF ok t(2), of 0 3 "[1, 2, 3]" "\<lambda>p f s. (None, s)"] t(2)
  show ?thesis by auto blast
qed

end
