(* ===== verification/Vmm.thy ===== *)
theory Vmm
  imports Pmm
begin

text \<open>
  The page-table manager, \<open>kernel/mm/vmm.c\<close>. Physical memory is a map from the addresses of 64-bit
  cells to their values; a page-table pointer is the physical address of the table, a null pointer is 0. The
  loops of \<open>vmm_map_range\<close> and \<open>vmm_unmap_range\<close> advance by one page up to a span that \<open>page_span\<close> has
  rounded to whole pages; they are modelled with the page number as the counter.

  The proofs rest on one invariant over all page-table roots in use: a table page is reached by exactly one
  path of indices from exactly one root, and table pages are managed, allocated pages. From it
  follow the effect of each operation on the translations of every address space.
\<close>

abbreviation DESC_VALID :: u64 where "DESC_VALID \<equiv> 1"
abbreviation DESC_TABLE :: u64 where "DESC_TABLE \<equiv> 2"
abbreviation DESC_PAGE :: u64 where "DESC_PAGE \<equiv> 2"
abbreviation DESC_AF :: u64 where "DESC_AF \<equiv> 0x400"
abbreviation DESC_SH_INNER :: u64 where "DESC_SH_INNER \<equiv> 0x300"
abbreviation DESC_AP_RO :: u64 where "DESC_AP_RO \<equiv> 0x80"
abbreviation DESC_AP_USER :: u64 where "DESC_AP_USER \<equiv> 0x40"
abbreviation DESC_UXN :: u64 where "DESC_UXN \<equiv> 0x40000000000000"
abbreviation DESC_PXN :: u64 where "DESC_PXN \<equiv> 0x20000000000000"
abbreviation DESC_ATTR_NORMAL :: u64 where "DESC_ATTR_NORMAL \<equiv> 0"
abbreviation DESC_ATTR_DEVICE :: u64 where "DESC_ATTR_DEVICE \<equiv> 4"
abbreviation DESC_ADDR_MASK :: u64 where "DESC_ADDR_MASK \<equiv> 0xfffffffff000"
abbreviation TABLE_INDEX_MASK :: u64 where "TABLE_INDEX_MASK \<equiv> 0x1ff"

abbreviation VMM_FLAG_READ :: u64 where "VMM_FLAG_READ \<equiv> 1"
abbreviation VMM_FLAG_WRITE :: u64 where "VMM_FLAG_WRITE \<equiv> 2"
abbreviation VMM_FLAG_EXEC :: u64 where "VMM_FLAG_EXEC \<equiv> 4"
abbreviation VMM_FLAG_DEVICE :: u64 where "VMM_FLAG_DEVICE \<equiv> 8"
abbreviation VMM_FLAG_USER :: u64 where "VMM_FLAG_USER \<equiv> 16"

record vmm =
  ram :: "u64 \<Rightarrow> u64"
  vpmm :: pmm

section \<open>Operations\<close>

definition page_align_down :: "u64 \<Rightarrow> u64" where
  "page_align_down value = value AND NOT (PAGE_SIZE - 1)"

definition page_align_up :: "u64 \<Rightarrow> u64" where
  "page_align_up value = (value + PAGE_SIZE - 1) AND NOT (PAGE_SIZE - 1)"

definition page_span :: "u64 \<Rightarrow> u64 \<Rightarrow> u64 option" where
  "page_span offset sz =
     (if sz = 0 \<or> offset \<ge> PAGE_SIZE then None
      else if sz > - 1 - offset then None
      else let endp = offset + sz
           in if endp AND (PAGE_SIZE - 1) \<noteq> 0 \<and> endp > - 1 - (PAGE_SIZE - 1) then None
              else Some (page_align_up endp))"

definition table_index :: "u64 \<Rightarrow> nat \<Rightarrow> u64" where
  "table_index vaddr level = drop_bit (39 - level * 9) vaddr AND TABLE_INDEX_MASK"

definition cell :: "u64 \<Rightarrow> u64 \<Rightarrow> u64" where
  "cell table index = table + 8 * index"

definition zero_table :: "u64 \<Rightarrow> vmm \<Rightarrow> vmm" where
  "zero_table table s = s\<lparr>ram := fold (\<lambda>i m. m(cell table (of_nat i) := 0)) [0..<512] (ram s)\<rparr>"

definition vmm_new_table :: "vmm \<Rightarrow> u64 \<times> vmm" where
  "vmm_new_table s =
     (let (paddr, p) = pmm_alloc_page (vpmm s); s' = s\<lparr>vpmm := p\<rparr>
      in if paddr = 0 then (0, s') else (paddr, zero_table paddr s'))"

function free_table_level :: "u64 \<Rightarrow> nat \<Rightarrow> vmm \<Rightarrow> vmm" where
  "free_table_level table level s =
     (if table = 0 then s
      else
        (let s1 = (if level < 3
                   then fold (\<lambda>i s. let entry = ram s (cell table (of_nat i))
                                    in if entry AND DESC_VALID \<noteq> 0 \<and> entry AND DESC_TABLE \<noteq> 0
                                       then free_table_level (entry AND DESC_ADDR_MASK) (level + 1) s
                                       else s) [0..<512] s
                   else s)
         in s1\<lparr>vpmm := pmm_free_page table (vpmm s1)\<rparr>))"
  by pat_completeness auto
termination
  by (relation "measure (\<lambda>(table, level, s). 4 - level)") auto

declare free_table_level.simps [simp del]

definition vmm_free_table :: "u64 \<Rightarrow> vmm \<Rightarrow> vmm" where
  "vmm_free_table pgd s = free_table_level pgd 0 s"

definition next_table :: "u64 \<Rightarrow> u64 \<Rightarrow> vmm \<Rightarrow> u64 \<times> vmm" where
  "next_table table index s =
     (let entry = ram s (cell table index)
      in if entry AND DESC_VALID \<noteq> 0
         then if entry AND DESC_TABLE = 0 then (0, s) else (entry AND DESC_ADDR_MASK, s)
         else
           (let (child, s') = vmm_new_table s
            in if child = 0 then (0, s')
               else (child, s'\<lparr>ram := (ram s')(cell table index :=
                       (child AND DESC_ADDR_MASK) OR DESC_VALID OR DESC_TABLE)\<rparr>)))"

definition page_descriptor :: "u64 \<Rightarrow> u64 \<Rightarrow> u64" where
  "page_descriptor paddr flags =
     (let d0 = (paddr AND DESC_ADDR_MASK) OR DESC_VALID OR DESC_PAGE OR DESC_AF;
          d1 = (if flags AND VMM_FLAG_DEVICE \<noteq> 0 then d0 OR DESC_ATTR_DEVICE OR DESC_UXN OR DESC_PXN
                else d0 OR DESC_ATTR_NORMAL OR DESC_SH_INNER);
          d2 = (if flags AND VMM_FLAG_WRITE = 0 then d1 OR DESC_AP_RO else d1);
          d3 = (if flags AND VMM_FLAG_USER \<noteq> 0 then d2 OR DESC_AP_USER else d2)
      in if flags AND VMM_FLAG_EXEC = 0 then d3 OR DESC_UXN OR DESC_PXN
         else if flags AND VMM_FLAG_USER \<noteq> 0 then d3 OR 0
         else d3 OR DESC_UXN)"

definition vmm_map_page :: "u64 \<Rightarrow> u64 \<Rightarrow> u64 \<Rightarrow> u64 \<Rightarrow> vmm \<Rightarrow> bool \<times> vmm" where
  "vmm_map_page pgd vaddr paddr flags s =
     (if pgd = 0 \<or> vaddr AND (PAGE_SIZE - 1) \<noteq> 0 \<or> paddr AND (PAGE_SIZE - 1) \<noteq> 0 then (False, s)
      else
        (let (level1, s1) = next_table pgd (table_index vaddr 0) s
         in if level1 = 0 then (False, s1)
            else
              (let (level2, s2) = next_table level1 (table_index vaddr 1) s1
               in if level2 = 0 then (False, s2)
                  else
                    (let (level3, s3) = next_table level2 (table_index vaddr 2) s2
                     in if level3 = 0 then (False, s3)
                        else
                          (let index3 = table_index vaddr 3
                           in if ram s3 (cell level3 index3) AND DESC_VALID \<noteq> 0 then (False, s3)
                              else (True, s3\<lparr>ram := (ram s3)(cell level3 index3 :=
                                      page_descriptor paddr flags)\<rparr>))))))"

function leaf_loop :: "vmm \<Rightarrow> u64 \<Rightarrow> nat \<Rightarrow> u64 \<Rightarrow> u64" where
  "leaf_loop s vaddr level table =
     (if level < 3
      then let entry = ram s (cell table (table_index vaddr level))
           in if entry AND DESC_VALID = 0 \<or> entry AND DESC_TABLE = 0 then 0
              else leaf_loop s vaddr (level + 1) (entry AND DESC_ADDR_MASK)
      else table)"
  by pat_completeness auto
termination
  by (relation "measure (\<lambda>(s, vaddr, level, table). 3 - level)") auto

declare leaf_loop.simps [simp del]

definition leaf_table :: "u64 \<Rightarrow> u64 \<Rightarrow> vmm \<Rightarrow> u64" where
  "leaf_table pgd vaddr s = (if pgd = 0 then 0 else leaf_loop s vaddr 0 pgd)"

definition vmm_unmap_page :: "u64 \<Rightarrow> u64 \<Rightarrow> vmm \<Rightarrow> bool \<times> vmm" where
  "vmm_unmap_page pgd vaddr s =
     (if pgd = 0 \<or> vaddr AND (PAGE_SIZE - 1) \<noteq> 0 then (False, s)
      else
        (let level3 = leaf_table pgd vaddr s; index3 = table_index vaddr 3
         in if level3 = 0 then (False, s)
            else if ram s (cell level3 index3) AND DESC_VALID = 0 then (False, s)
            else (True, s\<lparr>ram := (ram s)(cell level3 index3 := 0)\<rparr>)))"

definition vmm_rollback :: "u64 \<Rightarrow> u64 \<Rightarrow> nat \<Rightarrow> vmm \<Rightarrow> vmm" where
  "vmm_rollback pgd vaddr mapped s =
     fold (\<lambda>j s. snd (vmm_unmap_page pgd (vaddr + of_nat j * PAGE_SIZE) s)) [0..<mapped] s"

function vmm_map_loop :: "u64 \<Rightarrow> u64 \<Rightarrow> u64 \<Rightarrow> u64 \<Rightarrow> nat \<Rightarrow> nat \<Rightarrow> vmm \<Rightarrow> bool \<times> vmm" where
  "vmm_map_loop pgd vaddr paddr flags pages mapped s =
     (if mapped < pages
      then case vmm_map_page pgd (vaddr + of_nat mapped * PAGE_SIZE) (paddr + of_nat mapped * PAGE_SIZE) flags s of
             (False, s') \<Rightarrow> (False, vmm_rollback pgd vaddr mapped s')
           | (True, s') \<Rightarrow> vmm_map_loop pgd vaddr paddr flags pages (mapped + 1) s'
      else (True, s))"
  by pat_completeness auto
termination
  by (relation "measure (\<lambda>(pgd, vaddr, paddr, flags, pages, mapped, s). pages - mapped)") auto

declare vmm_map_loop.simps [simp del]

definition vmm_map_range :: "u64 \<Rightarrow> u64 \<Rightarrow> u64 \<Rightarrow> u64 \<Rightarrow> u64 \<Rightarrow> vmm \<Rightarrow> bool \<times> vmm" where
  "vmm_map_range pgd vaddr paddr sz flags s =
     (if pgd = 0 \<or> (vaddr XOR paddr) AND (PAGE_SIZE - 1) \<noteq> 0 then (False, s)
      else if sz = 0 then (True, s)
      else
        (let aligned_vaddr = page_align_down vaddr; aligned_paddr = page_align_down paddr;
             offset = vaddr - aligned_vaddr
         in case page_span offset sz of
              None \<Rightarrow> (False, s)
            | Some endp \<Rightarrow>
                if aligned_vaddr > - 1 - endp \<or> aligned_paddr > - 1 - endp then (False, s)
                else vmm_map_loop pgd aligned_vaddr aligned_paddr flags (unat endp div 4096) 0 s))"

function vmm_unmap_loop :: "u64 \<Rightarrow> u64 \<Rightarrow> nat \<Rightarrow> nat \<Rightarrow> vmm \<Rightarrow> bool \<times> vmm" where
  "vmm_unmap_loop pgd vaddr pages unmapped s =
     (if unmapped < pages
      then case vmm_unmap_page pgd (vaddr + of_nat unmapped * PAGE_SIZE) s of
             (False, s') \<Rightarrow> (False, s')
           | (True, s') \<Rightarrow> vmm_unmap_loop pgd vaddr pages (unmapped + 1) s'
      else (True, s))"
  by pat_completeness auto
termination
  by (relation "measure (\<lambda>(pgd, vaddr, pages, unmapped, s). pages - unmapped)") auto

declare vmm_unmap_loop.simps [simp del]

definition vmm_unmap_range :: "u64 \<Rightarrow> u64 \<Rightarrow> u64 \<Rightarrow> vmm \<Rightarrow> bool \<times> vmm" where
  "vmm_unmap_range pgd vaddr sz s =
     (if pgd = 0 then (False, s)
      else if sz = 0 then (True, s)
      else
        (let aligned_vaddr = page_align_down vaddr; offset = vaddr - aligned_vaddr
         in case page_span offset sz of
              None \<Rightarrow> (False, s)
            | Some endp \<Rightarrow>
                if aligned_vaddr > - 1 - endp then (False, s)
                else vmm_unmap_loop pgd aligned_vaddr (unat endp div 4096) 0 s))"

definition vmm_leaf_entry :: "u64 \<Rightarrow> u64 \<Rightarrow> vmm \<Rightarrow> u64" where
  "vmm_leaf_entry pgd vaddr s =
     (let table = leaf_table pgd vaddr s
      in if table = 0 then 0 else ram s (cell table (table_index vaddr 3)))"

definition vmm_virt_to_phys :: "u64 \<Rightarrow> u64 \<Rightarrow> vmm \<Rightarrow> u64" where
  "vmm_virt_to_phys pgd vaddr s =
     (let entry = vmm_leaf_entry pgd vaddr s
      in if entry AND DESC_VALID = 0 \<or> entry AND DESC_PAGE = 0 then 0
         else (entry AND DESC_ADDR_MASK) OR (vaddr AND (PAGE_SIZE - 1)))"

section \<open>Tables as a tree\<close>

text \<open>Descriptor and index arithmetic.\<close>

lemma desc_mask: "(0xfffffffff000 :: u64) = push_bit 12 (mask 36)"
  by (simp add: mask_eq_exp_minus_1)

lemma bit_addr: "bit (x AND DESC_ADDR_MASK) n \<longleftrightarrow> bit x n \<and> 12 \<le> n \<and> n < 48"
  unfolding desc_mask bit_and_iff by (auto simp: bit_push_bit_iff bit_mask_iff)

lemma bit_or_3: "bit (x OR 3 :: u64) n \<longleftrightarrow> bit x n \<or> n < 2"
proof -
  have "(3 :: u64) = mask 2" by (simp add: mask_eq_exp_minus_1)
  then have "bit (3 :: u64) n \<longleftrightarrow> n < 64 \<and> n < 2" by (simp only: bit_mask_iff possible_bit_word) simp
  then show ?thesis unfolding bit_or_iff by linarith
qed

lemma index_mask: "(0x1ff :: u64) = mask 9"
  by (simp add: mask_eq_exp_minus_1)

lemma table_index_less [simp]: "table_index v l < 512"
proof -
  have "unat (table_index v l) < 512"
    using unat_and_mask [of "drop_bit (39 - l * 9) v" 9] by (simp add: table_index_def index_mask)
  then show ?thesis by (simp add: word_less_nat_alt)
qed

lemma bit_table_index: "bit (table_index v l) k \<longleftrightarrow> k < 9 \<and> bit v (39 - l * 9 + k)"
  unfolding table_index_def index_mask by (auto simp: bit_simps add.commute)

text \<open>Two virtual addresses lie in the same page of an address space when bits 12 to 47 agree.\<close>

definition same_page :: "u64 \<Rightarrow> u64 \<Rightarrow> bool" where
  "same_page v w \<longleftrightarrow> v AND DESC_ADDR_MASK = w AND DESC_ADDR_MASK"

lemma same_page_refl [simp]: "same_page v v"
  by (simp add: same_page_def)

lemma same_page_sym: "same_page v w \<Longrightarrow> same_page w v"
  by (simp add: same_page_def)

lemma same_page_trans: "same_page u v \<Longrightarrow> same_page v w \<Longrightarrow> same_page u w"
  by (simp add: same_page_def)

lemma same_page_bits: "same_page v w \<longleftrightarrow> (\<forall>n. 12 \<le> n \<and> n < 48 \<longrightarrow> bit v n = bit w n)"
proof
  assume "same_page v w"
  then have "bit (v AND DESC_ADDR_MASK) n = bit (w AND DESC_ADDR_MASK) n" for n
    by (simp add: same_page_def)
  then show "\<forall>n. 12 \<le> n \<and> n < 48 \<longrightarrow> bit v n = bit w n"
    by (simp add: bit_addr) blast
next
  assume "\<forall>n. 12 \<le> n \<and> n < 48 \<longrightarrow> bit v n = bit w n"
  then show "same_page v w"
    unfolding same_page_def by (intro bit_word_eqI) (auto simp: bit_addr)
qed

lemma index_range: "l < 4 \<Longrightarrow> k < 9 \<Longrightarrow> 12 \<le> 39 - l * 9 + k \<and> 39 - l * 9 + k < (48::nat)"
  by linarith

lemma index_of_bit:
  assumes "q < (4::nat)" and "q * 9 + r = n - 12" and "12 \<le> n"
  shows "39 - (3 - q) * 9 + r = n"
proof -
  from assms(1) have "q = 0 \<or> q = 1 \<or> q = 2 \<or> q = 3" by linarith
  then show ?thesis using assms(2,3) by (elim disjE) simp_all
qed

lemma same_page_index:
  "same_page v w \<longleftrightarrow> (\<forall>l<4. table_index v l = table_index w l)"
proof
  assume "same_page v w"
  then show "\<forall>l<4. table_index v l = table_index w l"
    unfolding same_page_bits bit_eq_iff bit_table_index
    by (meson index_range)
next
  assume eq: "\<forall>l<4. table_index v l = table_index w l"
  have "bit v n = bit w n" if n: "12 \<le> n" "n < 48" for n
  proof -
    define l where "l = 3 - (n - 12) div 9"
    have q: "(n - 12) div 9 < 4" using n by (simp add: less_mult_imp_div_less)
    have "(n - 12) div 9 * 9 + (n - 12) mod 9 = n - 12" by (rule div_mult_mod_eq)
    then have l: "39 - l * 9 + (n - 12) mod 9 = n" unfolding l_def by (rule index_of_bit [OF q _ n(1)])
    have "l < 4" by (simp add: l_def)
    with eq have "bit (table_index v l) ((n - 12) mod 9) = bit (table_index w l) ((n - 12) mod 9)"
      by simp
    then show ?thesis by (simp add: bit_table_index l)
  qed
  then show "same_page v w" by (simp add: same_page_bits)
qed

lemma unat_cell:
  assumes "unat a mod 4096 = 0" and "i < 512"
  shows "unat (cell a i) = unat a + 8 * unat i"
proof -
  have i: "unat i < 512" using assms(2) by (simp add: word_less_nat_alt)
  then have 8: "unat (8 * i) = 8 * unat i" by (subst unat_mult_bounded) auto
  obtain k where k: "unat a = 4096 * k" using assms(1) by auto
  have "unat a < 18446744073709551616" using unsigned_less [of a] by simp
  then have "unat a + 4096 \<le> 18446744073709551616" using k by simp
  then show ?thesis
    unfolding cell_def using i 8 by (subst unat_add_bounded) auto
qed

lemma cell_eq_iff:
  assumes "unat a mod 4096 = 0" and "unat b mod 4096 = 0" and "i < 512" and "j < 512"
  shows "cell a i = cell b j \<longleftrightarrow> a = b \<and> i = j"
proof
  assume "cell a i = cell b j"
  then have eq: "unat a + 8 * unat i = unat b + 8 * unat j"
    using unat_cell assms by metis
  have ij: "8 * unat i < 4096" "8 * unat j < 4096" using assms(3,4) by (simp_all add: word_less_nat_alt)
  have "(unat a + 8 * unat i) mod 4096 = 8 * unat i" "(unat b + 8 * unat j) mod 4096 = 8 * unat j"
    using assms(1,2) ij by (simp_all add: mod_add_eq [symmetric])
  with eq have "unat i = unat j" by simp
  with eq have "unat a = unat b" by simp
  with \<open>unat i = unat j\<close> show "a = b \<and> i = j" by (simp add: word_unat_eq_iff)
qed simp

definition is_table :: "u64 \<Rightarrow> bool" where
  "is_table e \<longleftrightarrow> e AND DESC_VALID \<noteq> 0 \<and> e AND DESC_TABLE \<noteq> 0"

definition table_desc :: "u64 \<Rightarrow> u64" where
  "table_desc c = (c AND DESC_ADDR_MASK) OR DESC_VALID OR DESC_TABLE"

lemma and_1_bit: "(x::u64) AND 1 = 0 \<longleftrightarrow> \<not> bit x 0"
  using and_single_bit_eq_0 [of x 0] by simp

lemma and_2_bit: "(x::u64) AND 2 = 0 \<longleftrightarrow> \<not> bit x 1"
  using and_single_bit_eq_0 [of x 1] by simp

lemma is_table_desc: "is_table (table_desc c)"
  unfolding is_table_def and_1_bit and_2_bit table_desc_def by (simp add: bit_simps)

lemma aligned_bits: "unat (c::u64) mod 4096 = 0 \<Longrightarrow> bit c n \<Longrightarrow> 12 \<le> n"
proof (rule ccontr)
  assume c: "unat c mod 4096 = 0" and b: "bit c n" and n: "\<not> 12 \<le> n"
  from c have "c AND mask 12 = 0" by (simp add: and_4095_eq_0 [symmetric] mask_12 [symmetric])
  moreover have "bit (c AND mask 12) n" using b n by (simp add: bit_simps)
  ultimately show False by simp
qed

lemma bounded_bits: "unat (c::u64) < 2 ^ 48 \<Longrightarrow> bit c n \<Longrightarrow> n < 48"
proof (rule ccontr)
  assume c: "unat c < 2 ^ 48" and b: "bit c n" and n: "\<not> n < 48"
  have "unat (take_bit 48 c) = unat c" using c by (simp add: unat_take_bit_mod)
  then have "take_bit 48 c = c" by (simp add: word_unat_eq_iff)
  then have "\<not> bit c n" using n by (metis bit_take_bit_iff)
  with b show False by simp
qed

lemma table_desc_addr:
  assumes "unat c mod 4096 = 0" and "unat c < 2 ^ 48"
  shows "table_desc c AND DESC_ADDR_MASK = c"
  using aligned_bits [OF assms(1)] bounded_bits [OF assms(2)]
  unfolding table_desc_def
  by (intro bit_word_eqI) (auto simp: bit_addr bit_or_3)

text \<open>The table reached from \<open>a\<close> along a list of indices, one per level.\<close>

fun walk :: "(u64 \<Rightarrow> u64) \<Rightarrow> u64 \<Rightarrow> u64 list \<Rightarrow> u64 option" where
  "walk m a [] = Some a"
| "walk m a (i # p) =
     (if is_table (m (cell a i)) then walk m (m (cell a i) AND DESC_ADDR_MASK) p else None)"

definition paths :: "nat \<Rightarrow> u64 list set" where
  "paths n = {p. length p \<le> n \<and> (\<forall>i\<in>set p. i < 512)}"

definition reached :: "(u64 \<Rightarrow> u64) \<Rightarrow> u64 \<Rightarrow> nat \<Rightarrow> u64 set" where
  "reached m a n = {b. \<exists>p\<in>paths n. walk m a p = Some b}"

text \<open>The tables of the address spaces with roots in \<open>R\<close>.\<close>

definition tables :: "u64 set \<Rightarrow> vmm \<Rightarrow> u64 set" where
  "tables R s = (\<Union>r\<in>R. reached (ram s) r 3)"

definition vm_ok :: "u64 set \<Rightarrow> vmm \<Rightarrow> bool" where
  "vm_ok R s \<longleftrightarrow> pmm_ready (vpmm s) \<and> (\<forall>a\<in>managed_pages (vpmm s). unat a < 2 ^ 48) \<and>
     tables R s \<subseteq> managed_pages (vpmm s) - avail_pages (vpmm s) \<and>
     (\<forall>r\<in>R. \<forall>r'\<in>R. \<forall>p\<in>paths 3. \<forall>p'\<in>paths 3. \<forall>a.
        walk (ram s) r p = Some a \<longrightarrow> walk (ram s) r' p' = Some a \<longrightarrow> r = r' \<and> p = p') \<and>
     (\<forall>r\<in>R. \<forall>p\<in>paths 2. \<forall>a. \<forall>i<512. walk (ram s) r p = Some a \<longrightarrow>
        ram s (cell a i) AND DESC_VALID \<noteq> 0 \<longrightarrow> ram s (cell a i) AND DESC_TABLE \<noteq> 0)"

lemma walk_snoc:
  "walk m a (p @ [i]) = (case walk m a p of None \<Rightarrow> None
     | Some b \<Rightarrow> if is_table (m (cell b i)) then Some (m (cell b i) AND DESC_ADDR_MASK) else None)"
  by (induction p arbitrary: a) auto

lemma walk_prefix: "walk m a (p @ q) = (case walk m a p of None \<Rightarrow> None | Some b \<Rightarrow> walk m b q)"
  by (induction p arbitrary: a) auto

lemma paths_Nil [simp]: "[] \<in> paths n"
  by (simp add: paths_def)

lemma paths_snoc: "p @ [i] \<in> paths (Suc n) \<longleftrightarrow> p \<in> paths n \<and> i < 512"
  by (auto simp: paths_def)

lemma paths_mono: "p \<in> paths n \<Longrightarrow> n \<le> k \<Longrightarrow> p \<in> paths k"
  by (auto simp: paths_def)

lemma paths_3_snoc: "p @ [i] \<in> paths 3 \<longleftrightarrow> p \<in> paths 2 \<and> i < 512"
  by (auto simp: paths_def)

lemma vm_ok_ready: "vm_ok R s \<Longrightarrow> pmm_ready (vpmm s)"
  by (simp add: vm_ok_def)

lemma vm_ok_tables: "vm_ok R s \<Longrightarrow> tables R s \<subseteq> managed_pages (vpmm s) - avail_pages (vpmm s)"
  by (simp add: vm_ok_def)

lemma vm_ok_bound: "vm_ok R s \<Longrightarrow> a \<in> managed_pages (vpmm s) \<Longrightarrow> unat a < 2 ^ 48"
  by (simp add: vm_ok_def)

lemma vm_ok_inj:
  "vm_ok R s \<Longrightarrow> r \<in> R \<Longrightarrow> r' \<in> R \<Longrightarrow> p \<in> paths 3 \<Longrightarrow> p' \<in> paths 3 \<Longrightarrow>
   walk (ram s) r p = Some a \<Longrightarrow> walk (ram s) r' p' = Some a \<Longrightarrow> r = r' \<and> p = p'"
  unfolding vm_ok_def by blast

lemma vm_ok_no_block:
  "vm_ok R s \<Longrightarrow> r \<in> R \<Longrightarrow> p \<in> paths 2 \<Longrightarrow> i < 512 \<Longrightarrow> walk (ram s) r p = Some a \<Longrightarrow>
   ram s (cell a i) AND DESC_VALID \<noteq> 0 \<Longrightarrow> is_table (ram s (cell a i))"
  unfolding vm_ok_def is_table_def by blast

lemma walk_table:
  assumes "vm_ok R s" and "r \<in> R" and "p \<in> paths 3" and "walk (ram s) r p = Some a"
  shows "a \<in> tables R s" and "a \<in> managed_pages (vpmm s)" and "a \<notin> avail_pages (vpmm s)"
    and "a \<noteq> 0" and "unat a mod 4096 = 0"
proof -
  show a: "a \<in> tables R s" using assms(2-4) by (auto simp: tables_def reached_def)
  then show m: "a \<in> managed_pages (vpmm s)" and "a \<notin> avail_pages (vpmm s)"
    using vm_ok_tables [OF assms(1)] by blast+
  with pages.managed_page vm_ok_ready assms(1) show "a \<noteq> 0" and "unat a mod 4096 = 0" by blast+
qed

text \<open>A change of memory that spares the tables above the leaves changes no walk.\<close>

lemma walk_frame:
  assumes "p \<in> paths 3"
    and "\<And>q b i. q \<in> paths 2 \<Longrightarrow> walk m r q = Some b \<Longrightarrow> i < 512 \<Longrightarrow> m' (cell b i) = m (cell b i)"
  shows "walk m' r p = walk m r p"
  using assms(1)
proof (induction p rule: rev_induct)
  case (snoc i p)
  then have "p \<in> paths 2" "i < 512" "p \<in> paths 3"
    by (auto simp: paths_3_snoc intro: paths_mono)
  with snoc.IH assms(2) show ?case by (auto simp: walk_snoc split: option.splits)
qed simp

text \<open>Installing an empty child table under a free slot adds one walk.\<close>

lemma walk_install:
  assumes ok: "vm_ok R s" and r0: "r0 \<in> R" "p0 \<in> paths 2" "walk (ram s) r0 p0 = Some b" "i0 < 512"
    and free: "\<not> is_table (ram s (cell b i0))"
    and c: "c \<in> avail_pages (vpmm s)"
    and m': "m' (cell b i0) = table_desc c"
      "\<And>i. i < 512 \<Longrightarrow> m' (cell c i) = 0"
      "\<And>a i. a \<in> tables R s \<Longrightarrow> i < 512 \<Longrightarrow> (a, i) \<noteq> (b, i0) \<Longrightarrow> m' (cell a i) = ram s (cell a i)"
    and r: "r \<in> R" and p: "p \<in> paths 3"
  shows "walk m' r p = (if r = r0 \<and> p = p0 @ [i0] then Some c else walk (ram s) r p)"
  using p
proof (induction p rule: rev_induct)
  case (snoc i p)
  let ?m = "ram s"
  have cm: "c \<in> managed_pages (vpmm s)"
    using c pages.avail_managed [OF vm_ok_ready [OF ok]] by blast
  have addr: "table_desc c AND DESC_ADDR_MASK = c"
    using pages.managed_page [OF vm_ok_ready [OF ok] cm] vm_ok_bound [OF ok cm]
    by (intro table_desc_addr) auto
  from snoc.prems have p: "p \<in> paths 2" "i < 512" "p \<in> paths 3"
    by (auto simp: paths_3_snoc intro: paths_mono)
  have p0: "p0 \<in> paths 3" using r0(2) paths_mono by simp
  note IH = snoc.IH [OF p(3)]
  show ?case
  proof (cases "r = r0 \<and> p = p0 @ [i0]")
    case True
    then have "walk ?m r p = None" using r0(3) free by (simp add: walk_snoc)
    moreover have "walk m' r p = Some c" using True IH by metis
    ultimately have "walk m' r (p @ [i]) = None" "walk ?m r (p @ [i]) = None"
      using m'(2) [OF p(2)] unfolding walk_snoc [of _ _ p i] by (simp_all add: is_table_def)
    with True show ?thesis by simp
  next
    case False
    then have IH: "walk m' r p = walk ?m r p" using IH by metis
    show ?thesis
    proof (cases "walk ?m r p")
      case None
      with IH r0(3) show ?thesis by (auto simp: walk_snoc)
    next
      case (Some a)
      have "a \<in> tables R s" by (rule walk_table(1) [OF ok r p(3) Some])
      show ?thesis
      proof (cases "(a, i) = (b, i0)")
        case True
        then have "r = r0" "p = p0" using vm_ok_inj [OF ok r r0(1) p(3) p0 Some] r0(3) by auto
        with True IH Some show ?thesis using m'(1) is_table_desc addr by (simp add: walk_snoc)
      next
        case False
        with m'(3) [OF \<open>a \<in> tables R s\<close> p(2)] IH Some r0(3)
        show ?thesis by (auto simp: walk_snoc)
      qed
    qed
  qed
qed simp

section \<open>Translations\<close>

text \<open>
  The descriptor that the address space with root \<open>r\<close> holds for the page of \<open>v\<close>, if that page is mapped.
\<close>

definition leaf_path :: "u64 \<Rightarrow> u64 list" where
  "leaf_path v = [table_index v 0, table_index v 1, table_index v 2]"

definition translation :: "vmm \<Rightarrow> u64 \<Rightarrow> u64 \<Rightarrow> u64 option" where
  "translation s r v =
     (case walk (ram s) r (leaf_path v) of
        None \<Rightarrow> None
      | Some a \<Rightarrow> (let e = ram s (cell a (table_index v 3)) in if e AND DESC_VALID \<noteq> 0 then Some e else None))"

text \<open>Allocated pages that are not page tables: the memory of the kernel and of the processes.\<close>

definition data_page :: "u64 set \<Rightarrow> vmm \<Rightarrow> u64 \<Rightarrow> bool" where
  "data_page R s a \<longleftrightarrow> a \<in> managed_pages (vpmm s) - avail_pages (vpmm s) - tables R s"

text \<open>
  The part of the contract that all operations on the root \<open>g\<close> share: the invariant, no page lost (what leaves the
  free pages becomes a table), the table pages of the other roots, and the contents of the data pages.
\<close>

definition vm_keeps :: "u64 set \<Rightarrow> u64 \<Rightarrow> vmm \<Rightarrow> vmm \<Rightarrow> bool" where
  "vm_keeps R g s s' \<longleftrightarrow> vm_ok R s' \<and> managed_pages (vpmm s') = managed_pages (vpmm s) \<and>
     avail_pages (vpmm s') \<union> tables R s' = avail_pages (vpmm s) \<union> tables R s \<and>
     (\<forall>r\<in>R - {g}. reached (ram s') r 3 = reached (ram s) r 3) \<and>
     (\<forall>a. data_page R s a \<longrightarrow> data_page R s' a \<and> (\<forall>i<512. ram s' (cell a i) = ram s (cell a i)))"

lemma vm_keeps_refl: "vm_ok R s \<Longrightarrow> vm_keeps R g s s"
  by (simp add: vm_keeps_def)

lemma vm_keeps_trans: "vm_keeps R g s s' \<Longrightarrow> vm_keeps R g s' s'' \<Longrightarrow> vm_keeps R g s s''"
  unfolding vm_keeps_def by simp

lemma vm_keeps_ok: "vm_keeps R g s s' \<Longrightarrow> vm_ok R s'"
  by (simp add: vm_keeps_def)

lemma leaf_path_3 [simp]: "leaf_path v \<in> paths 3"
  by (simp add: leaf_path_def paths_def)

lemma length_leaf_path [simp]: "length (leaf_path v) = 3"
  by (simp add: leaf_path_def)

lemma leaf_path_not_2: "p \<in> paths 2 \<Longrightarrow> p \<noteq> leaf_path v"
  by (auto simp: paths_def leaf_path_def)

lemma same_page_path: "same_page v w \<longleftrightarrow> leaf_path v = leaf_path w \<and> table_index v 3 = table_index w 3"
proof -
  have "(\<forall>l<4. P l) \<longleftrightarrow> P 0 \<and> P 1 \<and> P 2 \<and> P (3::nat)" for P
    by (auto simp: numeral_eq_Suc less_Suc_eq)
  then show ?thesis by (simp add: same_page_index leaf_path_def)
qed

lemma translation_same_page: "same_page v w \<Longrightarrow> translation s r v = translation s r w"
  by (auto simp: same_page_path translation_def Let_def split: option.splits)

lemma leaf_table_walk:
  assumes "r \<noteq> 0"
  shows "leaf_table r v s = (case walk (ram s) r (leaf_path v) of None \<Rightarrow> 0 | Some a \<Rightarrow> a)"
  using assms
  by (simp add: leaf_table_def leaf_loop.simps leaf_path_def is_table_def Let_def numeral_eq_Suc)

lemma vmm_leaf_entry_translation:
  assumes "vm_ok R s" and "r \<in> R"
  shows "(if vmm_leaf_entry r v s AND DESC_VALID = 0 then None else Some (vmm_leaf_entry r v s)) =
     translation s r v"
proof -
  have "r \<noteq> 0" by (rule walk_table(4) [OF assms, of "[]"]) simp_all
  then have *: "leaf_table r v s = (case walk (ram s) r (leaf_path v) of None \<Rightarrow> 0 | Some a \<Rightarrow> a)"
    by (rule leaf_table_walk)
  show ?thesis
  proof (cases "walk (ram s) r (leaf_path v)")
    case None
    with * show ?thesis by (simp add: vmm_leaf_entry_def translation_def)
  next
    case (Some a)
    then have "a \<noteq> 0" using walk_table(4) [OF assms leaf_path_3] by blast
    with Some * show ?thesis by (simp add: vmm_leaf_entry_def translation_def Let_def)
  qed
qed

text \<open>Memory after a page was cleared.\<close>

lemma zero_fold:
  assumes "n \<le> 512"
  shows "fold (\<lambda>i m. m(cell t (of_nat i) := 0)) [0..<n] m x =
     (if \<exists>i<n. x = cell t (of_nat i) then 0 else m x)"
  using assms by (induction n) (auto simp: less_Suc_eq)

lemma ram_zero_table:
  "ram (zero_table t s) x = (if \<exists>i<512. x = cell t (of_nat i) then 0 else ram s x)"
  using zero_fold [OF order_refl, of t "ram s" x]
  by (cases s) (simp only: zero_table_def vmm.update_convs vmm.select_convs)

lemma zero_table_inside: "i < 512 \<Longrightarrow> ram (zero_table t s) (cell t i) = 0"
proof -
  assume "i < 512"
  then have "unat i < 512" "cell t i = cell t (of_nat (unat i))" by (simp_all add: word_less_nat_alt)
  then show ?thesis unfolding ram_zero_table by metis
qed

lemma zero_table_outside:
  assumes "unat t mod 4096 = 0" and "unat a mod 4096 = 0" and "a \<noteq> t" and "i < 512"
  shows "ram (zero_table t s) (cell a i) = ram s (cell a i)"
proof -
  have "cell a i \<noteq> cell t (of_nat j)" if "j < 512" for j
  proof -
    have "(of_nat j :: u64) < 512" using that by (simp add: word_less_nat_alt)
    with cell_eq_iff [OF assms(2,1,4)] assms(3) show ?thesis by simp
  qed
  then show ?thesis unfolding ram_zero_table by metis
qed

lemma vpmm_zero_table [simp]: "vpmm (zero_table t s) = vpmm s"
  by (simp add: zero_table_def)

section \<open>Effect of the operations\<close>

lemma vmm_new_table_cases:
  assumes ok: "vm_ok R s" and eq: "vmm_new_table s = (c, s')"
  obtains (none) "c = 0" "s' = s" "avail_pages (vpmm s) = {}"
    | (page) "c \<noteq> 0" "c \<in> avail_pages (vpmm s)" "avail_pages (vpmm s') = avail_pages (vpmm s) - {c}"
      "managed_pages (vpmm s') = managed_pages (vpmm s)" "pmm_ready (vpmm s')"
      "\<And>i. i < 512 \<Longrightarrow> ram s' (cell c i) = 0"
      "\<And>a i. a \<in> managed_pages (vpmm s) \<Longrightarrow> a \<noteq> c \<Longrightarrow> i < 512 \<Longrightarrow> ram s' (cell a i) = ram s (cell a i)"
proof -
  obtain a p where ap: "pmm_alloc_page (vpmm s) = (a, p)" by fastforce
  from vm_ok_ready [OF ok] ap show ?thesis
  proof (cases rule: pages.alloc_cases)
    case none
    then show ?thesis using eq ap that(1) by (simp add: vmm_new_table_def)
  next
    case page
    then have c: "c = a" and s': "s' = zero_table c (s\<lparr>vpmm := p\<rparr>)"
      using eq ap by (auto simp: vmm_new_table_def)
    have "ram s' (cell b i) = ram s (cell b i)" if "b \<in> managed_pages (vpmm s)" "b \<noteq> c" "i < 512" for b i
      using zero_table_outside [of c b i "s\<lparr>vpmm := p\<rparr>"] page(2) that
        pages.managed_page [OF vm_ok_ready [OF ok] that(1)] by (simp add: s' c)
    moreover have "ram s' (cell c i) = 0" if "i < 512" for i
      using zero_table_inside [OF that] by (simp add: s')
    ultimately show ?thesis using page c by (intro that(2)) (simp_all add: s')
  qed
qed

text \<open>\<open>s'\<close> is \<open>s\<close> with the empty table \<open>c\<close> linked into slot \<open>i0\<close> of the table \<open>b\<close>.\<close>

definition linked :: "u64 set \<Rightarrow> u64 \<Rightarrow> u64 \<Rightarrow> u64 \<Rightarrow> vmm \<Rightarrow> vmm \<Rightarrow> bool" where
  "linked R b i0 c s s' \<longleftrightarrow> \<not> is_table (ram s (cell b i0)) \<and> c \<in> avail_pages (vpmm s) \<and>
     avail_pages (vpmm s') = avail_pages (vpmm s) - {c} \<and>
     managed_pages (vpmm s') = managed_pages (vpmm s) \<and> pmm_ready (vpmm s') \<and>
     ram s' (cell b i0) = table_desc c \<and> (\<forall>i<512. ram s' (cell c i) = 0) \<and>
     (\<forall>a\<in>managed_pages (vpmm s). \<forall>i<512. a \<noteq> c \<longrightarrow> (a, i) \<noteq> (b, i0) \<longrightarrow> ram s' (cell a i) = ram s (cell a i))"

lemma linked_fresh:
  assumes "vm_ok R s" and "linked R b i0 c s s'"
  shows "c \<notin> tables R s"
  using vm_ok_tables [OF assms(1)] assms(2) by (auto simp: linked_def)

lemma linked_cell:
  assumes "vm_ok R s" and "linked R b i0 c s s'" and "a \<in> tables R s" and "i < 512"
  shows "ram s' (cell a i) = (if (a, i) = (b, i0) then table_desc c else ram s (cell a i))"
proof -
  have "a \<noteq> c" "a \<in> managed_pages (vpmm s)"
    using linked_fresh [OF assms(1,2)] vm_ok_tables [OF assms(1)] assms(3) by blast+
  with assms(2,4) show ?thesis unfolding linked_def by auto
qed

lemma linked_walk:
  assumes "vm_ok R s" and "r0 \<in> R" "p0 \<in> paths 2" "walk (ram s) r0 p0 = Some b" "i0 < 512"
    and "linked R b i0 c s s'" and "r \<in> R" and "p \<in> paths 3"
  shows "walk (ram s') r p = (if r = r0 \<and> p = p0 @ [i0] then Some c else walk (ram s) r p)"
  using assms(6) linked_cell [OF assms(1,6)]
  by (intro walk_install [OF assms(1-5) _ _ _ _ _ assms(7,8)]) (auto simp: linked_def)

lemma linked_ok:
  assumes ok: "vm_ok R s" and r0: "r0 \<in> R" "p0 \<in> paths 2" "walk (ram s) r0 p0 = Some b" "i0 < 512"
    and l: "linked R b i0 c s s'"
  shows "vm_ok R s'"
proof -
  note w = linked_walk [OF ok r0 l]
  have old: "a \<in> tables R s \<and> walk (ram s) r p = Some a"
    if "r \<in> R" "p \<in> paths 3" "walk (ram s') r p = Some a" "a \<noteq> c" for r p a
    using that w [OF that(1,2)] walk_table(1) [OF ok that(1,2)] by (auto split: if_splits)
  have new: "r = r0 \<and> p = p0 @ [i0]"
    if "r \<in> R" "p \<in> paths 3" "walk (ram s') r p = Some c" for r p
    using that w [OF that(1,2)] walk_table(1) [OF ok that(1,2)] linked_fresh [OF ok l]
    by (auto split: if_splits)
  have c: "c \<in> managed_pages (vpmm s)"
    using l pages.avail_managed [OF vm_ok_ready [OF ok]] unfolding linked_def by blast
  have "tables R s' \<subseteq> insert c (tables R s)"
    unfolding tables_def [of R s'] reached_def using old by blast
  then have tab: "tables R s' \<subseteq> managed_pages (vpmm s') - avail_pages (vpmm s')"
    using vm_ok_tables [OF ok] l c by (auto simp: linked_def)
  have inj: "r = r' \<and> p = p'"
    if "r \<in> R" "r' \<in> R" "p \<in> paths 3" "p' \<in> paths 3" "walk (ram s') r p = Some a" "walk (ram s') r' p' = Some a"
    for r r' p p' a
    using new [OF that(1,3)] new [OF that(2,4)] old [OF that(1,3,5)] old [OF that(2,4,6)] that
      vm_ok_inj [OF ok that(1-4)] by (cases "a = c") auto
  have blk: "ram s' (cell a i) AND DESC_VALID \<noteq> 0 \<longrightarrow> ram s' (cell a i) AND DESC_TABLE \<noteq> 0"
    if "r \<in> R" "p \<in> paths 2" "i < 512" "walk (ram s') r p = Some a" for r p a i
  proof (cases "a = c")
    case True
    with l that(3) show ?thesis by (simp add: linked_def)
  next
    case False
    have "p \<in> paths 3" using that(2) paths_mono by simp
    with old False that have "a \<in> tables R s" "walk (ram s) r p = Some a" by blast+
    with linked_cell [OF ok l _ that(3)] vm_ok_no_block [OF ok that(1-3)] is_table_desc
    show ?thesis by (auto simp: is_table_def)
  qed
  have "pmm_ready (vpmm s') \<and> (\<forall>a\<in>managed_pages (vpmm s'). unat a < 2 ^ 48)"
    using ok l unfolding vm_ok_def linked_def by simp
  then show ?thesis unfolding vm_ok_def using tab inj blk by (intro conjI) blast+
qed

lemma linked_translation:
  assumes ok: "vm_ok R s" and r0: "r0 \<in> R" "p0 \<in> paths 2" "walk (ram s) r0 p0 = Some b" "i0 < 512"
    and l: "linked R b i0 c s s'" and r: "r \<in> R"
  shows "translation s' r v = translation s r v"
proof (cases "r = r0 \<and> leaf_path v = p0 @ [i0]")
  case True
  then have "walk (ram s') r (leaf_path v) = Some c" "walk (ram s) r (leaf_path v) = None"
    using linked_walk [OF ok r0 l r leaf_path_3, of v] r0(3) l by (simp_all add: walk_snoc linked_def)
  with l show ?thesis by (simp add: translation_def linked_def)
next
  case False
  then have w: "walk (ram s') r (leaf_path v) = walk (ram s) r (leaf_path v)"
    using linked_walk [OF ok r0 l r leaf_path_3, of v] by metis
  show ?thesis
  proof (cases "walk (ram s) r (leaf_path v)")
    case None
    with w show ?thesis by (simp add: translation_def)
  next
    case (Some a)
    have "a \<noteq> b" using vm_ok_inj [OF ok r r0(1) leaf_path_3 paths_mono [OF r0(2)] Some] r0(3)
        leaf_path_not_2 [OF r0(2)] by fastforce
    then have "ram s' (cell a (table_index v 3)) = ram s (cell a (table_index v 3))"
      using linked_cell [OF ok l walk_table(1) [OF ok r leaf_path_3 Some] table_index_less] by simp
    with w Some show ?thesis by (simp add: translation_def)
  qed
qed

lemma linked_keeps:
  assumes ok: "vm_ok R s" and r0: "r0 \<in> R" "p0 \<in> paths 2" "walk (ram s) r0 p0 = Some b" "i0 < 512"
    and l: "linked R b i0 c s s'"
  shows "vm_keeps R r0 s s'"
proof -
  have b: "b \<in> tables R s" using walk_table(1) [OF ok r0(1) paths_mono [OF r0(2)] r0(3)] by simp
  note w = linked_walk [OF ok r0 l]
  have "c \<in> reached (ram s') r0 3" unfolding reached_def
    using w [OF r0(1), of "p0 @ [i0]"] r0(2,4) by (auto simp: paths_3_snoc intro!: bexI [of _ "p0 @ [i0]"])
  moreover have "reached (ram s) r 3 \<subseteq> reached (ram s') r 3" if "r \<in> R" for r
  proof
    fix b assume "b \<in> reached (ram s) r 3"
    then obtain p where p: "p \<in> paths 3" "walk (ram s) r p = Some b" by (auto simp: reached_def)
    moreover have "\<not> (r = r0 \<and> p = p0 @ [i0])" using p(2) r0(3) l by (auto simp: walk_snoc linked_def)
    ultimately show "b \<in> reached (ram s') r 3" using w [OF that p(1)] unfolding reached_def by auto
  qed
  moreover have "reached (ram s') r 3 \<subseteq> insert c (reached (ram s) r 3)" if "r \<in> R" for r
    using w [OF that] by (auto simp: reached_def split: if_splits)
  ultimately have t: "tables R s' = insert c (tables R s)" using r0(1) unfolding tables_def by blast
  have "reached (ram s') r 3 = reached (ram s) r 3" if "r \<in> R - {r0}" for r
    using w [of r] that by (auto simp: reached_def)
  moreover have "data_page R s' a \<and> (\<forall>i<512. ram s' (cell a i) = ram s (cell a i))" if "data_page R s a" for a
    using that l b t by (auto simp: data_page_def linked_def)
  moreover have "avail_pages (vpmm s') \<union> tables R s' = avail_pages (vpmm s) \<union> tables R s"
    using t l by (auto simp: linked_def)
  ultimately show ?thesis using linked_ok [OF ok r0 l] l unfolding vm_keeps_def linked_def by simp
qed

lemma next_table_ok:
  assumes ok: "vm_ok R s" and r0: "r0 \<in> R" "p0 \<in> paths 2" "walk (ram s) r0 p0 = Some b" "i0 < 512"
    and eq: "next_table b i0 s = (c, s')"
  shows "vm_keeps R r0 s s' \<and> (\<forall>r\<in>R. \<forall>v. translation s' r v = translation s r v) \<and>
     (if c = 0 then avail_pages (vpmm s') = {} else walk (ram s') r0 (p0 @ [i0]) = Some c)"
proof (cases "ram s (cell b i0) AND DESC_VALID \<noteq> 0")
  case True
  then have "is_table (ram s (cell b i0))" using vm_ok_no_block [OF ok r0(1,2,4,3)] by simp
  then have w: "walk (ram s) r0 (p0 @ [i0]) = Some c" and s': "s' = s"
    using eq r0(3) True by (auto simp: next_table_def walk_snoc is_table_def Let_def)
  have "p0 @ [i0] \<in> paths 3" using r0(2,4) by (simp add: paths_3_snoc)
  from walk_table(4) [OF ok r0(1) this w] w show ?thesis by (simp add: s' vm_keeps_refl [OF ok])
next
  case False
  obtain d t where dt: "vmm_new_table s = (d, t)" by fastforce
  from ok dt show ?thesis
  proof (cases rule: vmm_new_table_cases)
    case none
    then have "c = 0" "s' = s" using eq False dt by (auto simp: next_table_def Let_def)
    with none vm_keeps_refl [OF ok] show ?thesis by simp
  next
    case page
    then have c: "c = d" and s': "s' = t\<lparr>ram := (ram t)(cell b i0 := table_desc c)\<rparr>"
      using eq False dt by (auto simp: next_table_def Let_def table_desc_def)
    note b = walk_table [OF ok r0(1) paths_mono [OF r0(2)] r0(3)]
    have al: "unat a mod 4096 = 0" if "a \<in> managed_pages (vpmm s)" for a
      using that pages.managed_page [OF vm_ok_ready [OF ok]] by blast
    have cm: "c \<in> managed_pages (vpmm s)" "c \<noteq> b"
      using page(2) b(3) pages.avail_managed [OF vm_ok_ready [OF ok]] by (auto simp: c)
    have other: "cell a i = cell b i0 \<longleftrightarrow> (a, i) = (b, i0)" if "a \<in> managed_pages (vpmm s)" "i < 512" for a i
      using cell_eq_iff [of a b i i0] al that b(2) r0(4) by simp
    have "linked R b i0 c s s'"
      unfolding linked_def using page False cm other by (auto simp: s' c is_table_def)
    note l = linked_walk [OF ok r0 this] linked_keeps [OF ok r0 this] linked_translation [OF ok r0 this]
    have "p0 @ [i0] \<in> paths 3" using r0(2,4) by (simp add: paths_3_snoc)
    then have "walk (ram s') r0 (p0 @ [i0]) = Some c" using l(1) [OF r0(1)] by simp
    with l(2,3) page(1) show ?thesis by (simp add: c)
  qed
qed

text \<open>Writing a leaf descriptor.\<close>

definition set_leaf :: "u64 \<Rightarrow> u64 \<Rightarrow> u64 \<Rightarrow> vmm \<Rightarrow> vmm" where
  "set_leaf L v e s = s\<lparr>ram := (ram s)(cell L (table_index v 3) := e)\<rparr>"

lemma vpmm_set_leaf [simp]: "vpmm (set_leaf L v e s) = vpmm s"
  by (simp add: set_leaf_def)

lemma set_leaf_cell:
  assumes "vm_ok R s" and "r0 \<in> R" and "walk (ram s) r0 (leaf_path v0) = Some L"
    and "a \<in> managed_pages (vpmm s)" and "i < 512"
  shows "ram (set_leaf L v0 e s) (cell a i) = (if a = L \<and> i = table_index v0 3 then e else ram s (cell a i))"
  using cell_eq_iff [of a L i "table_index v0 3"] walk_table [OF assms(1,2) leaf_path_3 assms(3)]
    pages.managed_page [OF vm_ok_ready [OF assms(1)] assms(4)] assms(5)
  by (simp add: set_leaf_def)

lemma set_leaf_walk:
  assumes ok: "vm_ok R s" and r0: "r0 \<in> R" "walk (ram s) r0 (leaf_path v0) = Some L"
    and r: "r \<in> R" and p: "p \<in> paths 3"
  shows "walk (ram (set_leaf L v0 e s)) r p = walk (ram s) r p"
proof (rule walk_frame [OF p])
  fix q b and i :: u64 assume q: "q \<in> paths 2" "walk (ram s) r q = Some b" "i < 512"
  then have q3: "q \<in> paths 3" using paths_mono by simp
  have "b \<noteq> L" using vm_ok_inj [OF ok r r0(1) q3 leaf_path_3 q(2)] r0(2) leaf_path_not_2 [OF q(1)] by fastforce
  with set_leaf_cell [OF ok r0 walk_table(2) [OF ok r q3 q(2)] q(3)]
  show "ram (set_leaf L v0 e s) (cell b i) = ram s (cell b i)" by simp
qed

lemma set_leaf_tables:
  assumes "vm_ok R s" and "r0 \<in> R" and "walk (ram s) r0 (leaf_path v0) = Some L"
  shows "tables R (set_leaf L v0 e s) = tables R s"
  using set_leaf_walk [OF assms] by (simp add: tables_def reached_def)

lemma set_leaf_keeps:
  assumes ok: "vm_ok R s" and r0: "r0 \<in> R" "walk (ram s) r0 (leaf_path v0) = Some L"
  shows "vm_keeps R r0 s (set_leaf L v0 e s)"
proof -
  let ?s = "set_leaf L v0 e s"
  note w = set_leaf_walk [OF ok r0]
  have L: "L \<in> tables R s" by (rule walk_table(1) [OF ok r0(1) leaf_path_3 r0(2)])
  have blk: "ram ?s (cell a i) AND DESC_VALID \<noteq> 0 \<longrightarrow> ram ?s (cell a i) AND DESC_TABLE \<noteq> 0"
    if "r \<in> R" "p \<in> paths 2" "i < 512" "walk (ram ?s) r p = Some a" for r p a i
  proof -
    have p3: "p \<in> paths 3" using that(2) paths_mono by simp
    have a: "walk (ram s) r p = Some a" using that w [OF that(1) p3] by simp
    have "a \<noteq> L" using vm_ok_inj [OF ok that(1) r0(1) p3 leaf_path_3 a] r0(2) leaf_path_not_2 [OF that(2)] by fastforce
    with set_leaf_cell [OF ok r0 walk_table(2) [OF ok that(1) p3 a] that(3)]
      vm_ok_no_block [OF ok that(1-3) a] show ?thesis by (simp add: is_table_def)
  qed
  have inj: "r = r' \<and> p = p'"
    if "r \<in> R" "r' \<in> R" "p \<in> paths 3" "p' \<in> paths 3" "walk (ram ?s) r p = Some a" "walk (ram ?s) r' p' = Some a"
    for r r' p p' a
    using vm_ok_inj [OF ok that(1-4)] w [OF that(1,3)] w [OF that(2,4)] that(5,6) by simp
  have "vm_ok R ?s" unfolding vm_ok_def vpmm_set_leaf set_leaf_tables [OF ok r0]
    using vm_ok_ready [OF ok] vm_ok_bound [OF ok] vm_ok_tables [OF ok] inj blk by (intro conjI) blast+
  moreover have "ram ?s (cell a i) = ram s (cell a i)" if "data_page R s a" "i < 512" for a i
    using set_leaf_cell [OF ok r0 _ that(2), of a] that(1) L by (auto simp: data_page_def)
  ultimately show ?thesis 
    using w by (simp add: vm_keeps_def data_page_def set_leaf_tables [OF ok r0] reached_def)
qed

lemma set_leaf_translation:
  assumes ok: "vm_ok R s" and r0: "r0 \<in> R" "walk (ram s) r0 (leaf_path v0) = Some L" and r: "r \<in> R"
  shows "translation (set_leaf L v0 e s) r v =
     (if r = r0 \<and> same_page v v0 then (if e AND DESC_VALID \<noteq> 0 then Some e else None)
      else translation s r v)"
proof (cases "walk (ram s) r (leaf_path v)")
  case None
  moreover have "\<not> (r = r0 \<and> same_page v v0)" using None r0(2) by (auto simp: same_page_path)
  ultimately show ?thesis using set_leaf_walk [OF ok r0 r leaf_path_3] by (simp add: translation_def)
next
  case (Some a)
  note c = set_leaf_cell [OF ok r0 walk_table(2) [OF ok r leaf_path_3 Some] table_index_less, of e v 3]
  have "a = L \<longleftrightarrow> r = r0 \<and> leaf_path v = leaf_path v0"
  proof
    assume "a = L"
    then show "r = r0 \<and> leaf_path v = leaf_path v0"
      using vm_ok_inj [OF ok r r0(1) leaf_path_3 leaf_path_3 Some] r0(2) by blast
  next
    assume "r = r0 \<and> leaf_path v = leaf_path v0"
    then show "a = L" using r0(2) Some by (metis option.inject)
  qed
  then have "(a = L \<and> table_index v 3 = table_index v0 3) = (r = r0 \<and> same_page v v0)"
    unfolding same_page_path by blast
  note c = c [unfolded this]
  have "translation (set_leaf L v0 e s) r v =
      (let x = ram (set_leaf L v0 e s) (cell a (table_index v 3)) in if x AND DESC_VALID \<noteq> 0 then Some x else None)"
    unfolding translation_def set_leaf_walk [OF ok r0 r leaf_path_3] Some by (simp only: option.simps)
  moreover have "translation s r v =
      (let x = ram s (cell a (table_index v 3)) in if x AND DESC_VALID \<noteq> 0 then Some x else None)"
    unfolding translation_def Some by (simp only: option.simps)
  ultimately show ?thesis unfolding c Let_def by presburger
qed

section \<open>Mapping and unmapping\<close>

lemma page_descriptor_valid: "page_descriptor p f AND DESC_VALID \<noteq> 0"
  unfolding and_1_bit page_descriptor_def by (simp add: Let_def bit_simps)

lemma root_walk: "walk m r [] = Some r"
  by simp

definition vm_quiet :: "u64 set \<Rightarrow> u64 \<Rightarrow> vmm \<Rightarrow> vmm \<Rightarrow> bool" where
  "vm_quiet R g s s' \<longleftrightarrow> vm_keeps R g s s' \<and> (\<forall>r\<in>R. \<forall>v. translation s' r v = translation s r v)"

lemma vm_quiet_refl: "vm_ok R s \<Longrightarrow> vm_quiet R g s s"
  by (simp add: vm_quiet_def vm_keeps_refl)

lemma vm_quiet_ok: "vm_quiet R g s s' \<Longrightarrow> vm_ok R s'"
  by (auto simp: vm_quiet_def dest: vm_keeps_ok)

lemma next_table_step:
  assumes q: "vm_quiet R r0 s0 s" and "r0 \<in> R" "p0 \<in> paths 2" "walk (ram s) r0 p0 = Some b" "i0 < 512"
    and "next_table b i0 s = (c, s')"
  shows "vm_quiet R r0 s0 s'" and "c = 0 \<Longrightarrow> avail_pages (vpmm s') = {}"
    and "c \<noteq> 0 \<Longrightarrow> walk (ram s') r0 (p0 @ [i0]) = Some c"
  using next_table_ok [OF vm_quiet_ok [OF q] assms(2-6)] q vm_keeps_trans [of R r0 s0 s s']
  by (auto simp: vm_quiet_def split: if_splits)

text \<open>The descent of \<open>vmm_map_page\<close> to the leaf table.\<close>

lemma vmm_map_page_descent:
  assumes ok: "vm_ok R s" and r: "pgd \<in> R" and al: "va AND (PAGE_SIZE - 1) = 0" "pa AND (PAGE_SIZE - 1) = 0"
  obtains (full) s' where "vm_quiet R pgd s s'" "vmm_map_page pgd va pa fl s = (False, s')" "avail_pages (vpmm s') = {}"
    | (leaf) s' L where "vm_quiet R pgd s s'" "walk (ram s') pgd (leaf_path va) = Some L"
      "vmm_map_page pgd va pa fl s =
         (if ram s' (cell L (table_index va 3)) AND DESC_VALID \<noteq> 0 then (False, s')
          else (True, set_leaf L va (page_descriptor pa fl) s'))"
proof -
  have nz: "pgd \<noteq> 0" by (rule walk_table(4) [OF ok r, of "[]"]) simp_all
  obtain l1 s1 where 1: "next_table pgd (table_index va 0) s = (l1, s1)" by fastforce
  obtain l2 s2 where 2: "next_table l1 (table_index va 1) s1 = (l2, s2)" by fastforce
  obtain l3 s3 where 3: "next_table l2 (table_index va 2) s2 = (l3, s3)" by fastforce
  have p: "[table_index va 0] \<in> paths 2" "[table_index va 0, table_index va 1] \<in> paths 2"
    by (simp_all add: paths_def)
  have run: "vmm_map_page pgd va pa fl s =
      (if l1 = 0 then (False, s1) else if l2 = 0 then (False, s2) else if l3 = 0 then (False, s3)
       else if ram s3 (cell l3 (table_index va 3)) AND DESC_VALID \<noteq> 0 then (False, s3)
       else (True, set_leaf l3 va (page_descriptor pa fl) s3))"
    using nz al 1 2 3 by (simp add: vmm_map_page_def set_leaf_def)
  note n1 = next_table_step [OF vm_quiet_refl [OF ok] r paths_Nil root_walk table_index_less 1]
  show ?thesis
  proof (cases "l1 = 0")
    case False
    then have w1: "walk (ram s1) pgd [table_index va 0] = Some l1" using n1 by simp
    note n2 = next_table_step [OF n1(1) r p(1) w1 table_index_less 2]
    show ?thesis
    proof (cases "l2 = 0")
      case l2: False
      then have w2: "walk (ram s2) pgd [table_index va 0, table_index va 1] = Some l2" using n2 by simp
      note n3 = next_table_step [OF n2(1) r p(2) w2 table_index_less 3]
      show ?thesis
      proof (cases "l3 = 0")
        case l3: False
        then have "walk (ram s3) pgd (leaf_path va) = Some l3" using n3 by (simp add: leaf_path_def)
        with n3 False l2 l3 run show ?thesis by (intro leaf) auto
      qed (use n3 False l2 run in \<open>intro full, auto\<close>)
    qed (use n2 False run in \<open>intro full, auto\<close>)
  qed (use n1 run in \<open>intro full, auto\<close>)
qed

lemma vmm_map_page_effect:
  assumes ok: "vm_ok R s" and r: "pgd \<in> R" and eq: "vmm_map_page pgd va pa fl s = (okay, s')"
  shows "vm_keeps R pgd s s' \<and>
     (\<forall>r\<in>R. \<forall>v. translation s' r v =
        (if okay \<and> r = pgd \<and> same_page v va then Some (page_descriptor pa fl) else translation s r v)) \<and>
     (okay \<longrightarrow> translation s pgd va = None) \<and>
     (\<not> okay \<longrightarrow> unat va mod 4096 \<noteq> 0 \<or> unat pa mod 4096 \<noteq> 0 \<or> translation s pgd va \<noteq> None \<or>
        avail_pages (vpmm s') = {})"
proof (cases "va AND (PAGE_SIZE - 1) = 0 \<and> pa AND (PAGE_SIZE - 1) = 0")
  case False
  then have "okay = False" "s' = s" using eq by (auto simp: vmm_map_page_def)
  with False vm_keeps_refl [OF ok] show ?thesis by (auto simp: and_4095_eq_0)
next
  case True
  then have al: "va AND (PAGE_SIZE - 1) = 0" "pa AND (PAGE_SIZE - 1) = 0" by simp_all
  from ok r al show ?thesis
  proof (cases rule: vmm_map_page_descent [where fl = fl])
    case (full t)
    then show ?thesis using eq by (simp add: vm_quiet_def)
  next
    case (leaf t L)
    let ?e = "ram t (cell L (table_index va 3))" and ?d = "page_descriptor pa fl"
    have "translation s pgd va = translation t pgd va" using leaf(1) r by (simp add: vm_quiet_def)
    then have tr: "translation s pgd va = (if ?e AND DESC_VALID \<noteq> 0 then Some ?e else None)"
      using leaf(2) by (simp add: translation_def Let_def)
    show ?thesis
    proof (cases "?e AND DESC_VALID \<noteq> 0")
      case True
      then show ?thesis using eq leaf tr by (simp add: vm_quiet_def)
    next
      case e: False
      note k = set_leaf_keeps [OF vm_quiet_ok [OF leaf(1)] r leaf(2), of ?d]
      note t = set_leaf_translation [OF vm_quiet_ok [OF leaf(1)] r leaf(2), of _ ?d]
      have "okay" "s' = set_leaf L va ?d t" using eq leaf(3) e by auto
      with leaf(1) k t tr e page_descriptor_valid vm_keeps_trans [of R pgd s t] show ?thesis
        by (simp add: vm_quiet_def)
    qed
  qed
qed

lemma vmm_unmap_page_effect:
  assumes ok: "vm_ok R s" and r: "pgd \<in> R" and eq: "vmm_unmap_page pgd va s = (okay, s')"
  shows "vm_keeps R pgd s s' \<and> vpmm s' = vpmm s \<and>
     (okay \<longleftrightarrow> unat va mod 4096 = 0 \<and> translation s pgd va \<noteq> None) \<and>
     (\<forall>r\<in>R. \<forall>v. translation s' r v =
        (if unat va mod 4096 = 0 \<and> r = pgd \<and> same_page v va then None else translation s r v))"
proof -
  have nz: "pgd \<noteq> 0" by (rule walk_table(4) [OF ok r, of "[]"]) simp_all
  note lt = leaf_table_walk [OF nz, of va s]
  show ?thesis
  proof (cases "unat va mod 4096 = 0 \<and> translation s pgd va \<noteq> None")
    case False
    then have "okay = False \<and> s' = s"
      using eq nz lt by (auto simp: vmm_unmap_page_def translation_def and_4095_eq_0 Let_def split: option.splits if_splits)
    moreover have "translation s pgd v = None" if "unat va mod 4096 = 0" "same_page v va" for v
      using False that(1) translation_same_page [OF that(2), of s pgd] by simp
    ultimately show ?thesis using False vm_keeps_refl [OF ok] by auto
  next
    case True
    then obtain L where L: "walk (ram s) pgd (leaf_path va) = Some L"
        and e: "ram s (cell L (table_index va 3)) AND DESC_VALID \<noteq> 0"
      by (auto simp: translation_def Let_def split: option.splits if_splits)
    have "L \<noteq> 0" by (rule walk_table(4) [OF ok r leaf_path_3 L])
    then have okay: "okay" and s': "s' = set_leaf L va 0 s"
      using eq nz lt L e True by (auto simp: vmm_unmap_page_def and_4095_eq_0 set_leaf_def)
    show ?thesis
      using okay True set_leaf_keeps [OF ok r L, of 0] set_leaf_translation [OF ok r L, of _ 0]
      by (simp add: s')
  qed
qed

lemma page_step_aligned:
  assumes "unat va mod 4096 = 0"
  shows "unat (va + of_nat j * PAGE_SIZE) mod 4096 = 0"
proof -
  have "x mod 18446744073709551616 mod 4096 = x mod 4096" for x :: nat
    by (rule mod_mod_cancel) simp
  then have "unat (va + of_nat j * PAGE_SIZE) mod 4096 = (unat va + unat (of_nat j :: u64) * 4096) mod 4096"
    by (simp add: unat_word_ariths mod_add_right_eq mod_simps)
  then show ?thesis using assms by simp
qed

lemma vmm_rollback_effect:
  assumes "vm_ok R s" and r: "pgd \<in> R" and al: "unat va mod 4096 = 0"
  shows "vm_keeps R pgd s (vmm_rollback pgd va n s) \<and> vpmm (vmm_rollback pgd va n s) = vpmm s \<and>
     (\<forall>r\<in>R. \<forall>v. translation (vmm_rollback pgd va n s) r v =
        (if r = pgd \<and> (\<exists>j<n. same_page v (va + of_nat j * PAGE_SIZE)) then None else translation s r v))"
proof (induction n)
  case 0
  then show ?case using assms(1) by (simp add: vmm_rollback_def vm_keeps_refl)
next
  case (Suc n)
  let ?s = "vmm_rollback pgd va n s" and ?v = "va + of_nat n * PAGE_SIZE"
  obtain b t where bt: "vmm_unmap_page pgd ?v ?s = (b, t)" by fastforce
  have t: "vmm_rollback pgd va (Suc n) s = t" using bt by (simp add: vmm_rollback_def)
  have ok: "vm_ok R ?s" using Suc vm_keeps_ok by blast
  note u = vmm_unmap_page_effect [OF ok r bt]
  have "vm_keeps R pgd s t" using Suc u vm_keeps_trans by blast
  then show ?case unfolding t using Suc u page_step_aligned [OF al, of n] by (auto simp: less_Suc_eq)
qed

text \<open>
  \<open>s'\<close> maps the \<open>n\<close> pages from \<open>va\<close> to the \<open>n\<close> pages from \<open>pa\<close> in the space \<open>pgd\<close>, which had none of
  them mapped in \<open>s\<close>, and agrees with \<open>s\<close> on all other pages of all spaces.
\<close>

definition maps_pages :: "u64 set \<Rightarrow> u64 \<Rightarrow> u64 \<Rightarrow> u64 \<Rightarrow> u64 \<Rightarrow> nat \<Rightarrow> vmm \<Rightarrow> vmm \<Rightarrow> bool" where
  "maps_pages R pgd va pa fl n s s' \<longleftrightarrow>
     (\<forall>j<n. translation s pgd (va + of_nat j * PAGE_SIZE) = None \<and>
        translation s' pgd (va + of_nat j * PAGE_SIZE) = Some (page_descriptor (pa + of_nat j * PAGE_SIZE) fl) \<and>
        (\<forall>i<j. \<not> same_page (va + of_nat i * PAGE_SIZE) (va + of_nat j * PAGE_SIZE))) \<and>
     (\<forall>r\<in>R. \<forall>v. r \<noteq> pgd \<or> (\<forall>j<n. \<not> same_page v (va + of_nat j * PAGE_SIZE)) \<longrightarrow>
        translation s' r v = translation s r v)"

lemma maps_pages_0: "maps_pages R pgd va pa fl 0 s s"
  by (simp add: maps_pages_def)

lemma maps_pages_Suc:
  assumes m: "maps_pages R pgd va pa fl n s0 s" and "vm_ok R s" and r: "pgd \<in> R"
    and "vmm_map_page pgd (va + of_nat n * PAGE_SIZE) (pa + of_nat n * PAGE_SIZE) fl s = (True, s')"
  shows "maps_pages R pgd va pa fl (Suc n) s0 s'"
proof -
  let ?v = "va + of_nat n * PAGE_SIZE"
  note e = vmm_map_page_effect [OF assms(2) r assms(4)]
  then have none: "translation s pgd ?v = None" by simp
  have new: "\<not> same_page (va + of_nat j * PAGE_SIZE) ?v" if "j < n" for j
    using m that none translation_same_page [of "va + of_nat j * PAGE_SIZE" ?v s pgd]
    by (auto simp: maps_pages_def)
  then have "\<forall>j<n. \<not> same_page ?v (va + of_nat j * PAGE_SIZE)" using same_page_sym by blast
  then have "translation s pgd ?v = translation s0 pgd ?v"
    using m r unfolding maps_pages_def by blast
  then show ?thesis using m e new r none unfolding maps_pages_def less_Suc_eq by auto
qed

definition unmapped_pages :: "u64 \<Rightarrow> u64 \<Rightarrow> nat \<Rightarrow> vmm \<Rightarrow> bool" where
  "unmapped_pages pgd va n s \<longleftrightarrow> (\<forall>j<n. translation s pgd (va + of_nat j * PAGE_SIZE) = None \<and>
     (\<forall>i<j. \<not> same_page (va + of_nat j * PAGE_SIZE) (va + of_nat i * PAGE_SIZE)))"

lemma unmapped_next:
  assumes "maps_pages R pgd va pa fl k s0 s" and "pgd \<in> R" and "unmapped_pages pgd va n s0" and "k < n"
  shows "translation s pgd (va + of_nat k * PAGE_SIZE) = None"
  using assms unfolding maps_pages_def unmapped_pages_def by (metis (no_types, lifting))

lemma vmm_map_loop_effect:
  assumes "vm_keeps R pgd s0 s" and "maps_pages R pgd va pa fl k s0 s" and "k \<le> n" and "pgd \<in> R"
    and "unat va mod 4096 = 0" and "unat pa mod 4096 = 0"
    and "vmm_map_loop pgd va pa fl n k s = (okay, s')"
  shows "vm_keeps R pgd s0 s' \<and> (okay \<longrightarrow> maps_pages R pgd va pa fl n s0 s') \<and>
     (\<not> okay \<longrightarrow> (\<forall>r\<in>R. \<forall>v. translation s' r v = translation s0 r v) \<and>
        (unmapped_pages pgd va n s0 \<longrightarrow> avail_pages (vpmm s') = {}))"
  using assms
proof (induction pgd va pa fl n k s rule: vmm_map_loop.induct)
  case (1 pgd va pa fl n k s)
  note keeps = "1.prems"(1) and maps = "1.prems"(2) and r = "1.prems"(4) and al = "1.prems"(5,6)
  show ?case
  proof (cases "k < n")
    case False
    with "1.prems" show ?thesis by (simp add: vmm_map_loop.simps)
  next
    case k: True
    let ?v = "va + of_nat k * PAGE_SIZE" and ?p = "pa + of_nat k * PAGE_SIZE"
    obtain b t where bt: "vmm_map_page pgd ?v ?p fl s = (b, t)" by fastforce
    note e = vmm_map_page_effect [OF vm_keeps_ok [OF keeps] r bt]
    have kt: "vm_keeps R pgd s0 t" using e keeps vm_keeps_trans by blast
    show ?thesis
    proof (cases b)
      case True
      with maps_pages_Suc [OF maps vm_keeps_ok [OF keeps] r] bt
      have "maps_pages R pgd va pa fl (k + 1) s0 t" by simp
      moreover have "vmm_map_loop pgd va pa fl n (k + 1) t = (okay, s')"
        using "1.prems"(7) k bt True by (simp add: vmm_map_loop.simps [of _ _ _ _ _ k])
      ultimately show ?thesis using "1.IH" [OF k bt [symmetric]] True k kt r al by auto
    next
      case False
      then have s': "okay = False" "s' = vmm_rollback pgd va k t"
        using "1.prems"(7) k bt by (simp_all add: vmm_map_loop.simps [of _ _ _ _ _ k])
      note rb = vmm_rollback_effect [OF vm_keeps_ok [OF kt] r al(1), of k]
      have "translation s' r' v = translation s0 r' v" if "r' \<in> R" for r' v
      proof (cases "r' = pgd \<and> (\<exists>j<k. same_page v (va + of_nat j * PAGE_SIZE))")
        case True
        then obtain j where "j < k" and same: "same_page v (va + of_nat j * PAGE_SIZE)" by blast
        then have "translation s0 pgd v = None"
          using maps translation_same_page [OF same] by (simp add: maps_pages_def)
        with True rb that show ?thesis by (auto simp: s')
      next
        case F: False
        then have "translation s r' v = translation s0 r' v" using maps that unfolding maps_pages_def by blast
        with F rb that e False show ?thesis by (auto simp: s')
      qed
      moreover have "avail_pages (vpmm s') = {}" if "unmapped_pages pgd va n s0"
        using unmapped_next [OF maps r that k] e False page_step_aligned al rb by (simp add: s')
      ultimately show ?thesis using s' rb kt vm_keeps_trans by blast
    qed
  qed
qed

text \<open>The unmap loop stops at the first page that is not mapped.\<close>

definition unmaps_pages :: "u64 set \<Rightarrow> u64 \<Rightarrow> u64 \<Rightarrow> nat \<Rightarrow> vmm \<Rightarrow> vmm \<Rightarrow> bool" where
  "unmaps_pages R pgd va n s s' \<longleftrightarrow> vpmm s' = vpmm s \<and>
     (\<forall>r\<in>R. \<forall>v. translation s' r v =
        (if r = pgd \<and> (\<exists>j<n. same_page v (va + of_nat j * PAGE_SIZE)) then None else translation s r v))"

lemma vmm_unmap_loop_effect:
  assumes "vm_keeps R pgd s0 s" and "unmaps_pages R pgd va k s0 s" and "k \<le> n" and "pgd \<in> R"
    and "unat va mod 4096 = 0" and "vmm_unmap_loop pgd va n k s = (okay, s')"
  shows "vm_keeps R pgd s0 s' \<and> (\<exists>m\<le>n. unmaps_pages R pgd va m s0 s' \<and>
     (if okay then m = n else m < n \<and> translation s' pgd (va + of_nat m * PAGE_SIZE) = None))"
  using assms
proof (induction pgd va n k s rule: vmm_unmap_loop.induct)
  case (1 pgd va n k s)
  note keeps = "1.prems"(1) and um = "1.prems"(2) and r = "1.prems"(4) and al = "1.prems"(5)
  show ?case
  proof (cases "k < n")
    case False
    with "1.prems" show ?thesis by (auto simp: vmm_unmap_loop.simps)
  next
    case k: True
    let ?v = "va + of_nat k * PAGE_SIZE"
    obtain b t where bt: "vmm_unmap_page pgd ?v s = (b, t)" by fastforce
    note e = vmm_unmap_page_effect [OF vm_keeps_ok [OF keeps] r bt]
    have kt: "vm_keeps R pgd s0 t" using e keeps vm_keeps_trans by blast
    show ?thesis
    proof (cases b)
      case True
      have "unmaps_pages R pgd va (k + 1) s0 t"
        using um e page_step_aligned [OF al, of k] unfolding unmaps_pages_def by (auto simp: less_Suc_eq)
      moreover have "vmm_unmap_loop pgd va n (k + 1) t = (okay, s')"
        using "1.prems"(6) k bt True by (simp add: vmm_unmap_loop.simps [of _ _ _ k])
      ultimately show ?thesis using "1.IH" [OF k bt [symmetric]] True k kt r al by auto
    next
      case False
      then have s': "okay = False" "s' = t" using "1.prems"(6) k bt by (simp_all add: vmm_unmap_loop.simps [of _ _ _ k])
      have none: "translation s pgd ?v = None" using e False page_step_aligned [OF al, of k] by auto
      have "translation t r' v = translation s r' v" if "r' \<in> R" for r' v
        using e that none translation_same_page [of v ?v s pgd] page_step_aligned [OF al, of k] by auto
      then have "unmaps_pages R pgd va k s0 t" using um e unfolding unmaps_pages_def by simp
      moreover have "translation t pgd ?v = None" using e r page_step_aligned [OF al, of k] by simp
      ultimately show ?thesis using s' k kt by (intro conjI exI [of _ k]) auto
    qed
  qed
qed

text \<open>Ranges: the pages that hold the bytes of the range.\<close>

lemma unat_page_align_down: "unat (page_align_down v) = unat v - unat v mod 4096"
  by (simp add: page_align_down_def unat_and_not_4095)

lemma unat_page_offset: "unat (v - page_align_down v) = unat v mod 4096"
proof -
  have "page_align_down v \<le> v" by (simp add: word_le_nat_alt unat_page_align_down)
  then show ?thesis using mod_less_eq_dividend [of "unat v" 4096] by (simp add: unat_sub unat_page_align_down)
qed

lemma page_span_Some:
  assumes "page_span off sz = Some e"
  shows "sz \<noteq> 0" "unat off < 4096" "unat e = (unat off + unat sz + 4095) div 4096 * 4096"
proof -
  have *: "sz \<noteq> 0" "off < 4096" "\<not> sz > - 1 - off"
    "\<not> ((off + sz) AND 4095 \<noteq> 0 \<and> off + sz > - 1 - 4095)" "e = page_align_up (off + sz)"
    using assms by (auto simp: page_span_def Let_def split: if_splits)
  then show "sz \<noteq> 0" "unat off < 4096" by (simp_all add: word_less_nat_alt)
  from sum_in_range [OF *(3)] have sum: "unat (off + sz) = unat off + unat sz" by (intro unat_add_bounded) simp
  have "unat (off + sz) + 4095 < 18446744073709551616"
  proof (cases "(off + sz) AND 4095 = 0")
    case True
    then obtain k where k: "unat (off + sz) = 4096 * k" by (auto simp: and_4095_eq_0)
    moreover have "unat (off + sz) < 18446744073709551616" using unsigned_less [of "off + sz"] by simp
    ultimately show ?thesis by simp
  next
    case False
    with *(4) have "\<not> 18446744073709551615 - 4095 < unat (off + sz)"
      using unat_max_minus [of 4095] by (simp add: word_less_nat_alt)
    then show ?thesis by simp
  qed
  then have "unat (off + sz + 4095) = unat off + unat sz + 4095"
    using sum by (subst unat_add_bounded) simp_all
  then show "unat e = (unat off + unat sz + 4095) div 4096 * 4096"
    using unat_and_not_4095 [of "off + sz + 4095"]
    by (simp add: *(5) page_align_up_def minus_mod_eq_div_mult add.commute)
qed

lemma same_page_div: "unat v div 4096 = unat w div 4096 \<Longrightarrow> same_page v w"
proof -
  assume "unat v div 4096 = unat w div 4096"
  then have eq: "drop_bit 12 v = drop_bit 12 w"
    by (simp add: word_unat_eq_iff drop_bit_eq_div unat_div_distrib)
  have "bit v n = bit w n" if "12 \<le> n" for n
    using that arg_cong [OF eq, of "\<lambda>x. bit x (n - 12)"] by (simp add: bit_drop_bit_eq)
  then show ?thesis by (simp add: same_page_bits)
qed

text \<open>The byte at offset \<open>k\<close> of a range lies in the page the loop counter \<open>(offset + k) div 4096\<close> names.\<close>

lemma range_page:
  assumes sp: "page_span (va - page_align_down va) sz = Some e" and bound: "\<not> page_align_down va > - 1 - e"
    and k: "k < unat sz"
  defines "j \<equiv> (unat va mod 4096 + k) div 4096"
  shows "j < unat e div 4096" and "unat (va + of_nat k) = unat va + k"
    and "unat (page_align_down va + of_nat j * PAGE_SIZE) = (unat va + k) div 4096 * 4096"
    and "same_page (va + of_nat k) (page_align_down va + of_nat j * PAGE_SIZE)"
proof -
  note s = page_span_Some [OF sp]
  let ?o = "unat va mod 4096" and ?d = "unat (page_align_down va)"
  have e: "unat e = (?o + unat sz + 4095) div 4096 * 4096" using s(3) by (simp add: unat_page_offset)
  have "(?o + k) div 4096 + 1 = (?o + k + 4096) div 4096" by simp
  also have "\<dots> \<le> (?o + unat sz + 4095) div 4096" using k by (intro div_le_mono) simp
  finally have j: "j + 1 \<le> (?o + unat sz + 4095) div 4096" unfolding j_def .
  then show "j < unat e div 4096" by (simp add: e)
  have "j * 4096 + 4096 \<le> unat e" using mult_right_mono [OF j, of 4096] by (simp add: e)
  moreover have "?o + k < j * 4096 + 4096" unfolding j_def
    using div_mult_mod_eq [of "?o + k" 4096] mod_less_divisor [of 4096 "?o + k"] by simp
  moreover have "?d + unat e < 18446744073709551616" using bound by (rule sum_in_range)
  moreover have d: "unat va = ?d + ?o" "?d mod 4096 = 0"
    using mod_less_eq_dividend [of "unat va" 4096] by (simp_all add: unat_page_align_down minus_mod_eq_div_mult)
  ultimately have bounds: "unat va + k < 18446744073709551616" "?d + j * 4096 < 18446744073709551616"
    by linarith+
  show v: "unat (va + of_nat k) = unat va + k"
    using bounds(1) by (subst unat_add_bounded) simp_all
  have "unat (of_nat j * PAGE_SIZE) = j * 4096" using bounds(2) by (subst unat_mult_bounded) simp_all
  then have p: "unat (page_align_down va + of_nat j * PAGE_SIZE) = ?d + j * 4096"
    using bounds(2) by (subst unat_add_bounded) simp_all
  obtain m where m: "?d = 4096 * m" using d(2) by auto
  have "unat va + k = 4096 * m + (?o + k)" using d(1) m by simp
  then have q: "(unat va + k) div 4096 = m + j" unfolding j_def by (simp only: div_mult_self2 zero_neq_numeral not_False_eq_True)
  show pd: "unat (page_align_down va + of_nat j * PAGE_SIZE) = (unat va + k) div 4096 * 4096"
    unfolding p m q by (simp add: distrib_right)
  show "same_page (va + of_nat k) (page_align_down va + of_nat j * PAGE_SIZE)"
    by (rule same_page_div) (simp add: v pd)
qed

section \<open>Releasing an address space\<close>

lemma reached_0: "reached m t 0 = {t}"
  by (auto simp: reached_def paths_def)

lemma reached_Suc:
  "reached m t (Suc k) =
     insert t (\<Union>i\<in>{i. i < 512 \<and> is_table (m (cell t i))}. reached m (m (cell t i) AND DESC_ADDR_MASK) k)"
  (is "?l = ?r")
proof
  show "?l \<subseteq> ?r"
  proof
    fix b assume "b \<in> ?l"
    then obtain p where p: "p \<in> paths (Suc k)" "walk m t p = Some b" by (auto simp: reached_def)
    show "b \<in> ?r"
    proof (cases p)
      case (Cons i q)
      then have "q \<in> paths k" "i < 512" using p(1) by (auto simp: paths_def)
      with p(2) Cons show ?thesis by (auto simp: reached_def split: if_splits)
    qed (use p in simp)
  qed
next
  have "b \<in> ?l" if "i < 512" "is_table (m (cell t i))" "q \<in> paths k"
      "walk m (m (cell t i) AND DESC_ADDR_MASK) q = Some b" for i q b
  proof -
    have "i # q \<in> paths (Suc k)" using that(1,3) by (simp add: paths_def)
    with that(2,4) show ?thesis unfolding reached_def by (auto intro!: bexI [of _ "i # q"])
  qed
  moreover have "t \<in> ?l" unfolding reached_def by (auto intro!: bexI [of _ "[]"])
  ultimately show "?r \<subseteq> ?l" by (auto simp: reached_def [of m _ k])
qed

definition child_free :: "u64 \<Rightarrow> nat \<Rightarrow> nat \<Rightarrow> vmm \<Rightarrow> vmm" where
  "child_free t level i s =
     (let e = ram s (cell t (of_nat i))
      in if is_table e then free_table_level (e AND DESC_ADDR_MASK) (level + 1) s else s)"

definition free_children :: "u64 \<Rightarrow> nat \<Rightarrow> vmm \<Rightarrow> vmm" where
  "free_children t level s = fold (child_free t level) [0..<512] s"

lemma free_table_level_unfold:
  "t \<noteq> 0 \<Longrightarrow> free_table_level t level s =
     (let s1 = (if level < 3 then free_children t level s else s)
      in s1\<lparr>vpmm := pmm_free_page t (vpmm s1)\<rparr>)"
  unfolding free_table_level.simps [of t] free_children_def child_free_def is_table_def Let_def by (simp only: if_False)

text \<open>What freeing the pages of a set does.\<close>

definition frees :: "u64 set \<Rightarrow> vmm \<Rightarrow> vmm \<Rightarrow> bool" where
  "frees A s s' \<longleftrightarrow> ram s' = ram s \<and> pmm_ready (vpmm s') \<and>
     managed_pages (vpmm s') = managed_pages (vpmm s) \<and> avail_pages (vpmm s') = avail_pages (vpmm s) \<union> A"

lemma frees_trans: "frees A s s' \<Longrightarrow> frees B s' s'' \<Longrightarrow> frees (A \<union> B) s s''"
  by (auto simp: frees_def)

lemma frees_page:
  "pmm_ready (vpmm s) \<Longrightarrow> t \<in> managed_pages (vpmm s) \<Longrightarrow> frees {t} s (s\<lparr>vpmm := pmm_free_page t (vpmm s)\<rparr>)"
  using pages.release_gives [of "vpmm s" t] by (simp add: frees_def)

lemma frees_fold:
  assumes "pmm_ready (vpmm s)"
    and "\<And>i s'. i < n \<Longrightarrow> ram s' = ram s \<Longrightarrow> pmm_ready (vpmm s') \<Longrightarrow>
      managed_pages (vpmm s') = managed_pages (vpmm s) \<Longrightarrow> frees (A i) s' (f i s')"
  shows "frees (\<Union>i<n. A i) s (fold f [0..<n] s)"
  using assms(2)
proof (induction n)
  case 0
  then show ?case using assms(1) by (simp add: frees_def)
next
  case (Suc n)
  then have IH: "frees (\<Union>i<n. A i) s (fold f [0..<n] s)" by simp
  then have "frees (A n) (fold f [0..<n] s) (f n (fold f [0..<n] s))"
    by (intro Suc.prems) (auto simp: frees_def)
  from frees_trans [OF IH this] show ?case by (simp add: lessThan_Suc Un_commute)
qed

lemma frees_run:
  assumes "pmm_ready (vpmm s)" and "\<And>j. j < n \<Longrightarrow> a + of_nat j * PAGE_SIZE \<in> managed_pages (vpmm s)"
  shows "frees ((\<lambda>j. a + of_nat j * PAGE_SIZE) ` {..<n}) s
     (s\<lparr>vpmm := fold (\<lambda>j p. pmm_free_page (a + of_nat j * PAGE_SIZE) p) [0..<n] (vpmm s)\<rparr>)"
proof -
  let ?a = "\<lambda>j. a + of_nat j * PAGE_SIZE"
  have fold: "fold (\<lambda>j s. s\<lparr>vpmm := pmm_free_page (?a j) (vpmm s)\<rparr>) js s = s\<lparr>vpmm := fold (\<lambda>j p. pmm_free_page (?a j) p) js (vpmm s)\<rparr>" for js s
    by (induction js arbitrary: s) simp_all
  have "frees (\<Union>j<n. {?a j}) s (fold (\<lambda>j s. s\<lparr>vpmm := pmm_free_page (?a j) (vpmm s)\<rparr>) [0..<n] s)"
    using assms(1) by (rule frees_fold) (use assms(2) in \<open>auto intro: frees_page\<close>)
  then show ?thesis unfolding fold UNION_singleton_eq_range .
qed

lemma union_of_nat:
  "(\<Union>i<512. if P (of_nat i) then B (of_nat i) else {}) = (\<Union>i\<in>{i::u64. i < 512 \<and> P i}. B i)" (is "?l = ?r")
proof
  show "?l \<subseteq> ?r"
  proof
    fix x assume "x \<in> ?l"
    then obtain j where "j < 512" "P (of_nat j)" "x \<in> B (of_nat j)" by (auto split: if_splits)
    then show "x \<in> ?r" by (intro UN_I [of "of_nat j"]) (simp_all add: word_less_nat_alt)
  qed
  show "?r \<subseteq> ?l"
  proof
    fix x assume "x \<in> ?r"
    then obtain i :: u64 where "i < 512" "P i" "x \<in> B i" by blast
    then show "x \<in> ?l" by (intro UN_I [of "unat i"]) (simp_all add: word_less_nat_alt)
  qed
qed

lemma free_table_level_effect:
  assumes "pmm_ready (vpmm s)" and "k \<le> 3" and "reached (ram s) t k \<subseteq> managed_pages (vpmm s)"
  shows "frees (reached (ram s) t k) s (free_table_level t (3 - k) s)"
  using assms
proof (induction k arbitrary: t s)
  case 0
  then have t: "t \<in> managed_pages (vpmm s)" by (simp add: reached_0)
  then have "t \<noteq> 0" using pages.managed_page 0 by blast
  with frees_page [OF 0(1) t] show ?case by (simp add: free_table_level_unfold reached_0)
next
  case (Suc k)
  let ?c = "\<lambda>i. ram s (cell t (of_nat i))"
  let ?A = "\<lambda>i. if is_table (?c i) then reached (ram s) (?c i AND DESC_ADDR_MASK) k else {}"
  have t: "t \<in> managed_pages (vpmm s)" using Suc.prems(3) by (simp add: reached_Suc)
  then have nz: "t \<noteq> 0" using pages.managed_page Suc.prems(1) by blast
  have level: "Suc (2 - k) = 3 - k" "2 - k < 3" using Suc.prems(2) by simp_all
  have idx: "(of_nat i :: u64) < 512" if "i < 512" for i using that by (simp add: word_less_nat_alt)
  have step: "frees (?A i) s' (child_free t (2 - k) i s')"
    if i: "i < 512" and s': "ram s' = ram s" "pmm_ready (vpmm s')" "managed_pages (vpmm s') = managed_pages (vpmm s)"
    for i s'
  proof (cases "is_table (?c i)")
    case True
    then have "reached (ram s) (?c i AND DESC_ADDR_MASK) k \<subseteq> managed_pages (vpmm s')"
      using Suc.prems(3) idx [OF i] s'(3) unfolding reached_Suc by blast
    from Suc.IH [OF s'(2) _ this [folded s'(1)]] show ?thesis
      using Suc.prems(2) True s'(1) level by (simp add: child_free_def)
  next
    case False
    with s' show ?thesis by (simp add: child_free_def frees_def)
  qed
  have f: "frees (\<Union>i<512. ?A i) s (free_children t (2 - k) s)"
    unfolding free_children_def by (rule frees_fold [OF Suc.prems(1), where A = ?A]) (rule step)
  have all: "(\<Union>i<512. ?A i) \<union> {t} = reached (ram s) t (Suc k)"
    unfolding reached_Suc 
    using union_of_nat [of "\<lambda>i. is_table (ram s (cell t i))"
        "\<lambda>i. reached (ram s) (ram s (cell t i) AND DESC_ADDR_MASK) k"]
    by (simp add: Un_commute)
  have "frees {t} (free_children t (2 - k) s) (free_table_level t (3 - Suc k) s)"
    using nz frees_page f t level(2) by (simp add: free_table_level_unfold frees_def Let_def)
  from frees_trans [OF f this] show ?case unfolding all .
qed

lemma vmm_new_table_effect:
  assumes ok: "vm_ok R s" and eq: "vmm_new_table s = (c, s')"
  shows "if c = 0 then s' = s \<and> avail_pages (vpmm s) = {}
     else c \<notin> R \<and> vm_ok (insert c R) s' \<and> c \<in> avail_pages (vpmm s) \<and>
       managed_pages (vpmm s') = managed_pages (vpmm s) \<and>
       avail_pages (vpmm s') = avail_pages (vpmm s) - {c} \<and> reached (ram s') c 3 = {c} \<and>
       (\<forall>v. translation s' c v = None) \<and>
       (\<forall>r\<in>R. reached (ram s') r 3 = reached (ram s) r 3 \<and> (\<forall>v. translation s' r v = translation s r v))"
  using ok eq
proof (cases rule: vmm_new_table_cases)
  case none
  then show ?thesis by simp
next
  case page
  have mem: "ram s' (cell a i) = ram s (cell a i)" if "a \<in> tables R s" "i < 512" for a i
    using that page(2,7) vm_ok_tables [OF ok] by blast
  have cR: "c \<notin> tables R s" using page(2) vm_ok_tables [OF ok] by blast
  have root: "r \<in> tables R s" if "r \<in> R" for r using walk_table(1) [OF ok that paths_Nil root_walk] .
  have new: "walk (ram s') c p = (if p = [] then Some c else None)" if "p \<in> paths 3" for p
    using that page(6) by (cases p) (auto simp: paths_def is_table_def)
  have old: "walk (ram s') r p = walk (ram s) r p" if "r \<in> R" "p \<in> paths 3" for r p
    using walk_table(1) [OF ok that(1) paths_mono] mem by (intro walk_frame [OF that(2)]) simp
  have reached_old: "reached (ram s') r 3 = reached (ram s) r 3" if "r \<in> R" for r
    using old [OF that] by (simp add: reached_def)
  have reached_new: "reached (ram s') c 3 = {c}" using new by (auto simp: reached_def split: if_splits)
  have t: "tables (insert c R) s' = insert c (tables R s)"
    using reached_old reached_new by (simp add: tables_def)
  have "c \<in> managed_pages (vpmm s)" using page(2) pages.avail_managed [OF vm_ok_ready [OF ok]] by blast
  then have tab: "tables (insert c R) s' \<subseteq> managed_pages (vpmm s') - avail_pages (vpmm s')"
    using t page(3,4) vm_ok_tables [OF ok] by auto
  have w: "walk (ram s') r p = Some a \<longleftrightarrow> (if r = c then p = [] \<and> a = c else walk (ram s) r p = Some a)"
    if "r \<in> insert c R" "p \<in> paths 3" for r p a
    using that new old root cR by auto
  have inj: "r = r' \<and> p = p'"
    if "r \<in> insert c R" "r' \<in> insert c R" "p \<in> paths 3" "p' \<in> paths 3"
      "walk (ram s') r p = Some a" "walk (ram s') r' p' = Some a" for r r' p p' a
  proof (cases "a = c")
    case True
    then show ?thesis using that w walk_table(1) [OF ok] cR by (metis insert_iff)
  next
    case False
    then have "r \<in> R" "r' \<in> R" "walk (ram s) r p = Some a" "walk (ram s) r' p' = Some a"
      using that w by (auto split: if_splits)
    then show ?thesis using vm_ok_inj [OF ok _ _ that(3,4)] by blast
  qed
  have blk: "ram s' (cell a i) AND DESC_VALID \<noteq> 0 \<longrightarrow> ram s' (cell a i) AND DESC_TABLE \<noteq> 0"
    if "r \<in> insert c R" "p \<in> paths 2" "i < 512" "walk (ram s') r p = Some a" for r p a i
  proof (cases "a = c")
    case True
    then show ?thesis using page(6) [OF that(3)] by simp
  next
    case False
    have p3: "p \<in> paths 3" using that(2) paths_mono by simp
    then have "r \<in> R" "walk (ram s) r p = Some a" using that w [OF that(1) p3] False by (auto split: if_splits)
    then show ?thesis using vm_ok_no_block [OF ok _ that(2,3)] mem walk_table(1) [OF ok _ p3] that(3)
      by (simp add: is_table_def)
  qed
  have "vm_ok (insert c R) s'"
    unfolding vm_ok_def using page(4,5) vm_ok_bound [OF ok] tab inj blk by (intro conjI) (simp, simp, blast+)
  moreover have "translation s' r v = translation s r v" if "r \<in> R" for r v
    using old [OF that leaf_path_3, of v] mem walk_table(1) [OF ok that leaf_path_3]
    by (auto simp: translation_def split: option.splits)
  moreover have "translation s' c v = None" for v
    using new [OF leaf_path_3, of v] by (simp add: translation_def leaf_path_def)
  ultimately show ?thesis using page reached_old reached_new cR root by auto
qed

lemma vmm_free_table_effect:
  assumes ok: "vm_ok R s" and r: "pgd \<in> R"
  shows "frees (reached (ram s) pgd 3) s (vmm_free_table pgd s) \<and> vm_ok (R - {pgd}) (vmm_free_table pgd s) \<and>
     (\<forall>r\<in>R. \<forall>v. translation (vmm_free_table pgd s) r v = translation s r v)"
proof -
  let ?s = "vmm_free_table pgd s"
  have "reached (ram s) pgd 3 \<subseteq> managed_pages (vpmm s)"
    using vm_ok_tables [OF ok] r unfolding tables_def by blast
  from free_table_level_effect [OF vm_ok_ready [OF ok] _ this]
  have f: "frees (reached (ram s) pgd 3) s ?s" by (simp add: vmm_free_table_def)
  have "reached (ram s) pgd 3 \<inter> tables (R - {pgd}) s = {}"
    using vm_ok_inj [OF ok _ r] unfolding tables_def reached_def by fast
  moreover have "tables (R - {pgd}) s \<subseteq> tables R s" by (auto simp: tables_def)
  ultimately have tab: "tables (R - {pgd}) ?s \<subseteq> managed_pages (vpmm ?s) - avail_pages (vpmm ?s)"
    using vm_ok_tables [OF ok] f unfolding frees_def tables_def [of _ ?s] tables_def [of _ s] by auto
  have ram: "ram ?s = ram s" "pmm_ready (vpmm ?s)" "managed_pages (vpmm ?s) = managed_pages (vpmm s)"
    using f by (simp_all add: frees_def)
  have "vm_ok (R - {pgd}) ?s"
    unfolding vm_ok_def ram(1,3)
  proof (intro conjI)
    show "\<forall>r\<in>R - {pgd}. \<forall>r'\<in>R - {pgd}. \<forall>p\<in>paths 3. \<forall>p'\<in>paths 3. \<forall>a. walk (ram s) r p = Some a \<longrightarrow>
        walk (ram s) r' p' = Some a \<longrightarrow> r = r' \<and> p = p'"
      using vm_ok_inj [OF ok] by blast
    show "\<forall>r\<in>R - {pgd}. \<forall>p\<in>paths 2. \<forall>a. \<forall>i<512. walk (ram s) r p = Some a \<longrightarrow>
        ram s (cell a i) AND DESC_VALID \<noteq> 0 \<longrightarrow> ram s (cell a i) AND DESC_TABLE \<noteq> 0"
      using vm_ok_no_block [OF ok] unfolding is_table_def by blast
  qed (use ram(2) tab vm_ok_bound [OF ok] in \<open>simp_all add: ram(3)\<close>)
  moreover have "translation ?s r v = translation s r v" for r v
    unfolding translation_def ram(1) ..
  ultimately show ?thesis using f by blast
qed

section \<open>Ranges\<close>

lemma range_aligned: "unat (page_align_down v) mod 4096 = 0"
  by (simp add: unat_page_align_down minus_mod_eq_div_mult)

lemma vmm_map_range_loop:
  assumes "vmm_map_range pgd va pa sz fl s = (okay, s')" and "sz \<noteq> 0"
  obtains (rejected) "\<not> okay" "s' = s"
    | (run) e where "page_span (va - page_align_down va) sz = Some e"
      "\<not> page_align_down va > - 1 - e" "\<not> page_align_down pa > - 1 - e" "unat va mod 4096 = unat pa mod 4096"
      "vmm_map_loop pgd (page_align_down va) (page_align_down pa) fl (unat e div 4096) 0 s = (okay, s')"
proof (cases "pgd = 0 \<or> (va XOR pa) AND (PAGE_SIZE - 1) \<noteq> 0")
  case True
  then show ?thesis using assms rejected by (simp add: vmm_map_range_def)
next
  case False
  then have "(va XOR pa) AND mask 12 = 0" by (simp add: mask_12 [symmetric])
  then have "take_bit 12 va XOR take_bit 12 pa = 0" by (simp add: take_bit_eq_mask [symmetric] take_bit_xor)
  then have "bit (take_bit 12 va XOR take_bit 12 pa) n = False" for n by simp
  then have "take_bit 12 va = take_bit 12 pa" by (intro bit_word_eqI) (simp add: bit_xor_iff)
  then have "unat va mod 4096 = unat pa mod 4096"
    using unat_take_bit_mod [of 12 va] unat_take_bit_mod [of 12 pa] by simp
  with False assms show ?thesis
    by (auto simp: vmm_map_range_def Let_def split: option.splits if_splits intro: rejected run)
qed

text \<open>The pages of a range within 48 bits are distinct pages of an address space.\<close>

definition page_of :: "u64 \<Rightarrow> nat \<Rightarrow> u64" where
  "page_of va j = page_align_down va + of_nat j * PAGE_SIZE"

text \<open>The number of pages that the \<open>sz\<close> bytes from \<open>va\<close> touch.\<close>

definition pages_of :: "u64 \<Rightarrow> u64 \<Rightarrow> nat" where
  "pages_of va sz = (unat va mod 4096 + unat sz + 4095) div 4096"

lemma page_span_pages:
  "page_span (va - page_align_down va) sz = Some e \<Longrightarrow> unat e div 4096 = pages_of va sz"
  using page_span_Some(3) [of "va - page_align_down va" sz e] by (simp add: pages_of_def unat_page_offset)

lemma vmm_map_range_effect:
  assumes ok: "vm_ok R s" and r: "pgd \<in> R" and eq: "vmm_map_range pgd va pa sz fl s = (okay, s')"
    and sz: "sz \<noteq> 0"
  shows "vm_keeps R pgd s s' \<and>
     (if okay then maps_pages R pgd (page_align_down va) (page_align_down pa) fl (pages_of va sz) s s'
      else \<forall>r\<in>R. \<forall>v. translation s' r v = translation s r v)"
  using eq sz
proof (cases rule: vmm_map_range_loop)
  case rejected
  then show ?thesis using vm_keeps_refl [OF ok] by simp
next
  case (run e)
  from vmm_map_loop_effect [OF vm_keeps_refl [OF ok] maps_pages_0 _ r range_aligned range_aligned run(5)]
  show ?thesis using page_span_pages [OF run(1)] by simp
qed

lemma unat_or_disjoint:
  fixes x y :: u64
  assumes "unat x mod 4096 = 0" and "unat y < 4096"
  shows "x OR y = x + y"
proof -
  have "x AND y = 0"
  proof (rule bit_word_eqI)
    fix n assume "n < LENGTH(64)"
    have "\<not> bit y n" if "bit x n"
    proof -
      have "12 \<le> n" using aligned_bits [OF assms(1) that] .
      moreover have "take_bit 12 y = y" using assms(2) by (simp add: word_unat_eq_iff unat_take_bit_mod)
      ultimately show ?thesis by (metis bit_take_bit_iff not_less)
    qed
    then show "bit (x AND y) n = bit 0 n" by (auto simp: bit_and_iff)
  qed
  then show ?thesis by (simp add: disjunctive_add_eq_or)
qed

text \<open>The attribute bits of a descriptor, without the address.\<close>

definition desc_attrs :: "u64 \<Rightarrow> u64" where
  "desc_attrs flags =
     (DESC_VALID OR DESC_PAGE OR DESC_AF) OR
     (if flags AND VMM_FLAG_DEVICE \<noteq> 0 then DESC_ATTR_DEVICE OR DESC_UXN OR DESC_PXN else DESC_SH_INNER) OR
     (if flags AND VMM_FLAG_WRITE = 0 then DESC_AP_RO else 0) OR
     (if flags AND VMM_FLAG_USER \<noteq> 0 then DESC_AP_USER else 0) OR
     (if flags AND VMM_FLAG_EXEC = 0 then DESC_UXN OR DESC_PXN
      else if flags AND VMM_FLAG_USER \<noteq> 0 then 0 else DESC_UXN)"

lemma page_descriptor_split: "page_descriptor p f = (p AND DESC_ADDR_MASK) OR desc_attrs f"
  unfolding page_descriptor_def desc_attrs_def Let_def by (simp add: or.assoc)

lemma desc_attrs_addr: "desc_attrs f AND DESC_ADDR_MASK = 0"
  unfolding desc_attrs_def by simp

lemma desc_attrs_bits:
  "desc_attrs f AND DESC_VALID = DESC_VALID" "desc_attrs f AND DESC_PAGE = DESC_PAGE"
  "desc_attrs f AND DESC_AP_USER = (if f AND VMM_FLAG_USER \<noteq> 0 then DESC_AP_USER else 0)"
  "desc_attrs f AND DESC_AP_RO = (if f AND VMM_FLAG_WRITE = 0 then DESC_AP_RO else 0)"
  "desc_attrs f AND DESC_PXN = (if f AND VMM_FLAG_EXEC = 0 \<or> f AND VMM_FLAG_DEVICE \<noteq> 0 then DESC_PXN else 0)"
  "desc_attrs f AND DESC_UXN = (if f AND VMM_FLAG_EXEC = 0 \<or> f AND VMM_FLAG_DEVICE \<noteq> 0 \<or>
     f AND VMM_FLAG_USER = 0 then DESC_UXN else 0)"
  "desc_attrs f AND DESC_ATTR_DEVICE = (if f AND VMM_FLAG_DEVICE \<noteq> 0 then DESC_ATTR_DEVICE else 0)"
  unfolding desc_attrs_def by simp_all

lemma page_descriptor_and:
  assumes "DESC_ADDR_MASK AND b = 0"
  shows "page_descriptor p f AND b = desc_attrs f AND b"
proof -
  have "(p AND DESC_ADDR_MASK) AND b = 0" using assms by (simp add: and.assoc)
  then show ?thesis by (simp add: page_descriptor_split bit.conj_disj_distrib2)
qed

lemma page_descriptor_addr: "page_descriptor p f AND DESC_ADDR_MASK = p AND DESC_ADDR_MASK"
  by (simp add: page_descriptor_split bit.conj_disj_distrib2 desc_attrs_addr and.assoc)

lemma addr_mask_id: "unat p mod 4096 = 0 \<Longrightarrow> unat p < 2 ^ 48 \<Longrightarrow> p AND DESC_ADDR_MASK = p"
  using aligned_bits [of p] bounded_bits [of p] by (intro bit_word_eqI) (auto simp: bit_addr)

lemma vmm_virt_to_phys_translation:
  assumes "vm_ok R s" and "r \<in> R" and "translation s r v = Some (page_descriptor p f)"
    and p: "unat p mod 4096 = 0" "unat p < 2 ^ 48"
  shows "vmm_virt_to_phys r v s = p + (v AND 4095)"
proof -
  have e: "vmm_leaf_entry r v s = page_descriptor p f"
    using vmm_leaf_entry_translation [OF assms(1,2), of v] assms(3) by (simp split: if_splits)
  have "page_descriptor p f AND DESC_PAGE \<noteq> 0"
    using page_descriptor_and [of 2 p f] desc_attrs_bits(2) by simp
  moreover have "p OR (v AND 4095) = p + (v AND 4095)"
    using p(1) by (rule unat_or_disjoint) (simp add: unat_and_4095)
  ultimately show ?thesis
    using page_descriptor_valid [of p f] page_descriptor_addr [of p f] addr_mask_id [OF p]
    by (simp add: vmm_virt_to_phys_def e)
qed

lemma range_translates:
  assumes ok: "vm_ok R s'" and r: "pgd \<in> R"
    and m: "maps_pages R pgd (page_align_down va) (page_align_down pa) fl (unat e div 4096) s s'"
    and span: "page_span (va - page_align_down va) sz = Some e"
    and bound: "\<not> page_align_down va > - 1 - e" "\<not> page_align_down pa > - 1 - e"
    and off: "unat va mod 4096 = unat pa mod 4096" and k: "k < unat sz"
  shows "translation s pgd (va + of_nat k) = None"
    and "unat pa + unat sz \<le> 2 ^ 48 \<Longrightarrow> vmm_virt_to_phys pgd (va + of_nat k) s' = pa + of_nat k"
proof -
  let ?j = "(unat va mod 4096 + k) div 4096"
  let ?v = "page_align_down va + of_nat ?j * PAGE_SIZE" and ?p = "page_align_down pa + of_nat ?j * PAGE_SIZE"
  have "va - page_align_down va = pa - page_align_down pa"
    using off by (simp add: word_unat_eq_iff unat_page_offset)
  note v = range_page [OF span bound(1) k] and p = range_page [OF span [unfolded this] bound(2) k, folded off]
  have t: "translation s pgd ?v = None" "translation s' pgd ?v = Some (page_descriptor ?p fl)"
    using m v(1) unfolding maps_pages_def by blast+
  then show "translation s pgd (va + of_nat k) = None" using translation_same_page [OF v(4)] by simp
  assume "unat pa + unat sz \<le> 2 ^ 48"
  then have b: "unat ?p < 2 ^ 48" "unat ?p mod 4096 = 0"
    using p(3) k div_times_less_eq_dividend [of "unat pa + k" 4096] by simp_all
  have "vmm_virt_to_phys pgd (va + of_nat k) s' = ?p + ((va + of_nat k) AND 4095)"
    using vmm_virt_to_phys_translation [OF ok r _ b(2,1)] t(2) translation_same_page [OF v(4)] by simp
  also have "\<dots> = pa + of_nat k"
  proof -
    have o: "(unat va + k) mod 4096 = (unat pa + k) mod 4096" using off by (metis mod_add_left_eq)
    have "unat (?p + ((va + of_nat k) AND 4095)) = unat ?p + unat ((va + of_nat k) AND 4095)"
      using b(1) by (intro unat_add_bounded) (simp add: unat_and_4095)
    also have "\<dots> = unat (pa + of_nat k)"
      using p(2,3) v(2) o div_mult_mod_eq [of "unat pa + k" 4096] by (simp add: unat_and_4095)
    finally show ?thesis by (simp add: word_unat_eq_iff)
  qed
  finally show "vmm_virt_to_phys pgd (va + of_nat k) s' = pa + of_nat k" .
qed

text \<open>Unmapping a range; any sequence of operations on one address space.\<close>

lemma vmm_unmap_range_effect:
  assumes ok: "vm_ok R s" and r: "pgd \<in> R" and eq: "vmm_unmap_range pgd va sz s = (okay, s')"
  shows "vm_keeps R pgd s s' \<and> (\<exists>m. unmaps_pages R pgd (page_align_down va) m s s' \<and>
     (okay \<and> sz \<noteq> 0 \<longrightarrow> m = pages_of va sz) \<and> (\<not> okay \<longrightarrow> m = 0 \<or> m < pages_of va sz))"
proof (cases "\<exists>e. pgd \<noteq> 0 \<and> sz \<noteq> 0 \<and> page_span (va - page_align_down va) sz = Some e \<and> \<not> page_align_down va > - 1 - e")
  case False
  then have "s' = s" "okay \<longrightarrow> sz = 0"
    using eq by (auto simp: vmm_unmap_range_def Let_def split: option.splits if_splits)
  then show ?thesis using vm_keeps_refl [OF ok] by (auto simp: unmaps_pages_def intro!: exI [of _ 0])
next
  case True
  then obtain e where e: "pgd \<noteq> 0" "sz \<noteq> 0" "page_span (va - page_align_down va) sz = Some e"
    "\<not> page_align_down va > - 1 - e" by blast
  then have run: "vmm_unmap_loop pgd (page_align_down va) (pages_of va sz) 0 s = (okay, s')"
    using eq page_span_pages [OF e(3)] by (simp add: vmm_unmap_range_def Let_def)
  have "unmaps_pages R pgd (page_align_down va) 0 s s" by (simp add: unmaps_pages_def)
  from vmm_unmap_loop_effect [OF vm_keeps_refl [OF ok] this _ r range_aligned run]
  show ?thesis by (auto split: if_splits)
qed

lemma maps_then_unmaps:
  assumes "maps_pages R pgd va pa fl n s s1" and "unmaps_pages R pgd va n s1 s2" and "r \<in> R"
  shows "translation s2 r v = translation s r v"
proof (cases "r = pgd \<and> (\<exists>j<n. same_page v (va + of_nat j * PAGE_SIZE))")
  case True
  then obtain j where j: "j < n" "same_page v (va + of_nat j * PAGE_SIZE)" by blast
  then have "translation s r v = None"
    using assms(1) True translation_same_page [OF j(2), of s r] by (simp add: maps_pages_def)
  with True assms(2,3) show ?thesis by (auto simp: unmaps_pages_def)
next
  case False
  then show ?thesis using assms unfolding maps_pages_def unmaps_pages_def by auto
qed

datatype vm_op = Map u64 u64 u64 u64 | Unmap u64 u64

fun vm_run :: "u64 \<Rightarrow> vm_op list \<Rightarrow> vmm \<Rightarrow> vmm" where
  "vm_run pgd [] s = s"
| "vm_run pgd (Map va pa sz fl # ops) s = vm_run pgd ops (snd (vmm_map_range pgd va pa sz fl s))"
| "vm_run pgd (Unmap va sz # ops) s = vm_run pgd ops (snd (vmm_unmap_range pgd va sz s))"

definition vm_others :: "u64 set \<Rightarrow> u64 \<Rightarrow> vmm \<Rightarrow> vmm \<Rightarrow> bool" where
  "vm_others R pgd s s' \<longleftrightarrow> vm_keeps R pgd s s' \<and> (\<forall>r\<in>R - {pgd}. \<forall>v. translation s' r v = translation s r v)"

lemma vm_others_trans: "vm_others R g s s' \<Longrightarrow> vm_others R g s' s'' \<Longrightarrow> vm_others R g s s''"
  using vm_keeps_trans by (fastforce simp: vm_others_def)

lemma vm_others_map:
  assumes "vm_ok R s" and "pgd \<in> R"
  shows "vm_others R pgd s (snd (vmm_map_range pgd va pa sz fl s))"
proof (cases "sz = 0")
  case True
  then have "snd (vmm_map_range pgd va pa sz fl s) = s" by (simp add: vmm_map_range_def)
  then show ?thesis using vm_keeps_refl [OF assms(1)] by (simp add: vm_others_def)
next
  case False
  obtain b s' where eq: "vmm_map_range pgd va pa sz fl s = (b, s')" by fastforce
  from vmm_map_range_effect [OF assms eq False] show ?thesis
    by (auto simp: eq vm_others_def maps_pages_def split: if_splits)
qed

lemma vm_others_unmap:
  assumes "vm_ok R s" and "pgd \<in> R"
  shows "vm_others R pgd s (snd (vmm_unmap_range pgd va sz s))"
proof -
  obtain b s' where eq: "vmm_unmap_range pgd va sz s = (b, s')" by fastforce
  from vmm_unmap_range_effect [OF assms eq] show ?thesis
    by (auto simp: eq vm_others_def unmaps_pages_def)
qed

lemma vm_others_ok: "vm_others R g s s' \<Longrightarrow> vm_ok R s'"
  unfolding vm_others_def by (blast dest: vm_keeps_ok)

lemma vm_others_run:
  assumes "vm_ok R s" and "pgd \<in> R"
  shows "vm_others R pgd s (vm_run pgd ops s)"
  using assms
proof (induction pgd ops s rule: vm_run.induct)
  case (1 pgd s)
  then show ?case by (simp add: vm_others_def vm_keeps_refl)
next
  case (2 pgd va pa sz fl ops s)
  note m = vm_others_map [OF 2(2,3), of va pa sz fl]
  from vm_others_trans [OF m "2.IH" [OF vm_others_ok [OF m] 2(3)]] show ?case by simp
next
  case (3 pgd va sz ops s)
  note m = vm_others_unmap [OF 3(2,3), of va sz]
  from vm_others_trans [OF m "3.IH" [OF vm_others_ok [OF m] 3(3)]] show ?case by simp
qed

section \<open>Properties\<close>

text \<open>A machine with 16 free pages and one empty address space.\<close>

definition vmm_boot :: vmm where
  "vmm_boot = \<lparr>ram = (\<lambda>_. 0), vpmm = pmm_init 0x40000000 0x10000\<rparr>"

lemma pmm_boot: "pmm_ready (vpmm vmm_boot)" "free_set (vpmm vmm_boot) = {..<16}"
  "g_mem_base (vpmm vmm_boot) = 0x40000000" "n_pages (vpmm vmm_boot) = 16"
  using pmm_init_props [of "0x40000000" "0x10000"]
  by (simp_all add: vmm_boot_def pmm_ready_def n_pages_def)

lemma vmm_boot_ok: "vm_ok {} vmm_boot"
proof -
  have "unat a < 2 ^ 48" if a: "a \<in> managed_pages (vpmm vmm_boot)" for a
  proof -
    obtain p where "p < n_pages (vpmm vmm_boot)" "a = page_addr (vpmm vmm_boot) p"
      using a by (auto simp: managed_pages_def)
    then show ?thesis using unat_page_addr [OF pmm_boot(1), of p] by (simp add: pmm_boot)
  qed
  then show ?thesis using pmm_boot(1) by (simp add: vm_ok_def tables_def)
qed

definition boot_pgd :: u64 where "boot_pgd = fst (vmm_new_table vmm_boot)"
definition boot_space :: vmm where "boot_space = snd (vmm_new_table vmm_boot)"

lemma boot_space_ok:
  "boot_pgd \<noteq> 0" "vm_ok {boot_pgd} boot_space" "vmm_new_table vmm_boot = (boot_pgd, boot_space)"
  "translation boot_space boot_pgd v = None"
  "avail_pages (vpmm boot_space) = avail_pages (vpmm vmm_boot) - {boot_pgd}"
proof -
  show eq: "vmm_new_table vmm_boot = (boot_pgd, boot_space)" by (simp add: boot_pgd_def boot_space_def)
  have "0x40000000 \<in> avail_pages (vpmm vmm_boot)"
    unfolding avail_pages_def pmm_boot(2) by (rule image_eqI [of _ _ 0]) (simp_all add: page_addr_def pmm_boot(3))
  then have *: "avail_pages (vpmm vmm_boot) \<noteq> {}" by blast
  note e = vmm_new_table_effect [OF vmm_boot_ok eq]
  with * show nz: "boot_pgd \<noteq> 0" by (simp split: if_splits)
  with e show "vm_ok {boot_pgd} boot_space" "translation boot_space boot_pgd v = None"
    "avail_pages (vpmm boot_space) = avail_pages (vpmm vmm_boot) - {boot_pgd}" by simp_all
qed

text \<open>C20 Mapping one page changes exactly one translation. For any set \<open>R\<close> of page-table roots in use, a
  successful \<open>vmm_map_page\<close> on a root of \<open>R\<close> requires a page that was not mapped and makes its descriptor the one of
  \<open>page_descriptor\<close>; every other page of that address space and every page of every other address space
  translates as before, no page is lost, and the contents of allocated pages that are not page tables are
  untouched (\<open>vm_keeps\<close>). A failing call changes no translation, and it fails only for unaligned addresses, a page
  already mapped, or exhausted memory.\<close>

theorem vmm_map_page_correct:
  assumes "vm_ok R s" and "pgd \<in> R" and "vmm_map_page pgd va pa fl s = (okay, s')"
  shows "vm_keeps R pgd s s' \<and>
     (\<forall>r\<in>R. \<forall>v. translation s' r v =
        (if okay \<and> r = pgd \<and> same_page v va then Some (page_descriptor pa fl) else translation s r v)) \<and>
     (okay \<longrightarrow> translation s pgd va = None) \<and>
     (\<not> okay \<longrightarrow> unat va mod 4096 \<noteq> 0 \<or> unat pa mod 4096 \<noteq> 0 \<or> translation s pgd va \<noteq> None \<or>
        avail_pages (vpmm s') = {})"
  by (rule vmm_map_page_effect [OF assms])

theorem vmm_map_page_correct_witness:
  "let (okay, s') = vmm_map_page boot_pgd 0x1000 0x2000 3 boot_space
   in vm_ok {boot_pgd} s' \<and> translation s' boot_pgd 0x5000 = None \<and>
      (if okay then translation s' boot_pgd 0x1008 = Some (page_descriptor 0x2000 3)
       else avail_pages (vpmm s') = {})"
proof -
  obtain b t where bt: "vmm_map_page boot_pgd 0x1000 0x2000 3 boot_space = (b, t)" by fastforce
  have "same_page 0x1008 0x1000" "\<not> same_page 0x5000 0x1000" by (simp_all add: same_page_def)
  with vmm_map_page_correct [OF boot_space_ok(2) _ bt] boot_space_ok(4) show ?thesis
    by (auto simp: bt vm_keeps_def)
qed

lemma vmm_map_range_bytes:
  assumes "vm_ok R s" and "pgd \<in> R" and "sz \<noteq> 0" and "vmm_map_range pgd va pa sz fl s = (okay, s')"
  shows "vm_keeps R pgd s s' \<and>
     (if okay then
        (\<forall>k<unat sz. translation s pgd (va + of_nat k) = None \<and>
           (unat pa + unat sz \<le> 2 ^ 48 \<longrightarrow> vmm_virt_to_phys pgd (va + of_nat k) s' = pa + of_nat k)) \<and>
        (\<forall>r\<in>R. \<forall>v. r \<noteq> pgd \<or> (\<forall>j<pages_of va sz. \<not> same_page v (page_of va j)) \<longrightarrow>
           translation s' r v = translation s r v)
      else (\<forall>r\<in>R. \<forall>v. translation s' r v = translation s r v))"
proof (cases okay)
  case False
  with vmm_map_range_effect [OF assms(1,2,4,3)] show ?thesis by simp
next
  case True
  from assms(4,3) show ?thesis
  proof (cases rule: vmm_map_range_loop)
    case (run e)
    note eff = vmm_map_range_effect [OF assms(1,2,4,3)]
    then have m: "maps_pages R pgd (page_align_down va) (page_align_down pa) fl (unat e div 4096) s s'"
      using True page_span_pages [OF run(1)] by simp
    have "vm_ok R s'" using eff vm_keeps_ok by blast
    note t = range_translates [OF this assms(2) m run(1-4)]
    show ?thesis using True eff t m page_span_pages [OF run(1)] by (simp add: maps_pages_def page_of_def)
  qed (use True in simp)
qed

text \<open>C21 \<open>vmm_map_range\<close> is all or nothing. If it succeeds, every byte of the range was unmapped and now translates:
  \<open>vmm_virt_to_phys\<close> of the byte at offset \<open>k\<close> is the physical address at offset \<open>k\<close> (for physical ranges within 48 bits), and no
  other page of any address space changed. If it fails, the rollback leaves every translation of every
  address space as it was.\<close>

theorem vmm_map_range_correct:
  assumes "vm_ok R s" and "pgd \<in> R" and "sz \<noteq> 0" and "vmm_map_range pgd va pa sz fl s = (okay, s')"
  shows "vm_keeps R pgd s s' \<and>
     (if okay then
        (\<forall>k<unat sz. translation s pgd (va + of_nat k) = None \<and>
           (unat pa + unat sz \<le> 2 ^ 48 \<longrightarrow> vmm_virt_to_phys pgd (va + of_nat k) s' = pa + of_nat k)) \<and>
        (\<forall>r\<in>R. \<forall>v. r \<noteq> pgd \<or> (\<forall>j<pages_of va sz. \<not> same_page v (page_of va j)) \<longrightarrow>
           translation s' r v = translation s r v)
      else (\<forall>r\<in>R. \<forall>v. translation s' r v = translation s r v))"
  by (rule vmm_map_range_bytes [OF assms])

theorem vmm_map_range_correct_witness:
  "let (okay, s') = vmm_map_range boot_pgd 0x1200 0x80200 0x2000 3 boot_space
   in okay \<longrightarrow> vmm_virt_to_phys boot_pgd 0x2345 s' = 0x81345 \<and> translation s' boot_pgd 0x9000 = None"
proof -
  obtain b t where bt: "vmm_map_range boot_pgd 0x1200 0x80200 0x2000 3 boot_space = (b, t)" by fastforce
  have "pages_of 0x1200 0x2000 = 3" by (simp add: pages_of_def)
  moreover have "\<not> same_page 0x9000 (page_of 0x1200 j)" if "j < 3" for j
  proof -
    from that have "j = 0 \<or> j = 1 \<or> j = 2" by auto
    then show ?thesis by (auto simp: same_page_def page_of_def page_align_down_def)
  qed
  ultimately have t: "b \<longrightarrow> translation t boot_pgd 0x9000 = None"
    and "b \<longrightarrow> (\<forall>k<0x2000. vmm_virt_to_phys boot_pgd (0x1200 + of_nat k) t = 0x80200 + of_nat k)"
    using vmm_map_range_correct [OF boot_space_ok(2) _ _ bt] boot_space_ok(4) by auto
  then have "b \<longrightarrow> (0x1145 :: nat) < 0x2000 \<longrightarrow>
      vmm_virt_to_phys boot_pgd (0x1200 + of_nat 0x1145) t = 0x80200 + of_nat 0x1145" by blast
  then show ?thesis using t by (simp add: bt)
qed

lemma vmm_unmap_mapped:
  assumes "vm_ok R s" and "pgd \<in> R" and "sz \<noteq> 0" and "vmm_map_range pgd va pa sz fl s = (True, s1)"
    and "vmm_unmap_range pgd va sz s1 = (okay, s2)"
  shows "okay \<and> vm_keeps R pgd s1 s2 \<and> vpmm s2 = vpmm s1 \<and> (\<forall>r\<in>R. \<forall>v. translation s2 r v = translation s r v)"
proof -
  note m = vmm_map_range_effect [OF assms(1,2,4,3)]
  let ?v = "page_align_down va" and ?n = "pages_of va sz"
  have maps: "maps_pages R pgd ?v (page_align_down pa) fl ?n s s1" and ok1: "vm_ok R s1"
    using m by (auto dest: vm_keeps_ok)
  have run: "vmm_unmap_loop pgd ?v ?n 0 s1 = (okay, s2)"
    using assms(4,3)
  proof (cases rule: vmm_map_range_loop)
    case (run e)
    have "pgd \<noteq> 0" using walk_table(4) [OF assms(1,2) paths_Nil root_walk] .
    with run assms(3,5) page_span_pages [OF run(1)] show ?thesis by (simp add: vmm_unmap_range_def Let_def)
  qed simp
  have "unmaps_pages R pgd ?v 0 s1 s1" by (simp add: unmaps_pages_def)
  from vmm_unmap_loop_effect [OF vm_keeps_refl [OF ok1] this _ assms(2) range_aligned run]
  obtain k where k: "vm_keeps R pgd s1 s2" "unmaps_pages R pgd ?v k s1 s2"
    "if okay then k = ?n else k < ?n \<and> translation s2 pgd (?v + of_nat k * PAGE_SIZE) = None" by auto
  have okay
  proof (rule ccontr)
    assume "\<not> okay"
    with k have "k < ?n" "translation s2 pgd (?v + of_nat k * PAGE_SIZE) = None" by auto
    moreover from this maps have "\<forall>j<k. \<not> same_page (?v + of_nat k * PAGE_SIZE) (?v + of_nat j * PAGE_SIZE)"
      unfolding maps_pages_def using same_page_sym by blast
    moreover have "translation s1 pgd (?v + of_nat k * PAGE_SIZE) \<noteq> None"
      using maps \<open>k < ?n\<close> by (simp add: maps_pages_def)
    ultimately show False using k(2) assms(2) unfolding unmaps_pages_def by (metis (no_types, lifting))
  qed
  moreover from this k have u: "unmaps_pages R pgd ?v ?n s1 s2" by simp
  moreover from u have "vpmm s2 = vpmm s1" by (simp only: unmaps_pages_def)
  ultimately show ?thesis using k(1) maps_then_unmaps [OF maps u] by blast
qed

text \<open>C25 Unmapping a range undoes mapping it: after a successful \<open>vmm_map_range\<close>, \<open>vmm_unmap_range\<close> of the same range
  succeeds and restores every translation of every address space.\<close>

theorem vmm_unmap_range_round_trip:
  assumes "vm_ok R s" and "pgd \<in> R" and "sz \<noteq> 0" and "vmm_map_range pgd va pa sz fl s = (True, s1)"
    and "vmm_unmap_range pgd va sz s1 = (okay, s2)"
  shows "okay \<and> vm_ok R s2 \<and> (\<forall>r\<in>R. \<forall>v. translation s2 r v = translation s r v)"
  using vmm_unmap_mapped [OF assms] vm_keeps_ok by blast

theorem vmm_unmap_range_round_trip_witness:
  "case vmm_map_range boot_pgd 0x1200 0x80200 0x2000 3 boot_space of (okay, s1) \<Rightarrow>
   case vmm_unmap_range boot_pgd 0x1200 0x2000 s1 of (okay', s2) \<Rightarrow>
   okay \<longrightarrow> okay' \<and> translation s2 boot_pgd 0x2000 = None"
proof -
  obtain b s1 where 1: "vmm_map_range boot_pgd 0x1200 0x80200 0x2000 3 boot_space = (b, s1)" by fastforce
  obtain b' s2 where 2: "vmm_unmap_range boot_pgd 0x1200 0x2000 s1 = (b', s2)" by fastforce
  show ?thesis
    using vmm_unmap_range_round_trip [OF boot_space_ok(2) _ _ _ 2, where pa = "0x80200" and fl = 3] 1 boot_space_ok(4)
    by (cases b) (auto simp: 2)
qed

text \<open>C22 The life of an address space: a root from \<open>vmm_new_table\<close> starts empty; whatever ranges are then mapped and unmapped in
  it, \<open>vmm_free_table\<close> gives back exactly the pages that the space took (the free pages are again those of the
  beginning), and no other address space noticed.\<close>

theorem vmm_space_lifecycle:
  assumes "vm_ok R s" and "vmm_new_table s = (pgd, s0)" and "pgd \<noteq> 0"
  shows "(\<forall>v. translation s0 pgd v = None) \<and>
     (let s' = vmm_free_table pgd (vm_run pgd ops s0)
      in vm_ok R s' \<and> avail_pages (vpmm s') = avail_pages (vpmm s) \<and>
         (\<forall>r\<in>R. \<forall>v. translation s' r v = translation s r v))"
proof -
  define s1 where "s1 = vm_run pgd ops s0"
  let ?R = "insert pgd R" and ?s = "vmm_free_table pgd s1"
  have new: "pgd \<notin> R" "vm_ok ?R s0" "avail_pages (vpmm s0) = avail_pages (vpmm s) - {pgd}"
    "pgd \<in> avail_pages (vpmm s)" "reached (ram s0) pgd 3 = {pgd}" "\<forall>v. translation s0 pgd v = None"
    "\<forall>r\<in>R. reached (ram s0) r 3 = reached (ram s) r 3 \<and> (\<forall>v. translation s0 r v = translation s r v)"
    using vmm_new_table_effect [OF assms(1,2)] assms(3) by auto
  have run: "vm_others ?R pgd s0 s1" unfolding s1_def by (rule vm_others_run [OF new(2)]) simp
  have ok1: "vm_ok ?R s1" by (rule vm_others_ok [OF run])
  have free: "frees (reached (ram s1) pgd 3) s1 ?s" "vm_ok (?R - {pgd}) ?s"
    "\<forall>r\<in>?R. \<forall>v. translation ?s r v = translation s1 r v"
    using vmm_free_table_effect [OF ok1 insertI1] by blast+
  have T: "tables R s1 = tables R s0" using run new(1) by (auto simp: vm_others_def vm_keeps_def tables_def)
  have tab: "tables ?R t = reached (ram t) pgd 3 \<union> tables R t" for t by (simp add: tables_def)
  have "reached (ram s1) pgd 3 \<inter> tables R s1 = {}"
    using vm_ok_inj [OF ok1] new(1) unfolding tables_def reached_def by fast
  moreover have "tables R s1 \<inter> avail_pages (vpmm s1) = {}" "tables R s0 \<inter> avail_pages (vpmm s0) = {}"
    using vm_ok_tables [OF ok1] vm_ok_tables [OF new(2)] unfolding tab by blast+
  moreover have "pgd \<notin> tables R s0"
    using new(4,7) vm_ok_tables [OF assms(1)] by (auto simp: tables_def)
  moreover have "avail_pages (vpmm s1) \<union> reached (ram s1) pgd 3 \<union> tables R s0 =
      avail_pages (vpmm s0) \<union> {pgd} \<union> tables R s0"
    using run T new(5) unfolding vm_others_def vm_keeps_def tab by (simp add: Un_assoc)
  ultimately have "avail_pages (vpmm s1) \<union> reached (ram s1) pgd 3 = avail_pages (vpmm s0) \<union> {pgd}"
    unfolding T by blast
  then have "avail_pages (vpmm ?s) = avail_pages (vpmm s)"
    using free(1) new(3,4) by (auto simp: frees_def)
  moreover have "translation ?s r v = translation s r v" if "r \<in> R" for r v
    using that free(3) run new(1,7) by (auto simp: vm_others_def)
  moreover have "vm_ok R ?s" using free(2) new(1) by simp
  ultimately show ?thesis using new(6) by (simp add: s1_def)
qed

theorem vmm_space_lifecycle_witness:
  "avail_pages (vpmm (vmm_free_table boot_pgd (vm_run boot_pgd [Map 0x1000 0x80000 0x5000 3, Unmap 0x1000 0x1000] boot_space)))
     = avail_pages (vpmm vmm_boot)"
  using vmm_space_lifecycle [OF vmm_boot_ok boot_space_ok(3,1), of "[Map 0x1000 0x80000 0x5000 3, Unmap 0x1000 0x1000]"]
  by (simp add: Let_def)

text \<open>The permission bits of a leaf descriptor, for every combination of flags: user access exactly with the user flag, read-only
  exactly without the write flag, execution at EL1 exactly for executable non-device pages, execution at EL0
  exactly for executable non-device user pages, device memory exactly with the device flag; the output address is the physical
  page, and no flag can change it.\<close>

theorem page_descriptor_permissions:
  "let d = page_descriptor p f
   in d AND DESC_VALID \<noteq> 0 \<and> d AND DESC_PAGE \<noteq> 0 \<and> d AND DESC_ADDR_MASK = p AND DESC_ADDR_MASK \<and>
      (d AND DESC_AP_USER \<noteq> 0 \<longleftrightarrow> f AND VMM_FLAG_USER \<noteq> 0) \<and>
      (d AND DESC_AP_RO = 0 \<longleftrightarrow> f AND VMM_FLAG_WRITE \<noteq> 0) \<and>
      (d AND DESC_PXN = 0 \<longleftrightarrow> f AND VMM_FLAG_EXEC \<noteq> 0 \<and> f AND VMM_FLAG_DEVICE = 0) \<and>
      (d AND DESC_UXN = 0 \<longleftrightarrow> f AND VMM_FLAG_EXEC \<noteq> 0 \<and> f AND VMM_FLAG_DEVICE = 0 \<and> f AND VMM_FLAG_USER \<noteq> 0) \<and>
      (d AND DESC_ATTR_DEVICE \<noteq> 0 \<longleftrightarrow> f AND VMM_FLAG_DEVICE \<noteq> 0)"
  by (simp add: Let_def page_descriptor_and page_descriptor_addr desc_attrs_bits)

end
