(* ===== verification/Kheap.thy ===== *)
theory Kheap
  imports Pmm
begin

text \<open>
  The kernel heap, \<open>kernel/mm/kheap.c\<close>: arenas of whole pages from the page allocator, cut into blocks with a
  48-byte header each. The doubly linked list of blocks is the list \<open>g_heap\<close> in link order (head first); a
  block knows its own address, and a block pointer is a position in the list. Inserting after a block and
  unlinking the next one are the list operations that \<open>split_block\<close> and \<open>coalesce_next\<close> perform on the links.
  \<open>kfree\<close> is defined on pointers whose header is a block of the list; on any other pointer the C code reads
  foreign memory, and the model leaves the heap as it is.

  The contract is an allocator over address intervals: what is handed out is aligned, inside memory that the
  heap took from the page allocator, and disjoint from everything handed out before and not yet freed.
\<close>

abbreviation KHEAP_ALIGN :: u64 where "KHEAP_ALIGN \<equiv> 16"
abbreviation KHEAP_MIN_SPLIT :: u64 where "KHEAP_MIN_SPLIT \<equiv> 32"

record heap_block =
  hb_addr :: u64
  hb_size :: u64
  hb_free :: bool
  hb_arena :: u64

record kheap =
  g_heap :: "heap_block list"
  g_heap_total_bytes :: u64
  g_next_arena_id :: u64

section \<open>Operations\<close>

definition heap_align_up :: "u64 \<Rightarrow> u64" where
  "heap_align_up value = (value + KHEAP_ALIGN - 1) AND NOT (KHEAP_ALIGN - 1)"

definition header_size :: u64 where
  "header_size = heap_align_up 40"

definition page_count_for_payload :: "u64 \<Rightarrow> u64" where
  "page_count_for_payload payload_size =
     (if payload_size > - 1 - header_size then 0
      else let needed = header_size + payload_size
           in if needed > - 1 - (PAGE_SIZE - 1) then 0
              else (needed + PAGE_SIZE - 1) div PAGE_SIZE)"

definition block_payload_capacity :: "u64 \<Rightarrow> u64" where
  "block_payload_capacity page_count = page_count * PAGE_SIZE - header_size"

definition blocks_are_adjacent :: "heap_block \<Rightarrow> heap_block \<Rightarrow> bool" where
  "blocks_are_adjacent left right \<longleftrightarrow> hb_addr left + header_size + hb_size left = hb_addr right"

definition blocks_can_coalesce :: "heap_block \<Rightarrow> heap_block \<Rightarrow> bool" where
  "blocks_can_coalesce left right \<longleftrightarrow>
     hb_free right \<and> hb_arena left = hb_arena right \<and> blocks_are_adjacent left right"

definition append_block :: "heap_block \<Rightarrow> kheap \<Rightarrow> kheap" where
  "append_block block h = h\<lparr>g_heap := g_heap h @ [block]\<rparr>"

definition extend_heap :: "u64 \<Rightarrow> pmm \<Rightarrow> kheap \<Rightarrow> nat option \<times> pmm \<times> kheap" where
  "extend_heap min_payload_size p h =
     (let pages = page_count_for_payload min_payload_size
      in if pages = 0 then (None, p, h)
         else case pmm_alloc_pages pages p of (addr, p') \<Rightarrow>
           if addr = 0 then (None, p', h)
           else let block = \<lparr>hb_addr = addr, hb_size = block_payload_capacity pages, hb_free = True,
                             hb_arena = g_next_arena_id h\<rparr>;
                    h1 = append_block block (h\<lparr>g_next_arena_id := g_next_arena_id h + 1\<rparr>)
                in (Some (length (g_heap h)), p',
                    h1\<lparr>g_heap_total_bytes := g_heap_total_bytes h1 + hb_size block\<rparr>))"

definition split_block :: "nat \<Rightarrow> u64 \<Rightarrow> kheap \<Rightarrow> kheap" where
  "split_block i sz h =
     (let block = g_heap h ! i
      in if hb_size block < sz + header_size + KHEAP_MIN_SPLIT then h
         else let rest = \<lparr>hb_addr = hb_addr block + header_size + sz,
                          hb_size = hb_size block - sz - header_size, hb_free = True,
                          hb_arena = hb_arena block\<rparr>
              in h\<lparr>g_heap := take i (g_heap h) @ [block\<lparr>hb_size := sz\<rparr>, rest] @ drop (Suc i) (g_heap h)\<rparr>)"

definition coalesce_next :: "nat \<Rightarrow> kheap \<Rightarrow> kheap" where
  "coalesce_next i h =
     (if Suc i < length (g_heap h) \<and> blocks_can_coalesce (g_heap h ! i) (g_heap h ! Suc i)
      then let block = g_heap h ! i; nxt = g_heap h ! Suc i
           in h\<lparr>g_heap := take i (g_heap h) @
                 [block\<lparr>hb_size := hb_size block + (header_size + hb_size nxt)\<rparr>] @ drop (Suc (Suc i)) (g_heap h)\<rparr>
      else h)"

definition kheap_init :: "pmm \<Rightarrow> kheap \<Rightarrow> pmm \<times> kheap" where
  "kheap_init p h = (if g_heap h \<noteq> [] then (p, h) else snd (extend_heap 1 p h))"

definition block_take :: "nat \<Rightarrow> u64 \<Rightarrow> kheap \<Rightarrow> u64 \<times> kheap" where
  "block_take i sz h =
     (let h1 = split_block i sz h
      in (hb_addr (g_heap h1 ! i) + header_size,
          h1\<lparr>g_heap := (g_heap h1)[i := (g_heap h1 ! i)\<lparr>hb_free := False\<rparr>]\<rparr>))"

definition kmalloc :: "u64 \<Rightarrow> pmm \<Rightarrow> kheap \<Rightarrow> u64 \<times> pmm \<times> kheap" where
  "kmalloc sz p h =
     (if sz = 0 \<or> sz > - 1 - (KHEAP_ALIGN - 1) then (0, p, h)
      else
        (let aligned_size = heap_align_up sz;
             (p1, h1) = (if g_heap h = [] then kheap_init p h else (p, h))
         in case first_index (length (g_heap h1))
                   (\<lambda>i. hb_free (g_heap h1 ! i) \<and> hb_size (g_heap h1 ! i) \<ge> aligned_size) of
              Some i \<Rightarrow> (case block_take i aligned_size h1 of (ptr, h2) \<Rightarrow> (ptr, p1, h2))
            | None \<Rightarrow>
                (case extend_heap aligned_size p1 h1 of
                   (None, p2, h2) \<Rightarrow> (0, p2, h2)
                 | (Some i, p2, h2) \<Rightarrow> (case block_take i aligned_size h2 of (ptr, h3) \<Rightarrow> (ptr, p2, h3)))))"

definition heap_block_at :: "u64 \<Rightarrow> kheap \<Rightarrow> nat option" where
  "heap_block_at addr h = first_index (length (g_heap h)) (\<lambda>i. hb_addr (g_heap h ! i) = addr)"

definition kfree :: "u64 \<Rightarrow> kheap \<Rightarrow> kheap" where
  "kfree ptr h =
     (if ptr = 0 then h
      else case heap_block_at (ptr - header_size) h of
          None \<Rightarrow> h
        | Some i \<Rightarrow>
            if hb_free (g_heap h ! i) then h
            else
              (let h1 = coalesce_next i (h\<lparr>g_heap := (g_heap h)[i := (g_heap h ! i)\<lparr>hb_free := True\<rparr>]\<rparr>)
               in if i > 0 \<and> hb_free (g_heap h1 ! (i - 1)) then coalesce_next (i - 1) h1 else h1))"

definition kheap_total_bytes :: "kheap \<Rightarrow> u64" where
  "kheap_total_bytes h = g_heap_total_bytes h"

definition kheap_free_bytes :: "kheap \<Rightarrow> u64" where
  "kheap_free_bytes h = foldl (\<lambda>n b. if hb_free b then n + hb_size b else n) 0 (g_heap h)"

section \<open>Invariant\<close>

lemma header_48 [simp]: "header_size = 48"
  by (simp add: header_size_def heap_align_up_def)

text \<open>The addresses a block covers, header included; the addresses of allocated pages.\<close>

definition extent :: "heap_block \<Rightarrow> nat set" where
  "extent b = {unat (hb_addr b)..<unat (hb_addr b) + 48 + unat (hb_size b)}"

definition taken_space :: "pmm \<Rightarrow> nat set" where
  "taken_space p = (\<Union>k\<in>{..<n_pages p} - free_set p.
     {unat (g_mem_base p) + k * 4096..<unat (g_mem_base p) + k * 4096 + 4096})"

definition block_ok :: "pmm \<Rightarrow> heap_block \<Rightarrow> bool" where
  "block_ok p b \<longleftrightarrow> extent b \<subseteq> taken_space p \<and> unat (hb_addr b) mod 16 = 0 \<and> unat (hb_size b) mod 16 = 0"

definition heap_ok :: "pmm \<Rightarrow> kheap \<Rightarrow> bool" where
  "heap_ok p h \<longleftrightarrow> pmm_ready p \<and> (\<forall>b\<in>set (g_heap h). block_ok p b) \<and>
     sorted_wrt (\<lambda>a b. extent a \<inter> extent b = {}) (g_heap h)"

text \<open>The payloads handed out: address and length.\<close>

definition live_of :: "heap_block list \<Rightarrow> (u64 \<times> u64) set" where
  "live_of bs = (\<lambda>b. (hb_addr b + 48, hb_size b)) ` {b \<in> set bs. \<not> hb_free b}"

definition live :: "kheap \<Rightarrow> (u64 \<times> u64) set" where
  "live h = live_of (g_heap h)"

lemma live_of_simps [simp]:
  "live_of [] = {}"
  "live_of (b # bs) = (if hb_free b then live_of bs else insert (hb_addr b + 48, hb_size b) (live_of bs))"
  "live_of (bs @ cs) = live_of bs \<union> live_of cs"
  by (auto simp: live_of_def)

lemma taken_space_bound:
  assumes "pmm_ready p" and "x \<in> taken_space p"
  shows "unat (g_mem_base p) \<le> x" and "x < unat (g_mem_base p) + n_pages p * 4096" and "x < 18446744073709551616"
proof -
  obtain k where k: "k < n_pages p" "unat (g_mem_base p) + k * 4096 \<le> x" "x < unat (g_mem_base p) + k * 4096 + 4096"
    using assms(2) by (auto simp: taken_space_def)
  have "(k + 1) * 4096 \<le> n_pages p * 4096" using k(1) by (intro mult_right_mono) simp_all
  with k show "unat (g_mem_base p) \<le> x" "x < unat (g_mem_base p) + n_pages p * 4096" by simp_all
  then show "x < 18446744073709551616" using assms(1) by (simp add: pmm_ready_def)
qed

lemma block_bounds:
  assumes "pmm_ready p" and "block_ok p b"
  shows "unat (hb_addr b) + 48 + unat (hb_size b) < 18446744073709551616"
    and "48 + unat (hb_size b) \<le> 134217728" and "hb_addr b \<noteq> 0"
    and "unat (hb_addr b + 48) = unat (hb_addr b) + 48"
proof -
  let ?lo = "unat (hb_addr b)" and ?hi = "unat (hb_addr b) + 47 + unat (hb_size b)"
  have "?lo \<in> extent b" "?hi \<in> extent b" by (simp_all add: extent_def)
  then have t: "?lo \<in> taken_space p" "?hi \<in> taken_space p" using assms(2) by (auto simp: block_ok_def)
  note lo = taken_space_bound [OF assms(1) t(1)] and hi = taken_space_bound [OF assms(1) t(2)]
  have n: "n_pages p \<le> 32768" "0 < unat (g_mem_base p)"
      "unat (g_mem_base p) + n_pages p * 4096 < 18446744073709551616"
    using assms(1) by (auto simp: pmm_ready_def pmm_inv_def unat_gt_0)
  show b: "?lo + 48 + unat (hb_size b) < 18446744073709551616" using hi(2) n(3) by linarith
  show "48 + unat (hb_size b) \<le> 134217728" using lo(1) hi(2) n(1) by linarith
  show "hb_addr b \<noteq> 0" using lo(1) n(2) by auto
  show "unat (hb_addr b + 48) = unat (hb_addr b) + 48" using b by (subst unat_add_bounded) simp_all
qed

lemma heap_ok_replace:
  assumes "heap_ok p h" and "g_heap h = xs @ old @ ys"
    and "\<And>b. b \<in> set new \<Longrightarrow> unat (hb_addr b) mod 16 = 0 \<and> unat (hb_size b) mod 16 = 0"
    and "sorted_wrt (\<lambda>a b. extent a \<inter> extent b = {}) new"
    and "(\<Union>b\<in>set new. extent b) \<subseteq> (\<Union>b\<in>set old. extent b)"
  shows "heap_ok p (h\<lparr>g_heap := xs @ new @ ys\<rparr>)"
proof -
  have o: "extent b \<subseteq> taken_space p" if "b \<in> set old" for b
    using assms(1,2) that by (auto simp: heap_ok_def block_ok_def)
  have "block_ok p b" if "b \<in> set new" for b
    using assms(3) [OF that] assms(5) o that unfolding block_ok_def by blast
  moreover have "extent a \<inter> extent b = {}" if "a \<in> set xs" "b \<in> set new" for a b
    using that assms(1,2,5) by (fastforce simp: heap_ok_def sorted_wrt_append)
  moreover have "extent b \<inter> extent c = {}" if "c \<in> set ys" "b \<in> set new" for b c
    using that assms(1,2,5) by (fastforce simp: heap_ok_def sorted_wrt_append)
  ultimately show ?thesis using assms(1,2,4) by (simp add: heap_ok_def sorted_wrt_append ball_Un)
qed

lemma split_at: "i < length bs \<Longrightarrow> bs = take i bs @ [bs ! i] @ drop (Suc i) bs"
  by (simp add: id_take_nth_drop)

lemma block_ok_nth: "heap_ok p h \<Longrightarrow> i < length (g_heap h) \<Longrightarrow> block_ok p (g_heap h ! i)"
  by (simp add: heap_ok_def)

text \<open>Taking a free block: with or without a split.\<close>

lemma block_take_split:
  assumes ok: "heap_ok p h" and i: "i < length (g_heap h)" and sz: "unat sz mod 16 = 0" "sz \<le> hb_size (g_heap h ! i)"
    and big: "\<not> hb_size (g_heap h ! i) < sz + 80"
  defines "b \<equiv> g_heap h ! i"
  defines "rest \<equiv> \<lparr>hb_addr = hb_addr b + 48 + sz, hb_size = hb_size b - sz - 48, hb_free = True, hb_arena = hb_arena b\<rparr>"
  shows "extent (b\<lparr>hb_size := sz, hb_free := f\<rparr>) \<union> extent rest = extent b"
    and "extent (b\<lparr>hb_size := sz, hb_free := f\<rparr>) \<inter> extent rest = {}"
    and "unat (hb_addr rest) mod 16 = 0" and "unat (hb_size rest) mod 16 = 0"
proof -
  have bok: "block_ok p b" and pr: "pmm_ready p" using ok i by (simp_all add: b_def heap_ok_def)
  note bb = block_bounds [OF pr bok]
  have "unat sz \<le> unat (hb_size b)" using sz(2) by (simp add: word_le_nat_alt b_def)
  then have "unat (sz + 80) = unat sz + 80" using bb(2) by (subst unat_add_bounded) simp_all
  then have le: "unat sz + 80 \<le> unat (hb_size b)" using big by (simp add: b_def word_less_nat_alt)
  have a: "unat (hb_addr rest) = unat (hb_addr b) + 48 + unat sz"
    using bb(1,4) le unfolding rest_def by (simp add: unat_add_bounded)
  have "unat (hb_size b - sz) = unat (hb_size b) - unat sz" using sz(2) by (simp add: unat_sub b_def)
  moreover from this have "(48 :: u64) \<le> hb_size b - sz" using le by (simp add: word_le_nat_alt)
  ultimately have s: "unat (hb_size rest) = unat (hb_size b) - unat sz - 48"
    unfolding rest_def by (simp add: unat_sub)
  show "extent (b\<lparr>hb_size := sz, hb_free := f\<rparr>) \<union> extent rest = extent b"
    "extent (b\<lparr>hb_size := sz, hb_free := f\<rparr>) \<inter> extent rest = {}"
    using le by (auto simp: extent_def a s)
  have "16 dvd unat (hb_addr b)" "16 dvd unat (hb_size b)" "16 dvd unat sz"
    using bok sz(1) by (auto simp: block_ok_def)
  then show "unat (hb_addr rest) mod 16 = 0" "unat (hb_size rest) mod 16 = 0"
    unfolding a s by (auto intro!: mod_eq_0_iff_dvd [THEN iffD2] dvd_add dvd_diff_nat)
qed

lemma block_take_effect:
  assumes ok: "heap_ok p h" and i: "i < length (g_heap h)" "hb_free (g_heap h ! i)"
    and sz: "unat sz mod 16 = 0" "sz \<le> hb_size (g_heap h ! i)" and eq: "block_take i sz h = (ptr, h')"
  shows "heap_ok p h' \<and> ptr = hb_addr (g_heap h ! i) + 48 \<and>
     (\<exists>n. sz \<le> n \<and> n \<le> hb_size (g_heap h ! i) \<and> live h' = insert (ptr, n) (live h))"
proof -
  let ?bs = "g_heap h" and ?b = "g_heap h ! i"
  note dec = split_at [OF i(1)]
  have al: "unat (hb_addr ?b) mod 16 = 0" "unat (hb_size ?b) mod 16 = 0"
    using block_ok_nth [OF ok i(1)] by (simp_all add: block_ok_def)
  have live: "live h = live_of (take i ?bs) \<union> live_of (drop (Suc i) ?bs)"
    unfolding live_def using i(2) by (subst dec) simp
  show ?thesis
  proof (cases "hb_size ?b < sz + 80")
    case True
    then have ptr: "ptr = hb_addr ?b + 48"
      and h': "h' = h\<lparr>g_heap := take i ?bs @ [?b\<lparr>hb_free := False\<rparr>] @ drop (Suc i) ?bs\<rparr>"
      using eq i(1) by (auto simp: block_take_def split_block_def Let_def add.assoc upd_conv_take_nth_drop)
    have "heap_ok p h'" unfolding h' using al
      by (intro heap_ok_replace [OF ok dec]) (auto simp: extent_def)
    moreover have "live h' = insert (ptr, hb_size ?b) (live h)"
      unfolding h' live ptr by (simp add: live_def)
    ultimately show ?thesis using ptr sz(2) by blast
  next
    case False
    let ?rest = "\<lparr>hb_addr = hb_addr ?b + 48 + sz, hb_size = hb_size ?b - sz - 48, hb_free = True, hb_arena = hb_arena ?b\<rparr>"
    let ?new = "?b\<lparr>hb_size := sz, hb_free := False\<rparr>"
    note sp = block_take_split(1,2) [OF ok i(1) sz False, where f = False] block_take_split(3,4) [OF ok i(1) sz False]
    have len: "length (take i ?bs) = i" using i(1) by simp
    have upd: "(take i ?bs @ [x, y] @ zs)[i := z] = take i ?bs @ [z, y] @ zs"
      "(take i ?bs @ [x, y] @ zs) ! i = x" for x y z zs
      using len by (simp_all add: list_update_append nth_append)
    have ptr: "ptr = hb_addr ?b + 48" and h': "h' = h\<lparr>g_heap := take i ?bs @ [?new, ?rest] @ drop (Suc i) ?bs\<rparr>"
      using eq False upd by (auto simp: block_take_def split_block_def Let_def add.assoc)
    have "heap_ok p h'" unfolding h'
      by (rule heap_ok_replace [OF ok dec]) (use sp al sz in auto)
    moreover have "live h' = insert (ptr, sz) (live h)"
      unfolding h' live ptr by (simp add: live_def)
    ultimately show ?thesis using ptr sz(2) by blast
  qed
qed

lemma coalesce_next_effect:
  assumes ok: "heap_ok p h" and free: "i < length (g_heap h) \<Longrightarrow> hb_free (g_heap h ! i)"
  shows "heap_ok p (coalesce_next i h) \<and> live (coalesce_next i h) = live h"
proof (cases "Suc i < length (g_heap h) \<and> blocks_can_coalesce (g_heap h ! i) (g_heap h ! Suc i)")
  case True
  let ?bs = "g_heap h" and ?b = "g_heap h ! i" and ?c = "g_heap h ! Suc i"
  let ?new = "?b\<lparr>hb_size := hb_size ?b + (48 + hb_size ?c)\<rparr>"
  from True have len: "i < length ?bs" "Suc i < length ?bs" by simp_all
  have dec: "?bs = take i ?bs @ [?b, ?c] @ drop (Suc (Suc i)) ?bs"
    using split_at [OF len(1)] len(2) by (simp add: Cons_nth_drop_Suc)
  have pr: "pmm_ready p" using ok by (simp add: heap_ok_def)
  note bb = block_bounds [OF pr block_ok_nth [OF ok len(1)]] and cb = block_bounds [OF pr block_ok_nth [OF ok len(2)]]
  have "hb_addr ?b + 48 + hb_size ?b = hb_addr ?c" using True by (simp add: blocks_can_coalesce_def blocks_are_adjacent_def)
  then have adj: "unat (hb_addr ?c) = unat (hb_addr ?b) + 48 + unat (hb_size ?b)"
    using bb(1,4) unat_add_bounded [of "hb_addr ?b + 48" "hb_size ?b"] by simp
  have sz: "unat (hb_size ?new) = unat (hb_size ?b) + 48 + unat (hb_size ?c)"
    using bb(2) cb(2) by (simp add: unat_add_bounded)
  have ext: "extent ?new = extent ?b \<union> extent ?c" using adj sz by (auto simp: extent_def)
  have "16 dvd unat (hb_size ?b)" "16 dvd unat (hb_size ?c)" "16 dvd unat (hb_addr ?b)"
    using block_ok_nth [OF ok len(1)] block_ok_nth [OF ok len(2)] by (auto simp: block_ok_def)
  then have al: "unat (hb_addr ?new) mod 16 = 0" "unat (hb_size ?new) mod 16 = 0"
    unfolding sz by (auto intro!: mod_eq_0_iff_dvd [THEN iffD2] dvd_add)
  have eq: "coalesce_next i h = h\<lparr>g_heap := take i ?bs @ [?new] @ drop (Suc (Suc i)) ?bs\<rparr>"
    using True by (simp add: coalesce_next_def Let_def)
  have "heap_ok p (coalesce_next i h)" unfolding eq
    by (rule heap_ok_replace [OF ok dec]) (use al ext in auto)
  moreover have "live (coalesce_next i h) = live h"
    unfolding eq live_def using True free [OF len(1)]
    by (subst (3) dec) (simp add: blocks_can_coalesce_def)
  ultimately show ?thesis ..
next
  case False
  then have "coalesce_next i h = h" by (simp only: coalesce_next_def if_False)
  with ok show ?thesis by simp
qed

lemma block_addr_inj:
  assumes "heap_ok p h" and "i < length (g_heap h)" and "j < length (g_heap h)"
    and "hb_addr (g_heap h ! i) = hb_addr (g_heap h ! j)"
  shows "i = j"
proof (rule ccontr)
  assume "i \<noteq> j"
  have "extent (g_heap h ! k) \<inter> extent (g_heap h ! l) = {}" if "k < l" "l < length (g_heap h)" for k l
    using assms(1) that by (auto simp: heap_ok_def sorted_wrt_iff_nth_less)
  then have "extent (g_heap h ! i) \<inter> extent (g_heap h ! j) = {}"
    using \<open>i \<noteq> j\<close> assms(2,3) by (cases i j rule: linorder_cases) (auto simp: Int_commute)
  moreover have "unat (hb_addr (g_heap h ! i)) \<in> extent (g_heap h ! i) \<inter> extent (g_heap h ! j)"
    using assms(4) by (simp add: extent_def)
  ultimately show False by blast
qed

lemma kfree_effect:
  assumes ok: "heap_ok p h" and ptr: "(ptr, n) \<in> live h"
  shows "heap_ok p (kfree ptr h) \<and> live (kfree ptr h) = live h - {(ptr, n)}"
proof -
  have pr: "pmm_ready p" using ok by (simp add: heap_ok_def)
  obtain b where b: "b \<in> set (g_heap h)" "\<not> hb_free b" "ptr = hb_addr b + 48" "n = hb_size b"
    using ptr by (auto simp: live_def live_of_def)
  then obtain i where i: "i < length (g_heap h)" "g_heap h ! i = b" by (meson in_set_conv_nth)
  have bok: "block_ok p b" using ok b(1) by (simp add: heap_ok_def)
  note bb = block_bounds [OF pr bok]
  have nz: "ptr \<noteq> 0" using bb(4) b(3) by (metis add_is_0 unat_0 zero_neq_numeral)
  have at: "heap_block_at (ptr - 48) h = Some i"
  proof -
    have "ptr - 48 = hb_addr b" using b(3) by simp
    then show ?thesis
      unfolding heap_block_at_def first_index_Some_iff using i block_addr_inj [OF ok _ i(1)]
      by (metis less_trans nat_neq_iff)
  qed
  let ?bs = "g_heap h" and ?h1 = "h\<lparr>g_heap := (g_heap h)[i := b\<lparr>hb_free := True\<rparr>]\<rparr>"
  note dec = split_at [OF i(1), unfolded i(2)]
  have upd: "?bs[i := x] = take i ?bs @ [x] @ drop (Suc i) ?bs" for x
    using i(1) by (simp add: upd_conv_take_nth_drop)
  have ok1: "heap_ok p ?h1" unfolding upd using bok
    by (intro heap_ok_replace [OF ok dec]) (auto simp: block_ok_def extent_def)
  have "(ptr, n) \<notin> live_of (take i ?bs) \<union> live_of (drop (Suc i) ?bs)"
  proof
    assume "(ptr, n) \<in> live_of (take i ?bs) \<union> live_of (drop (Suc i) ?bs)"
    then obtain c where c: "c \<in> set (take i ?bs) \<union> set (drop (Suc i) ?bs)" "hb_addr c = hb_addr b"
      using b(3) unfolding live_of_def by fastforce
    then have "unat (hb_addr b) \<in> extent c \<inter> extent b" by (simp add: extent_def)
    moreover have "sorted_wrt (\<lambda>a b. extent a \<inter> extent b = {}) (take i ?bs @ [b] @ drop (Suc i) ?bs)"
      using ok dec by (simp add: heap_ok_def)
    ultimately show False using c(1) by (auto simp: sorted_wrt_append)
  qed
  moreover have "live h = insert (ptr, n) (live_of (take i ?bs) \<union> live_of (drop (Suc i) ?bs))"
    unfolding live_def using b by (subst dec) simp
  moreover have "live ?h1 = live_of (take i ?bs) \<union> live_of (drop (Suc i) ?bs)"
    unfolding live_def upd by simp
  ultimately have live1: "live ?h1 = live h - {(ptr, n)}" by simp
  define h2 where "h2 = coalesce_next i ?h1"
  have c1: "heap_ok p h2" "live h2 = live ?h1"
    using coalesce_next_effect [OF ok1, of i] i(1) by (simp_all add: h2_def)
  have "kfree ptr h = (if i > 0 \<and> hb_free (g_heap h2 ! (i - 1)) then coalesce_next (i - 1) h2 else h2)"
    using nz at b(2) i(2) by (simp add: kfree_def h2_def Let_def)
  moreover have "heap_ok p (coalesce_next (i - 1) h2) \<and> live (coalesce_next (i - 1) h2) = live h2"
    if "hb_free (g_heap h2 ! (i - 1))"
    using coalesce_next_effect [OF c1(1), of "i - 1"] that by simp
  ultimately show ?thesis using c1 live1 by auto
qed

lemma taken_space_grows:
  assumes "free_set p' \<subseteq> free_set p" and "g_mem_base p' = g_mem_base p" and "n_pages p' = n_pages p"
  shows "taken_space p \<subseteq> taken_space p'"
  using assms by (auto simp: taken_space_def)

lemma page_run_bytes: "x < n * 4096 \<Longrightarrow> x div 4096 < (n::nat) \<and> x div 4096 * 4096 \<le> x \<and> x < x div 4096 * 4096 + 4096"
  using div_mult_mod_eq [of x 4096] mod_less_divisor [of 4096 x] by (simp add: less_mult_imp_div_less)

lemma page_count_value:
  assumes "page_count_for_payload n = c" and "c \<noteq> 0"
  shows "unat c = (unat n + 48 + 4095) div 4096"
proof -
  have *: "\<not> n > - 1 - 48" "\<not> 48 + n > - 1 - 4095" "c = (48 + n + 4095) div 4096"
    using assms by (auto simp: page_count_for_payload_def Let_def add.commute split: if_splits)
  have s: "unat (48 + n) = 48 + unat n"
    using sum_in_range [OF *(1)] by (subst unat_add_bounded) simp_all
  have "unat (48 + n + 4095) = unat n + 48 + 4095"
    using sum_in_range [OF *(2)] s by (subst unat_add_bounded) simp_all
  then show ?thesis by (simp add: *(3) unat_div_distrib)
qed

lemma page_count_positive:
  assumes "page_count_for_payload n = c" and "c \<noteq> 0"
  shows "unat n + 48 \<le> unat c * 4096"
  using page_count_value [OF assms] div_mult_mod_eq [of "unat n + 48 + 4095" 4096] mod_less_divisor [of 4096 "unat n + 48 + 4095"]
  by linarith

text \<open>A payload without a page count is longer than all of the managed memory.\<close>

lemma page_count_zero:
  assumes "page_count_for_payload n = 0"
  shows "(unat n + 48 + 4095) div 4096 > 32768"
proof -
  have "2 ^ 63 \<le> unat n + 48 + 4095"
  proof (rule ccontr)
    assume small: "\<not> 2 ^ 63 \<le> unat n + 48 + 4095"
    then have "\<not> n > - 1 - 48" "unat (48 + n) = 48 + unat n"
      by (simp_all add: word_less_nat_alt unat_add_bounded)
    moreover from this small have "\<not> 48 + n > - 1 - 4095" "unat (48 + n + 4095) = unat n + 48 + 4095"
      by (simp_all add: word_less_nat_alt unat_add_bounded)
    ultimately have "page_count_for_payload n = (48 + n + 4095) div 4096"
      by (simp add: page_count_for_payload_def Let_def)
    then have "unat (page_count_for_payload n) = (unat n + 48 + 4095) div 4096"
      using \<open>unat (48 + n + 4095) = unat n + 48 + 4095\<close> by (simp add: unat_div_distrib)
    then show False using assms by simp
  qed
  then show ?thesis by simp
qed

lemma pmm_alloc_pages_frame:
  assumes "pmm_alloc_pages c p = (a, p')"
  shows "g_mem_base p' = g_mem_base p" and "n_pages p' = n_pages p"
proof -
  have "g_mem_base (fold set_used ps s) = g_mem_base s \<and> g_total_pages (fold set_used ps s) = g_total_pages s" for ps s
    by (induction ps arbitrary: s) (simp_all add: set_used_def Let_def)
  with assms show "g_mem_base p' = g_mem_base p" "n_pages p' = n_pages p"
    by (auto simp: pmm_alloc_pages_def n_pages_def split: if_splits option.splits)
qed

text \<open>A new arena is one free block over fresh pages.\<close>

lemma arena_block:
  fixes i :: u64
  assumes pr: "pmm_ready p" and n: "page_count_for_payload n = c" "c \<noteq> 0"
    and run: "{k..<k + unat c} \<subseteq> free_set p" and q: "free_set q = free_set p - {k..<k + unat c}"
    "g_mem_base q = g_mem_base p" "n_pages q = n_pages p"
  defines "b \<equiv> \<lparr>hb_addr = page_addr p k, hb_size = block_payload_capacity c, hb_free = True, hb_arena = i\<rparr>"
  shows "block_ok q b" and "extent b \<inter> taken_space p = {}" and "n \<le> hb_size b"
proof -
  have c: "0 < unat c" using n(2) by (simp add: unat_gt_0)
  have in_range: "j < n_pages p" if "k \<le> j" "j < k + unat c" for j
    using run that by (intro free_set_less [of _ p]) auto
  have "k + unat c - 1 < n_pages p" using in_range [of "k + unat c - 1"] c by simp
  then have kc: "k + unat c \<le> n_pages p" by simp
  have np: "n_pages p \<le> 32768" using pr by (simp add: pmm_ready_def pmm_inv_def)
  have a: "unat (page_addr p k) = unat (g_mem_base p) + k * 4096"
    using unat_page_addr [OF pr in_range [of k]] c by simp
  have "unat (c * 4096) = unat c * 4096" using kc np by (subst unat_mult_bounded) simp_all
  moreover have nc: "unat n + 48 \<le> unat c * 4096" by (rule page_count_positive [OF n])
  ultimately have s: "unat (hb_size b) = unat c * 4096 - 48"
    unfolding b_def block_payload_capacity_def by (simp add: unat_sub word_le_nat_alt)
  show "n \<le> hb_size b" using nc s by (simp add: word_le_nat_alt)
  have ext: "extent b = {unat (g_mem_base p) + k * 4096..<unat (g_mem_base p) + k * 4096 + unat c * 4096}"
    using s a nc by (simp add: extent_def b_def add.assoc)
  have page: "\<exists>j\<in>{k..<k + unat c}. unat (g_mem_base p) + j * 4096 \<le> x \<and> x < unat (g_mem_base p) + j * 4096 + 4096"
    if x: "x \<in> extent b" for x
  proof -
    define d where "d = x - (unat (g_mem_base p) + k * 4096)"
    have d: "d < unat c * 4096" "x = unat (g_mem_base p) + k * 4096 + d" using x ext by (auto simp: d_def)
    have "k + d div 4096 \<in> {k..<k + unat c}" using page_run_bytes [OF d(1)] by simp
    moreover have "(k + d div 4096) * 4096 = k * 4096 + d div 4096 * 4096" by (simp add: distrib_right)
    ultimately show ?thesis using page_run_bytes [OF d(1)] d(2) by (intro bexI [of _ "k + d div 4096"]) auto
  qed
  have "x \<in> taken_space q" if "x \<in> extent b" for x
    using page [OF that] in_range q by (auto simp: taken_space_def)
  moreover have "unat (g_mem_base p) mod 16 = 0"
  proof -
    have "4096 dvd unat (g_mem_base p)" using pr by (auto simp: pmm_ready_def)
    then have "16 dvd unat (g_mem_base p)" by (rule dvd_trans [rotated]) simp
    then show ?thesis by auto
  qed
  ultimately show "block_ok q b"
    using a s nc by (auto simp: block_ok_def b_def intro!: mod_eq_0_iff_dvd [THEN iffD2] dvd_add dvd_diff_nat dvd_mult)
  show "extent b \<inter> taken_space p = {}"
  proof (rule ccontr)
    assume "extent b \<inter> taken_space p \<noteq> {}"
    then obtain x j where x: "x \<in> extent b" and j: "j < n_pages p" "j \<notin> free_set p"
      "unat (g_mem_base p) + j * 4096 \<le> x" "x < unat (g_mem_base p) + j * 4096 + 4096"
      by (auto simp: taken_space_def)
    obtain l where l: "l \<in> {k..<k + unat c}" "unat (g_mem_base p) + l * 4096 \<le> x"
      "x < unat (g_mem_base p) + l * 4096 + 4096" using page [OF x] by blast
    have "l = j" using l(2,3) j(3,4) by linarith
    with l(1) run j(2) show False by blast
  qed
qed

lemma heap_ok_mono:
  assumes "heap_ok p h" and "pmm_ready q" and "taken_space p \<subseteq> taken_space q"
  shows "heap_ok q h"
  using assms unfolding heap_ok_def block_ok_def by blast

lemma extend_heap_effect:
  assumes ok: "heap_ok p h" and eq: "extend_heap n p h = (r, p', h')"
  shows "heap_ok p' h' \<and> live h' = live h \<and> free_set p' \<subseteq> free_set p \<and>
     (case r of None \<Rightarrow> h' = h \<and> p' = p
      | Some i \<Rightarrow> i = length (g_heap h) \<and> length (g_heap h') = Suc i \<and> hb_free (g_heap h' ! i) \<and>
          n \<le> hb_size (g_heap h' ! i))"
proof -
  let ?c = "page_count_for_payload n"
  have pr: "pmm_ready p" using ok by (simp add: heap_ok_def)
  obtain a q where aq: "pmm_alloc_pages ?c p = (a, q)" by fastforce
  show ?thesis
  proof (cases "?c = 0 \<or> a = 0")
    case True
    then have "r = None" "p' = p" "h' = h"
      using eq aq pmm_alloc_pages_zero [OF pr, of ?c q] by (auto simp: extend_heap_def Let_def split: if_splits)
    with ok show ?thesis by simp
  next
    case False
    then have c: "?c \<noteq> 0" "a \<noteq> 0" by simp_all
    obtain k where k: "{k..<k + unat ?c} \<subseteq> free_set p" "a = page_addr p k"
      "free_set q = free_set p - {k..<k + unat ?c}" "pmm_ready q"
      by (rule pmm_alloc_pages_nonzero [OF pr c(1) aq c(2)])
    note frame = pmm_alloc_pages_frame [OF aq]
    define b where "b = \<lparr>hb_addr = page_addr p k, hb_size = block_payload_capacity ?c, hb_free = True,
      hb_arena = g_next_arena_id h\<rparr>"
    note ab = arena_block [OF pr refl c(1) k(1,3) frame, of "g_next_arena_id h", folded b_def]
    have r: "r = Some (length (g_heap h))" "p' = q" "g_heap h' = g_heap h @ [b]"
      using eq aq c k(2) by (auto simp: extend_heap_def append_block_def b_def Let_def)
    have okq: "heap_ok q h"
      by (rule heap_ok_mono [OF ok k(4)]) (use k(3) frame in \<open>intro taken_space_grows, auto\<close>)
    have "extent x \<inter> extent b = {}" if "x \<in> set (g_heap h)" for x
      using ok that ab(2) by (fastforce simp: heap_ok_def block_ok_def)
    then have "heap_ok q h'" using okq ab(1) r(3) by (simp add: heap_ok_def sorted_wrt_append)
    moreover have "live h' = live h" by (simp add: live_def r(3) b_def)
    ultimately show ?thesis using r k(3) ab(3) by (auto simp: nth_append b_def)
  qed
qed

lemma extend_heap_none:
  assumes ok: "heap_ok p h" and eq: "extend_heap n p h = (None, p', h')"
  shows "\<not> {k..<k + (unat n + 48 + 4095) div 4096} \<subseteq> free_set p"
proof (cases "page_count_for_payload n = 0")
  case True
  have np: "n_pages p \<le> 32768" using ok by (simp add: heap_ok_def pmm_ready_def pmm_inv_def)
  have "k + 32768 \<in> {k..<k + (unat n + 48 + 4095) div 4096}" using page_count_zero [OF True] by simp
  moreover have "k + 32768 \<notin> free_set p" using np by (simp add: free_set_def)
  ultimately show ?thesis by blast
next
  case False
  obtain a q where aq: "pmm_alloc_pages (page_count_for_payload n) p = (a, q)" by fastforce
  then have "a = 0" using eq False by (auto simp: extend_heap_def Let_def split: if_splits)
  moreover have "pmm_ready p" using ok by (simp add: heap_ok_def)
  ultimately have "\<not> {k..<k + unat (page_count_for_payload n)} \<subseteq> free_set p"
    using pmm_alloc_pages_split [OF _ False aq] by (auto split: if_splits)
  then show ?thesis unfolding page_count_value [OF HOL.refl False] .
qed

lemma heap_align_up_props:
  assumes "\<not> sz > - 1 - 15"
  shows "unat (heap_align_up sz) mod 16 = 0" and "sz \<le> heap_align_up sz"
    and "unat (heap_align_up sz) = (unat sz + 15) div 16 * 16"
proof -
  have s: "unat (sz + 15) = unat sz + 15" using sum_in_range [OF assms] by (subst unat_add_bounded) simp_all
  have "(15 :: u64) = mask 4" by (simp add: mask_eq_exp_minus_1)
  then have "unat (heap_align_up sz) = unat (sz + 15) - unat (sz + 15) mod 16"
    using unat_and_not_mask [of "sz + 15" 4] by (simp add: heap_align_up_def add.commute)
  then have *: "unat (heap_align_up sz) = (unat sz + 15) div 16 * 16" by (simp add: s minus_mod_eq_div_mult)
  then show "unat (heap_align_up sz) mod 16 = 0" "unat (heap_align_up sz) = (unat sz + 15) div 16 * 16" by simp_all
  have "unat sz \<le> (unat sz + 15) div 16 * 16"
    using div_mult_mod_eq [of "unat sz + 15" 16] mod_less_divisor [of 16 "unat sz + 15"] by linarith
  then show "sz \<le> heap_align_up sz" by (simp add: word_le_nat_alt *)
qed

definition payload :: "u64 \<times> u64 \<Rightarrow> nat set" where
  "payload a = {unat (fst a)..<unat (fst a) + unat (snd a)}"

lemma live_block:
  assumes "heap_ok p h" and "a \<in> live h"
  obtains i where "i < length (g_heap h)" "\<not> hb_free (g_heap h ! i)"
    "a = (hb_addr (g_heap h ! i) + 48, hb_size (g_heap h ! i))" "payload a \<subseteq> extent (g_heap h ! i)"
    "fst a \<noteq> 0" "unat (fst a) mod 16 = 0"
proof -
  obtain b where b: "b \<in> set (g_heap h)" "\<not> hb_free b" "a = (hb_addr b + 48, hb_size b)"
    using assms(2) by (auto simp: live_def live_of_def)
  then obtain i where i: "i < length (g_heap h)" "g_heap h ! i = b" by (meson in_set_conv_nth)
  have ok: "pmm_ready p" "block_ok p b" using assms(1) b(1) by (simp_all add: heap_ok_def)
  note u = block_bounds(4) [OF ok]
  have "payload a \<subseteq> extent b" using u by (auto simp: payload_def extent_def b(3))
  moreover have "fst a \<noteq> 0" using u b(3) by (metis add_is_0 fst_conv unat_0 zero_neq_numeral)
  moreover have "unat (fst a) mod 16 = 0" using ok(2) u by (auto simp: b(3) block_ok_def intro: dvd_add)
  ultimately show ?thesis using that [of i] i b by simp
qed

lemma live_disjoint:
  assumes ok: "heap_ok p h" and "a \<in> live h" and "b \<in> live h" and "a \<noteq> b"
  shows "payload a \<inter> payload b = {}"
proof -
  obtain i where i: "i < length (g_heap h)" "payload a \<subseteq> extent (g_heap h ! i)"
    "a = (hb_addr (g_heap h ! i) + 48, hb_size (g_heap h ! i))"
    by (rule live_block [OF ok assms(2)]) blast
  obtain j where j: "j < length (g_heap h)" "payload b \<subseteq> extent (g_heap h ! j)"
    "b = (hb_addr (g_heap h ! j) + 48, hb_size (g_heap h ! j))"
    by (rule live_block [OF ok assms(3)]) blast
  have "i \<noteq> j" using i(3) j(3) assms(4) by auto
  moreover have "extent (g_heap h ! k) \<inter> extent (g_heap h ! l) = {}" if "k < l" "l < length (g_heap h)" for k l
    using ok that by (auto simp: heap_ok_def sorted_wrt_iff_nth_less)
  ultimately have "extent (g_heap h ! i) \<inter> extent (g_heap h ! j) = {}"
    using i(1) j(1) by (cases i j rule: linorder_cases) (auto simp: Int_commute)
  with i(2) j(2) show ?thesis by blast
qed

lemma live_taken:
  assumes ok: "heap_ok p h" and "x \<in> live h"
  shows "payload x \<subseteq> taken_space p"
proof -
  obtain i where i: "i < length (g_heap h)" "payload x \<subseteq> extent (g_heap h ! i)" by (rule live_block [OF assms]) blast
  then have "g_heap h ! i \<in> set (g_heap h)" by simp
  then have "extent (g_heap h ! i) \<subseteq> taken_space p" using ok by (auto simp: heap_ok_def block_ok_def)
  then show ?thesis using i(2) by blast
qed

lemma kheap_init_effect:
  assumes ok: "heap_ok p h" and "kheap_init p h = (p', h')"
  shows "heap_ok p' h' \<and> live h' = live h \<and> free_set p' \<subseteq> free_set p"
proof (cases "g_heap h = []")
  case True
  obtain r q k where e: "extend_heap 1 p h = (r, q, k)" by (metis prod_cases3)
  with True assms(2) have "p' = q" "h' = k" by (auto simp: kheap_init_def)
  with extend_heap_effect [OF ok e] show ?thesis by auto
qed (use assms in \<open>auto simp: kheap_init_def\<close>)

text \<open>A taken payload is new: its block was free.\<close>

lemma take_fresh:
  assumes ok: "heap_ok p h" and i: "i < length (g_heap h)" "hb_free (g_heap h ! i)"
  shows "(hb_addr (g_heap h ! i) + 48, n) \<notin> live h"
proof
  assume "(hb_addr (g_heap h ! i) + 48, n) \<in> live h"
  then obtain j where j: "j < length (g_heap h)" "\<not> hb_free (g_heap h ! j)" "hb_addr (g_heap h ! i) = hb_addr (g_heap h ! j)"
    by (rule live_block [OF ok]) auto
  with block_addr_inj [OF ok i(1) j(1,3)] i(2) show False by simp
qed

text \<open>The pages of an arena for a payload of \<open>sz\<close> bytes, rounded up to 16, and its header.\<close>

definition pages_for :: "u64 \<Rightarrow> nat" where
  "pages_for sz = ((unat sz + 15) div 16 * 16 + 48 + 4095) div 4096"

definition no_memory :: "u64 \<Rightarrow> pmm \<Rightarrow> kheap \<Rightarrow> bool" where
  "no_memory sz p h \<longleftrightarrow> (\<forall>b\<in>set (g_heap h). hb_free b \<longrightarrow> unat (hb_size b) < (unat sz + 15) div 16 * 16) \<and>
     (\<forall>k. \<not> {k..<k + pages_for sz} \<subseteq> free_set p)"

lemma kmalloc_effect:
  assumes ok: "heap_ok p h" and eq: "kmalloc sz p h = (ptr, p', h')"
  shows "heap_ok p' h' \<and> free_set p' \<subseteq> free_set p \<and>
     (if ptr = 0 then live h' = live h \<and> (g_heap h \<noteq> [] \<longrightarrow> p' = p \<and> h' = h) \<and> (sz = 0 \<or> sz > - 16 \<or> no_memory sz p' h')
      else \<exists>n\<ge>sz. (ptr, n) \<notin> live h \<and> live h' = insert (ptr, n) (live h))"
proof (cases "sz = 0 \<or> sz > - 16")
  case True
  then have "ptr = 0" "p' = p" "h' = h" using eq by (auto simp: kmalloc_def)
  with ok True show ?thesis by auto
next
  case False
  let ?n = "heap_align_up sz"
  have al: "unat ?n mod 16 = 0" "sz \<le> ?n" "unat ?n = (unat sz + 15) div 16 * 16" using heap_align_up_props [of sz] False by simp_all
  obtain p1 h1 where 1: "(if g_heap h = [] then kheap_init p h else (p, h)) = (p1, h1)" by fastforce
  have ok1: "heap_ok p1 h1 \<and> live h1 = live h \<and> free_set p1 \<subseteq> free_set p"
    using kheap_init_effect [OF ok] 1 ok by (auto split: if_splits)
  let ?fit = "\<lambda>i. hb_free (g_heap h1 ! i) \<and> hb_size (g_heap h1 ! i) \<ge> ?n"
  have taken: "heap_ok q k' \<and> ptr' \<noteq> 0 \<and> (\<exists>m\<ge>sz. (ptr', m) \<notin> live h \<and> live k' = insert (ptr', m) (live h))"
    if k: "heap_ok q k" "live k = live h" "i < length (g_heap k)" "hb_free (g_heap k ! i)" "?n \<le> hb_size (g_heap k ! i)"
      "block_take i ?n k = (ptr', k')" for q k i ptr' k'
  proof -
    from block_take_effect [OF k(1,3,4) al(1) k(5,6)]
    obtain m where m: "heap_ok q k'" "ptr' = hb_addr (g_heap k ! i) + 48" "?n \<le> m" "live k' = insert (ptr', m) (live k)"
      by blast
    have "(ptr', m) \<in> live k'" using m(4) by simp
    then have "ptr' \<noteq> 0" by (rule live_block [OF m(1)]) simp
    moreover have "(ptr', m) \<notin> live h" using take_fresh [OF k(1,3,4)] m(2) k(2) by simp
    moreover have "sz \<le> m" using al(2) m(3) by (rule order_trans)
    ultimately show ?thesis using m(1,4) k(2) by blast
  qed
  show ?thesis
  proof (cases "first_index (length (g_heap h1)) ?fit")
    case (Some i)
    obtain t k where t: "block_take i ?n h1 = (t, k)" by fastforce
    have "ptr = t" "p' = p1" "h' = k" using eq False 1 Some t by (auto simp: kmalloc_def Let_def)
    with taken [OF _ _ _ _ _ t, of p1] first_index_SomeD [OF Some] ok1 show ?thesis by auto
  next
    case None
    obtain r q k where r: "extend_heap ?n p1 h1 = (r, q, k)" by (metis prod_cases3)
    note ex = extend_heap_effect [OF conjunct1 [OF ok1] r]
    show ?thesis
    proof (cases r)
      case N: None
      then have "ptr = 0" "p' = q" "h' = k" using eq False 1 None r by (auto simp: kmalloc_def Let_def)
      moreover have "q = p1" "k = h1" using ex N by simp_all
      moreover have "no_memory sz p1 h1" unfolding no_memory_def
      proof (intro conjI ballI impI)
        fix b assume b: "b \<in> set (g_heap h1)" "hb_free b"
        then obtain j where "j < length (g_heap h1)" "g_heap h1 ! j = b" by (metis in_set_conv_nth)
        then show "unat (hb_size b) < (unat sz + 15) div 16 * 16"
          using None [unfolded first_index_None_iff, rule_format, of j] b(2) al(3) by (simp add: word_le_nat_alt not_le)
      next
        show "\<forall>k. \<not> {k..<k + pages_for sz} \<subseteq> free_set p1"
          using extend_heap_none [OF conjunct1 [OF ok1] r [unfolded N]] by (simp only: pages_for_def al(3)) simp
      qed
      moreover have "g_heap h \<noteq> [] \<longrightarrow> p1 = p \<and> h1 = h" using 1 by auto
      ultimately show ?thesis using ex ok1 N by simp
    next
      case (Some i)
      obtain t l where t: "block_take i ?n k = (t, l)" by fastforce
      have "ptr = t" "p' = q" "h' = l" using eq False 1 None r t Some by (auto simp: kmalloc_def Let_def)
      with taken [OF _ _ _ _ _ t, of q] ex ok1 Some show ?thesis by auto
    qed
  qed
qed

section \<open>The allocator contract\<close>

datatype heap_op = Alloc u64 | Free u64

locale allocator =
  fixes ok :: "'s \<Rightarrow> bool"
    and held :: "'s \<Rightarrow> (u64 \<times> u64) set"
    and alloc :: "u64 \<Rightarrow> 's \<Rightarrow> u64 \<times> 's"
    and release :: "u64 \<Rightarrow> 's \<Rightarrow> 's"
  assumes alloc_law: "ok s \<Longrightarrow> alloc n s = (a, s') \<Longrightarrow> ok s' \<and>
      (if a = 0 then held s' = held s else \<exists>m\<ge>n. (a, m) \<notin> held s \<and> held s' = insert (a, m) (held s))"
    and release_law: "ok s \<Longrightarrow> (a, m) \<in> held s \<Longrightarrow> ok (release a s) \<and> held (release a s) = held s - {(a, m)}"
    and held_disjoint: "ok s \<Longrightarrow> x \<in> held s \<Longrightarrow> y \<in> held s \<Longrightarrow> x \<noteq> y \<Longrightarrow> payload x \<inter> payload y = {}"
begin

fun step :: "heap_op \<Rightarrow> 's \<Rightarrow> 's" where
  "step (Alloc n) s = snd (alloc n s)"
| "step (Free a) s = release a s"

text \<open>A well-behaved client frees only what it holds.\<close>

fun behaved :: "heap_op list \<Rightarrow> 's \<Rightarrow> bool" where
  "behaved [] s \<longleftrightarrow> True"
| "behaved (Alloc n # ops) s \<longleftrightarrow> behaved ops (snd (alloc n s))"
| "behaved (Free a # ops) s \<longleftrightarrow> (\<exists>m. (a, m) \<in> held s) \<and> behaved ops (release a s)"

lemma run_ok: "ok s \<Longrightarrow> behaved ops s \<Longrightarrow> ok (fold step ops s)"
proof (induction ops s rule: behaved.induct)
  case (2 n ops s)
  obtain a s' where "alloc n s = (a, s')" by fastforce
  with 2 alloc_law [of s n a s'] show ?case by simp
next
  case (3 a ops s)
  then show ?case using release_law by auto
qed simp

lemma run_keeps:
  assumes "ok s" and "behaved ops s" and "x \<in> held s" and "Free (fst x) \<notin> set ops"
  shows "x \<in> held (fold step ops s)"
  using assms
proof (induction ops s rule: behaved.induct)
  case (2 n ops s)
  obtain a s' where e: "alloc n s = (a, s')" by fastforce
  from alloc_law [OF "2.prems"(1) e] "2.prems"(3) have "ok s'" "x \<in> held s'" by (auto split: if_splits)
  with "2.IH" "2.prems" e show ?case by simp
next
  case (3 a ops s)
  from "3.prems" obtain m where m: "(a, m) \<in> held s" by auto
  have "x \<noteq> (a, m)" using "3.prems"(4) by auto
  then have "ok (release a s)" "x \<in> held (release a s)" using release_law [OF "3.prems"(1) m] "3.prems"(3) by simp_all
  with "3.IH" "3.prems" show ?case by simp
qed simp

lemma behaved_prefix: "behaved (ops @ rest) s \<Longrightarrow> behaved ops s"
  by (induction ops s rule: behaved.induct) auto

lemma run_origin:
  assumes "ok s" and "behaved ops s" and "x \<in> held (fold step ops s)"
  shows "x \<in> held s \<or> (\<exists>n. n \<le> snd x \<and> Alloc n \<in> set ops)"
  using assms
proof (induction ops s rule: behaved.induct)
  case (2 n ops s)
  obtain a s' where e: "alloc n s = (a, s')" by fastforce
  note law = alloc_law [OF "2.prems"(1) e]
  then have "x \<in> held s' \<or> (\<exists>n. n \<le> snd x \<and> Alloc n \<in> set ops)" using "2.IH" "2.prems" e by simp
  then show ?case using law by (auto split: if_splits)
next
  case (3 a ops s)
  from "3.prems" obtain m where m: "(a, m) \<in> held s" by auto
  show ?case using "3.IH" "3.prems" release_law [OF "3.prems"(1) m] by auto
qed simp

lemma run_disjoint:
  assumes "ok s" and "behaved ops s" and "x \<in> held (fold step ops s)" and "y \<in> held (fold step ops s)" and "x \<noteq> y"
  shows "payload x \<inter> payload y = {}"
  using held_disjoint [OF run_ok [OF assms(1,2)] assms(3-5)] .

end

definition heap_alloc :: "u64 \<Rightarrow> pmm \<times> kheap \<Rightarrow> u64 \<times> pmm \<times> kheap" where
  "heap_alloc n s = kmalloc n (fst s) (snd s)"

definition heap_release :: "u64 \<Rightarrow> pmm \<times> kheap \<Rightarrow> pmm \<times> kheap" where
  "heap_release a s = (fst s, kfree a (snd s))"

interpretation kh: allocator "\<lambda>s. heap_ok (fst s) (snd s)" "\<lambda>s. live (snd s)" heap_alloc heap_release
proof
  fix s :: "pmm \<times> kheap" assume ok: "heap_ok (fst s) (snd s)"
  show "heap_ok (fst s') (snd s') \<and> (if a = 0 then live (snd s') = live (snd s)
      else \<exists>m\<ge>n. (a, m) \<notin> live (snd s) \<and> live (snd s') = insert (a, m) (live (snd s)))"
    if "heap_alloc n s = (a, s')" for n a s'
    using kmalloc_effect [OF ok, of n a "fst s'" "snd s'"] that by (simp add: heap_alloc_def split: if_splits)
  show "heap_ok (fst (heap_release a s)) (snd (heap_release a s)) \<and>
      live (snd (heap_release a s)) = live (snd s) - {(a, m)}" if "(a, m) \<in> live (snd s)" for a m
    using kfree_effect [OF ok that] by (simp add: heap_release_def)
  show "payload x \<inter> payload y = {}" if "x \<in> live (snd s)" "y \<in> live (snd s)" "x \<noteq> y" for x y
    by (rule live_disjoint [OF ok that])
qed

section \<open>Properties\<close>

definition kheap_empty :: kheap where
  "kheap_empty = \<lparr>g_heap = [], g_heap_total_bytes = 0, g_next_arena_id = 1\<rparr>"

lemma kheap_empty_ok: "pmm_ready p \<Longrightarrow> heap_ok p kheap_empty" "live kheap_empty = {}"
  by (simp_all add: heap_ok_def kheap_empty_def live_def)

text \<open>C23 \<open>kmalloc\<close>: a non-null result is 16-byte aligned and begins a payload of at least the requested size that lies in pages the heap
  took from the page allocator and overlaps no payload handed out before; nothing else handed out changes. Null
  is returned only for a size of 0, for a size that cannot be rounded up, or when memory has run out: no free block of the heap
  holds the rounded size, and the page allocator has no run of free pages long enough for a new arena with its header. Then nothing
  handed out changes, and a heap that already has blocks is left as it was, with the page allocator.\<close>

theorem kmalloc_correct:
  assumes "heap_ok p h" and "kmalloc sz p h = (ptr, p', h')"
  shows "heap_ok p' h' \<and>
     (if ptr = 0 then live h' = live h \<and> (g_heap h \<noteq> [] \<longrightarrow> p' = p \<and> h' = h) \<and> (sz = 0 \<or> sz > - 16 \<or> no_memory sz p' h')
      else \<exists>n\<ge>sz. live h' = insert (ptr, n) (live h) \<and> unat ptr mod 16 = 0 \<and>
        payload (ptr, n) \<subseteq> taken_space p' \<and> (\<forall>x\<in>live h. payload (ptr, n) \<inter> payload x = {}))"
proof (cases "ptr = 0")
  case True
  with kmalloc_effect [OF assms] show ?thesis by simp
next
  case False
  with kmalloc_effect [OF assms] obtain n where n: "heap_ok p' h'" "n \<ge> sz" "(ptr, n) \<notin> live h"
    "live h' = insert (ptr, n) (live h)" by auto
  have "(ptr, n) \<in> live h'" using n(4) by simp
  then have "unat ptr mod 16 = 0" "payload (ptr, n) \<subseteq> taken_space p'" by (rule live_block [OF n(1)], simp) (rule live_taken [OF n(1)], simp add: n(4))
  moreover have "payload (ptr, n) \<inter> payload x = {}" if "x \<in> live h" for x
    using live_disjoint [OF n(1), of "(ptr, n)" x] that n(3,4) by auto
  ultimately have "payload (ptr, n) \<subseteq> taken_space p'" "\<forall>x\<in>live h. payload (ptr, n) \<inter> payload x = {}"
    "unat ptr mod 16 = 0" by blast+
  then show ?thesis using False n(1,2,4) by (simp only: if_False) blast
qed

lemma kheap_demo:
  "fst (kmalloc 100 (pmm_init 0x40000000 0x3000) kheap_empty) = 0x40000030"
  "fst (kmalloc 20000 (pmm_init 0x40000000 0x3000) kheap_empty) = 0"
  by code_simp+

theorem kmalloc_correct_witness:
  "(\<exists>p' h'. kmalloc 100 (pmm_init 0x40000000 0x3000) kheap_empty = (0x40000030, p', h') \<and> (\<exists>n\<ge>100. live h' = {(0x40000030, n)})) \<and>
   (\<exists>p' h'. kmalloc 20000 (pmm_init 0x40000000 0x3000) kheap_empty = (0, p', h') \<and> no_memory 20000 p' h')"
proof -
  let ?p = "pmm_init 0x40000000 0x3000"
  note ok = kheap_empty_ok(1) [OF pmm_demo(1)]
  obtain p' h' where e: "kmalloc 100 ?p kheap_empty = (0x40000030, p', h')" using kheap_demo(1) by (metis prod.collapse)
  obtain q k where f: "kmalloc 20000 ?p kheap_empty = (0, q, k)" using kheap_demo(2) by (metis prod.collapse)
  from kmalloc_correct [OF ok e] kmalloc_correct [OF ok f] e f kheap_empty_ok(2) show ?thesis by auto
qed

text \<open>C24 Over any sequence of \<open>kmalloc\<close> and \<open>kfree\<close> calls of a client that frees only what it holds, from any well-formed heap, the
  empty one included: after every prefix, and so at every moment, all payloads handed out are pairwise disjoint and lie in pages the
  heap took from the page allocator; a payload stays handed out, with its address and size, as long as it is not freed; and whatever
  is handed out was so at the start or was asked for in the sequence, with at least the size asked for.\<close>

theorem kheap_run_safe:
  assumes "heap_ok p h" and "kh.behaved (ops @ rest) (p, h)"
  shows "let (p', h') = fold kh.step ops (p, h)
     in (\<forall>y\<in>live h'. payload y \<subseteq> taken_space p' \<and> (\<forall>z\<in>live h'. y \<noteq> z \<longrightarrow> payload y \<inter> payload z = {})) \<and>
        (\<forall>x\<in>live h. Free (fst x) \<notin> set ops \<longrightarrow> x \<in> live h') \<and>
        (\<forall>y\<in>live h'. y \<in> live h \<or> (\<exists>n. n \<le> snd y \<and> Alloc n \<in> set ops))"
proof -
  have b: "kh.behaved ops (p, h)" by (rule kh.behaved_prefix [OF assms(2)])
  obtain p' h' where e: "fold kh.step ops (p, h) = (p', h')" by fastforce
  have ok: "heap_ok p' h'" using kh.run_ok [OF _ b] assms(1) e by simp
  have "payload y \<subseteq> taken_space p'" if "y \<in> live h'" for y by (rule live_taken [OF ok that])
  then show ?thesis using kh.run_keeps [OF _ b] kh.run_disjoint [OF _ b] kh.run_origin [OF _ b] assms(1) by (simp add: e)
qed

lemma kheap_run_demo:
  "let s = snd (heap_alloc 24 (snd (heap_alloc 100 (pmm_init 0x40000000 0x3000, kheap_empty))))
   in map hb_addr (filter (\<lambda>b. \<not> hb_free b) (g_heap (snd s))) = [0x40000000, 0x400000a0] \<and>
      map hb_size (filter (\<lambda>b. \<not> hb_free b) (g_heap (snd (heap_release 0x40000030 s)))) = [32] \<and>
      map hb_addr (filter (\<lambda>b. \<not> hb_free b) (g_heap (snd (heap_release 0x40000030 s)))) = [0x400000a0]"
  by code_simp

lemma live_filter: "live h = set (map (\<lambda>b. (hb_addr b + 48, hb_size b)) (filter (\<lambda>b. \<not> hb_free b) (g_heap h)))"
  by (auto simp: live_def live_of_def)

theorem kheap_run_safe_witness:
  "case fold kh.step [Alloc 100, Alloc 24, Free 0x40000030] (pmm_init 0x40000000 0x3000, kheap_empty) of
     (p, h) \<Rightarrow> live h = {(0x400000d0, 32)} \<and> payload (0x400000d0, 32) \<subseteq> taken_space p"
proof -
  let ?s = "(pmm_init 0x40000000 0x3000, kheap_empty)" and ?ops = "[Alloc 100, Alloc 24, Free 0x40000030]"
  obtain p h where e: "fold kh.step ?ops ?s = (p, h)" by fastforce
  define t where "t = snd (heap_alloc 24 (snd (heap_alloc 100 ?s)))"
  have t: "map hb_addr (filter (\<lambda>b. \<not> hb_free b) (g_heap (snd t))) = [0x40000000, 0x400000a0]"
    "map hb_size (filter (\<lambda>b. \<not> hb_free b) (g_heap h)) = [32]" "map hb_addr (filter (\<lambda>b. \<not> hb_free b) (g_heap h)) = [0x400000a0]"
    using kheap_run_demo e by (simp_all add: Let_def t_def)
  obtain z za where z: "filter (\<lambda>b. \<not> hb_free b) (g_heap (snd t)) = [z, za]" "hb_addr z = 0x40000000"
    using t(1) by (auto simp: map_eq_Cons_conv)
  obtain y where y: "filter (\<lambda>b. \<not> hb_free b) (g_heap h) = [y]" "hb_addr y = 0x400000a0" "hb_size y = 32"
    using t(2,3) by (auto simp: map_eq_Cons_conv)
  have "(0x40000030, hb_size z) \<in> live (snd t)" unfolding live_filter z(1) using z(2) by simp
  then have "\<exists>m. (0x40000030, m) \<in> live (snd t)" ..
  then have "kh.behaved (?ops @ []) ?s" by (simp add: t_def)
  moreover have "live h = {(0x400000d0, 32)}" unfolding live_filter y(1) using y(2,3) by simp
  ultimately show ?thesis using kheap_run_safe [OF kheap_empty_ok(1) [OF pmm_demo(1)], of ?ops "[]"] by (simp only: e Let_def prod.case) simp
qed

end
