(* ===== verification/Gui.thy ===== *)
theory Gui
  imports Ring Kheap
begin

text \<open>
  The window system without its drawing: the event queue of a window (\<open>kernel/gui_events.c\<close>), hit testing
  (\<open>kernel/gui_input.c\<close>), damage tracking (\<open>kernel/gui_compositor.c\<close>), the cursor (\<open>kernel/gui_cursor.c\<close>), the backing buffers
  (\<open>kernel/gui_backing.c\<close>) and the window pool (\<open>kernel/gui_pool.c\<close>).

  The kernel has one desktop, \<open>g_gui_desktop\<close>; its fields, the flags \<open>g_gui_dirty\<close> and \<open>g_gui_active\<close> and the kernel heap that
  holds the backing buffers are the record \<open>gui\<close>. A null desktop pointer, which \<open>gui_desktop\<close> returns while the
  GUI is not active, is the caller's case. A window pointer is the window's index. \<open>int32_t\<close> values are
  integers (signed overflow is undefined in C and the model computes the exact sum); a cast of a \<open>uint32_t\<close> to \<open>int32_t\<close> is
  \<open>sint\<close>, a widening to \<open>int64_t\<close> is \<open>uint\<close>. The damage list is the used part of the array.
\<close>

abbreviation GUI_MAX_WINDOWS :: nat where "GUI_MAX_WINDOWS \<equiv> 16"
abbreviation GUI_NO_WINDOW :: u32 where "GUI_NO_WINDOW \<equiv> 0xffffffff"
abbreviation GUI_NO_OWNER :: u32 where "GUI_NO_OWNER \<equiv> 0xffffffff"
abbreviation GUI_TITLE_LEN :: nat where "GUI_TITLE_LEN \<equiv> 32"
abbreviation GUI_DAMAGE_MAX :: nat where "GUI_DAMAGE_MAX \<equiv> 32"
abbreviation GUI_EVENT_QUEUE_SIZE :: nat where "GUI_EVENT_QUEUE_SIZE \<equiv> 32"
abbreviation GUI_MAX_CURSOR_REGIONS :: nat where "GUI_MAX_CURSOR_REGIONS \<equiv> 8"
abbreviation GUI_CURSOR_REGION_DELETE :: u32 where "GUI_CURSOR_REGION_DELETE \<equiv> 0xffffffff"
abbreviation GUI_CURSOR_W :: int where "GUI_CURSOR_W \<equiv> 16"
abbreviation GUI_CURSOR_H :: int where "GUI_CURSOR_H \<equiv> 16"
abbreviation GUI_WINDOW_NO_FOCUS :: u32 where "GUI_WINDOW_NO_FOCUS \<equiv> 1"
abbreviation GUI_WINDOW_NO_DRAG :: u32 where "GUI_WINDOW_NO_DRAG \<equiv> 2"
abbreviation GUI_WINDOW_SKIP_TASKBAR :: u32 where "GUI_WINDOW_SKIP_TASKBAR \<equiv> 4"
abbreviation GUI_WINDOW_DOCK :: u32 where "GUI_WINDOW_DOCK \<equiv> 8"
abbreviation GUI_EVENT_KEY_PRESS :: u32 where "GUI_EVENT_KEY_PRESS \<equiv> 1"
abbreviation GUI_EVENT_KEY_RELEASE :: u32 where "GUI_EVENT_KEY_RELEASE \<equiv> 2"
abbreviation GUI_EVENT_MOUSE_CLICK :: u32 where "GUI_EVENT_MOUSE_CLICK \<equiv> 3"
abbreviation GUI_EVENT_MOUSE_MOVE :: u32 where "GUI_EVENT_MOUSE_MOVE \<equiv> 4"
abbreviation GUI_EVENT_RESIZE :: u32 where "GUI_EVENT_RESIZE \<equiv> 5"
abbreviation GUI_EVENT_CLOSE :: u32 where "GUI_EVENT_CLOSE \<equiv> 6"
abbreviation GUI_EVENT_MINIMIZE :: u32 where "GUI_EVENT_MINIMIZE \<equiv> 7"
abbreviation GUI_EVENT_MAXIMIZE :: u32 where "GUI_EVENT_MAXIMIZE \<equiv> 8"
abbreviation GUI_CURSOR_ARROW :: u32 where "GUI_CURSOR_ARROW \<equiv> 0"
abbreviation GUI_CURSOR_HAND :: u32 where "GUI_CURSOR_HAND \<equiv> 1"

record gui_event =
  ev_type :: u32
  ev_data1 :: int
  ev_data2 :: int

record cursor_region =
  cr_x :: int
  cr_y :: int
  cr_w :: int
  cr_h :: int
  cr_shape :: u32
  cr_used :: bool

record gui_window =
  gw_x :: u32
  gw_y :: u32
  gw_w :: u32
  gw_h :: u32
  gw_bg_color :: u32
  gw_border_color :: u32
  gw_owner_pid :: u32
  gw_z :: u32
  gw_flags :: u32
  gw_title_h :: u32
  gw_title :: string
  gw_events :: "gui_event list"
  gw_event_head :: nat
  gw_event_tail :: nat
  gw_event_count :: nat
  gw_used :: bool
  gw_owner_drawn :: bool
  gw_minimized :: bool
  gw_backing :: u64
  gw_backing_capacity :: u32
  gw_pixels :: "nat \<Rightarrow> u32"
  gw_cursor_regions :: "cursor_region list"

record gui_cursor =
  cur_x :: int
  cur_y :: int
  cur_prev_x :: int
  cur_prev_y :: int
  cur_buttons_mask :: u8
  cur_visible :: bool
  cur_shape :: u8

record damage_rect =
  dr_x :: int
  dr_y :: int
  dr_w :: int
  dr_h :: int

record gui =
  gd_fb :: "(u32 \<times> u32) option"
  gd_background_color :: u32
  gd_focused_window_id :: u32
  gd_next_z :: u32
  gd_drag_window_id :: u32
  gd_drag_off_x :: int
  gd_drag_off_y :: int
  gd_windows :: "gui_window list"
  gd_cursor :: gui_cursor
  gd_damage_rects :: "damage_rect list"
  gd_damage_full :: bool
  g_gui_dirty :: bool
  g_gui_active :: bool
  gui_heap :: kheap

section \<open>Window events\<close>

definition gui_window_push_event :: "u32 \<Rightarrow> int \<Rightarrow> int \<Rightarrow> gui_window \<Rightarrow> bool \<times> gui_window" where
  "gui_window_push_event typ d1 d2 w =
     (if \<not> gw_used w then (False, w)
      else
        (let prev = (if gw_event_tail w = 0 then GUI_EVENT_QUEUE_SIZE - 1 else gw_event_tail w - 1)
         in if typ = GUI_EVENT_MOUSE_MOVE \<and> gw_event_count w > 0 \<and>
               ev_type (gw_events w ! prev) = GUI_EVENT_MOUSE_MOVE
            then (True, w\<lparr>gw_events := (gw_events w)[prev :=
                     (gw_events w ! prev)\<lparr>ev_data1 := d1, ev_data2 := d2\<rparr>]\<rparr>)
            else if gw_event_count w \<ge> GUI_EVENT_QUEUE_SIZE \<and> typ = GUI_EVENT_MOUSE_MOVE then (True, w)
            else
              (let w1 = (if gw_event_count w \<ge> GUI_EVENT_QUEUE_SIZE
                         then w\<lparr>gw_event_head := (gw_event_head w + 1) mod GUI_EVENT_QUEUE_SIZE,
                                gw_event_count := gw_event_count w - 1\<rparr>
                         else w)
               in (True, w1\<lparr>gw_events := (gw_events w1)[gw_event_tail w1 :=
                               \<lparr>ev_type = typ, ev_data1 = d1, ev_data2 = d2\<rparr>],
                            gw_event_tail := (gw_event_tail w1 + 1) mod GUI_EVENT_QUEUE_SIZE,
                            gw_event_count := gw_event_count w1 + 1\<rparr>))))"

definition gui_window_pop_event :: "gui_window \<Rightarrow> (gui_event \<times> gui_window) option" where
  "gui_window_pop_event w =
     (if \<not> gw_used w \<or> gw_event_count w = 0 then None
      else Some (gw_events w ! gw_event_head w,
             w\<lparr>gw_event_head := (gw_event_head w + 1) mod GUI_EVENT_QUEUE_SIZE,
               gw_event_count := gw_event_count w - 1\<rparr>))"

section \<open>Hit testing\<close>

definition gui_window_contains :: "gui_window \<Rightarrow> int \<Rightarrow> int \<Rightarrow> bool" where
  "gui_window_contains w x y \<longleftrightarrow> gw_used w \<and>
     x \<ge> sint (gw_x w) \<and> x < uint (gw_x w) + uint (gw_w w) \<and>
     y \<ge> sint (gw_y w) \<and> y < uint (gw_y w) + uint (gw_h w)"

definition hit_step :: "gui_window list \<Rightarrow> int \<Rightarrow> int \<Rightarrow> nat \<Rightarrow> nat option \<times> u32 \<Rightarrow> nat option \<times> u32" where
  "hit_step ws x y i b =
     (if gui_window_contains (ws ! i) x y \<and> (fst b = None \<or> gw_z (ws ! i) \<ge> snd b)
      then (Some i, gw_z (ws ! i)) else b)"

definition gui_hit_test :: "int \<Rightarrow> int \<Rightarrow> gui \<Rightarrow> nat option" where
  "gui_hit_test x y g = fst (fold (hit_step (gd_windows g) x y) [0..<GUI_MAX_WINDOWS] (None, 0))"

section \<open>Damage\<close>

function damage_merge :: "nat \<Rightarrow> damage_rect list \<Rightarrow> damage_rect \<Rightarrow> damage_rect list \<times> damage_rect" where
  "damage_merge i rs d =
     (if i < length rs
      then
        (let r = rs ! i; ax1 = dr_x d + dr_w d; ay1 = dr_y d + dr_h d;
             bx1 = dr_x r + dr_w r; by1 = dr_y r + dr_h r
         in if dr_x d \<le> bx1 \<and> ax1 \<ge> dr_x r \<and> dr_y d \<le> by1 \<and> ay1 \<ge> dr_y r
            then
              (let nx0 = (if dr_x d < dr_x r then dr_x d else dr_x r);
                   ny0 = (if dr_y d < dr_y r then dr_y d else dr_y r);
                   nx1 = (if ax1 > bx1 then ax1 else bx1);
                   ny1 = (if ay1 > by1 then ay1 else by1)
               in damage_merge i (take i rs @ drop (Suc i) rs)
                    \<lparr>dr_x = nx0, dr_y = ny0, dr_w = nx1 - nx0, dr_h = ny1 - ny0\<rparr>)
            else damage_merge (i + 1) rs d)
      else (rs, d))"
  by pat_completeness auto
termination
  by (relation "measure (\<lambda>(i, rs, d). length rs - i)") auto

declare damage_merge.simps [simp del]

definition damage_clip :: "int \<Rightarrow> int \<Rightarrow> int \<Rightarrow> int \<Rightarrow> int \<Rightarrow> int \<Rightarrow> damage_rect option" where
  "damage_clip fb_w fb_h x y w h =
     (let w1 = (if x < 0 then w + x else w); x1 = (if x < 0 then 0 else x);
          h1 = (if y < 0 then h + y else h); y1 = (if y < 0 then 0 else y)
      in if x1 \<ge> fb_w \<or> y1 \<ge> fb_h then None
         else
           (let w2 = (if x1 + w1 > fb_w then fb_w - x1 else w1);
                h2 = (if y1 + h1 > fb_h then fb_h - y1 else h1)
            in if w2 \<le> 0 \<or> h2 \<le> 0 then None
               else Some \<lparr>dr_x = x1, dr_y = y1, dr_w = w2, dr_h = h2\<rparr>))"

definition damage_insert :: "int \<Rightarrow> int \<Rightarrow> damage_rect \<Rightarrow> gui \<Rightarrow> gui" where
  "damage_insert fb_w fb_h d g =
     (if dr_x d = 0 \<and> dr_y d = 0 \<and> dr_w d = fb_w \<and> dr_h d = fb_h
      then g\<lparr>gd_damage_full := True, gd_damage_rects := []\<rparr>
      else
        (case damage_merge 0 (gd_damage_rects g) d of
           (rs, d') \<Rightarrow>
             if length rs \<ge> GUI_DAMAGE_MAX
             then g\<lparr>gd_damage_full := True, gd_damage_rects := []\<rparr>
             else g\<lparr>gd_damage_rects := rs @ [d'], g_gui_dirty := True\<rparr>))"

definition gui_damage_add :: "int \<Rightarrow> int \<Rightarrow> int \<Rightarrow> int \<Rightarrow> gui \<Rightarrow> gui" where
  "gui_damage_add x y w h g =
     (case gd_fb g of
        None \<Rightarrow> g
      | Some (fw, fh) \<Rightarrow>
          if gd_damage_full g then g
          else if w \<le> 0 \<or> h \<le> 0 then g
          else
            (case damage_clip (sint fw) (sint fh) x y w h of
               None \<Rightarrow> g
             | Some d \<Rightarrow> damage_insert (sint fw) (sint fh) d g))"

definition gui_damage_add_full :: "gui \<Rightarrow> gui" where
  "gui_damage_add_full g = g\<lparr>gd_damage_full := True, gd_damage_rects := [], g_gui_dirty := True\<rparr>"

definition gui_damage_clear :: "gui \<Rightarrow> gui" where
  "gui_damage_clear g = g\<lparr>gd_damage_full := False, gd_damage_rects := []\<rparr>"

definition gui_is_dirty :: "gui \<Rightarrow> bool" where
  "gui_is_dirty g = g_gui_dirty g"

definition gui_clear_dirty :: "gui \<Rightarrow> gui" where
  "gui_clear_dirty g =
     (let g1 = g\<lparr>g_gui_dirty := False\<rparr> in if g_gui_active g1 then gui_damage_clear g1 else g1)"

definition gui_request_redraw :: "gui \<Rightarrow> gui" where
  "gui_request_redraw g =
     (let g1 = g\<lparr>g_gui_dirty := True\<rparr> in if g_gui_active g1 then gui_damage_add_full g1 else g1)"

section \<open>Cursor shape\<close>

definition gui_cursor_region_contains :: "gui_window \<Rightarrow> nat \<Rightarrow> int \<Rightarrow> int \<Rightarrow> bool" where
  "gui_cursor_region_contains w slot cx cy =
     (let r = gw_cursor_regions w ! slot
      in if cr_w r \<le> 0 \<or> cr_h r \<le> 0 then False
         else cx \<ge> cr_x r \<and> cx < cr_x r + cr_w r \<and> cy \<ge> cr_y r \<and> cy < cr_y r + cr_h r)"

definition gui_refresh_cursor_shape :: "gui \<Rightarrow> gui" where
  "gui_refresh_cursor_shape g =
     (let c = gd_cursor g; set_shape = (\<lambda>s. g\<lparr>gd_cursor := c\<lparr>cur_shape := s\<rparr>\<rparr>)
      in case gui_hit_test (cur_x c) (cur_y c) g of
           None \<Rightarrow> set_shape (ucast GUI_CURSOR_ARROW)
         | Some hit \<Rightarrow>
             (let w = gd_windows g ! hit;
                  content_x = cur_x c - sint (gw_x w);
                  content_y = cur_y c - (sint (gw_y w) + sint (gw_title_h w))
              in case first_index GUI_MAX_CURSOR_REGIONS (\<lambda>i. cr_used (gw_cursor_regions w ! i) \<and>
                        gui_cursor_region_contains w i content_x content_y) of
                   Some i \<Rightarrow> set_shape (ucast (cr_shape (gw_cursor_regions w ! i)))
                 | None \<Rightarrow>
                     if gw_title_h w > 0 \<and> gw_title w \<noteq> [] \<and> cur_y c \<ge> sint (gw_y w) \<and>
                        cur_y c < sint (gw_y w + gw_title_h w)
                     then set_shape (ucast GUI_CURSOR_HAND)
                     else set_shape (ucast GUI_CURSOR_ARROW)))"

definition gui_get_cursor :: "gui \<Rightarrow> int \<times> int" where
  "gui_get_cursor g = (cur_x (gd_cursor g), cur_y (gd_cursor g))"

definition gui_set_cursor_shape :: "u32 \<Rightarrow> gui \<Rightarrow> bool \<times> gui" where
  "gui_set_cursor_shape shape g =
     (if shape \<noteq> GUI_CURSOR_ARROW \<and> shape \<noteq> GUI_CURSOR_HAND then (False, g)
      else (True, g\<lparr>gd_cursor := (gd_cursor g)\<lparr>cur_shape := ucast shape\<rparr>\<rparr>))"

definition set_window :: "nat \<Rightarrow> (gui_window \<Rightarrow> gui_window) \<Rightarrow> gui \<Rightarrow> gui" where
  "set_window i f g = g\<lparr>gd_windows := (gd_windows g)[i := f (gd_windows g ! i)]\<rparr>"

definition gui_register_cursor_region ::
    "u32 \<Rightarrow> u32 \<Rightarrow> int \<Rightarrow> int \<Rightarrow> u32 \<Rightarrow> u32 \<Rightarrow> u32 \<Rightarrow> gui \<Rightarrow> bool \<times> gui" where
  "gui_register_cursor_region window_id slot x y w h shape g =
     (if window_id \<ge> of_nat GUI_MAX_WINDOWS \<or> slot \<ge> of_nat GUI_MAX_CURSOR_REGIONS then (False, g)
      else
        (let wi = unat window_id; si = unat slot;
             put = (\<lambda>r. set_window wi (\<lambda>v. v\<lparr>gw_cursor_regions := (gw_cursor_regions v)[si := r]\<rparr>) g);
             refresh = (\<lambda>g'. if window_id = gd_focused_window_id g' then gui_refresh_cursor_shape g' else g')
         in if \<not> gw_used (gd_windows g ! wi) then (False, g)
            else if shape = GUI_CURSOR_REGION_DELETE
            then (True, refresh (put \<lparr>cr_x = 0, cr_y = 0, cr_w = 0, cr_h = 0, cr_shape = 0, cr_used = False\<rparr>))
            else if shape \<noteq> GUI_CURSOR_ARROW \<and> shape \<noteq> GUI_CURSOR_HAND then (False, g)
            else if w = 0 \<or> h = 0 \<or> w > 0x7fffffff \<or> h > 0x7fffffff then (False, g)
            else (True, refresh (put \<lparr>cr_x = x, cr_y = y, cr_w = sint w, cr_h = sint h, cr_shape = shape, cr_used = True\<rparr>))))"

definition union_rect :: "int \<Rightarrow> int \<Rightarrow> int \<Rightarrow> int \<Rightarrow> int \<Rightarrow> int \<Rightarrow> int \<Rightarrow> int \<Rightarrow> gui \<Rightarrow> gui" where
  "union_rect old_x old_y old_w old_h new_x new_y new_w new_h g =
     (let ux0 = (if old_x < new_x then old_x else new_x);
          uy0 = (if old_y < new_y then old_y else new_y);
          ux1 = (if old_x + old_w > new_x + new_w then old_x + old_w else new_x + new_w);
          uy1 = (if old_y + old_h > new_y + new_h then old_y + old_h else new_y + new_h)
      in gui_damage_add ux0 uy0 (ux1 - ux0) (uy1 - uy0) g)"

definition gui_set_cursor :: "int \<Rightarrow> int \<Rightarrow> gui \<Rightarrow> gui" where
  "gui_set_cursor x y g =
     (case gd_fb g of
        None \<Rightarrow> g
      | Some (fw, fh) \<Rightarrow>
          (let x0 = (if x < 0 then 0 else x); y0 = (if y < 0 then 0 else y);
               x1 = (if (of_int x0 :: u32) \<ge> fw then sint fw - 1 else x0);
               y1 = (if (of_int y0 :: u32) \<ge> fh then sint fh - 1 else y0);
               prev_x = cur_x (gd_cursor g); prev_y = cur_y (gd_cursor g);
               g1 = gui_refresh_cursor_shape (g\<lparr>gd_cursor := (gd_cursor g)
                      \<lparr>cur_prev_x := prev_x, cur_prev_y := prev_y, cur_x := x1, cur_y := y1\<rparr>\<rparr>)
           in union_rect prev_x prev_y GUI_CURSOR_W GUI_CURSOR_H x1 y1 GUI_CURSOR_W GUI_CURSOR_H g1))"

definition gui_cursor_move :: "int \<Rightarrow> int \<Rightarrow> gui \<Rightarrow> gui" where
  "gui_cursor_move dx dy g = gui_set_cursor (cur_x (gd_cursor g) + dx) (cur_y (gd_cursor g) + dy) g"

definition gui_drag_start :: "u32 \<Rightarrow> int \<Rightarrow> int \<Rightarrow> gui \<Rightarrow> gui" where
  "gui_drag_start window_id off_x off_y g =
     (if window_id \<ge> of_nat GUI_MAX_WINDOWS \<or> \<not> gw_used (gd_windows g ! unat window_id) then g
      else
        (let w = gd_windows g ! unat window_id
         in if gw_flags w AND GUI_WINDOW_NO_DRAG \<noteq> 0 then g
            else if gw_title_h w > 0 \<and> (off_y < 0 \<or> (of_int off_y :: u32) \<ge> gw_title_h w) then g
            else g\<lparr>gd_drag_window_id := window_id, gd_drag_off_x := off_x, gd_drag_off_y := off_y\<rparr>))"

definition gui_drag_update :: "int \<Rightarrow> int \<Rightarrow> gui \<Rightarrow> gui" where
  "gui_drag_update cursor_x cursor_y g =
     (if gd_drag_window_id g = GUI_NO_WINDOW then g
      else
        (let i = unat (gd_drag_window_id g); w = gd_windows g ! i
         in if \<not> gw_used w then g\<lparr>gd_drag_window_id := GUI_NO_WINDOW\<rparr>
            else
              (let dx = cursor_x - gd_drag_off_x g; dy = cursor_y - gd_drag_off_y g;
                   new_x = (if dx < 0 then 0 else dx); new_y = (if dy < 0 then 0 else dy);
                   g1 = gui_refresh_cursor_shape
                          (set_window i (\<lambda>v. v\<lparr>gw_x := of_int new_x, gw_y := of_int new_y\<rparr>) g)
               in union_rect (sint (gw_x w)) (sint (gw_y w)) (sint (gw_w w)) (sint (gw_h w))
                    new_x new_y (sint (gw_w w)) (sint (gw_h w)) g1)))"

definition gui_drag_end :: "gui \<Rightarrow> gui" where
  "gui_drag_end g = g\<lparr>gd_drag_window_id := GUI_NO_WINDOW\<rparr>"

section \<open>Backing buffers\<close>

definition gui_content_h :: "gui_window \<Rightarrow> u32" where
  "gui_content_h w = (if gw_h w > gw_title_h w then gw_h w - gw_title_h w else 0)"

definition gui_window_backing_size :: "gui_window \<Rightarrow> u32 option" where
  "gui_window_backing_size w =
     (if gw_w w = 0 \<or> gw_h w = 0 then None
      else if gui_content_h w = 0 then None
      else
        (let bytes = ucast (gw_w w) * ucast (gui_content_h w) * (4 :: u64)
         in if bytes > 0xffffffff then None else Some (ucast bytes)))"

definition gui_backing_fill :: "gui_window \<Rightarrow> gui_window" where
  "gui_backing_fill w =
     w\<lparr>gw_pixels := (\<lambda>i. if i < unat (gw_w w) * unat (gui_content_h w) then gw_bg_color w else gw_pixels w i)\<rparr>"

definition gui_window_alloc_backing ::
    "u32 \<Rightarrow> gui_window \<Rightarrow> pmm \<Rightarrow> kheap \<Rightarrow> bool \<times> gui_window \<times> pmm \<times> kheap" where
  "gui_window_alloc_backing needed_bytes w p h =
     (case kmalloc (ucast needed_bytes) p h of (new_backing, p1, h1) \<Rightarrow>
        if new_backing = 0 then (False, w, p1, h1)
        else
          (let h2 = (if gw_backing w \<noteq> 0 then kfree (gw_backing w) h1 else h1)
           in (True, (gui_backing_fill w)\<lparr>gw_backing := new_backing, gw_backing_capacity := needed_bytes\<rparr>, p1, h2)))"

definition gui_window_ensure_backing :: "gui_window \<Rightarrow> pmm \<Rightarrow> kheap \<Rightarrow> bool \<times> gui_window \<times> pmm \<times> kheap" where
  "gui_window_ensure_backing w p h =
     (case gui_window_backing_size w of
        None \<Rightarrow> (False, w, p, h)
      | Some needed \<Rightarrow>
          if gw_backing w \<noteq> 0 \<and> gw_backing_capacity w \<ge> needed then (True, w, p, h)
          else gui_window_alloc_backing needed w p h)"

definition gui_window_reset_backing :: "gui_window \<Rightarrow> pmm \<Rightarrow> kheap \<Rightarrow> bool \<times> gui_window \<times> pmm \<times> kheap" where
  "gui_window_reset_backing w p h =
     (case gui_window_backing_size w of
        None \<Rightarrow> (False, w, p, h)
      | Some needed \<Rightarrow>
          if gw_backing w \<noteq> 0 \<and> gw_backing_capacity w \<ge> needed then (True, gui_backing_fill w, p, h)
          else gui_window_alloc_backing needed w p h)"

definition gui_window_free_backing :: "gui_window \<Rightarrow> kheap \<Rightarrow> gui_window \<times> kheap" where
  "gui_window_free_backing w h =
     (if gw_backing w = 0 then (w, h)
      else (w\<lparr>gw_backing := 0, gw_backing_capacity := 0, gw_owner_drawn := False\<rparr>, kfree (gw_backing w) h))"

section \<open>Window pool\<close>

definition gui_window_effective_flags :: "gui_window \<Rightarrow> u32" where
  "gui_window_effective_flags w = (if \<not> gw_used w then 0 else gw_flags w)"

definition gui_rect_fits_framebuffer :: "(u32 \<times> u32) option \<Rightarrow> u32 \<Rightarrow> u32 \<Rightarrow> u32 \<Rightarrow> u32 \<Rightarrow> bool" where
  "gui_rect_fits_framebuffer fb x y w h =
     (case fb of
        None \<Rightarrow> False
      | Some (fw, fh) \<Rightarrow>
          if w = 0 \<or> h = 0 \<or> x \<ge> fw \<or> y \<ge> fh then False
          else w \<le> fw - x \<and> h \<le> fh - y)"

definition gui_apply_builtin_policy :: "gui_window \<Rightarrow> gui_window" where
  "gui_apply_builtin_policy w =
     (if \<not> gw_used w then w
      else if cstr_loop_eq (gw_title w) ''panel''
      then w\<lparr>gw_flags := gw_flags w OR (GUI_WINDOW_DOCK OR GUI_WINDOW_NO_FOCUS OR GUI_WINDOW_NO_DRAG OR
               GUI_WINDOW_SKIP_TASKBAR)\<rparr>
      else w)"

definition gui_window_set_title :: "string option \<Rightarrow> gui_window \<Rightarrow> gui_window" where
  "gui_window_set_title title w =
     w\<lparr>gw_title := (case title of None \<Rightarrow> [] | Some t \<Rightarrow> take (GUI_TITLE_LEN - 1) t)\<rparr>"

definition gui_window_lookup :: "u32 \<Rightarrow> gui \<Rightarrow> nat option" where
  "gui_window_lookup window_id g =
     (if window_id \<ge> of_nat GUI_MAX_WINDOWS \<or> \<not> gw_used (gd_windows g ! unat window_id) then None
      else Some (unat window_id))"

definition no_region :: cursor_region where
  "no_region = \<lparr>cr_x = 0, cr_y = 0, cr_w = 0, cr_h = 0, cr_shape = 0, cr_used = False\<rparr>"

definition gui_create_window_for_pid ::
    "u32 \<Rightarrow> u32 \<Rightarrow> u32 \<Rightarrow> u32 \<Rightarrow> u32 \<Rightarrow> u32 \<Rightarrow> u32 \<Rightarrow> string option \<Rightarrow> gui \<Rightarrow> nat option \<times> gui" where
  "gui_create_window_for_pid owner_pid x y w h bg_color border_color title g =
     (case gd_fb g of
        None \<Rightarrow> (None, g)
      | Some (fw, fh) \<Rightarrow>
          if w < 2 \<or> h < 2 \<or> x \<ge> fw \<or> y \<ge> fh then (None, g)
          else
            (case first_index GUI_MAX_WINDOWS (\<lambda>i. \<not> gw_used (gd_windows g ! i)) of
               None \<Rightarrow> (None, g)
             | Some i \<Rightarrow>
                 (let win = gui_apply_builtin_policy
                        ((gui_window_set_title title
                           ((gd_windows g ! i)\<lparr>gw_x := x, gw_y := y, gw_w := w, gw_h := h, gw_bg_color := bg_color,
                              gw_border_color := border_color, gw_owner_pid := owner_pid, gw_z := gd_next_z g,
                              gw_flags := 0, gw_title_h := 0, gw_event_head := 0, gw_event_tail := 0,
                              gw_event_count := 0, gw_owner_drawn := False, gw_backing := 0,
                              gw_backing_capacity := 0,
                              gw_cursor_regions := replicate GUI_MAX_CURSOR_REGIONS no_region\<rparr>))
                         \<lparr>gw_used := True, gw_minimized := False\<rparr>);
                      g1 = g\<lparr>gd_windows := (gd_windows g)[i := win], gd_next_z := gd_next_z g + 1\<rparr>;
                      g2 = (if gd_focused_window_id g1 = GUI_NO_WINDOW \<and> gw_flags win AND GUI_WINDOW_NO_FOCUS = 0
                            then g1\<lparr>gd_focused_window_id := of_nat i\<rparr> else g1)
                  in (Some i, gui_damage_add (sint x) (sint y) (sint w) (sint h) (gui_refresh_cursor_shape g2)))))"

definition gui_create_window ::
    "u32 \<Rightarrow> u32 \<Rightarrow> u32 \<Rightarrow> u32 \<Rightarrow> u32 \<Rightarrow> u32 \<Rightarrow> gui \<Rightarrow> nat option \<times> gui" where
  "gui_create_window x y w h bg_color border_color g =
     gui_create_window_for_pid GUI_NO_OWNER x y w h bg_color border_color None g"

definition focusable :: "gui_window \<Rightarrow> bool" where
  "focusable w \<longleftrightarrow> gw_used w \<and> gw_flags w AND GUI_WINDOW_NO_FOCUS = 0"

definition gui_focus_window_ensure :: "gui \<Rightarrow> bool \<times> gui" where
  "gui_focus_window_ensure g =
     (if gd_focused_window_id g \<noteq> GUI_NO_WINDOW \<and> gd_focused_window_id g < of_nat GUI_MAX_WINDOWS \<and>
         focusable (gd_windows g ! unat (gd_focused_window_id g))
      then (True, g)
      else case first_index GUI_MAX_WINDOWS (\<lambda>i. focusable (gd_windows g ! i)) of
          Some i \<Rightarrow> (True, g\<lparr>gd_focused_window_id := of_nat i\<rparr>)
        | None \<Rightarrow> (False, g\<lparr>gd_focused_window_id := GUI_NO_WINDOW\<rparr>))"

definition gui_destroy_window :: "u32 \<Rightarrow> gui \<Rightarrow> bool \<times> gui" where
  "gui_destroy_window window_id g =
     (if window_id \<ge> of_nat GUI_MAX_WINDOWS \<or> \<not> gw_used (gd_windows g ! unat window_id) then (False, g)
      else
        (let i = unat window_id; w = gd_windows g ! i;
             (w1, h1) = gui_window_free_backing w (gui_heap g);
             w2 = gui_window_set_title None
                    (w1\<lparr>gw_x := 0, gw_y := 0, gw_w := 0, gw_h := 0, gw_bg_color := 0, gw_border_color := 0,
                       gw_owner_pid := GUI_NO_OWNER, gw_z := 0, gw_flags := 0, gw_title_h := 0,
                       gw_event_head := 0, gw_event_tail := 0, gw_event_count := 0, gw_used := False,
                       gw_owner_drawn := False, gw_cursor_regions := replicate GUI_MAX_CURSOR_REGIONS no_region\<rparr>);
             g1 = g\<lparr>gd_windows := (gd_windows g)[i := w2], gui_heap := h1\<rparr>;
             g2 = (if gd_focused_window_id g1 = window_id
                   then snd (gui_focus_window_ensure (g1\<lparr>gd_focused_window_id := GUI_NO_WINDOW\<rparr>)) else g1)
         in (True, gui_damage_add (sint (gw_x w)) (sint (gw_y w)) (sint (gw_w w)) (sint (gw_h w))
                     (gui_refresh_cursor_shape g2))))"

definition gui_destroy_windows_for_pid :: "u32 \<Rightarrow> gui \<Rightarrow> gui" where
  "gui_destroy_windows_for_pid pid g =
     (if pid = GUI_NO_OWNER then g
      else fold (\<lambda>i g. if gw_used (gd_windows g ! i) \<and> gw_owner_pid (gd_windows g ! i) = pid
                       then snd (gui_destroy_window (of_nat i) g) else g)
             (rev [0..<GUI_MAX_WINDOWS]) g)"

definition window_damage :: "nat \<Rightarrow> gui \<Rightarrow> gui" where
  "window_damage i g =
     (let w = gd_windows g ! i in gui_damage_add (sint (gw_x w)) (sint (gw_y w)) (sint (gw_w w)) (sint (gw_h w)) g)"

definition gui_window_set_title_internal :: "u32 \<Rightarrow> string option \<Rightarrow> gui \<Rightarrow> bool \<times> gui" where
  "gui_window_set_title_internal window_id title g =
     (case gui_window_lookup window_id g of
        None \<Rightarrow> (False, g)
      | Some i \<Rightarrow>
          (let g1 = gui_refresh_cursor_shape
                 (set_window i (\<lambda>w. gui_apply_builtin_policy (gui_window_set_title title w)) g);
               w = gd_windows g1 ! i
           in (True, if gw_title_h w > 0
                     then gui_damage_add (sint (gw_x w)) (sint (gw_y w)) (sint (gw_w w)) (sint (gw_title_h w)) g1
                     else g1)))"

definition gui_window_set_title_bar_internal :: "u32 \<Rightarrow> u32 \<Rightarrow> gui \<Rightarrow> bool \<times> gui" where
  "gui_window_set_title_bar_internal window_id title_h g =
     (case gui_window_lookup window_id g of
        None \<Rightarrow> (False, g)
      | Some i \<Rightarrow>
          if title_h \<ge> gw_h (gd_windows g ! i) then (False, g)
          else (True, window_damage i (gui_refresh_cursor_shape (set_window i (\<lambda>w. w\<lparr>gw_title_h := title_h\<rparr>) g))))"

definition gui_window_set_flags_internal :: "u32 \<Rightarrow> u32 \<Rightarrow> gui \<Rightarrow> bool \<times> gui" where
  "gui_window_set_flags_internal window_id flags g =
     (case gui_window_lookup window_id g of
        None \<Rightarrow> (False, g)
      | Some i \<Rightarrow>
          (let old_flags = gw_flags (gd_windows g ! i);
               g1 = set_window i (\<lambda>w. w\<lparr>gw_flags := flags\<rparr>) g;
               g2 = (if flags AND GUI_WINDOW_NO_FOCUS \<noteq> 0 \<and> gd_focused_window_id g1 = window_id
                     then snd (gui_focus_window_ensure (g1\<lparr>gd_focused_window_id := GUI_NO_WINDOW\<rparr>)) else g1)
           in (True, if (old_flags XOR flags) AND (GUI_WINDOW_NO_FOCUS OR GUI_WINDOW_NO_DRAG OR GUI_WINDOW_DOCK) \<noteq> 0
                     then window_damage i (gui_refresh_cursor_shape g2) else g2)))"

definition gui_move_window :: "u32 \<Rightarrow> u32 \<Rightarrow> u32 \<Rightarrow> gui \<Rightarrow> bool \<times> gui" where
  "gui_move_window window_id x y g =
     (case gd_fb g of
        None \<Rightarrow> (False, g)
      | Some (fw, fh) \<Rightarrow>
          if window_id \<ge> of_nat GUI_MAX_WINDOWS \<or> x \<ge> fw \<or> y \<ge> fh \<or> \<not> gw_used (gd_windows g ! unat window_id)
          then (False, g)
          else
            (let i = unat window_id; w = gd_windows g ! i;
                 g1 = gui_refresh_cursor_shape (set_window i (\<lambda>v. v\<lparr>gw_x := x, gw_y := y\<rparr>) g)
             in (True, union_rect (sint (gw_x w)) (sint (gw_y w)) (sint (gw_w w)) (sint (gw_h w))
                         (sint x) (sint y) (sint (gw_w w)) (sint (gw_h w)) g1)))"

definition gui_resize_window :: "u32 \<Rightarrow> u32 \<Rightarrow> u32 \<Rightarrow> u32 \<Rightarrow> u32 \<Rightarrow> pmm \<Rightarrow> gui \<Rightarrow> bool \<times> pmm \<times> gui" where
  "gui_resize_window window_id x y w h p g =
     (if gd_fb g = None \<or> window_id \<ge> of_nat GUI_MAX_WINDOWS \<or> w < 2 \<or> h < 2 \<or>
         \<not> gui_rect_fits_framebuffer (gd_fb g) x y w h \<or> \<not> gw_used (gd_windows g ! unat window_id)
      then (False, p, g)
      else
        (let i = unat window_id; old = gd_windows g ! i;
             size_changed = (sint (gw_w old) \<noteq> sint w \<or> sint (gw_h old) \<noteq> sint h);
             g1 = gui_refresh_cursor_shape
                    (set_window i (\<lambda>v. v\<lparr>gw_x := x, gw_y := y, gw_w := w, gw_h := h\<rparr>) g);
             damage = union_rect (sint (gw_x old)) (sint (gw_y old)) (sint (gw_w old)) (sint (gw_h old))
                        (sint x) (sint y) (sint w) (sint h)
         in if \<not> size_changed then (True, p, damage g1)
            else
              (case gui_window_reset_backing (gd_windows g1 ! i) p (gui_heap g1) of
                 (False, win, p1, h1) \<Rightarrow>
                   (False, p1, g1\<lparr>gd_windows := (gd_windows g1)[i := win\<lparr>gw_x := gw_x old, gw_y := gw_y old,
                      gw_w := gw_w old, gw_h := gw_h old\<rparr>], gui_heap := h1\<rparr>)
               | (True, win, p1, h1) \<Rightarrow>
                   (True, p1, damage (g1\<lparr>gd_windows := (gd_windows g1)[i :=
                      snd (gui_window_push_event GUI_EVENT_RESIZE (sint w) (sint h) win)], gui_heap := h1\<rparr>)))))"

definition gui_window_get_bounds :: "gui_window \<Rightarrow> (u32 \<times> u32 \<times> u32 \<times> u32) option" where
  "gui_window_get_bounds w = (if \<not> gw_used w then None else Some (gw_x w, gw_y w, gw_w w, gw_h w))"

definition gui_window_minimize :: "u32 \<Rightarrow> gui \<Rightarrow> bool \<times> gui" where
  "gui_window_minimize window_id g =
     (if window_id \<ge> of_nat GUI_MAX_WINDOWS then (False, g)
      else
        (let i = unat window_id; w = gd_windows g ! i
         in if \<not> gw_used w \<or> gw_minimized w then (False, g)
            else (True, gui_request_redraw (set_window i
                   (\<lambda>w. snd (gui_window_push_event GUI_EVENT_MINIMIZE 0 0 (w\<lparr>gw_minimized := True\<rparr>))) g))))"

definition gui_window_restore :: "u32 \<Rightarrow> gui \<Rightarrow> bool \<times> gui" where
  "gui_window_restore window_id g =
     (if window_id \<ge> of_nat GUI_MAX_WINDOWS then (False, g)
      else
        (let i = unat window_id; w = gd_windows g ! i
         in if \<not> gw_used w \<or> \<not> gw_minimized w then (False, g)
            else
              (let g1 = (if gui_window_effective_flags w AND GUI_WINDOW_NO_FOCUS = 0
                         then g\<lparr>gd_focused_window_id := window_id\<rparr> else g);
                   z = gd_next_z g1
               in (True, gui_request_redraw (set_window i
                     (\<lambda>w. snd (gui_window_push_event GUI_EVENT_MAXIMIZE 0 0 (w\<lparr>gw_minimized := False, gw_z := z\<rparr>)))
                     (g1\<lparr>gd_next_z := z + 1\<rparr>))))))"

definition gui_focus_window :: "u32 \<Rightarrow> gui \<Rightarrow> bool \<times> gui" where
  "gui_focus_window window_id g =
     (case gui_window_lookup window_id g of
        None \<Rightarrow> (False, g)
      | Some i \<Rightarrow>
          if gui_window_effective_flags (gd_windows g ! i) AND GUI_WINDOW_NO_FOCUS \<noteq> 0
          then (True, window_damage i g)
          else
            (let prev = gd_focused_window_id g; z = gd_next_z g;
                 g1 = gui_refresh_cursor_shape (set_window i (\<lambda>w. w\<lparr>gw_z := z\<rparr>)
                        (g\<lparr>gd_focused_window_id := window_id, gd_next_z := z + 1\<rparr>));
                 g2 = (if prev \<noteq> GUI_NO_WINDOW \<and> prev < of_nat GUI_MAX_WINDOWS \<and> gw_used (gd_windows g1 ! unat prev)
                       then window_damage (unat prev) g1 else g1)
             in (True, window_damage i g2)))"

definition pid_window :: "u32 \<Rightarrow> gui \<Rightarrow> nat \<Rightarrow> bool" where
  "pid_window owner_pid g i \<longleftrightarrow> gw_used (gd_windows g ! i) \<and> gw_owner_pid (gd_windows g ! i) = owner_pid \<and>
     gw_flags (gd_windows g ! i) AND GUI_WINDOW_SKIP_TASKBAR = 0"

fun pid_scan :: "u32 \<Rightarrow> gui \<Rightarrow> u32 \<Rightarrow> u32 \<Rightarrow> nat list \<Rightarrow> nat option" where
  "pid_scan owner_pid g index found [] = None"
| "pid_scan owner_pid g index found (i # is) =
     (if \<not> pid_window owner_pid g i then pid_scan owner_pid g index found is
      else if found = index then Some i
      else pid_scan owner_pid g index (found + 1) is)"

definition gui_window_for_pid :: "u32 \<Rightarrow> u32 \<Rightarrow> gui \<Rightarrow> nat option" where
  "gui_window_for_pid owner_pid index g =
     (if owner_pid = GUI_NO_OWNER then None else pid_scan owner_pid g index 0 [0..<GUI_MAX_WINDOWS])"

section \<open>Initial state\<close>

definition gui_init_window :: "gui_window \<Rightarrow> gui_window" where
  "gui_init_window w =
     w\<lparr>gw_x := 0, gw_y := 0, gw_w := 0, gw_h := 0, gw_bg_color := 0, gw_border_color := 0,
       gw_owner_pid := GUI_NO_OWNER, gw_z := 0, gw_flags := 0, gw_title_h := 0, gw_title := [],
       gw_event_head := 0, gw_event_tail := 0, gw_event_count := 0, gw_used := False, gw_owner_drawn := False,
       gw_backing := 0, gw_backing_capacity := 0\<rparr>"

definition gui_init :: "(u32 \<times> u32) option \<Rightarrow> u32 \<Rightarrow> gui \<Rightarrow> bool \<times> gui" where
  "gui_init fb background_color g =
     (case fb of
        None \<Rightarrow> (False, g)
      | Some (fw, fh) \<Rightarrow>
          (let cx = sint (fw div 2); cy = sint (fh div 2)
           in (True, g\<lparr>gd_fb := fb, gd_background_color := background_color, gd_focused_window_id := GUI_NO_WINDOW,
                 gd_next_z := 1, gd_drag_window_id := GUI_NO_WINDOW, gd_drag_off_x := 0, gd_drag_off_y := 0,
                 gd_cursor := (gd_cursor g)\<lparr>cur_x := cx, cur_y := cy, cur_prev_x := cx, cur_prev_y := cy,
                   cur_buttons_mask := 0, cur_visible := True, cur_shape := ucast GUI_CURSOR_ARROW\<rparr>,
                 gd_damage_rects := [], gd_damage_full := True,
                 gd_windows := map gui_init_window (gd_windows g)\<rparr>)))"

section \<open>Frames\<close>

named_theorems gui_frame

lemma refresh_fields [simp, gui_frame]:
  "gd_fb (gui_refresh_cursor_shape g) = gd_fb g"
  "gd_focused_window_id (gui_refresh_cursor_shape g) = gd_focused_window_id g"
  "gd_next_z (gui_refresh_cursor_shape g) = gd_next_z g"
  "gd_drag_window_id (gui_refresh_cursor_shape g) = gd_drag_window_id g"
  "gd_windows (gui_refresh_cursor_shape g) = gd_windows g"
  "gd_damage_rects (gui_refresh_cursor_shape g) = gd_damage_rects g"
  "gd_damage_full (gui_refresh_cursor_shape g) = gd_damage_full g"
  "gui_heap (gui_refresh_cursor_shape g) = gui_heap g"
  "cur_x (gd_cursor (gui_refresh_cursor_shape g)) = cur_x (gd_cursor g)"
  "cur_y (gd_cursor (gui_refresh_cursor_shape g)) = cur_y (gd_cursor g)"
  by (simp_all add: gui_refresh_cursor_shape_def Let_def split: option.splits)

lemma damage_fields [simp, gui_frame]:
  "gd_fb (gui_damage_add x y w h g) = gd_fb g"
  "gd_focused_window_id (gui_damage_add x y w h g) = gd_focused_window_id g"
  "gd_next_z (gui_damage_add x y w h g) = gd_next_z g"
  "gd_drag_window_id (gui_damage_add x y w h g) = gd_drag_window_id g"
  "gd_windows (gui_damage_add x y w h g) = gd_windows g"
  "gd_cursor (gui_damage_add x y w h g) = gd_cursor g"
  "gui_heap (gui_damage_add x y w h g) = gui_heap g"
  by (simp_all add: gui_damage_add_def damage_insert_def split: option.splits prod.splits)

lemma union_rect_fields [simp, gui_frame]:
  "gd_fb (union_rect a b c d e f i j g) = gd_fb g"
  "gd_focused_window_id (union_rect a b c d e f i j g) = gd_focused_window_id g"
  "gd_next_z (union_rect a b c d e f i j g) = gd_next_z g"
  "gd_drag_window_id (union_rect a b c d e f i j g) = gd_drag_window_id g"
  "gd_windows (union_rect a b c d e f i j g) = gd_windows g"
  "gd_cursor (union_rect a b c d e f i j g) = gd_cursor g"
  "gui_heap (union_rect a b c d e f i j g) = gui_heap g"
  by (simp_all add: union_rect_def Let_def)

lemma window_damage_fields [simp, gui_frame]:
  "gd_fb (window_damage i g) = gd_fb g"
  "gd_focused_window_id (window_damage i g) = gd_focused_window_id g"
  "gd_next_z (window_damage i g) = gd_next_z g"
  "gd_drag_window_id (window_damage i g) = gd_drag_window_id g"
  "gd_windows (window_damage i g) = gd_windows g"
  "gd_cursor (window_damage i g) = gd_cursor g"
  "gui_heap (window_damage i g) = gui_heap g"
  by (simp_all add: window_damage_def Let_def)

lemma set_window_fields [simp]:
  "gd_fb (set_window i f g) = gd_fb g"
  "gd_focused_window_id (set_window i f g) = gd_focused_window_id g"
  "gd_next_z (set_window i f g) = gd_next_z g"
  "gd_drag_window_id (set_window i f g) = gd_drag_window_id g"
  "gd_cursor (set_window i f g) = gd_cursor g"
  "gd_damage_rects (set_window i f g) = gd_damage_rects g"
  "gd_damage_full (set_window i f g) = gd_damage_full g"
  "gd_windows (set_window i f g) = (gd_windows g)[i := f (gd_windows g ! i)]"
  "gui_heap (set_window i f g) = gui_heap g"
  by (simp_all add: set_window_def)

lemma redraw_fields [simp, gui_frame]:
  "gd_fb (gui_request_redraw g) = gd_fb g"
  "gd_focused_window_id (gui_request_redraw g) = gd_focused_window_id g"
  "gd_next_z (gui_request_redraw g) = gd_next_z g"
  "gd_drag_window_id (gui_request_redraw g) = gd_drag_window_id g"
  "gd_windows (gui_request_redraw g) = gd_windows g"
  "gui_heap (gui_request_redraw g) = gui_heap g"
  by (simp_all add: gui_request_redraw_def gui_damage_add_full_def Let_def)

section \<open>Events\<close>

definition win_ok :: "gui_window \<Rightarrow> bool" where
  "win_ok w \<longleftrightarrow> ring_ok 32 (gw_events w) (gw_event_head w) (gw_event_tail w) (gw_event_count w) \<and>
     length (gw_cursor_regions w) = 8"

definition win_events :: "gui_window \<Rightarrow> gui_event list" where
  "win_events w = ring_content 32 (gw_events w) (gw_event_head w) (gw_event_count w)"

text \<open>What a push does to the list of pending events.\<close>

definition push_spec :: "gui_event \<Rightarrow> gui_event list \<Rightarrow> gui_event list" where
  "push_spec e q =
     (if ev_type e = GUI_EVENT_MOUSE_MOVE \<and> q \<noteq> [] \<and> ev_type (last q) = GUI_EVENT_MOUSE_MOVE then butlast q @ [e]
      else if length q < 32 then q @ [e]
      else if ev_type e = GUI_EVENT_MOUSE_MOVE then q
      else tl q @ [e])"

lemma push_event_spec:
  assumes ok: "win_ok w" and used: "gw_used w"
  shows "fst (gui_window_push_event typ d1 d2 w) \<and> win_ok (snd (gui_window_push_event typ d1 d2 w)) \<and>
     win_events (snd (gui_window_push_event typ d1 d2 w)) =
       push_spec \<lparr>ev_type = typ, ev_data1 = d1, ev_data2 = d2\<rparr> (win_events w)"
proof -
  let ?e = "\<lparr>ev_type = typ, ev_data1 = d1, ev_data2 = d2\<rparr>"
  let ?b = "gw_events w" and ?h = "gw_event_head w" and ?t = "gw_event_tail w" and ?c = "gw_event_count w"
  define p where "p = (if ?t = 0 then 32 - 1 else ?t - 1 :: nat)"
  have r: "ring_ok 32 ?b ?h ?t ?c" using ok by (simp add: win_ok_def)
  have c: "?c \<le> 32" using r by (simp add: ring_ok_def)
  have len: "length (win_events w) = ?c" by (simp add: win_events_def)
  show ?thesis
  proof (cases "typ = GUI_EVENT_MOUSE_MOVE \<and> ?c > 0 \<and> ev_type (?b ! p) = GUI_EVENT_MOUSE_MOVE")
    case True
    note l = ring_last [OF r _ p_def, folded win_events_def]
    have "win_events w \<noteq> []" "ev_type (last (win_events w)) = GUI_EVENT_MOUSE_MOVE"
      using True l(3) len by auto
    moreover have e: "(?b ! p)\<lparr>ev_data1 := d1, ev_data2 := d2\<rparr> = ?e"
      using True by (cases "?b ! p") simp
    moreover have "gui_window_push_event typ d1 d2 w = (True, w\<lparr>gw_events := ?b[p := ?e]\<rparr>)"
      using True used unfolding gui_window_push_event_def Let_def p_def [symmetric] e by simp
    ultimately show ?thesis
      using True ok l(4) [of ?e]
      by (simp add: win_ok_def win_events_def push_spec_def)
  next
    case False
    have last: "?c > 0 \<Longrightarrow> ev_type (last (win_events w)) = ev_type (?b ! p)"
      using ring_last(3) [OF r _ p_def] by (simp add: win_events_def)
    have nomove: "\<not> (typ = GUI_EVENT_MOUSE_MOVE \<and> win_events w \<noteq> [] \<and> ev_type (last (win_events w)) = GUI_EVENT_MOUSE_MOVE)"
    proof -
      have "?c > 0" if "win_events w \<noteq> []" using that len by (cases "win_events w") auto
      then show ?thesis using last False by metis
    qed
    have spec: "push_spec ?e (win_events w) =
        (if ?c < 32 then win_events w @ [?e] else if typ = GUI_EVENT_MOUSE_MOVE then win_events w else tl (win_events w) @ [?e])"
      unfolding push_spec_def gui_event.select_convs if_not_P [OF nomove] len ..
    note coalesce = if_not_P [OF False]
    note push = gui_window_push_event_def [of "typ" d1 d2 w, unfolded Let_def, folded p_def, unfolded coalesce]
    show ?thesis
    proof (cases "?c < 32")
      case True
      have "gui_window_push_event typ d1 d2 w = (True, w\<lparr>gw_events := ?b[?t := ?e],
            gw_event_tail := (?t + 1) mod 32, gw_event_count := ?c + 1\<rparr>)"
        using True used unfolding push by simp
      then show ?thesis
        using True spec ring_push [OF r True, of ?e] ok by (simp add: win_ok_def win_events_def)
    next
      case full: False
      with c have c32: "?c = 32" by simp
      then have pos: "0 < ?c" and room: "?c - 1 < 32" by simp_all
      note q = ring_pop [OF r pos]
      note q' = ring_push [OF q(1) room, of ?e]
      have "gui_window_push_event typ d1 d2 w = (True, if typ = GUI_EVENT_MOUSE_MOVE then w
            else w\<lparr>gw_event_head := (?h + 1) mod 32, gw_events := ?b[?t := ?e],
            gw_event_tail := (?t + 1) mod 32, gw_event_count := ?c - 1 + 1\<rparr>)"
        using c32 used unfolding push by simp
      then show ?thesis
        using full spec q' q(2) ok by (simp add: win_ok_def win_events_def)
    qed
  qed
qed

lemma pop_event_spec:
  assumes ok: "win_ok w" and used: "gw_used w"
  shows "case win_events w of
      [] \<Rightarrow> gui_window_pop_event w = None
    | e # q \<Rightarrow> \<exists>w'. gui_window_pop_event w = Some (e, w') \<and> gw_used w' \<and> win_ok w' \<and> win_events w' = q"
proof (cases "gw_event_count w = 0")
  case True
  then show ?thesis by (simp add: win_events_def gui_window_pop_event_def ring_content_def)
next
  case False
  have r: "ring_ok 32 (gw_events w) (gw_event_head w) (gw_event_tail w) (gw_event_count w)"
    using ok by (simp add: win_ok_def)
  show ?thesis
    using ring_pop [OF r] False used ok by (simp add: win_events_def win_ok_def gui_window_pop_event_def)
qed

text \<open>C17 The event queue of a window. A push on a used window always succeeds: a mouse move replaces a mouse move
  at the end of the queue, any other event is appended, and when the 32 slots are taken a mouse move is dropped
  and any other event drops the oldest one. A pop returns the oldest event and leaves the rest, and
  reports failure exactly on an empty queue.\<close>

theorem gui_event_queue_correct:
  assumes "win_ok w" and "gw_used w"
  shows "(case gui_window_push_event typ d1 d2 w of (r, w') \<Rightarrow>
      r \<and> win_ok w' \<and> win_events w' = push_spec \<lparr>ev_type = typ, ev_data1 = d1, ev_data2 = d2\<rparr> (win_events w)) \<and>
    (case win_events w of
       [] \<Rightarrow> gui_window_pop_event w = None
     | e # q \<Rightarrow> \<exists>w'. gui_window_pop_event w = Some (e, w') \<and> gw_used w' \<and> win_ok w' \<and> win_events w' = q)"
  using push_event_spec [OF assms, of "typ" d1 d2] pop_event_spec [OF assms] by (simp add: case_prod_beta)

definition gui_event_none :: gui_event where
  "gui_event_none = \<lparr>ev_type = 0, ev_data1 = 0, ev_data2 = 0\<rparr>"

definition blank_window :: gui_window where
  "blank_window = \<lparr>gw_x = 0, gw_y = 0, gw_w = 0, gw_h = 0, gw_bg_color = 0, gw_border_color = 0,
     gw_owner_pid = GUI_NO_OWNER, gw_z = 0, gw_flags = 0, gw_title_h = 0, gw_title = [],
     gw_events = replicate 32 gui_event_none, gw_event_head = 0, gw_event_tail = 0, gw_event_count = 0,
     gw_used = False, gw_owner_drawn = False, gw_minimized = False, gw_backing = 0, gw_backing_capacity = 0,
     gw_pixels = (\<lambda>_. 0), gw_cursor_regions = replicate 8 no_region\<rparr>"

lemma win_ok_blank: "win_ok (blank_window\<lparr>gw_used := True\<rparr>)"
  by (simp add: win_ok_def blank_window_def ring_ok_def)

theorem gui_event_queue_correct_witness:
  "(case gui_window_push_event GUI_EVENT_MOUSE_MOVE 3 4 (blank_window\<lparr>gw_used := True\<rparr>) of (r, w') \<Rightarrow>
     r \<and> win_events w' = [\<lparr>ev_type = GUI_EVENT_MOUSE_MOVE, ev_data1 = 3, ev_data2 = 4\<rparr>])"
  using gui_event_queue_correct [OF win_ok_blank, of GUI_EVENT_MOUSE_MOVE 3 4]
  by (simp add: blank_window_def push_spec_def win_events_def ring_content_def case_prod_beta)

section \<open>Hit testing\<close>

text \<open>\<open>stacked_below\<close> orders windows by stacking order; a later slot wins a tie.\<close>

definition stacked_below :: "gui_window list \<Rightarrow> nat \<Rightarrow> nat \<Rightarrow> bool" where
  "stacked_below ws j i \<longleftrightarrow> gw_z (ws ! j) < gw_z (ws ! i) \<or> gw_z (ws ! j) = gw_z (ws ! i) \<and> j \<le> i"

lemma hit_fold:
  "case fold (hit_step ws x y) [0..<n] (None, 0) of
     (None, z) \<Rightarrow> (\<forall>i<n. \<not> gui_window_contains (ws ! i) x y)
   | (Some i, z) \<Rightarrow> i < n \<and> z = gw_z (ws ! i) \<and> gui_window_contains (ws ! i) x y \<and>
       (\<forall>j<n. gui_window_contains (ws ! j) x y \<longrightarrow> stacked_below ws j i)"
proof (induction n)
  case (Suc n)
  obtain b z where b: "fold (hit_step ws x y) [0..<n] (None, 0) = (b, z)" by force
  have step: "fold (hit_step ws x y) [0..<Suc n] (None, 0) = hit_step ws x y n (b, z)" using b by simp
  show ?case
  proof (cases b)
    case None
    then show ?thesis using Suc unfolding step b by (auto simp: hit_step_def less_Suc_eq stacked_below_def)
  next
    case (Some i)
    then show ?thesis using Suc unfolding step b
      by (auto simp: hit_step_def less_Suc_eq stacked_below_def)
  qed
qed simp

text \<open>A point hits the topmost window: the result is a window that contains the point and every other
  window that contains it lies below (a smaller z, or the same z and an earlier slot); no window is
  reported exactly when none contains the point.\<close>

theorem gui_hit_test_topmost:
  "case gui_hit_test x y g of
     None \<Rightarrow> \<forall>i<GUI_MAX_WINDOWS. \<not> gui_window_contains (gd_windows g ! i) x y
   | Some i \<Rightarrow> i < GUI_MAX_WINDOWS \<and> gui_window_contains (gd_windows g ! i) x y \<and>
       (\<forall>j<GUI_MAX_WINDOWS. gui_window_contains (gd_windows g ! j) x y \<longrightarrow> stacked_below (gd_windows g) j i)"
  using hit_fold [where ws = "gd_windows g" and x = x and y = y and n = 16] unfolding gui_hit_test_def
  by (auto split: prod.splits option.splits)

definition desktop_demo :: gui where
  "desktop_demo = \<lparr>gd_fb = Some (640, 480), gd_background_color = 0, gd_focused_window_id = 1, gd_next_z = 3,
     gd_drag_window_id = GUI_NO_WINDOW, gd_drag_off_x = 0, gd_drag_off_y = 0,
     gd_windows = [blank_window\<lparr>gw_used := True, gw_w := 100, gw_h := 80, gw_z := 1, gw_owner_pid := 7\<rparr>,
       blank_window\<lparr>gw_used := True, gw_x := 10, gw_y := 10, gw_w := 50, gw_h := 50, gw_z := 2, gw_owner_pid := 9\<rparr>] @
       replicate 14 blank_window,
     gd_cursor = \<lparr>cur_x = 320, cur_y = 240, cur_prev_x = 320, cur_prev_y = 240, cur_buttons_mask = 0,
       cur_visible = True, cur_shape = 0\<rparr>,
     gd_damage_rects = [], gd_damage_full = False, g_gui_dirty = False, g_gui_active = True,
     gui_heap = kheap_empty\<rparr>"

lemma desktop_demo_hit: "gui_hit_test 20 20 desktop_demo = Some 1"
  by code_simp

theorem gui_hit_test_topmost_witness:
  "gui_hit_test 20 20 desktop_demo = Some 1 \<and> stacked_below (gd_windows desktop_demo) 0 1"
proof -
  have "gui_window_contains (gd_windows desktop_demo ! 0) 20 20"
    by (simp add: desktop_demo_def gui_window_contains_def blank_window_def)
  then show ?thesis
    using gui_hit_test_topmost [where x = 20 and y = 20 and g = desktop_demo] by (simp add: desktop_demo_hit)
qed

section \<open>Damage\<close>

definition in_rect :: "damage_rect \<Rightarrow> int \<Rightarrow> int \<Rightarrow> bool" where
  "in_rect r x y \<longleftrightarrow> dr_x r \<le> x \<and> x < dr_x r + dr_w r \<and> dr_y r \<le> y \<and> y < dr_y r + dr_h r"

definition rect_ok :: "int \<Rightarrow> int \<Rightarrow> damage_rect \<Rightarrow> bool" where
  "rect_ok fw fh r \<longleftrightarrow> 0 \<le> dr_x r \<and> 0 < dr_w r \<and> dr_x r + dr_w r \<le> fw \<and>
     0 \<le> dr_y r \<and> 0 < dr_h r \<and> dr_y r + dr_h r \<le> fh"

definition damage_ok :: "gui \<Rightarrow> bool" where
  "damage_ok g \<longleftrightarrow> length (gd_damage_rects g) \<le> GUI_DAMAGE_MAX \<and>
     (case gd_fb g of None \<Rightarrow> True | Some (fw, fh) \<Rightarrow> \<forall>r\<in>set (gd_damage_rects g). rect_ok (sint fw) (sint fh) r)"

definition damaged :: "gui \<Rightarrow> int \<Rightarrow> int \<Rightarrow> bool" where
  "damaged g x y \<longleftrightarrow> gd_damage_full g \<or> (\<exists>r\<in>set (gd_damage_rects g). in_rect r x y)"

lemma set_without: "i < length rs \<Longrightarrow> set rs = insert (rs ! i) (set (take i rs @ drop (Suc i) rs))"
  by (metis append_take_drop_id Cons_nth_drop_Suc insert_is_Un list.set(2) set_append sup_left_commute)

lemma damage_merge_sound:
  assumes "rect_ok fw fh d" and "\<forall>r\<in>set rs. rect_ok fw fh r" and "damage_merge i rs d = (rs', d')"
  shows "rect_ok fw fh d' \<and> (\<forall>r\<in>set rs'. rect_ok fw fh r) \<and> length rs' \<le> length rs \<and>
    (\<forall>x y. (in_rect d x y \<or> (\<exists>r\<in>set rs. in_rect r x y)) \<longrightarrow> in_rect d' x y \<or> (\<exists>r\<in>set rs'. in_rect r x y))"
  using assms
proof (induction i rs d rule: damage_merge.induct)
  case (1 i rs d)
  show ?case
  proof (cases "i < length rs")
    case False
    then show ?thesis using "1.prems" by (subst (asm) damage_merge.simps) auto
  next
    case True
    define r where "r = rs ! i"
    define u where "u = \<lparr>dr_x = min (dr_x d) (dr_x r), dr_y = min (dr_y d) (dr_y r),
      dr_w = max (dr_x d + dr_w d) (dr_x r + dr_w r) - min (dr_x d) (dr_x r),
      dr_h = max (dr_y d + dr_h d) (dr_y r + dr_h r) - min (dr_y d) (dr_y r)\<rparr>"
    have rok: "rect_ok fw fh r" using "1.prems"(2) True by (simp add: r_def)
    have u: "rect_ok fw fh u" using rok "1.prems"(1) by (auto simp: rect_ok_def u_def)
    have du: "in_rect d x y \<or> in_rect r x y \<Longrightarrow> in_rect u x y" for x y by (auto simp: in_rect_def u_def)
    have set: "set rs = insert r (set (take i rs @ drop (Suc i) rs))"
      using set_without [OF True] by (simp add: r_def)
    let ?touch = "dr_x d \<le> dr_x r + dr_w r \<and> dr_x d + dr_w d \<ge> dr_x r \<and> dr_y d \<le> dr_y r + dr_h r \<and> dr_y d + dr_h d \<ge> dr_y r"
    have umin: "\<lparr>dr_x = if dr_x d < dr_x r then dr_x d else dr_x r, dr_y = if dr_y d < dr_y r then dr_y d else dr_y r,
      dr_w = (if dr_x d + dr_w d > dr_x r + dr_w r then dr_x d + dr_w d else dr_x r + dr_w r) - (if dr_x d < dr_x r then dr_x d else dr_x r),
      dr_h = (if dr_y d + dr_h d > dr_y r + dr_h r then dr_y d + dr_h d else dr_y r + dr_h r) - (if dr_y d < dr_y r then dr_y d else dr_y r)\<rparr> = u"
      by (simp add: u_def min_def max_def)
    have step: "damage_merge i rs d = (if ?touch then damage_merge i (take i rs @ drop (Suc i) rs) u else damage_merge (i + 1) rs d)"
      using True by (subst damage_merge.simps) (simp only: Let_def r_def [symmetric] umin if_True)
    show ?thesis
    proof (cases ?touch)
      case touch: True
      have sub: "\<forall>s\<in>set (take i rs @ drop (Suc i) rs). rect_ok fw fh s" using "1.prems"(2) set by simp
      have eq: "damage_merge i (take i rs @ drop (Suc i) rs) u = (rs', d')" using "1.prems"(3) unfolding step if_P [OF touch] .
      have "rect_ok fw fh d' \<and> (\<forall>r\<in>set rs'. rect_ok fw fh r) \<and> length rs' \<le> length (take i rs @ drop (Suc i) rs) \<and>
        (\<forall>x y. (in_rect u x y \<or> (\<exists>r\<in>set (take i rs @ drop (Suc i) rs). in_rect r x y)) \<longrightarrow>
           in_rect d' x y \<or> (\<exists>r\<in>set rs'. in_rect r x y))"
        using "1.IH"(1) [OF True r_def refl refl refl refl touch refl refl refl refl, unfolded umin, OF u sub eq] .
      then show ?thesis using du set by (auto simp del: set_append)
    next
      case False
      have eq: "damage_merge (i + 1) rs d = (rs', d')" using "1.prems"(3) unfolding step if_not_P [OF False] .
      show ?thesis by (rule "1.IH"(2) [OF True r_def refl refl refl refl False "1.prems"(1,2) eq])
    qed
  qed
qed

lemma damage_clip_spec:
  assumes "0 < w" and "0 < h" and "0 < fw" and "0 < fh"
  shows "case damage_clip fw fh x y w h of
      None \<Rightarrow> \<forall>px py. 0 \<le> px \<and> px < fw \<and> 0 \<le> py \<and> py < fh \<longrightarrow> \<not> (x \<le> px \<and> px < x + w \<and> y \<le> py \<and> py < y + h)
    | Some d \<Rightarrow> rect_ok fw fh d \<and> (\<forall>px py. in_rect d px py \<longleftrightarrow>
        0 \<le> px \<and> px < fw \<and> 0 \<le> py \<and> py < fh \<and> x \<le> px \<and> px < x + w \<and> y \<le> py \<and> py < y + h)"
  using assms by (auto simp: damage_clip_def Let_def rect_ok_def in_rect_def)

lemma damage_insert_sound:
  assumes "rect_ok fw fh d" and "\<forall>r\<in>set (gd_damage_rects g). rect_ok fw fh r" and "length (gd_damage_rects g) \<le> 32"
  shows "(\<forall>r\<in>set (gd_damage_rects (damage_insert fw fh d g)). rect_ok fw fh r) \<and>
     length (gd_damage_rects (damage_insert fw fh d g)) \<le> 32 \<and>
     (in_rect d x y \<or> damaged g x y \<longrightarrow> damaged (damage_insert fw fh d g) x y)"
proof -
  obtain rs d' where m: "damage_merge 0 (gd_damage_rects g) d = (rs, d')" by force
  show ?thesis
    using damage_merge_sound [OF assms(1,2) m] assms(3)
    by (auto simp: damage_insert_def m damaged_def)
qed

text \<open>C18 Damage tracking loses no damage: after \<open>gui_damage_add\<close> every point of the screen that lies in the given rectangle,
  and every point that was damaged before, is damaged (by a rectangle of the list or by the full flag), and
  the list keeps at most 32 rectangles, each non-empty and inside the screen.\<close>

theorem gui_damage_add_sound:
  assumes fb: "gd_fb g = Some (fw, fh)" "0 < sint fw" "0 < sint fh" and ok: "damage_ok g"
  shows "damage_ok (gui_damage_add x y w h g) \<and>
    (\<forall>px py. 0 \<le> px \<and> px < sint fw \<and> 0 \<le> py \<and> py < sint fh \<and>
       (damaged g px py \<or> x \<le> px \<and> px < x + w \<and> y \<le> py \<and> py < y + h) \<longrightarrow>
       damaged (gui_damage_add x y w h g) px py)"
proof (cases "gd_damage_full g \<or> w \<le> 0 \<or> h \<le> 0")
  case True
  then show ?thesis using ok fb by (auto simp: gui_damage_add_def damaged_def)
next
  case False
  then have pos: "0 < w" "0 < h" by auto
  have rs: "\<forall>r\<in>set (gd_damage_rects g). rect_ok (sint fw) (sint fh) r" "length (gd_damage_rects g) \<le> 32"
    using ok fb by (auto simp: damage_ok_def)
  show ?thesis
  proof (cases "damage_clip (sint fw) (sint fh) x y w h")
    case None
    then show ?thesis
      using False ok fb damage_clip_spec [OF pos fb(2,3), of x y] by (auto simp: gui_damage_add_def)
  next
    case (Some d)
    have eq: "gui_damage_add x y w h g = damage_insert (sint fw) (sint fh) d g"
      using Some False fb by (simp add: gui_damage_add_def)
    have d: "rect_ok (sint fw) (sint fh) d" "\<And>px py. in_rect d px py \<longleftrightarrow>
        0 \<le> px \<and> px < sint fw \<and> 0 \<le> py \<and> py < sint fh \<and> x \<le> px \<and> px < x + w \<and> y \<le> py \<and> py < y + h"
      using damage_clip_spec [OF pos fb(2,3), of x y] Some by auto
    have fb': "gd_fb (damage_insert (sint fw) (sint fh) d g) = Some (fw, fh)"
      using fb(1) damage_fields(1) [of x y w h g] eq by simp
    show ?thesis
      using damage_insert_sound [OF d(1) rs] d(2) fb' unfolding eq by (auto simp: damage_ok_def)
  qed
qed

theorem gui_damage_add_sound_witness:
  "damaged (gui_damage_add (-4) 10 20 20 desktop_demo) 3 12 \<and> damage_ok (gui_damage_add (-4) 10 20 20 desktop_demo)"
proof -
  have "damage_ok desktop_demo" "gd_fb desktop_demo = Some (640, 480)" by (simp_all add: damage_ok_def desktop_demo_def)
  then show ?thesis using gui_damage_add_sound [of desktop_demo 640 480 "-4" 10 20 20] by simp
qed

section \<open>Invariant\<close>

text \<open>Every backing buffer is a live block of the kernel heap that belongs to one used window.\<close>

definition bufs_ok :: "pmm \<Rightarrow> gui_window list \<Rightarrow> kheap \<Rightarrow> bool" where
  "bufs_ok p ws h \<longleftrightarrow> heap_ok p h \<and> (\<forall>i<length ws. gw_backing (ws ! i) \<noteq> 0 \<longrightarrow> gw_used (ws ! i) \<and>
     (\<exists>n. ucast (gw_backing_capacity (ws ! i)) \<le> n \<and> (gw_backing (ws ! i), n) \<in> live h) \<and>
     (\<forall>j<length ws. gw_backing (ws ! j) = gw_backing (ws ! i) \<longrightarrow> j = i))"

lemma bufs_okI:
  assumes "heap_ok p h"
    and "\<And>i. i < length ws \<Longrightarrow> gw_backing (ws ! i) \<noteq> 0 \<Longrightarrow>
      gw_used (ws ! i) \<and> (\<exists>n. ucast (gw_backing_capacity (ws ! i)) \<le> n \<and> (gw_backing (ws ! i), n) \<in> live h)"
    and "\<And>j i. j < length ws \<Longrightarrow> i < length ws \<Longrightarrow> gw_backing (ws ! i) \<noteq> 0 \<Longrightarrow>
      gw_backing (ws ! j) = gw_backing (ws ! i) \<Longrightarrow> j = i"
  shows "bufs_ok p ws h"
  unfolding bufs_ok_def using assms(1) assms(2) assms(3) by (intro conjI allI impI) blast+

lemma bufs_okD:
  assumes "bufs_ok p ws h"
  shows "heap_ok p h"
    and "i < length ws \<Longrightarrow> gw_backing (ws ! i) \<noteq> 0 \<Longrightarrow>
      gw_used (ws ! i) \<and> (\<exists>n. ucast (gw_backing_capacity (ws ! i)) \<le> n \<and> (gw_backing (ws ! i), n) \<in> live h)"
    and "j < length ws \<Longrightarrow> i < length ws \<Longrightarrow> gw_backing (ws ! i) \<noteq> 0 \<Longrightarrow>
      gw_backing (ws ! j) = gw_backing (ws ! i) \<Longrightarrow> j = i"
  using assms unfolding bufs_ok_def by blast+

definition id_ok :: "gui_window list \<Rightarrow> u32 \<Rightarrow> bool" where
  "id_ok ws k \<longleftrightarrow> k = GUI_NO_WINDOW \<or> unat k < length ws \<and> gw_used (ws ! unat k)"

definition gui_ok :: "pmm \<Rightarrow> gui \<Rightarrow> bool" where
  "gui_ok p g \<longleftrightarrow> length (gd_windows g) = GUI_MAX_WINDOWS \<and> (\<forall>w\<in>set (gd_windows g). win_ok w) \<and>
     id_ok (gd_windows g) (gd_focused_window_id g) \<and>
     (gd_drag_window_id g = GUI_NO_WINDOW \<or> unat (gd_drag_window_id g) < GUI_MAX_WINDOWS) \<and>
     bufs_ok p (gd_windows g) (gui_heap g)"

definition same_buffer :: "gui_window \<Rightarrow> gui_window \<Rightarrow> bool" where
  "same_buffer w w' \<longleftrightarrow> gw_used w' = gw_used w \<and> gw_backing w' = gw_backing w \<and>
     gw_backing_capacity w' = gw_backing_capacity w"

lemma same_buffer_trans: "same_buffer u v \<Longrightarrow> same_buffer v w \<Longrightarrow> same_buffer u w"
  by (simp add: same_buffer_def)

lemma bufs_ok_update:
  assumes "bufs_ok p ws h" and "same_buffer (ws ! i) w"
  shows "bufs_ok p (ws[i := w]) h"
  using assms unfolding bufs_ok_def same_buffer_def
  by (cases "i < length ws") (auto simp: nth_list_update)

lemma id_ok_update:
  "id_ok ws k \<Longrightarrow> gw_used (ws ! i) \<longrightarrow> gw_used w \<Longrightarrow> id_ok (ws[i := w]) k"
  by (cases "i = unat k") (auto simp: id_ok_def)

lemma list_update_all: "\<forall>x\<in>set xs. P x \<Longrightarrow> (i < length xs \<Longrightarrow> P y) \<Longrightarrow> \<forall>x\<in>set (xs[i := y]). P x"
  by (cases "i < length xs") (auto simp: list_update_beyond dest: set_update_subset_insert [THEN subsetD])

lemma gui_ok_window:
  assumes "gui_ok p g" and "same_buffer (gd_windows g ! i) w" and "win_ok (gd_windows g ! i) \<Longrightarrow> win_ok w"
    and "gd_windows g' = (gd_windows g)[i := w]" and "gui_heap g' = gui_heap g"
    and "gd_focused_window_id g' = gd_focused_window_id g" and "gd_drag_window_id g' = gd_drag_window_id g"
  shows "gui_ok p g'"
proof -
  have "\<forall>v\<in>set ((gd_windows g)[i := w]). win_ok v"
    using assms(1,3) by (intro list_update_all) (auto simp: gui_ok_def)
  moreover have "id_ok ((gd_windows g)[i := w]) (gd_focused_window_id g)"
    using assms(1,2) by (intro id_ok_update) (auto simp: gui_ok_def same_buffer_def)
  ultimately show ?thesis
    using assms(1,4-) bufs_ok_update [OF _ assms(2)] by (simp add: gui_ok_def)
qed

lemma gui_ok_same:
  assumes "gui_ok p g" and "gd_windows g' = gd_windows g" and "gui_heap g' = gui_heap g"
    and "gd_focused_window_id g' = gd_focused_window_id g" and "gd_drag_window_id g' = gd_drag_window_id g"
  shows "gui_ok p g'"
  using assms by (simp add: gui_ok_def)

lemma win_in: "gui_ok p g \<Longrightarrow> k < (16 :: u32) \<Longrightarrow> unat k < length (gd_windows g)"
  by (simp add: gui_ok_def word_less_nat_alt)

lemma bufs_ok_free:
  assumes ok: "bufs_ok p ws h" and "i < length ws" and "gw_backing w = 0"
    and h: "h' = (if gw_backing (ws ! i) \<noteq> 0 then kfree (gw_backing (ws ! i)) h else h)"
  shows "bufs_ok p (ws[i := w]) h'"
proof (cases "gw_backing (ws ! i) = 0")
  case True
  then show ?thesis using assms unfolding bufs_ok_def by (auto simp: nth_list_update)
next
  case False
  then obtain n where n: "(gw_backing (ws ! i), n) \<in> live h" using ok assms(2) by (auto simp: bufs_ok_def)
  have hp: "heap_ok p h" using ok by (simp add: bufs_ok_def)
  have f: "heap_ok p h'" "live h' = live h - {(gw_backing (ws ! i), n)}"
    using kfree_effect [OF hp n] h False by simp_all
  have "gw_backing (ws ! j) \<noteq> gw_backing (ws ! i)" if "j < length ws" "j \<noteq> i" for j
    using ok assms(2) False that unfolding bufs_ok_def by metis
  then show ?thesis using ok f assms(2,3) unfolding bufs_ok_def by (auto simp: nth_list_update)
qed

lemma live_size_unique:
  assumes "heap_ok p h" and "(b, k) \<in> live h" and "(b, n) \<in> live h"
  shows "k = n"
  using block_addr_inj [OF assms(1)] live_block [OF assms(1,2)] live_block [OF assms(1,3)]
  by (metis add_right_cancel fst_conv snd_conv)

lemma bufs_ok_alloc:
  assumes ok: "bufs_ok p ws h" and "i < length ws" and "gw_used (ws ! i)"
    and m: "kmalloc (ucast sz) p h = (b, p1, h1)" and "b \<noteq> 0"
    and h: "h' = (if gw_backing (ws ! i) \<noteq> 0 then kfree (gw_backing (ws ! i)) h1 else h1)"
    and w: "gw_used w" "gw_backing w = b" "gw_backing_capacity w = sz"
  shows "bufs_ok p1 (ws[i := w]) h'"
proof -
  have hp: "heap_ok p h" using ok by (simp add: bufs_ok_def)
  obtain n where n: "ucast sz \<le> n" "(b, n) \<notin> live h" "live h1 = insert (b, n) (live h)" and h1: "heap_ok p1 h1"
    using kmalloc_effect [OF hp m] \<open>b \<noteq> 0\<close> by auto
  have fresh: "gw_backing (ws ! j) \<noteq> b" if j: "j < length ws" for j
  proof
    assume b: "gw_backing (ws ! j) = b"
    then obtain k where k: "(b, k) \<in> live h" using ok j \<open>b \<noteq> 0\<close> by (auto simp: bufs_ok_def)
    then have "(b, k) \<in> live h1" "(b, n) \<in> live h1" using n by auto
    then have "k = n" by (rule live_size_unique [OF h1])
    then show False using k n(2) by simp
  qed
  have grown: "bufs_ok p1 ws h1" using ok h1 n(3) unfolding bufs_ok_def by (simp, blast)
  let ?w0 = "w\<lparr>gw_backing := 0\<rparr>"
  have mid: "bufs_ok p1 (ws[i := ?w0]) h'"
    by (rule bufs_ok_free [OF grown assms(2) _ h]) simp
  have "(b, n) \<in> live h'"
  proof (cases "gw_backing (ws ! i) = 0")
    case False
    then obtain k where k: "(gw_backing (ws ! i), k) \<in> live h1" using grown assms(2) by (auto simp: bufs_ok_def)
    show ?thesis using kfree_effect [OF h1 k] n(3) fresh [OF assms(2)] False by (simp add: h)
  qed (simp add: h n(3))
  then have here: "gw_used w \<and> (\<exists>n. ucast (gw_backing_capacity w) \<le> n \<and> (gw_backing w, n) \<in> live h')"
    using w n(1) by auto
  note m = bufs_okD [OF mid, unfolded length_list_update]
  have there: "gw_used (ws ! j) \<and> (\<exists>n. ucast (gw_backing_capacity (ws ! j)) \<le> n \<and> (gw_backing (ws ! j), n) \<in> live h')"
    if "j < length ws" "j \<noteq> i" "gw_backing (ws ! j) \<noteq> 0" for j
    using m(2) [of j] that by simp
  have diff: "l = j" if "j < length ws" "l < length ws" "j \<noteq> i" "l \<noteq> i" "gw_backing (ws ! j) \<noteq> 0"
    "gw_backing (ws ! l) = gw_backing (ws ! j)" for j l
    using m(3) [of l j] that by simp
  show ?thesis
  proof (rule bufs_okI [OF m(1)], unfold length_list_update)
    fix j assume j: "j < length ws" "gw_backing (ws[i := w] ! j) \<noteq> 0"
    show "gw_used (ws[i := w] ! j) \<and>
        (\<exists>n. ucast (gw_backing_capacity (ws[i := w] ! j)) \<le> n \<and> (gw_backing (ws[i := w] ! j), n) \<in> live h')"
      using here there [OF j(1)] j(2) assms(2) by (cases "j = i") simp_all
  next
    fix l j assume lj: "l < length ws" "j < length ws" "gw_backing (ws[i := w] ! j) \<noteq> 0"
      "gw_backing (ws[i := w] ! l) = gw_backing (ws[i := w] ! j)"
    show "l = j"
      using lj diff [OF lj(2,1)] fresh [OF lj(1)] fresh [OF lj(2)] assms(2) w(2)
      by (cases "l = i"; cases "j = i") auto
  qed
qed

lemma bufs_ok_heap:
  assumes "bufs_ok p ws h" and "heap_ok p' h'" and "live h' = live h"
  shows "bufs_ok p' ws h'"
  using assms by (simp add: bufs_ok_def)

lemma win_ok_fields:
  "win_ok (w\<lparr>gw_pixels := px\<rparr>) = win_ok w"
  "win_ok (w\<lparr>gw_backing := b\<rparr>) = win_ok w"
  "win_ok (w\<lparr>gw_backing_capacity := c\<rparr>) = win_ok w"
  by (simp_all add: win_ok_def)

lemma alloc_backing_bufs:
  assumes ok: "bufs_ok p ws h" and i: "i < length ws" "gw_used (ws ! i)" and same: "same_buffer (ws ! i) w"
    and eq: "gui_window_alloc_backing sz w p h = (r, w', p', h')"
  shows "bufs_ok p' (ws[i := w']) h' \<and> gw_used w' \<and> (win_ok w \<longrightarrow> win_ok w')"
proof -
  obtain b p1 h1 where m: "kmalloc (ucast sz) p h = (b, p1, h1)" by (cases "kmalloc (ucast sz) p h") auto
  have used: "gw_used w" and old: "gw_backing (ws ! i) = gw_backing w" using same i by (simp_all add: same_buffer_def)
  have hp: "heap_ok p h" by (rule bufs_okD(1) [OF ok])
  show ?thesis
  proof (cases "b = 0")
    case True
    then have res: "w' = w" "p' = p1" "h' = h1" using eq m by (auto simp: gui_window_alloc_backing_def)
    have "bufs_ok p1 (ws[i := w]) h1"
      using bufs_ok_heap [OF bufs_ok_update [OF ok same]] kmalloc_effect [OF hp m] True by auto
    then show ?thesis using res used by simp
  next
    case False
    then have res: "w' = (gui_backing_fill w)\<lparr>gw_backing := b, gw_backing_capacity := sz\<rparr>" "p' = p1"
      "h' = (if gw_backing (ws ! i) \<noteq> 0 then kfree (gw_backing (ws ! i)) h1 else h1)"
      using eq m old by (auto simp: gui_window_alloc_backing_def Let_def)
    have "bufs_ok p1 (ws[i := w']) h'"
      by (rule bufs_ok_alloc [OF ok i m False res(3)]) (simp_all add: res(1) gui_backing_fill_def used)
    then show ?thesis using res used by (simp add: gui_backing_fill_def win_ok_fields)
  qed
qed

lemma backing_bufs:
  assumes ok: "bufs_ok p ws h" and i: "i < length ws" "gw_used (ws ! i)" and same: "same_buffer (ws ! i) w"
    and eq: "gui_window_reset_backing w p h = (r, w', p', h') \<or> gui_window_ensure_backing w p h = (r, w', p', h')"
  shows "bufs_ok p' (ws[i := w']) h' \<and> gw_used w' \<and> (win_ok w \<longrightarrow> win_ok w')"
proof -
  have used: "gw_used w" using same i by (simp add: same_buffer_def)
  have filled: "same_buffer (ws ! i) (gui_backing_fill w)" "win_ok (gui_backing_fill w) = win_ok w"
    using same by (simp_all add: same_buffer_def gui_backing_fill_def win_ok_fields)
  consider (keep) "w' = w \<or> w' = gui_backing_fill w" "p' = p" "h' = h"
    | (alloc) sz where "gui_window_alloc_backing sz w p h = (r, w', p', h')"
    using eq by (auto simp: gui_window_reset_backing_def gui_window_ensure_backing_def split: option.splits if_splits)
  then show ?thesis
  proof cases
    case keep
    then show ?thesis
      using bufs_ok_update [OF ok same] bufs_ok_update [OF ok filled(1)] filled(2) used
      by (auto simp: gui_backing_fill_def)
  next
    case alloc
    then show ?thesis by (rule alloc_backing_bufs [OF ok i same])
  qed
qed

lemma gui_ok_buffer:
  assumes ok: "gui_ok p g" and i: "i < length (gd_windows g)" and "bufs_ok p' ((gd_windows g)[i := w]) (gui_heap g')"
    and "gw_used w" "win_ok w" "gd_windows g' = (gd_windows g)[i := w]"
    and "gd_focused_window_id g' = gd_focused_window_id g" "gd_drag_window_id g' = gd_drag_window_id g"
  shows "gui_ok p' g'"
  using assms id_ok_update [of "gd_windows g" "gd_focused_window_id g" i w] list_update_all [of "gd_windows g" win_ok i w]
  unfolding gui_ok_def by simp

lemma push_event_buffer:
  "same_buffer w (snd (gui_window_push_event typ d1 d2 w))"
  by (simp add: gui_window_push_event_def same_buffer_def Let_def)

lemma push_event_win_ok:
  assumes "win_ok w" shows "win_ok (snd (gui_window_push_event typ d1 d2 w))"
  using push_event_spec [OF assms, of "typ" d1 d2] assms
  by (cases "gw_used w") (simp_all add: gui_window_push_event_def)

lemma gui_resize_window_ok:
  assumes ok: "gui_ok p g" and eq: "gui_resize_window k x y w h p g = (r, p', g')"
  shows "gui_ok p' g'"
proof (cases "gd_fb g = None \<or> k \<ge> of_nat GUI_MAX_WINDOWS \<or> w < 2 \<or> h < 2 \<or>
         \<not> gui_rect_fits_framebuffer (gd_fb g) x y w h \<or> \<not> gw_used (gd_windows g ! unat k)")
  case True
  then show ?thesis using ok eq by (simp add: gui_resize_window_def)
next
  case False
  let ?i = "unat k"
  let ?old = "gd_windows g ! ?i"
  let ?v = "?old\<lparr>gw_x := x, gw_y := y, gw_w := w, gw_h := h\<rparr>"
  have i: "?i < length (gd_windows g)" and used: "gw_used ?old" using False win_in [OF ok] by auto
  have wok: "win_ok ?v" using ok i by (simp add: gui_ok_def win_ok_def)
  have same: "same_buffer ?old ?v" by (simp add: same_buffer_def)
  have bufs: "bufs_ok p (gd_windows g) (gui_heap g)" using ok by (simp add: gui_ok_def)
  define g1 where "g1 = gui_refresh_cursor_shape (set_window ?i (\<lambda>v. v\<lparr>gw_x := x, gw_y := y, gw_w := w, gw_h := h\<rparr>) g)"
  have g1: "gd_windows g1 = (gd_windows g)[?i := ?v]" "gui_heap g1 = gui_heap g"
    "gd_focused_window_id g1 = gd_focused_window_id g" "gd_drag_window_id g1 = gd_drag_window_id g"
    by (simp_all add: g1_def)
  show ?thesis
  proof (cases "sint (gw_w ?old) \<noteq> sint w \<or> sint (gw_h ?old) \<noteq> sint h")
    case unchanged: False
    have "gui_ok p g1" by (rule gui_ok_window [OF ok same wok g1])
    then show ?thesis using eq False unchanged
      by (auto simp: gui_resize_window_def Let_def g1_def [symmetric] gui_ok_def)
  next
    case changed: True
    obtain r' u p1 h1 where rb: "gui_window_reset_backing ?v p (gui_heap g) = (r', u, p1, h1)"
      by (cases "gui_window_reset_backing ?v p (gui_heap g)") auto
    have b: "bufs_ok p1 ((gd_windows g)[?i := u]) h1" "gw_used u" "win_ok u"
      using backing_bufs [OF bufs i used same disjI1 [OF rb]] wok by simp_all
    define u' where "u' = (if r' then snd (gui_window_push_event GUI_EVENT_RESIZE (sint w) (sint h) u)
      else u\<lparr>gw_x := gw_x ?old, gw_y := gw_y ?old, gw_w := gw_w ?old, gw_h := gw_h ?old\<rparr>)"
    have u': "same_buffer u u'" "win_ok u'"
      using push_event_buffer push_event_win_ok b(3) by (simp_all add: u'_def same_buffer_def win_ok_def)
    have "bufs_ok p1 ((gd_windows g)[?i := u']) h1"
      using bufs_ok_update [OF b(1), of ?i u'] u'(1) i by simp
    moreover have "p' = p1" "gd_windows g' = (gd_windows g)[?i := u']" "gui_heap g' = h1"
      "gd_focused_window_id g' = gd_focused_window_id g" "gd_drag_window_id g' = gd_drag_window_id g"
      using eq False changed rb i
      by (auto simp: gui_resize_window_def Let_def g1_def [symmetric] g1 u'_def split: bool.splits)
    moreover have "gw_used u'" using u'(1) b(2) by (simp add: same_buffer_def)
    ultimately show ?thesis using gui_ok_buffer [OF ok i, of p' u' g'] u'(2) by simp
  qed
qed

lemma unat_of_small: "i < 16 \<Longrightarrow> unat (of_nat i :: u32) = i"
  by (simp add: unat_of_nat take_bit_nat_eq_self)

lemma focus_ensure_fields [simp]:
  "gd_windows (snd (gui_focus_window_ensure g)) = gd_windows g"
  "gui_heap (snd (gui_focus_window_ensure g)) = gui_heap g"
  "gd_drag_window_id (snd (gui_focus_window_ensure g)) = gd_drag_window_id g"
  "gd_next_z (snd (gui_focus_window_ensure g)) = gd_next_z g"
  "gd_fb (snd (gui_focus_window_ensure g)) = gd_fb g"
  by (simp_all add: gui_focus_window_ensure_def split: option.splits)

lemma focus_ensure_id:
  assumes "length (gd_windows g) = 16"
  shows "id_ok (gd_windows g) (gd_focused_window_id (snd (gui_focus_window_ensure g)))"
proof (cases "first_index GUI_MAX_WINDOWS (\<lambda>i. focusable (gd_windows g ! i))")
  case None
  then show ?thesis
    using assms by (auto simp: gui_focus_window_ensure_def id_ok_def focusable_def word_less_nat_alt)
next
  case (Some i)
  then have "i < 16" "focusable (gd_windows g ! i)" by (rule first_index_SomeD)+
  then show ?thesis
    using assms Some
    by (auto simp: gui_focus_window_ensure_def id_ok_def focusable_def unat_of_small word_less_nat_alt)
qed

definition dead_window :: "gui_window \<Rightarrow> gui_window" where
  "dead_window w = w\<lparr>gw_x := 0, gw_y := 0, gw_w := 0, gw_h := 0, gw_bg_color := 0, gw_border_color := 0,
     gw_owner_pid := GUI_NO_OWNER, gw_z := 0, gw_flags := 0, gw_title_h := 0, gw_title := [],
     gw_event_head := 0, gw_event_tail := 0, gw_event_count := 0, gw_used := False, gw_owner_drawn := False,
     gw_backing := 0, gw_backing_capacity := if gw_backing w = 0 then gw_backing_capacity w else 0,
     gw_cursor_regions := replicate GUI_MAX_CURSOR_REGIONS no_region\<rparr>"

lemma dead_window_fields [simp]:
  "gw_used (dead_window w) = False" "gw_backing (dead_window w) = 0"
  "win_ok w \<Longrightarrow> win_ok (dead_window w)" "win_events (dead_window w) = []"
  by (simp_all add: dead_window_def win_ok_def ring_ok_def win_events_def ring_content_def)

lemma dead_window_eq:
  "gui_window_set_title None ((fst (gui_window_free_backing w h))
     \<lparr>gw_x := 0, gw_y := 0, gw_w := 0, gw_h := 0, gw_bg_color := 0, gw_border_color := 0,
      gw_owner_pid := GUI_NO_OWNER, gw_z := 0, gw_flags := 0, gw_title_h := 0,
      gw_event_head := 0, gw_event_tail := 0, gw_event_count := 0, gw_used := False,
      gw_owner_drawn := False, gw_cursor_regions := replicate GUI_MAX_CURSOR_REGIONS no_region\<rparr>) = dead_window w"
  by (cases w) (simp add: gui_window_set_title_def gui_window_free_backing_def dead_window_def)

lemma destroy_effect:
  assumes k: "k < 16" "gw_used (gd_windows g ! unat k)"
  defines "g' \<equiv> snd (gui_destroy_window k g)"
  shows "fst (gui_destroy_window k g)"
    and "gd_windows g' = (gd_windows g)[unat k := dead_window (gd_windows g ! unat k)]"
    and "gui_heap g' = (if gw_backing (gd_windows g ! unat k) \<noteq> 0 then kfree (gw_backing (gd_windows g ! unat k)) (gui_heap g) else gui_heap g)"
    and "gd_drag_window_id g' = gd_drag_window_id g"
    and "gd_focused_window_id g' = (if gd_focused_window_id g = k
      then gd_focused_window_id (snd (gui_focus_window_ensure (g\<lparr>gd_windows := gd_windows g', gui_heap := gui_heap g',
        gd_focused_window_id := GUI_NO_WINDOW\<rparr>)))
      else gd_focused_window_id g)"
proof -
  let ?i = "unat k"
  let ?w = "gd_windows g ! ?i"
  let ?h = "if gw_backing ?w \<noteq> 0 then kfree (gw_backing ?w) (gui_heap g) else gui_heap g"
  have free: "snd (gui_window_free_backing ?w (gui_heap g)) = ?h"
    by (simp add: gui_window_free_backing_def)
  define g1 where "g1 = g\<lparr>gd_windows := (gd_windows g)[?i := dead_window ?w], gui_heap := ?h\<rparr>"
  define g2 where "g2 = (if gd_focused_window_id g1 = k
      then snd (gui_focus_window_ensure (g1\<lparr>gd_focused_window_id := GUI_NO_WINDOW\<rparr>)) else g1)"
  have eq: "gui_destroy_window k g = (True, gui_damage_add (sint (gw_x ?w)) (sint (gw_y ?w)) (sint (gw_w ?w)) (sint (gw_h ?w))
       (gui_refresh_cursor_shape g2))"
    using k by (simp add: gui_destroy_window_def Let_def case_prod_beta dead_window_eq free g2_def g1_def not_le)
  then have fields: "gd_windows g' = gd_windows g2" "gui_heap g' = gui_heap g2" "gd_drag_window_id g' = gd_drag_window_id g2"
    "gd_focused_window_id g' = gd_focused_window_id g2"
    by (simp_all add: g'_def)
  show "fst (gui_destroy_window k g)" using eq by simp
  show ws: "gd_windows g' = (gd_windows g)[?i := dead_window ?w]"
    and h: "gui_heap g' = ?h" and "gd_drag_window_id g' = gd_drag_window_id g"
    by (simp_all add: fields g2_def g1_def)
  show "gd_focused_window_id g' = (if gd_focused_window_id g = k
      then gd_focused_window_id (snd (gui_focus_window_ensure (g\<lparr>gd_windows := gd_windows g', gui_heap := gui_heap g',
        gd_focused_window_id := GUI_NO_WINDOW\<rparr>)))
      else gd_focused_window_id g)"
    unfolding ws h fields(4) by (simp add: g2_def g1_def)
qed

lemma gui_destroy_window_ok:
  assumes ok: "gui_ok p g"
  shows "gui_ok p (snd (gui_destroy_window k g))"
proof (cases "k < 16 \<and> gw_used (gd_windows g ! unat k)")
  case False
  then show ?thesis using ok by (simp add: gui_destroy_window_def not_less)
next
  case True
  let ?g = "snd (gui_destroy_window k g)" and ?i = "unat k"
  have i: "?i < length (gd_windows g)" using win_in [OF ok] True by simp
  note e = destroy_effect [OF conjunct1 [OF True] conjunct2 [OF True]]
  have len: "length (gd_windows ?g) = 16" using e(2) ok by (simp add: gui_ok_def)
  have "id_ok (gd_windows ?g) (gd_focused_window_id ?g)"
  proof (cases "gd_focused_window_id g = k")
    case True
    then show ?thesis
      using focus_ensure_id [of "g\<lparr>gd_windows := gd_windows ?g, gui_heap := gui_heap ?g, gd_focused_window_id := GUI_NO_WINDOW\<rparr>"]
        e(5) len by simp
  next
    case False
    then have "unat (gd_focused_window_id g) \<noteq> ?i" by (simp add: word_unat_eq_iff)
    then show ?thesis using False e(5) e(2) ok by (auto simp: id_ok_def gui_ok_def)
  qed
  moreover have "bufs_ok p (gd_windows ?g) (gui_heap ?g)"
    using bufs_ok_free [OF _ i _ e(3)] ok e(2) by (simp add: gui_ok_def)
  moreover have "\<forall>w\<in>set (gd_windows ?g). win_ok w"
    using ok i unfolding e(2) by (intro list_update_all) (auto simp: gui_ok_def)
  ultimately show ?thesis using len e(4) ok by (simp add: gui_ok_def)
qed

text \<open>Destroying all the windows of a process.\<close>

definition owned :: "u32 \<Rightarrow> gui_window \<Rightarrow> bool" where
  "owned pid w \<longleftrightarrow> gw_used w \<and> gw_owner_pid w = pid"

lemma destroy_fold:
  fixes pid :: u32
  assumes "gui_ok p g" and "set is \<subseteq> {..<16}" and "distinct is"
  defines "g' \<equiv> fold (\<lambda>i g. if gw_used (gd_windows g ! i) \<and> gw_owner_pid (gd_windows g ! i) = pid
                       then snd (gui_destroy_window (of_nat i) g) else g) is g"
  shows "gui_ok p g' \<and> (\<forall>i<16. gd_windows g' ! i =
     (if i \<in> set is \<and> owned pid (gd_windows g ! i) then dead_window (gd_windows g ! i) else gd_windows g ! i))"
  using assms(1-3) unfolding g'_def
proof (induction "is" arbitrary: g)
  case (Cons i js)
  define g1 where "g1 = (if gw_used (gd_windows g ! i) \<and> gw_owner_pid (gd_windows g ! i) = pid
     then snd (gui_destroy_window (of_nat i) g) else g)"
  have i: "i < 16" "of_nat i < (16 :: u32)" "unat (of_nat i :: u32) = i"
    using Cons.prems(2) by (simp_all add: unat_of_small word_less_nat_alt)
  have len: "length (gd_windows g) = 16" using Cons.prems(1) by (simp add: gui_ok_def)
  have ok1: "gui_ok p g1" using Cons.prems(1) gui_destroy_window_ok by (simp add: g1_def)
  have ws: "gd_windows g1 ! j = (if j = i \<and> owned pid (gd_windows g ! i) then dead_window (gd_windows g ! i) else gd_windows g ! j)"
    if "j < 16" for j
    using destroy_effect(2) [OF i(2), of g] i(3) that len by (auto simp: g1_def owned_def nth_list_update)
  show ?case using Cons.IH [OF ok1] Cons.prems(2,3) ws by (auto simp: g1_def)
qed auto

lemma destroy_for_pid_effect:
  assumes "gui_ok p g" and "pid \<noteq> GUI_NO_OWNER"
  shows "gui_ok p (gui_destroy_windows_for_pid pid g) \<and>
    (\<forall>i<GUI_MAX_WINDOWS. gd_windows (gui_destroy_windows_for_pid pid g) ! i =
       (if owned pid (gd_windows g ! i) then dead_window (gd_windows g ! i) else gd_windows g ! i))"
proof -
  have "set (rev [0..<16]) \<subseteq> {..<16 :: nat}" "distinct (rev [0..<16 :: nat])" by auto
  from destroy_fold [OF assms(1) this, of pid] assms(2) show ?thesis
    unfolding gui_destroy_windows_for_pid_def by (simp del: upt_rec_numeral)
qed

text \<open>When a process goes away its windows go with it and no other window is touched: every window it owned is
  reset and unused, every other window is unchanged, and the window system stays consistent, with
  the keyboard focus on a used window or on none.\<close>

theorem gui_destroy_windows_for_pid_exact:
  assumes "gui_ok p g" and "pid \<noteq> GUI_NO_OWNER"
  shows "gui_ok p (gui_destroy_windows_for_pid pid g) \<and>
    (\<forall>i<GUI_MAX_WINDOWS. gd_windows (gui_destroy_windows_for_pid pid g) ! i =
       (if owned pid (gd_windows g ! i) then dead_window (gd_windows g ! i) else gd_windows g ! i))"
  by (rule destroy_for_pid_effect [OF assms])

lemma desktop_demo_ok: "pmm_ready p \<Longrightarrow> gui_ok p desktop_demo"
proof -
  assume p: "pmm_ready p"
  have w: "w \<in> set (gd_windows desktop_demo) \<Longrightarrow> win_ok w \<and> gw_backing w = 0" for w
    by (auto simp: desktop_demo_def blank_window_def win_ok_def ring_ok_def)
  have "bufs_ok p (gd_windows desktop_demo) (gui_heap desktop_demo)"
  proof (rule bufs_okI)
    show "heap_ok p (gui_heap desktop_demo)" using p by (simp add: desktop_demo_def kheap_empty_ok)
  qed (use w [OF nth_mem] in blast)+
  then show ?thesis using w by (simp add: gui_ok_def id_ok_def) (simp add: desktop_demo_def)
qed

theorem gui_destroy_windows_for_pid_exact_witness:
  "gui_ok (pmm_init 0x40000000 0x3000) (gui_destroy_windows_for_pid 9 desktop_demo) \<and>
   \<not> gw_used (gd_windows (gui_destroy_windows_for_pid 9 desktop_demo) ! 1) \<and>
   gw_owner_pid (gd_windows (gui_destroy_windows_for_pid 9 desktop_demo) ! 0) = 7"
  using gui_destroy_windows_for_pid_exact [OF desktop_demo_ok [OF pmm_demo(1)], of 9]
  by (simp add: owned_def desktop_demo_def)

section \<open>Every operation keeps the invariant\<close>

lemma gui_ok_focus:
  assumes "gui_ok p g" and "id_ok (gd_windows g) k"
  shows "gui_ok p (g\<lparr>gd_focused_window_id := k\<rparr>)"
  using assms by (simp add: gui_ok_def)

lemma gui_ok_cong:
  assumes "gd_windows g' = gd_windows g" and "gui_heap g' = gui_heap g"
    and "gd_focused_window_id g' = gd_focused_window_id g" and "gd_drag_window_id g' = gd_drag_window_id g"
  shows "gui_ok p g' = gui_ok p g"
  using assms by (simp add: gui_ok_def)

lemma gui_ok_frames [simp]:
  "gui_ok p (gui_damage_add x y w h g) = gui_ok p g"
  "gui_ok p (gui_refresh_cursor_shape g) = gui_ok p g"
  "gui_ok p (union_rect a b c d e f i j g) = gui_ok p g"
  "gui_ok p (window_damage k g) = gui_ok p g"
  "gui_ok p (gui_request_redraw g) = gui_ok p g"
  "gui_ok p (g\<lparr>gd_next_z := z\<rparr>) = gui_ok p g"
  "gui_ok p (g\<lparr>gd_cursor := cu\<rparr>) = gui_ok p g"
  "gui_ok p (g\<lparr>g_gui_dirty := dt\<rparr>) = gui_ok p g"
  "gui_ok p (g\<lparr>gd_damage_full := df\<rparr>) = gui_ok p g"
  "gui_ok p (g\<lparr>gd_damage_rects := ds\<rparr>) = gui_ok p g"
  by (rule gui_ok_cong; simp)+

lemma gui_ok_set_window:
  assumes "gui_ok p g" and "same_buffer (gd_windows g ! i) (f (gd_windows g ! i))"
    and "win_ok (gd_windows g ! i) \<Longrightarrow> win_ok (f (gd_windows g ! i))"
  shows "gui_ok p (set_window i f g)"
  by (rule gui_ok_window [OF assms]) simp_all

lemma gui_ok_ensure:
  assumes "gui_ok p g"
  shows "gui_ok p (snd (gui_focus_window_ensure g))"
  using assms focus_ensure_id [of g] by (simp add: gui_ok_def)

lemma id_ok_lookup: "gui_ok p g \<Longrightarrow> k < 16 \<Longrightarrow> gw_used (gd_windows g ! unat k) \<Longrightarrow> id_ok (gd_windows g) k"
  using win_in by (simp add: id_ok_def)

named_theorems gui_keeps

lemma gui_create_window_ok [gui_keeps]:
  assumes ok: "gui_ok p g"
  shows "gui_ok p (snd (gui_create_window_for_pid pid x y w h bg bc t g))"
proof (cases "\<exists>fw fh i. gd_fb g = Some (fw, fh) \<and> \<not> (w < 2 \<or> h < 2 \<or> x \<ge> fw \<or> y \<ge> fh) \<and>
    first_index GUI_MAX_WINDOWS (\<lambda>i. \<not> gw_used (gd_windows g ! i)) = Some i")
  case False
  then show ?thesis using ok by (auto simp: gui_create_window_for_pid_def split: option.splits)
next
  case True
  then obtain fw fh i where c: "gd_fb g = Some (fw, fh)" "\<not> (w < 2 \<or> h < 2 \<or> x \<ge> fw \<or> y \<ge> fh)"
    and f: "first_index GUI_MAX_WINDOWS (\<lambda>i. \<not> gw_used (gd_windows g ! i)) = Some i" by blast
  have i: "i < length (gd_windows g)" and unused: "\<not> gw_used (gd_windows g ! i)"
    using first_index_SomeD(1,2) [OF f] ok by (simp_all add: gui_ok_def)
  have bufs: "bufs_ok p (gd_windows g) (gui_heap g)" using ok by (simp add: gui_ok_def)
  have nobuf: "gw_backing (gd_windows g ! i) = 0" using bufs_okD(2) [OF bufs i] unused by blast
  define win where "win = gui_apply_builtin_policy ((gui_window_set_title t
     ((gd_windows g ! i)\<lparr>gw_x := x, gw_y := y, gw_w := w, gw_h := h, gw_bg_color := bg,
        gw_border_color := bc, gw_owner_pid := pid, gw_z := gd_next_z g, gw_flags := 0, gw_title_h := 0,
        gw_event_head := 0, gw_event_tail := 0, gw_event_count := 0, gw_owner_drawn := False, gw_backing := 0,
        gw_backing_capacity := 0, gw_cursor_regions := replicate GUI_MAX_CURSOR_REGIONS no_region\<rparr>))
     \<lparr>gw_used := True, gw_minimized := False\<rparr>)"
  have win: "gw_used win" "gw_backing win = 0" "win_ok (gd_windows g ! i) \<Longrightarrow> win_ok win"
    by (simp_all add: win_def gui_apply_builtin_policy_def gui_window_set_title_def win_ok_def ring_ok_def)
  define g1 where "g1 = g\<lparr>gd_windows := (gd_windows g)[i := win], gd_next_z := gd_next_z g + 1\<rparr>"
  have "bufs_ok p ((gd_windows g)[i := win]) (gui_heap g)"
    using bufs_ok_free [OF bufs i win(2) refl] nobuf by simp
  moreover have "win_ok win" using ok i by (intro win(3)) (simp add: gui_ok_def)
  ultimately have g1: "gui_ok p g1"
    by (intro gui_ok_buffer [OF ok i _ win(1)]) (simp_all add: g1_def)
  have "id_ok (gd_windows g1) (of_nat i)"
    using id_ok_lookup [OF g1, of "of_nat i"] i ok win(1)
    by (simp add: g1_def gui_ok_def unat_of_small word_less_nat_alt)
  then have "gui_ok p (g1\<lparr>gd_focused_window_id := of_nat i\<rparr>)" by (rule gui_ok_focus [OF g1])
  then show ?thesis using g1 c f
    by (simp add: gui_create_window_for_pid_def Let_def win_def [symmetric] g1_def [symmetric])
qed

lemma gui_small_ok [gui_keeps]:
  assumes ok: "gui_ok p g"
  shows "gui_ok p (gui_set_cursor x y g)" "gui_ok p (gui_cursor_move x y g)" "gui_ok p (snd (gui_set_cursor_shape s g))"
    "gui_ok p (gui_drag_end g)" "gui_ok p (gui_clear_dirty g)" "gui_ok p (gui_damage_add_full g)" "gui_ok p (gui_damage_clear g)"
  using ok by (auto simp: gui_set_cursor_def gui_cursor_move_def gui_set_cursor_shape_def gui_drag_end_def gui_clear_dirty_def
      gui_damage_add_full_def gui_damage_clear_def Let_def gui_ok_def split: option.splits)

lemma gui_register_cursor_region_ok [gui_keeps]:
  assumes ok: "gui_ok p g"
  shows "gui_ok p (snd (gui_register_cursor_region k sl x y w h s g))"
proof -
  have "gui_ok p (set_window i (\<lambda>v. v\<lparr>gw_cursor_regions := (gw_cursor_regions v)[j := r]\<rparr>) g)" for i j r
    by (rule gui_ok_set_window [OF ok]) (simp_all add: same_buffer_def win_ok_def)
  then show ?thesis using ok by (simp add: gui_register_cursor_region_def Let_def)
qed

lemma gui_drag_ok [gui_keeps]:
  assumes ok: "gui_ok p g"
  shows "gui_ok p (gui_drag_start k x y g)" and "gui_ok p (gui_drag_update x y g)"
proof -
  show "gui_ok p (gui_drag_start k x y g)"
    using ok by (auto simp: gui_drag_start_def Let_def gui_ok_def word_less_nat_alt word_le_nat_alt)
  have "gui_ok p (set_window i (\<lambda>v. v\<lparr>gw_x := a, gw_y := b\<rparr>) g)" for i a b
    by (rule gui_ok_set_window [OF ok]) (simp_all add: same_buffer_def win_ok_def)
  moreover have "gui_ok p (g\<lparr>gd_drag_window_id := GUI_NO_WINDOW\<rparr>)" using ok by (simp add: gui_ok_def)
  ultimately show "gui_ok p (gui_drag_update x y g)" using ok by (simp add: gui_drag_update_def Let_def)
qed

lemma builtin_policy_buffer [simp]:
  "same_buffer w (gui_apply_builtin_policy v) = same_buffer w v" "win_ok (gui_apply_builtin_policy v) = win_ok v"
  "gw_used (gui_apply_builtin_policy v) = gw_used v"
  by (simp_all add: gui_apply_builtin_policy_def same_buffer_def win_ok_def)

lemma gui_title_ok [gui_keeps]:
  assumes ok: "gui_ok p g"
  shows "gui_ok p (snd (gui_window_set_title_internal k t g))" and "gui_ok p (snd (gui_window_set_title_bar_internal k th g))"
proof -
  have "gui_ok p (set_window i (\<lambda>w. gui_apply_builtin_policy (gui_window_set_title t w)) g)"
    "gui_ok p (set_window i (\<lambda>w. w\<lparr>gw_title_h := th\<rparr>) g)" for i
    by (rule gui_ok_set_window [OF ok]; simp add: gui_window_set_title_def gui_apply_builtin_policy_def same_buffer_def win_ok_def)+
  then show "gui_ok p (snd (gui_window_set_title_internal k t g))" "gui_ok p (snd (gui_window_set_title_bar_internal k th g))"
    using ok by (simp_all add: gui_window_set_title_internal_def gui_window_set_title_bar_internal_def Let_def split: option.splits)
qed

lemma gui_set_flags_ok [gui_keeps]:
  assumes ok: "gui_ok p g"
  shows "gui_ok p (snd (gui_window_set_flags_internal k fl g))"
proof (cases "gui_window_lookup k g")
  case (Some i)
  define g1 where "g1 = set_window i (\<lambda>w. w\<lparr>gw_flags := fl\<rparr>) g"
  have g1: "gui_ok p g1" unfolding g1_def
    by (rule gui_ok_set_window [OF ok]) (simp_all add: same_buffer_def win_ok_def)
  have "gui_ok p (g1\<lparr>gd_focused_window_id := GUI_NO_WINDOW\<rparr>)"
    by (rule gui_ok_focus [OF g1]) (simp add: id_ok_def)
  then have "gui_ok p (snd (gui_focus_window_ensure (g1\<lparr>gd_focused_window_id := GUI_NO_WINDOW\<rparr>)))" by (rule gui_ok_ensure)
  with g1 Some show ?thesis by (simp add: gui_window_set_flags_internal_def Let_def g1_def [symmetric])
qed (simp add: gui_window_set_flags_internal_def ok)

lemma gui_move_ok [gui_keeps]:
  assumes ok: "gui_ok p g"
  shows "gui_ok p (snd (gui_move_window k x y g))"
proof -
  have "gui_ok p (set_window i (\<lambda>w. w\<lparr>gw_x := x, gw_y := y\<rparr>) g)" for i
    by (rule gui_ok_set_window [OF ok]) (simp_all add: same_buffer_def win_ok_def)
  then show ?thesis using ok by (simp add: gui_move_window_def Let_def split: option.splits)
qed

lemma push_event_set_ok:
  assumes "gui_ok p g" and "same_buffer (gd_windows g ! i) (f (gd_windows g ! i))"
    and "win_ok (gd_windows g ! i) \<Longrightarrow> win_ok (f (gd_windows g ! i))"
  shows "gui_ok p (set_window i (\<lambda>w. snd (gui_window_push_event typ d1 d2 (f w))) g)"
proof (rule gui_ok_set_window [OF assms(1)])
  show "same_buffer (gd_windows g ! i) (snd (gui_window_push_event typ d1 d2 (f (gd_windows g ! i))))"
    by (rule same_buffer_trans [OF assms(2) push_event_buffer])
qed (rule push_event_win_ok [OF assms(3)])

lemma gui_minimize_ok [gui_keeps]:
  assumes ok: "gui_ok p g"
  shows "gui_ok p (snd (gui_window_minimize k g))"
proof -
  have "gui_ok p (set_window i (\<lambda>w. snd (gui_window_push_event t 0 0 (w\<lparr>gw_minimized := True\<rparr>))) g)" for i t
    by (rule push_event_set_ok [OF ok]) (simp_all add: same_buffer_def win_ok_def)
  then show ?thesis using ok by (simp add: gui_window_minimize_def Let_def)
qed

lemma gui_restore_ok [gui_keeps]:
  assumes ok: "gui_ok p g"
  shows "gui_ok p (snd (gui_window_restore k g))"
proof (cases "k < 16 \<and> gw_used (gd_windows g ! unat k)")
  case True
  define g1 where "g1 = (if gui_window_effective_flags (gd_windows g ! unat k) AND GUI_WINDOW_NO_FOCUS = 0
     then g\<lparr>gd_focused_window_id := k\<rparr> else g)"
  have "id_ok (gd_windows g) k" using id_ok_lookup [OF ok] True by simp
  then have g1: "gui_ok p (g1\<lparr>gd_next_z := z\<rparr>)" for z using ok gui_ok_focus [OF ok] by (simp add: g1_def)
  have "gui_ok p (set_window i (\<lambda>w. snd (gui_window_push_event t 0 0 (w\<lparr>gw_minimized := False, gw_z := z'\<rparr>)))
      (g1\<lparr>gd_next_z := z\<rparr>))" for i t z z'
    by (rule push_event_set_ok [OF g1]) (simp_all add: same_buffer_def win_ok_def)
  then show ?thesis using ok by (simp add: gui_window_restore_def Let_def g1_def [symmetric])
qed (auto simp: gui_window_restore_def ok not_less Let_def)

lemma gui_focus_ok [gui_keeps]:
  assumes ok: "gui_ok p g"
  shows "gui_ok p (snd (gui_focus_window k g))"
proof (cases "gui_window_lookup k g")
  case (Some i)
  then have "id_ok (gd_windows g) k"
    using id_ok_lookup [OF ok] by (auto simp: gui_window_lookup_def not_le split: if_splits)
  then have "gui_ok p (g\<lparr>gd_focused_window_id := k, gd_next_z := z\<rparr>)" for z using gui_ok_focus [OF ok] by simp
  then have "gui_ok p (set_window i (\<lambda>w. w\<lparr>gw_z := z'\<rparr>) (g\<lparr>gd_focused_window_id := k, gd_next_z := z\<rparr>))" for z z'
    by (rule gui_ok_set_window) (simp_all add: same_buffer_def win_ok_def)
  then show ?thesis using ok Some by (simp add: gui_focus_window_def Let_def)
qed (simp add: gui_focus_window_def ok)

lemma gui_events_ok [gui_keeps]:
  assumes ok: "gui_ok p g"
  shows "gui_ok p (set_window i (\<lambda>w. snd (gui_window_push_event typ d1 d2 w)) g)"
    and "gui_ok p (set_window i (\<lambda>w. case gui_window_pop_event w of None \<Rightarrow> w | Some (e, w') \<Rightarrow> w') g)"
proof -
  show "gui_ok p (set_window i (\<lambda>w. snd (gui_window_push_event typ d1 d2 w)) g)"
    by (rule push_event_set_ok [OF ok]) (simp_all add: same_buffer_def)
  show "gui_ok p (set_window i (\<lambda>w. case gui_window_pop_event w of None \<Rightarrow> w | Some (e, w') \<Rightarrow> w') g)"
  proof (rule gui_ok_set_window [OF ok])
    let ?w = "gd_windows g ! i"
    show "same_buffer ?w (case gui_window_pop_event ?w of None \<Rightarrow> ?w | Some (e, w') \<Rightarrow> w')"
      by (simp add: gui_window_pop_event_def same_buffer_def)
    assume "win_ok ?w"
    then show "win_ok (case gui_window_pop_event ?w of None \<Rightarrow> ?w | Some (e, w') \<Rightarrow> w')"
      using ring_pop(1) [of 32 "gw_events ?w" "gw_event_head ?w" "gw_event_tail ?w" "gw_event_count ?w"]
      by (simp add: gui_window_pop_event_def win_ok_def)
  qed
qed

section \<open>Runs of the window system\<close>

text \<open>One operation of the window system, or a change of the kernel heap by its other clients, who leave the blocks of the
  window system alone.\<close>

inductive gui_step :: "pmm \<times> gui \<Rightarrow> pmm \<times> gui \<Rightarrow> bool" where
  create: "gui_step (p, g) (p, snd (gui_create_window_for_pid pid x y w h bg bc t g))"
| destroy: "gui_step (p, g) (p, snd (gui_destroy_window k g))"
| destroy_pid: "gui_step (p, g) (p, gui_destroy_windows_for_pid pid g)"
| set_title: "gui_step (p, g) (p, snd (gui_window_set_title_internal k t g))"
| set_title_bar: "gui_step (p, g) (p, snd (gui_window_set_title_bar_internal k th g))"
| set_flags: "gui_step (p, g) (p, snd (gui_window_set_flags_internal k fl g))"
| move: "gui_step (p, g) (p, snd (gui_move_window k x y g))"
| resize: "gui_resize_window k x y w h p g = (r, p', g') \<Longrightarrow> gui_step (p, g) (p', g')"
| minimize: "gui_step (p, g) (p, snd (gui_window_minimize k g))"
| restore: "gui_step (p, g) (p, snd (gui_window_restore k g))"
| focus: "gui_step (p, g) (p, snd (gui_focus_window k g))"
| cursor: "gui_step (p, g) (p, gui_cursor_move dx dy g)"
| set_cursor: "gui_step (p, g) (p, gui_set_cursor cx cy g)"
| shape: "gui_step (p, g) (p, snd (gui_set_cursor_shape s g))"
| region: "gui_step (p, g) (p, snd (gui_register_cursor_region k sl cx cy w h s g))"
| drag_start: "gui_step (p, g) (p, gui_drag_start k cx cy g)"
| drag_update: "gui_step (p, g) (p, gui_drag_update cx cy g)"
| drag_end: "gui_step (p, g) (p, gui_drag_end g)"
| push: "gui_step (p, g) (p, set_window i (\<lambda>w. snd (gui_window_push_event typ d1 d2 w)) g)"
| pop: "gui_step (p, g) (p, set_window i (\<lambda>w. case gui_window_pop_event w of None \<Rightarrow> w | Some (e, w') \<Rightarrow> w') g)"
| ensure: "gui_window_lookup k g = Some i \<Longrightarrow>
    gui_window_ensure_backing (gd_windows g ! i) p (gui_heap g) = (r, w, p', h') \<Longrightarrow>
    gui_step (p, g) (p', g\<lparr>gd_windows := (gd_windows g)[i := w], gui_heap := h'\<rparr>)"
| damage: "gui_step (p, g) (p, gui_damage_add cx cy cw ch g)"
| redraw: "gui_step (p, g) (p, gui_request_redraw g)"
| drawn: "gui_step (p, g) (p, gui_clear_dirty g)"
| heap: "heap_ok p' h' \<Longrightarrow> live (gui_heap g) \<subseteq> live h' \<Longrightarrow> gui_step (p, g) (p', g\<lparr>gui_heap := h'\<rparr>)"

lemma destroy_for_pid_ok: "gui_ok p g \<Longrightarrow> gui_ok p (gui_destroy_windows_for_pid pid g)"
  using destroy_for_pid_effect [of p g pid] by (cases "pid = GUI_NO_OWNER") (simp_all add: gui_destroy_windows_for_pid_def)

lemma gui_ok_ensure_backing:
  assumes ok: "gui_ok p g" and k: "gui_window_lookup k g = Some i"
    and e: "gui_window_ensure_backing (gd_windows g ! i) p (gui_heap g) = (r, w, p', h')"
  shows "gui_ok p' (g\<lparr>gd_windows := (gd_windows g)[i := w], gui_heap := h'\<rparr>)"
proof -
  have i: "i < length (gd_windows g)" "gw_used (gd_windows g ! i)"
    using k win_in [OF ok, of k] by (auto simp: gui_window_lookup_def split: if_splits)
  have bufs: "bufs_ok p (gd_windows g) (gui_heap g)" and wok: "win_ok (gd_windows g ! i)"
    using ok i(1) by (simp_all add: gui_ok_def)
  have "same_buffer (gd_windows g ! i) (gd_windows g ! i)" by (simp add: same_buffer_def)
  from backing_bufs [OF bufs i this disjI2 [OF e]] wok
  show ?thesis by (intro gui_ok_buffer [OF ok i(1)]) simp_all
qed

lemma gui_ok_heap:
  assumes ok: "gui_ok p g" and "heap_ok p' h'" and "live (gui_heap g) \<subseteq> live h'"
  shows "gui_ok p' (g\<lparr>gui_heap := h'\<rparr>)"
proof -
  have b: "bufs_ok p (gd_windows g) (gui_heap g)" using ok by (simp add: gui_ok_def)
  have "bufs_ok p' (gd_windows g) h'"
    by (rule bufs_okI [OF assms(2)]) (use bufs_okD(2) [OF b] bufs_okD(3) [OF b] assms(3) in blast)+
  then show ?thesis using ok by (simp add: gui_ok_def)
qed

lemma gui_step_ok:
  assumes "gui_step s s'" and "gui_ok (fst s) (snd s)"
  shows "gui_ok (fst s') (snd s')"
  using assms
  by cases (simp_all add: gui_keeps gui_destroy_window_ok destroy_for_pid_ok gui_resize_window_ok gui_ok_ensure_backing gui_ok_heap)

definition boot_windows :: "gui \<Rightarrow> bool" where
  "boot_windows g \<longleftrightarrow> length (gd_windows g) = GUI_MAX_WINDOWS \<and>
     (\<forall>w\<in>set (gd_windows g). length (gw_events w) = 32 \<and> length (gw_cursor_regions w) = 8)"

lemma gui_init_ok:
  assumes "boot_windows g" and "heap_ok p (gui_heap g)" and "gui_init (Some fb) bg g = (r, g')"
  shows "r \<and> gui_ok p g'"
proof -
  obtain fw fh where fb: "fb = (fw, fh)" by force
  have w: "w \<in> set (gd_windows g') \<Longrightarrow> win_ok w \<and> gw_backing w = 0" for w
    using assms(1,3) by (auto simp: fb gui_init_def Let_def gui_init_window_def boot_windows_def win_ok_def ring_ok_def)
  have g': "gd_focused_window_id g' = GUI_NO_WINDOW" "gd_drag_window_id g' = GUI_NO_WINDOW" "gui_heap g' = gui_heap g"
    "length (gd_windows g') = 16" r
    using assms(1,3) by (auto simp: fb gui_init_def Let_def boot_windows_def)
  have "bufs_ok p (gd_windows g') (gui_heap g')"
  proof (rule bufs_okI)
    show "heap_ok p (gui_heap g')" using assms(2) g'(3) by simp
  qed (use w [OF nth_mem] in blast)+
  then show ?thesis using w g' by (simp add: gui_ok_def id_ok_def)
qed

lemma gui_runs_invariant:
  assumes "boot_windows g0" and "heap_ok p0 (gui_heap g0)" and "gui_init (Some fb) bg g0 = (r, g)"
    and "gui_step\<^sup>*\<^sup>* (p0, g) (p, g')"
  shows "gui_ok p g'"
  using assms(4) gui_init_ok [OF assms(1-3)]
proof (induction "(p, g')" arbitrary: p g' rule: rtranclp_induct)
  case (step s)
  then show ?case using gui_step_ok [of s "(p, g')"] by (cases s) auto
qed simp

text \<open>C16 Invariant of the window system. From \<open>gui_init\<close> on, after any sequence of operations, the table has 16
  windows with well-formed event queues, the focus is on a used window or on none, the dragged window's index (which
  \<open>gui_drag_update\<close> uses unchecked) is inside the table, and every backing buffer is a live heap block at least as long as its
  recorded capacity that exactly one window, a used one, points to: no buffer is freed twice or used after it is freed.\<close>

theorem gui_runs_ok:
  assumes "boot_windows g0" and "heap_ok p0 (gui_heap g0)" and "gui_init (Some fb) bg g0 = (r, g)"
    and "gui_step\<^sup>*\<^sup>* (p0, g) (p, g')"
  shows "gui_ok p g'"
  using assms by (rule gui_runs_invariant)

theorem gui_runs_ok_witness:
  "gui_ok (pmm_init 0x40000000 0x3000)
     (gui_cursor_move 5 (-3) (snd (gui_create_window 10 10 100 80 0 0 (snd (gui_init (Some (640, 480)) 0 desktop_demo)))))"
proof -
  let ?p = "pmm_init 0x40000000 0x3000" and ?g0 = "desktop_demo"
  obtain r g where i: "gui_init (Some (640, 480)) 0 ?g0 = (r, g)" by force
  let ?g1 = "snd (gui_create_window 10 10 100 80 0 0 g)"
  have "boot_windows ?g0" by (auto simp: boot_windows_def desktop_demo_def blank_window_def)
  moreover have "heap_ok ?p (gui_heap ?g0)" using kheap_empty_ok(1) [OF pmm_demo(1)] by (simp add: desktop_demo_def)
  moreover have "gui_step (?p, g) (?p, ?g1)" "gui_step (?p, ?g1) (?p, gui_cursor_move 5 (-3) ?g1)"
    unfolding gui_create_window_def by (rule gui_step.intros)+
  then have "gui_step\<^sup>*\<^sup>* (?p, g) (?p, gui_cursor_move 5 (-3) ?g1)" by simp
  ultimately have "gui_ok ?p (gui_cursor_move 5 (-3) ?g1)" using i by (intro gui_runs_ok [of ?g0 ?p "(640, 480)" 0 r g])
  then show ?thesis by (simp add: i)
qed

section \<open>Raising a window\<close>

lemma hit_top:
  assumes "i < 16" and "gui_window_contains (gd_windows g ! i) x y"
    and "\<And>j. j < 16 \<Longrightarrow> j \<noteq> i \<Longrightarrow> gui_window_contains (gd_windows g ! j) x y \<Longrightarrow> gw_z (gd_windows g ! j) < gw_z (gd_windows g ! i)"
  shows "gui_hit_test x y g = Some i"
proof -
  note h = hit_fold [where ws = "gd_windows g" and x = x and y = y and n = 16]
  obtain b z where b: "fold (hit_step (gd_windows g) x y) [0..<16] (None, 0) = (b, z)" by force
  then obtain k where "b = Some k" "k < 16" "gui_window_contains (gd_windows g ! k) x y" "stacked_below (gd_windows g) i k"
    using h assms(1,2) unfolding b by (cases b) auto
  moreover from this have "k = i" using assms(3) [of k] by (cases "k = i") (auto simp: stacked_below_def)
  ultimately show ?thesis unfolding gui_hit_test_def b by simp
qed

text \<open>One step changes the stacking values of the windows only to 0 or to the counter, and then the counter moves on.\<close>

definition z_step :: "gui \<Rightarrow> gui \<Rightarrow> bool" where
  "z_step g g' \<longleftrightarrow>
     gd_next_z g' = gd_next_z g \<and> gw_z ` set (gd_windows g') \<subseteq> insert 0 (gw_z ` set (gd_windows g)) \<or>
     gd_next_z g' = gd_next_z g + 1 \<and> gw_z ` set (gd_windows g') \<subseteq> insert (gd_next_z g) (insert 0 (gw_z ` set (gd_windows g)))"

lemma z_update:
  assumes "gw_z w = gw_z (ws ! i) \<or> gw_z w \<in> Z"
  shows "gw_z ` set (ws[i := w]) \<subseteq> Z \<union> gw_z ` set ws"
proof (cases "i < length ws")
  case True
  then have "gw_z (ws ! i) \<in> gw_z ` set ws" by simp
  moreover have "gw_z ` set (ws[i := w]) \<subseteq> insert (gw_z w) (gw_z ` set ws)" using set_update_subset_insert [of ws i w] by blast
  ultimately show ?thesis using assms by auto
qed (simp add: list_update_beyond)

lemma z_stepI:
  assumes "gd_next_z g' = gd_next_z g" and "gd_windows g' = (gd_windows g)[i := w]" and "gw_z w = gw_z (gd_windows g ! i) \<or> gw_z w = 0"
  shows "z_step g g'"
  using assms z_update [of w "gd_windows g" i "{0}"] by (simp add: z_step_def)

lemma z_step_raise:
  assumes "gd_next_z g' = gd_next_z g + 1" and "gd_windows g' = (gd_windows g)[i := w]" and "gw_z w = gd_next_z g"
  shows "z_step g g'"
  using assms z_update [of w "gd_windows g" i "{gd_next_z g}"] by (auto simp: z_step_def)

lemma z_step_same: "gd_next_z g' = gd_next_z g \<Longrightarrow> gd_windows g' = gd_windows g \<Longrightarrow> z_step g g'"
  by (auto simp: z_step_def)

lemma window_z [simp]:
  "gw_z (gui_window_set_title t w) = gw_z w" "gw_z (gui_apply_builtin_policy w) = gw_z w"
  "gw_z (snd (gui_window_push_event ty a b w)) = gw_z w" "gw_z (gui_backing_fill w) = gw_z w"
  by (simp_all add: gui_window_set_title_def gui_apply_builtin_policy_def gui_window_push_event_def gui_backing_fill_def Let_def)

lemma pop_z: "gui_window_pop_event w = Some (e, w') \<Longrightarrow> gw_z w' = gw_z w"
  by (auto simp: gui_window_pop_event_def split: if_splits)

lemma backing_z:
  "gui_window_alloc_backing n w p h = (r, w', p', h') \<Longrightarrow> gw_z w' = gw_z w"
  "gui_window_ensure_backing w p h = (r, w', p', h') \<Longrightarrow> gw_z w' = gw_z w"
  "gui_window_reset_backing w p h = (r, w', p', h') \<Longrightarrow> gw_z w' = gw_z w"
proof -
  have a: "gui_window_alloc_backing n w p h = (r, w', p', h') \<Longrightarrow> gw_z w' = gw_z w" for n w p h r w' p' h'
    by (auto simp: gui_window_alloc_backing_def Let_def split: prod.splits if_splits)
  then show "gui_window_alloc_backing n w p h = (r, w', p', h') \<Longrightarrow> gw_z w' = gw_z w" .
  show "gui_window_ensure_backing w p h = (r, w', p', h') \<Longrightarrow> gw_z w' = gw_z w"
    "gui_window_reset_backing w p h = (r, w', p', h') \<Longrightarrow> gw_z w' = gw_z w"
    by (auto simp: gui_window_ensure_backing_def gui_window_reset_backing_def dest: a split: option.splits if_splits)
qed

lemma raising_steps:
  "z_step g (snd (gui_create_window_for_pid pid x y w h bg bc t g))" "z_step g (snd (gui_window_restore k g))"
  "z_step g (snd (gui_focus_window k g))"
proof -
  show "z_step g (snd (gui_create_window_for_pid pid x y w h bg bc t g))"
    by (auto simp: gui_create_window_for_pid_def Let_def intro: z_step_same z_step_raise split: option.split)
  show "z_step g (snd (gui_window_restore k g))"
    by (auto simp: gui_window_restore_def Let_def intro: z_step_same z_step_raise)
  show "z_step g (snd (gui_focus_window k g))"
    by (auto simp: gui_focus_window_def Let_def intro: z_step_same z_step_raise split: option.split)
qed

lemma destroy_z:
  "gd_next_z (snd (gui_destroy_window k g)) = gd_next_z g"
  "gw_z ` set (gd_windows (snd (gui_destroy_window k g))) \<subseteq> insert 0 (gw_z ` set (gd_windows g))"
proof -
  show "gd_next_z (snd (gui_destroy_window k g)) = gd_next_z g"
    by (simp add: gui_destroy_window_def gui_window_free_backing_def Let_def focus_ensure_fields split: prod.split)
  have "gw_z ` set ((gd_windows g)[i := w]) \<subseteq> insert 0 (gw_z ` set (gd_windows g))" if "gw_z w = 0" for i w
    using z_update [of w "gd_windows g" i "{0}"] that by simp
  then show "gw_z ` set (gd_windows (snd (gui_destroy_window k g))) \<subseteq> insert 0 (gw_z ` set (gd_windows g))"
    by (simp add: gui_destroy_window_def Let_def del: image_subset_iff split: prod.split) auto
qed

lemma destroy_pid_z:
  "gd_next_z (gui_destroy_windows_for_pid pid g) = gd_next_z g \<and>
   gw_z ` set (gd_windows (gui_destroy_windows_for_pid pid g)) \<subseteq> insert 0 (gw_z ` set (gd_windows g))"
proof -
  let ?f = "\<lambda>i g. if gw_used (gd_windows g ! i) \<and> gw_owner_pid (gd_windows g ! i) = pid then snd (gui_destroy_window (of_nat i) g) else g"
  have "gd_next_z (fold ?f is g) = gd_next_z g \<and> gw_z ` set (gd_windows (fold ?f is g)) \<subseteq> insert 0 (gw_z ` set (gd_windows g))" for "is"
  proof (induction "is" arbitrary: g)
    case (Cons i "is")
    have "gd_next_z (?f i g) = gd_next_z g" by (simp only: destroy_z(1) split: if_split) simp
    moreover have "gw_z ` set (gd_windows (?f i g)) \<subseteq> insert 0 (gw_z ` set (gd_windows g))"
      by (simp only: destroy_z(2) subset_insertI split: if_split) simp
    moreover have "fold ?f (i # is) g = fold ?f is (?f i g)" by simp
    ultimately show ?case using Cons.IH [of "?f i g"] by (metis (no_types, lifting) insert_absorb2 insert_mono subset_trans)
  qed auto
  then show ?thesis by (auto simp: gui_destroy_windows_for_pid_def)
qed

lemma update_z: "gw_z w = gw_z (ws ! i) \<Longrightarrow> gw_z (ws[i := w] ! i) = gw_z (ws ! i)"
  by (cases "i < length ws") (simp_all add: list_update_beyond)

lemma gui_step_z:
  assumes "gui_step (p, g) (p', g')"
  shows "z_step g g'"
  using assms
proof cases
  case (resize k x y w h r)
  then show ?thesis
    by (auto simp: gui_resize_window_def Let_def update_z intro: z_step_same z_stepI dest!: backing_z(3) split: if_splits prod.splits bool.splits)
next
  case (pop i)
  then show ?thesis by (auto intro!: z_stepI dest: pop_z split: option.split)
next
  case (ensure k i r w h')
  then show ?thesis by (auto intro!: z_stepI dest: backing_z(2))
next
  case (destroy k)
  then show ?thesis using destroy_z [of k g] by (simp add: z_step_def)
next
  case (destroy_pid pid)
  then show ?thesis using destroy_pid_z [of pid g] by (simp add: z_step_def)
next
  case (set_flags k fl)
  then show ?thesis by (auto simp: gui_window_set_flags_internal_def Let_def intro: z_step_same z_stepI split: option.splits)
next
  case (region k sl cx cy w h s)
  then show ?thesis by (auto simp: gui_register_cursor_region_def Let_def intro: z_step_same z_stepI)
qed (auto simp: raising_steps gui_window_set_title_internal_def gui_window_set_title_bar_internal_def gui_move_window_def
    gui_window_minimize_def gui_cursor_move_def gui_set_cursor_def gui_set_cursor_shape_def gui_drag_start_def gui_drag_update_def
    gui_drag_end_def gui_clear_dirty_def gui_damage_clear_def Let_def intro: z_step_same z_stepI split: option.split)

text \<open>After fewer than \<open>2 ^ 32 - 1\<close> operations the counter has not wrapped and is above the stacking value of every window.\<close>

definition stack_ok :: "nat \<Rightarrow> gui \<Rightarrow> bool" where
  "stack_ok n g \<longleftrightarrow> 0 < gd_next_z g \<and> unat (gd_next_z g) \<le> Suc n \<and> (\<forall>z\<in>gw_z ` set (gd_windows g). z < gd_next_z g)"

lemma stack_ok_step:
  assumes ok: "stack_ok n g" and n: "Suc n < 2 ^ 32 - 1" and st: "z_step g g'"
  shows "stack_ok (Suc n) g'"
proof -
  have s: "unat (gd_next_z g + 1) = unat (gd_next_z g) + 1" using ok n by (subst unat_add_bounded) (simp_all add: stack_ok_def)
  have lt: "gd_next_z g < gd_next_z g + 1" "0 < gd_next_z g + 1" using s by (simp_all add: word_less_nat_alt)
  have "z < gd_next_z g'" if "z \<in> gw_z ` set (gd_windows g')" for z
  proof -
    have "z = gd_next_z g \<and> gd_next_z g' = gd_next_z g + 1 \<or> z = 0 \<or> z \<in> gw_z ` set (gd_windows g)"
      "gd_next_z g' = gd_next_z g \<or> gd_next_z g' = gd_next_z g + 1"
      using st that unfolding z_step_def by blast+
    then show ?thesis using ok lt unfolding stack_ok_def by (metis less_trans)
  qed
  then show ?thesis using st ok s lt by (auto simp: z_step_def stack_ok_def)
qed

lemma stack_ok_run:
  assumes "(gui_step ^^ n) (p0, g) (p, g')" and "stack_ok 0 g" and "n < 2 ^ 32 - 1"
  shows "stack_ok n g'"
  using assms
proof (induction n arbitrary: p g')
  case (Suc n)
  then obtain q h where h: "(gui_step ^^ n) (p0, g) (q, h)" "gui_step (q, h) (p, g')" by auto
  then show ?case using Suc stack_ok_step [OF _ _ gui_step_z [OF h(2)]] by simp
qed simp

lemma gui_init_stack: "gui_init (Some fb) bg g0 = (r, g) \<Longrightarrow> stack_ok 0 g"
  by (auto simp: gui_init_def gui_init_window_def stack_ok_def Let_def split: prod.splits)

text \<open>C19 Focusing raises, in every state the window system reaches: from \<open>gui_init\<close> on, after any sequence of fewer than
  \<open>2 ^ 32 - 1\<close> operations (then the 32-bit stacking counter wraps), \<open>gui_focus_window\<close> on a window that may have the focus gives it
  the keyboard focus, and every point of the window then hits it, whatever overlapped it before.\<close>

theorem gui_focus_raises:
  assumes "boot_windows g0" and "heap_ok p0 (gui_heap g0)" and "gui_init (Some fb) bg g0 = (r, g1)"
    and "(gui_step ^^ n) (p0, g1) (p, g)" and "n < 2 ^ 32 - 1"
    and k: "gui_window_lookup k g = Some i" "gw_flags (gd_windows g ! i) AND GUI_WINDOW_NO_FOCUS = 0"
    and hit: "gui_window_contains (gd_windows g ! i) x y"
  shows "gd_focused_window_id (snd (gui_focus_window k g)) = k \<and> gui_hit_test x y (snd (gui_focus_window k g)) = Some i"
proof -
  let ?g = "snd (gui_focus_window k g)"
  have ok: "gui_ok p g" using gui_runs_invariant [OF assms(1-3) relpowp_imp_rtranclp [OF assms(4)]] .
  have "stack_ok n g" by (rule stack_ok_run [OF assms(4) gui_init_stack [OF assms(3)] assms(5)])
  then have z: "\<forall>w\<in>set (gd_windows g). gw_z w < gd_next_z g" by (simp add: stack_ok_def)
  have i: "i < 16" "length (gd_windows g) = 16"
    using k(1) ok by (auto simp: gui_window_lookup_def gui_ok_def word_le_nat_alt not_le split: if_splits)
  have "gui_window_effective_flags (gd_windows g ! i) AND GUI_WINDOW_NO_FOCUS = 0"
    using k(2) by (simp add: gui_window_effective_flags_def)
  then have f: "gd_windows ?g = (gd_windows g)[i := (gd_windows g ! i)\<lparr>gw_z := gd_next_z g\<rparr>]" "gd_focused_window_id ?g = k"
    using k(1) by (simp_all add: gui_focus_window_def Let_def)
  have "gui_hit_test x y ?g = Some i"
    by (rule hit_top [OF i(1)]) (use hit z i f in \<open>simp_all add: gui_window_contains_def nth_list_update\<close>)
  then show ?thesis using f(2) by simp
qed

definition overlap_demo :: gui where
  "overlap_demo = snd (gui_create_window 15 15 50 50 0 0 (snd (gui_create_window 10 10 100 80 0 0
     (snd (gui_init (Some (640, 480)) 0 desktop_demo)))))"

lemma overlap_demo_facts:
  "gui_window_lookup 0 overlap_demo = Some 0" "gw_flags (gd_windows overlap_demo ! 0) AND GUI_WINDOW_NO_FOCUS = 0"
  "gui_window_contains (gd_windows overlap_demo ! 0) 20 20" "gui_hit_test 20 20 overlap_demo = Some 1"
  by code_simp+

theorem gui_focus_raises_witness:
  "gui_hit_test 20 20 overlap_demo = Some 1 \<and> gui_hit_test 20 20 (snd (gui_focus_window 0 overlap_demo)) = Some 0"
proof -
  let ?p = "pmm_init 0x40000000 0x3000"
  obtain r g where i: "gui_init (Some (640, 480)) 0 desktop_demo = (r, g)" by force
  have b: "boot_windows desktop_demo" by (auto simp: boot_windows_def desktop_demo_def blank_window_def)
  have h: "heap_ok ?p (gui_heap desktop_demo)" using kheap_empty_ok(1) [OF pmm_demo(1)] by (simp add: desktop_demo_def)
  let ?g1 = "snd (gui_create_window 10 10 100 80 0 0 g)"
  have s: "gui_step (?p, g) (?p, ?g1)" "gui_step (?p, ?g1) (?p, overlap_demo)"
    unfolding overlap_demo_def i snd_conv gui_create_window_def by (rule gui_step.intros)+
  have "(gui_step ^^ Suc (Suc 0)) (?p, g) (?p, overlap_demo)" 
    using s by (simp only: relpowp.simps relcompp_apply) blast
  from gui_focus_raises [OF b h i this _ overlap_demo_facts(1-3)] overlap_demo_facts(4) show ?thesis by simp
qed

end
