(* ===== verification/Region.thy ===== *)
theory Region
  imports Prelude
begin

text \<open>
  The process control block and its user regions (\<open>kernel/process.h\<close>, second half of \<open>kernel/process.c\<close>). A process
  has up to eight half-open ranges of user addresses; the system calls accept a user pointer only
  when \<open>process_user_range_contains\<close> does. A \<open>process_t *\<close> that is not null is the record
  itself, null is the caller's case; an optional out-parameter is a second result.
\<close>

abbreviation PROCESS_MAX_USER_REGIONS :: nat where "PROCESS_MAX_USER_REGIONS \<equiv> 8"
abbreviation PROCESS_NAME_LEN :: nat where "PROCESS_NAME_LEN \<equiv> 16"
abbreviation PROCESS_USER_MMAP_BASE :: u64 where "PROCESS_USER_MMAP_BASE \<equiv> 0x100000000"
abbreviation PROCESS_USER_MMAP_LIMIT :: u64 where "PROCESS_USER_MMAP_LIMIT \<equiv> 0x200000000"
abbreviation PROCESS_USER_REGION_OWNED_PAGES :: u64 where "PROCESS_USER_REGION_OWNED_PAGES \<equiv> 1"
abbreviation USER_REGION_ALIGN :: u64 where "USER_REGION_ALIGN \<equiv> 4096"

datatype process_state = PROCESS_UNUSED | PROCESS_READY | PROCESS_RUNNING | PROCESS_BLOCKED | PROCESS_ZOMBIE

record process_user_region =
  ur_start :: u64
  ur_end :: u64
  ur_paddr :: u64
  ur_flags :: u64

record process =
  p_pid :: u32
  p_name :: string
  p_regs :: "u64 list"
  p_sp :: u64
  p_pc :: u64
  p_pstate :: u64
  p_page_table :: u64
  p_state :: process_state
  p_exit_code :: u64
  p_next_user_vaddr :: u64
  p_user_regions :: "process_user_region list"
  p_user_region_count :: nat

section \<open>Operations\<close>

definition region_align_up :: "u64 \<Rightarrow> u64 \<Rightarrow> u64" where
  "region_align_up value alignment = (value + alignment - 1) AND NOT (alignment - 1)"

definition user_region_end :: "u64 \<Rightarrow> u64 \<Rightarrow> u64 option" where
  "user_region_end start sz = (if sz = 0 \<or> start > - 1 - sz then None else Some (start + sz))"

definition region_clear :: process_user_region where
  "region_clear = \<lparr>ur_start = 0, ur_end = 0, ur_paddr = 0, ur_flags = 0\<rparr>"

definition process_copy_name :: "string option \<Rightarrow> process \<Rightarrow> process" where
  "process_copy_name name p =
     p\<lparr>p_name := (case name of None \<Rightarrow> [] | Some n \<Rightarrow> take (PROCESS_NAME_LEN - 1) n)\<rparr>"

definition process_init :: "u32 \<Rightarrow> string option \<Rightarrow> process \<Rightarrow> process" where
  "process_init pid name p =
     (process_copy_name name p)\<lparr>p_pid := pid, p_sp := 0, p_pc := 0, p_pstate := 0, p_page_table := 0,
        p_state := PROCESS_READY, p_exit_code := 0, p_next_user_vaddr := PROCESS_USER_MMAP_BASE,
        p_user_region_count := 0, p_regs := replicate 31 0,
        p_user_regions := replicate PROCESS_MAX_USER_REGIONS region_clear\<rparr>"

definition process_set_entry :: "u64 \<Rightarrow> u64 \<Rightarrow> u64 \<Rightarrow> process \<Rightarrow> process" where
  "process_set_entry pc sp pstate p = p\<lparr>p_pc := pc, p_sp := sp, p_pstate := pstate\<rparr>"

definition process_set_page_table :: "u64 \<Rightarrow> process \<Rightarrow> process" where
  "process_set_page_table t p = p\<lparr>p_page_table := t\<rparr>"

definition process_add_user_region :: "u64 \<Rightarrow> u64 \<Rightarrow> process \<Rightarrow> bool \<times> process" where
  "process_add_user_region start sz p =
     (if p_user_region_count p \<ge> PROCESS_MAX_USER_REGIONS then (False, p)
      else case user_region_end start sz of
          None \<Rightarrow> (False, p)
        | Some e \<Rightarrow>
            if first_index (p_user_region_count p)
                 (\<lambda>i. start < ur_end (p_user_regions p ! i) \<and> e > ur_start (p_user_regions p ! i)) \<noteq> None
            then (False, p)
            else (True, p\<lparr>p_user_regions := (p_user_regions p)[p_user_region_count p :=
                     \<lparr>ur_start = start, ur_end = e, ur_paddr = 0, ur_flags = 0\<rparr>],
                   p_user_region_count := p_user_region_count p + 1\<rparr>))"

definition process_alloc_user_region :: "u64 \<Rightarrow> process \<Rightarrow> u64 option \<times> process" where
  "process_alloc_user_region sz p =
     (if sz = 0 then (None, p)
      else
        (let aligned_size = region_align_up sz USER_REGION_ALIGN
         in if aligned_size < sz then (None, p)
            else
              (let start = region_align_up (p_next_user_vaddr p) USER_REGION_ALIGN
               in if start < p_next_user_vaddr p then (None, p)
                  else case user_region_end start aligned_size of
                      None \<Rightarrow> (None, p)
                    | Some e \<Rightarrow>
                        if e > PROCESS_USER_MMAP_LIMIT then (None, p)
                        else case process_add_user_region start aligned_size p of
                            (False, p') \<Rightarrow> (None, p')
                          | (True, p') \<Rightarrow> (Some start, p'\<lparr>p_next_user_vaddr := e\<rparr>))))"

definition region_index :: "u64 \<Rightarrow> u64 \<Rightarrow> process \<Rightarrow> nat option" where
  "region_index start e p = first_index (p_user_region_count p)
     (\<lambda>i. ur_start (p_user_regions p ! i) = start \<and> ur_end (p_user_regions p ! i) = e)"

definition process_set_user_region_mapping :: "u64 \<Rightarrow> u64 \<Rightarrow> u64 \<Rightarrow> u64 \<Rightarrow> process \<Rightarrow> bool \<times> process" where
  "process_set_user_region_mapping start sz paddr flags p =
     (case user_region_end start sz of
        None \<Rightarrow> (False, p)
      | Some e \<Rightarrow>
          (case region_index start e p of
             None \<Rightarrow> (False, p)
           | Some i \<Rightarrow> (True, p\<lparr>p_user_regions := (p_user_regions p)[i :=
                          (p_user_regions p ! i)\<lparr>ur_paddr := paddr, ur_flags := flags\<rparr>]\<rparr>)))"

definition process_find_user_region :: "u64 \<Rightarrow> u64 \<Rightarrow> process \<Rightarrow> process_user_region option" where
  "process_find_user_region start sz p =
     (case user_region_end start sz of
        None \<Rightarrow> None
      | Some e \<Rightarrow> map_option (\<lambda>i. p_user_regions p ! i) (region_index start e p))"

definition shift_regions :: "nat \<Rightarrow> nat \<Rightarrow> process_user_region list \<Rightarrow> process_user_region list" where
  "shift_regions i n rs = fold (\<lambda>j rs. rs[j - 1 := rs ! j]) [i + 1..<n] rs"

definition process_remove_user_region_info :: "u64 \<Rightarrow> u64 \<Rightarrow> process \<Rightarrow> process_user_region option \<times> process" where
  "process_remove_user_region_info start sz p =
     (case user_region_end start sz of
        None \<Rightarrow> (None, p)
      | Some e \<Rightarrow>
          (case region_index start e p of
             None \<Rightarrow> (None, p)
           | Some i \<Rightarrow>
               (let n = p_user_region_count p
                in (Some (p_user_regions p ! i),
                    p\<lparr>p_user_regions := (shift_regions i n (p_user_regions p))[n - 1 := region_clear],
                      p_user_region_count := n - 1\<rparr>))))"

definition process_remove_user_region :: "u64 \<Rightarrow> u64 \<Rightarrow> process \<Rightarrow> bool \<times> process" where
  "process_remove_user_region start sz p =
     (case process_remove_user_region_info start sz p of (r, p') \<Rightarrow> (r \<noteq> None, p'))"

definition process_user_range_contains :: "u64 \<Rightarrow> u64 \<Rightarrow> process \<Rightarrow> bool" where
  "process_user_range_contains start sz p =
     (if sz = 0 then True
      else case user_region_end start sz of
          None \<Rightarrow> False
        | Some e \<Rightarrow> first_index (p_user_region_count p)
            (\<lambda>i. start \<ge> ur_start (p_user_regions p ! i) \<and> e \<le> ur_end (p_user_regions p ! i)) \<noteq> None)"

section \<open>The regions as a list of intervals\<close>

definition regions :: "process \<Rightarrow> process_user_region list" where
  "regions p = take (p_user_region_count p) (p_user_regions p)"

definition range_of :: "process_user_region \<Rightarrow> nat set" where
  "range_of r = {unat (ur_start r)..<unat (ur_end r)}"

definition region_ok :: "process \<Rightarrow> bool" where
  "region_ok p \<longleftrightarrow> length (p_user_regions p) = PROCESS_MAX_USER_REGIONS \<and>
     p_user_region_count p \<le> PROCESS_MAX_USER_REGIONS \<and>
     (\<forall>r\<in>set (regions p). ur_start r < ur_end r) \<and>
     sorted_wrt (\<lambda>a b. range_of a \<inter> range_of b = {}) (regions p)"

lemma length_regions: "region_ok p \<Longrightarrow> length (regions p) = p_user_region_count p"
  by (simp add: regions_def region_ok_def)

lemma region_nth: "region_ok p \<Longrightarrow> i < p_user_region_count p \<Longrightarrow> p_user_regions p ! i = regions p ! i"
  by (simp add: regions_def)

lemma user_region_end_Some:
  "user_region_end s z = Some e \<longleftrightarrow> z \<noteq> 0 \<and> unat s + unat z < 2 ^ 64 \<and> e = s + z"
proof -
  have "s > - 1 - z \<longleftrightarrow> \<not> unat s + unat z < 2 ^ 64"
  proof
    assume "s > - 1 - z"
    then show "\<not> unat s + unat z < 2 ^ 64" using unat_max_minus [of z] by (simp add: word_less_nat_alt)
  next
    assume "\<not> unat s + unat z < 2 ^ 64"
    then show "s > - 1 - z" using sum_in_range [of z s] by (simp, linarith)
  qed
  then show ?thesis by (auto simp: user_region_end_def)
qed

lemma user_region_end_nat:
  assumes "user_region_end s z = Some e"
  shows "unat e = unat s + unat z" and "s < e" and "0 < unat z"
proof -
  have z: "z \<noteq> 0" "unat s + unat z < 2 ^ 64" "e = s + z" using assms by (simp_all add: user_region_end_Some)
  then show u: "unat e = unat s + unat z" using iffD1 [OF unat_add_lem, of s z] by simp
  show "0 < unat z" using z(1) by (simp add: unat_gt_0)
  then show "s < e" using u by (simp add: word_less_nat_alt)
qed

lemma scan_regions:
  assumes "region_ok p"
  shows "first_index (p_user_region_count p) (\<lambda>i. P (p_user_regions p ! i)) = None \<longleftrightarrow> (\<forall>r\<in>set (regions p). \<not> P r)"
proof -
  have "set (regions p) = (\<lambda>i. p_user_regions p ! i) ` {..<p_user_region_count p}"
    using assms by (simp add: regions_def region_ok_def nth_image [symmetric] lessThan_atLeast0)
  then show ?thesis by (auto simp: first_index_None_iff)
qed

lemma region_index_Some:
  assumes "region_ok p" and "region_index s e p = Some i"
  shows "i < length (regions p)" and "ur_start (regions p ! i) = s" and "ur_end (regions p ! i) = e"
    and "p_user_regions p ! i = regions p ! i"
  using first_index_SomeD(1,2) [OF assms(2) [unfolded region_index_def]] assms(1)
  by (simp_all add: length_regions region_nth)

lemma region_index_None:
  assumes "region_ok p" and "region_index s e p = None"
  shows "r \<in> set (regions p) \<Longrightarrow> \<not> (ur_start r = s \<and> ur_end r = e)"
  using assms(2) scan_regions [OF assms(1), of "\<lambda>r. ur_start r = s \<and> ur_end r = e"] by (simp add: region_index_def)

lemma overlap_iff:
  assumes "(s :: u64) < e" and "ur_start r < ur_end r"
  shows "s < ur_end r \<and> e > ur_start r \<longleftrightarrow> range_of r \<inter> {unat s..<unat e} \<noteq> {}"
proof -
  have "unat s < unat e" "unat (ur_start r) < unat (ur_end r)" using assms by (simp_all add: word_less_nat_alt)
  then have "max (unat s) (unat (ur_start r)) \<in> range_of r \<inter> {unat s..<unat e} \<longleftrightarrow>
      unat s < unat (ur_end r) \<and> unat (ur_start r) < unat e" by (auto simp: range_of_def)
  moreover have "range_of r \<inter> {unat s..<unat e} \<noteq> {} \<Longrightarrow> unat s < unat (ur_end r) \<and> unat (ur_start r) < unat e"
    by (auto simp: range_of_def)
  ultimately show ?thesis by (auto simp: word_less_nat_alt)
qed

lemma add_region_effect:
  assumes ok: "region_ok p"
  shows "case process_add_user_region s z p of (r, p') \<Rightarrow> region_ok p' \<and>
     (r \<longleftrightarrow> length (regions p) < PROCESS_MAX_USER_REGIONS \<and> z \<noteq> 0 \<and> unat s + unat z < 2 ^ 64 \<and>
       (\<forall>q\<in>set (regions p). range_of q \<inter> {unat s..<unat s + unat z} = {})) \<and>
     (if r then regions p' = regions p @ [\<lparr>ur_start = s, ur_end = s + z, ur_paddr = 0, ur_flags = 0\<rparr>]
      else p' = p) \<and> p_next_user_vaddr p' = p_next_user_vaddr p"
proof (cases "p_user_region_count p \<ge> 8 \<or> user_region_end s z = None")
  case True
  have "\<not> (z \<noteq> 0 \<and> unat s + unat z < 2 ^ 64)" if "user_region_end s z = None"
    using that user_region_end_Some [of s z "s + z"] by auto
  then show ?thesis using ok True by (auto simp: process_add_user_region_def length_regions)
next
  case False
  then obtain e where e: "user_region_end s z = Some e" and room: "p_user_region_count p < 8" by auto
  note u = user_region_end_nat [OF e]
  let ?new = "\<lparr>ur_start = s, ur_end = e, ur_paddr = 0, ur_flags = 0\<rparr>"
  have pos: "\<And>q. q \<in> set (regions p) \<Longrightarrow> ur_start q < ur_end q" using ok by (simp add: region_ok_def)
  have free: "first_index (p_user_region_count p) (\<lambda>i. s < ur_end (p_user_regions p ! i) \<and> e > ur_start (p_user_regions p ! i)) = None
      \<longleftrightarrow> (\<forall>q\<in>set (regions p). range_of q \<inter> {unat s..<unat s + unat z} = {})"
    using scan_regions [OF ok, of "\<lambda>r. s < ur_end r \<and> e > ur_start r"] overlap_iff [OF u(2) pos] u(1) by simp
  define p' where "p' = p\<lparr>p_user_regions := (p_user_regions p)[p_user_region_count p := ?new],
     p_user_region_count := p_user_region_count p + 1\<rparr>"
  have r': "regions p' = regions p @ [?new]"
    using room ok by (simp add: p'_def regions_def region_ok_def take_Suc_conv_app_nth)
  have eq: "process_add_user_region s z p =
      (if (\<forall>q\<in>set (regions p). range_of q \<inter> {unat s..<unat s + unat z} = {}) then (True, p') else (False, p))"
    using room e free by (simp add: process_add_user_region_def p'_def)
  have "region_ok p'" if "\<forall>q\<in>set (regions p). range_of q \<inter> {unat s..<unat s + unat z} = {}"
  proof -
    have "range_of ?new = {unat s..<unat s + unat z}" by (simp add: range_of_def u(1))
    then have "sorted_wrt (\<lambda>a b. range_of a \<inter> range_of b = {}) (regions p')"
      using that ok by (simp add: r' sorted_wrt_append region_ok_def)
    then show ?thesis using ok room pos u(2) by (auto simp: region_ok_def r') (auto simp: p'_def)
  qed
  then show ?thesis
    unfolding eq using ok room e r' by (auto simp: length_regions user_region_end_Some p'_def)
qed

lemma shift_regions_step: "i < n \<Longrightarrow> shift_regions i (Suc n) rs = (shift_regions i n rs)[n - 1 := shift_regions i n rs ! n]"
  by (simp add: shift_regions_def)

lemma length_shift [simp]: "length (shift_regions i n rs) = length rs"
proof -
  have "length (fold (\<lambda>j rs. rs[j - 1 := rs ! j]) js rs) = length rs" for js and rs :: "process_user_region list"
    by (induction js arbitrary: rs) auto
  then show ?thesis by (simp add: shift_regions_def)
qed

lemma nth_shift:
  assumes "n \<le> length rs" and "k < length rs" and "i < n"
  shows "shift_regions i n rs ! k = (if i \<le> k \<and> k + 1 < n then rs ! (k + 1) else rs ! k)"
  using assms
proof (induction n arbitrary: k)
  case (Suc n)
  show ?case
  proof (cases "i < n")
    case False
    then have "i = n" using Suc.prems(3) by simp
    then show ?thesis by (auto simp: shift_regions_def)
  next
    case True
    then show ?thesis using Suc by (auto simp: shift_regions_step nth_list_update)
  qed
qed simp

lemma remove_regions:
  assumes "n \<le> length rs" and "i < n"
  shows "take (n - 1) ((shift_regions i n rs)[n - 1 := c]) = take i (take n rs) @ drop (Suc i) (take n rs)"
proof (rule nth_equalityI)
  fix k assume "k < length (take (n - 1) ((shift_regions i n rs)[n - 1 := c]))"
  then have "k < n - 1" "k < length rs" by simp_all
  then show "take (n - 1) ((shift_regions i n rs)[n - 1 := c]) ! k = (take i (take n rs) @ drop (Suc i) (take n rs)) ! k"
    using assms by (auto simp: nth_shift nth_append)
qed (use assms in auto)

lemma sorted_wrt_remove:
  assumes "sorted_wrt R xs"
  shows "sorted_wrt R (take i xs @ drop (Suc i) xs)"
proof (cases "i < length xs")
  case True
  then have "xs = take i xs @ xs ! i # drop (Suc i) xs" by (simp add: id_take_nth_drop)
  then have "sorted_wrt R (take i xs @ xs ! i # drop (Suc i) xs)" using assms by simp
  then show ?thesis by (simp add: sorted_wrt_append)
qed (simp add: assms)

lemma remove_region_effect:
  assumes ok: "region_ok p"
  shows "case process_remove_user_region_info s z p of (r, p') \<Rightarrow> region_ok p' \<and> r = process_find_user_region s z p \<and>
     (case r of None \<Rightarrow> p' = p
      | Some q \<Rightarrow> \<exists>i<length (regions p). regions p ! i = q \<and> regions p' = take i (regions p) @ drop (Suc i) (regions p))"
proof (cases "process_find_user_region s z p")
  case None
  then show ?thesis using ok
    by (auto simp: process_remove_user_region_info_def process_find_user_region_def split: option.splits)
next
  case (Some q)
  then obtain e i where e: "user_region_end s z = Some e" and i: "region_index s e p = Some i" "q = p_user_regions p ! i"
    by (auto simp: process_find_user_region_def split: option.splits)
  note ri = region_index_Some [OF ok i(1)]
  define p' where "p' = p\<lparr>p_user_regions := (shift_regions i (p_user_region_count p) (p_user_regions p))
      [p_user_region_count p - 1 := region_clear], p_user_region_count := p_user_region_count p - 1\<rparr>"
  have n: "p_user_region_count p \<le> length (p_user_regions p)" "i < p_user_region_count p"
    using ok ri(1) by (simp_all add: region_ok_def length_regions [OF ok])
  have eq: "process_remove_user_region_info s z p = (Some q, p')"
    using e i by (simp add: process_remove_user_region_info_def p'_def Let_def)
  have r': "regions p' = take i (regions p) @ drop (Suc i) (regions p)"
    unfolding regions_def using remove_regions [OF n] by (simp add: p'_def)
  have "set (regions p') \<subseteq> set (regions p)" unfolding r' using set_take_subset set_drop_subset by fastforce
  moreover have "sorted_wrt (\<lambda>a b. range_of a \<inter> range_of b = {}) (regions p')"
    unfolding r' using ok by (intro sorted_wrt_remove) (simp add: region_ok_def)
  ultimately have "region_ok p'" using ok unfolding region_ok_def by (auto simp: p'_def)
  then show ?thesis using Some ri i(2) r' by (auto simp: eq)
qed

lemma set_mapping_effect:
  assumes ok: "region_ok p"
  shows "case process_set_user_region_mapping s z pa fl p of (r, p') \<Rightarrow> region_ok p' \<and>
     (r \<longleftrightarrow> process_find_user_region s z p \<noteq> None) \<and> map range_of (regions p') = map range_of (regions p) \<and>
     (r \<longrightarrow> (\<exists>q. process_find_user_region s z p = Some q \<and>
        process_find_user_region s z p' = Some (q\<lparr>ur_paddr := pa, ur_flags := fl\<rparr>)))"
proof (cases "process_find_user_region s z p")
  case None
  then show ?thesis using ok
    by (auto simp: process_set_user_region_mapping_def process_find_user_region_def split: option.splits)
next
  case (Some q)
  then obtain e i where e: "user_region_end s z = Some e" and i: "region_index s e p = Some i" "q = p_user_regions p ! i"
    by (auto simp: process_find_user_region_def split: option.splits)
  note ri = region_index_Some [OF ok i(1)]
  define p' where "p' = p\<lparr>p_user_regions := (p_user_regions p)[i := q\<lparr>ur_paddr := pa, ur_flags := fl\<rparr>]\<rparr>"
  have n: "i < p_user_region_count p" "i < length (p_user_regions p)"
    using ok ri(1) by (auto simp: region_ok_def length_regions [OF ok])
  have eq: "process_set_user_region_mapping s z pa fl p = (True, p')"
    using e i by (simp add: process_set_user_region_mapping_def p'_def)
  have r': "regions p' = (regions p)[i := q\<lparr>ur_paddr := pa, ur_flags := fl\<rparr>]" using n by (simp add: regions_def p'_def take_update_swap)
  have q: "q = regions p ! i" using i(2) ri(4) by simp
  have same: "range_of (q\<lparr>ur_paddr := pa, ur_flags := fl\<rparr>) = range_of (regions p ! i)" by (simp add: q range_of_def)
  have ranges: "map range_of (regions p') = map range_of (regions p)"
    unfolding r' map_update same by (simp add: map_update [symmetric])
  have sorted: "sorted_wrt (\<lambda>a b. range_of a \<inter> range_of b = {}) (regions p')"
    using ok ranges unfolding region_ok_def sorted_wrt_map [symmetric, of "\<lambda>a b. a \<inter> b = {}" range_of] by simp
  have "ur_start x < ur_end x" if "x \<in> set (regions p')" for x
    using that ok ri(1) set_update_subset_insert [of "regions p" i] unfolding r' region_ok_def q by fastforce
  then have ok': "region_ok p'" using ok sorted by (simp add: region_ok_def p'_def)
  have "region_index s e p' = Some i"
    using i(1) n unfolding region_index_def first_index_Some_iff by (auto simp: p'_def nth_list_update i(2))
  then have "process_find_user_region s z p' = Some (q\<lparr>ur_paddr := pa, ur_flags := fl\<rparr>)"
    using e n by (simp add: process_find_user_region_def p'_def)
  then show ?thesis using Some ok' ranges by (simp add: eq)
qed

lemma unat_region_align_up:
  "region_align_up v 4096 = (v + 4095) AND NOT (mask 12)"
  by (simp add: region_align_up_def mask_eq_exp_minus_1 add.commute)

lemma align_up_aligned: "unat (region_align_up v 4096) mod 4096 = 0"
proof -
  have "take_bit 12 (region_align_up v 4096) = 0"
    unfolding unat_region_align_up by (rule bit_word_eqI) (auto simp: bit_simps)
  then have "unat (take_bit 12 (region_align_up v 4096)) = 0" by simp
  then show ?thesis by (simp add: unat_take_bit_mod)
qed

lemma alloc_region_effect:
  assumes ok: "region_ok p" and eq: "process_alloc_user_region z p = (a, p')"
  shows "region_ok p' \<and> (case a of None \<Rightarrow> p' = p
    | Some s \<Rightarrow> \<exists>len\<ge>z. unat s mod 4096 = 0 \<and> unat len mod 4096 = 0 \<and> p_next_user_vaddr p \<le> s \<and>
        unat s + unat len \<le> unat PROCESS_USER_MMAP_LIMIT \<and> unat (p_next_user_vaddr p') = unat s + unat len \<and>
        (\<forall>q\<in>set (regions p). range_of q \<inter> {unat s..<unat s + unat len} = {}) \<and>
        regions p' = regions p @ [\<lparr>ur_start = s, ur_end = s + len, ur_paddr = 0, ur_flags = 0\<rparr>])"
proof -
  let ?len = "region_align_up z 4096" and ?s = "region_align_up (p_next_user_vaddr p) 4096"
  note eq = eq [unfolded process_alloc_user_region_def Let_def]
  show ?thesis
  proof (cases "z = 0 \<or> ?len < z \<or> ?s < p_next_user_vaddr p \<or> user_region_end ?s ?len = None")
    case True
    then have "a = None" "p' = p" using eq by (auto split: if_splits)
    then show ?thesis using ok by simp
  next
    case False
    then obtain e where e: "user_region_end ?s ?len = Some e" by auto
    note u = user_region_end_nat [OF e]
    obtain r p1 where add: "process_add_user_region ?s ?len p = (r, p1)" by force
    note ad = add_region_effect [OF ok, where s = ?s and z = ?len, unfolded add prod.case]
    show ?thesis
    proof (cases "e > PROCESS_USER_MMAP_LIMIT \<or> \<not> r")
      case True
      then have "a = None" "p' = p" using eq False e add ad
        by (auto split: bool.splits if_splits)
      then show ?thesis using ok by simp
    next
      case good: False
      then have res: "a = Some ?s" "p' = p1\<lparr>p_next_user_vaddr := e\<rparr>"
        using eq False e add by (auto split: if_splits)
      have "region_ok p'" "regions p' = regions p1" using ad by (simp_all add: res(2) region_ok_def regions_def)
      moreover have "unat e \<le> unat PROCESS_USER_MMAP_LIMIT" using good by (simp add: not_less word_le_nat_alt)
      moreover have "z \<le> ?len" "p_next_user_vaddr p \<le> ?s" using False by auto
      ultimately show ?thesis
        using ad good align_up_aligned u(1) unfolding res option.case by (intro conjI exI [of _ ?len]) auto
    qed
  qed
qed

section \<open>Properties\<close>

text \<open>C3 The user-pointer authority. \<open>process_user_range_contains\<close> accepts a non-empty range exactly when it does not wrap around the
  address space and one region of the process contains every byte of it.\<close>

theorem process_user_range_contains_exact:
  assumes ok: "region_ok p" and "sz \<noteq> 0"
  shows "process_user_range_contains start sz p \<longleftrightarrow> unat start + unat sz < 2 ^ 64 \<and>
    (\<exists>r\<in>set (regions p). {unat start..<unat start + unat sz} \<subseteq> range_of r)"
proof (cases "user_region_end start sz")
  case None
  then show ?thesis using user_region_end_Some [of start sz "start + sz"] assms(2)
    by (auto simp: process_user_range_contains_def)
next
  case (Some e)
  note u = user_region_end_nat [OF Some]
  have "start \<ge> ur_start r \<and> e \<le> ur_end r \<longleftrightarrow> {unat start..<unat start + unat sz} \<subseteq> range_of r" for r
    unfolding range_of_def word_le_nat_alt u(1) using u(3) by (simp add: atLeastLessThan_subset_iff)
  then show ?thesis
    using scan_regions [OF ok, of "\<lambda>r. start \<ge> ur_start r \<and> e \<le> ur_end r"] Some assms(2) user_region_end_Some [of start sz e]
    by (auto simp: process_user_range_contains_def)
qed

definition process_demo :: process where
  "process_demo = process_init 1 (Some ''demo'') \<lparr>p_pid = 0, p_name = [], p_regs = [], p_sp = 0, p_pc = 0, p_pstate = 0,
     p_page_table = 0, p_state = PROCESS_UNUSED, p_exit_code = 0, p_next_user_vaddr = 0, p_user_regions = [],
     p_user_region_count = 0\<rparr>"

lemma process_init_regions: "region_ok (process_init pid name p)" "regions (process_init pid name p) = []"
  by (simp_all add: region_ok_def regions_def process_init_def)

definition process_mapped :: process where
  "process_mapped = snd (process_add_user_region 0x400000 0x2000 process_demo)"

lemma process_mapped_ok:
  "region_ok process_mapped" "regions process_mapped = [\<lparr>ur_start = 0x400000, ur_end = 0x402000, ur_paddr = 0, ur_flags = 0\<rparr>]"
proof -
  have "fst (process_add_user_region 0x400000 0x2000 process_demo)"
    using add_region_effect [where p = process_demo and s = "0x400000" and z = "0x2000"] process_init_regions
    by (auto simp: process_demo_def)
  then show "region_ok process_mapped" "regions process_mapped = [\<lparr>ur_start = 0x400000, ur_end = 0x402000, ur_paddr = 0, ur_flags = 0\<rparr>]"
    using add_region_effect [where p = process_demo and s = "0x400000" and z = "0x2000"] process_init_regions
    by (auto simp: process_demo_def process_mapped_def case_prod_beta)
qed

theorem process_user_range_contains_exact_witness:
  "process_user_range_contains 0x401ff0 16 process_mapped \<and> \<not> process_user_range_contains 0x401ff0 17 process_mapped \<and>
   \<not> process_user_range_contains 0x401000 0xffffffffffffffff process_mapped"
  using process_user_range_contains_exact [OF process_mapped_ok(1), where sz = "16" and start = "0x401ff0"]
    process_user_range_contains_exact [OF process_mapped_ok(1), where sz = "17" and start = "0x401ff0"]
    process_user_range_contains_exact [OF process_mapped_ok(1), where sz = "0xffffffffffffffff" and start = "0x401000"]
  by (simp add: process_mapped_ok(2) range_of_def)

text \<open>C15 Allocating user address space. \<open>process_alloc_user_region\<close> either fails without any change or returns a page-aligned address,
  not below the allocation pointer, of a range of whole pages at least as long as asked for, below the limit of the user
  area and disjoint from every region the process has; the range becomes a region and the pointer moves
  behind it.\<close>

theorem process_alloc_user_region_correct:
  assumes "region_ok p" and "process_alloc_user_region sz p = (a, p')"
  shows "region_ok p' \<and> (case a of None \<Rightarrow> p' = p
    | Some s \<Rightarrow> \<exists>len\<ge>sz. unat s mod 4096 = 0 \<and> unat len mod 4096 = 0 \<and> p_next_user_vaddr p \<le> s \<and>
        unat s + unat len \<le> unat PROCESS_USER_MMAP_LIMIT \<and> unat (p_next_user_vaddr p') = unat s + unat len \<and>
        (\<forall>q\<in>set (regions p). range_of q \<inter> {unat s..<unat s + unat len} = {}) \<and>
        regions p' = regions p @ [\<lparr>ur_start = s, ur_end = s + len, ur_paddr = 0, ur_flags = 0\<rparr>])"
  by (rule alloc_region_effect [OF assms])

lemma alloc_demo: "fst (process_alloc_user_region 5000 process_mapped) = Some 0x100000000"
  by code_simp

theorem process_alloc_user_region_correct_witness:
  "\<exists>p' len. process_alloc_user_region 5000 process_mapped = (Some 0x100000000, p') \<and> region_ok p' \<and> 5000 \<le> len \<and>
     unat (p_next_user_vaddr p') = 0x100000000 + unat (len :: u64)"
proof -
  obtain p' where e: "process_alloc_user_region 5000 process_mapped = (Some 0x100000000, p')"
    using alloc_demo by (cases "process_alloc_user_region 5000 process_mapped") auto
  from process_alloc_user_region_correct [OF process_mapped_ok(1) this] show ?thesis unfolding e by auto
qed

lemma range_unique:
  assumes ok: "region_ok p" and "i < length (regions p)" and "j < length (regions p)"
    and "range_of (regions p ! i) \<inter> range_of (regions p ! j) \<noteq> {}"
  shows "i = j"
proof (rule ccontr)
  assume "i \<noteq> j"
  moreover have "range_of (regions p ! k) \<inter> range_of (regions p ! l) = {}" if "k < l" "l < length (regions p)" for k l
    using ok that by (auto simp: region_ok_def sorted_wrt_iff_nth_less)
  ultimately show False using assms(2-4) by (metis Int_commute nat_neq_iff)
qed

lemma set_mapping_prefix:
  assumes "region_ok p" and "process_set_user_region_mapping s z pa fl p = (True, p')"
    and "region_index s e p = Some i" and "user_region_end s z = Some e" and "i = length xs" and "regions p = xs @ [y]"
  shows "take (length xs) (regions p') = xs"
proof -
  have "regions p' = (regions p)[i := (p_user_regions p ! i)\<lparr>ur_paddr := pa, ur_flags := fl\<rparr>]"
    using assms(2-4) by (auto simp: process_set_user_region_mapping_def regions_def take_update_swap)
  then show ?thesis using assms(5,6) by simp
qed

text \<open>Life of a region. A region that was added and given a mapping is found with that mapping, removing it reports
  exactly that region, and afterwards the process has the regions it had before, in the same order.\<close>

theorem process_region_round_trip:
  assumes ok: "region_ok p" and "process_add_user_region s z p = (True, p1)"
    and "process_set_user_region_mapping s z pa fl p1 = (True, p2)"
    and "process_remove_user_region_info s z p2 = (r, p3)"
  shows "process_find_user_region s z p2 = Some \<lparr>ur_start = s, ur_end = s + z, ur_paddr = pa, ur_flags = fl\<rparr> \<and>
    r = process_find_user_region s z p2 \<and> regions p3 = regions p"
proof -
  let ?new = "\<lparr>ur_start = s, ur_end = s + z, ur_paddr = 0, ur_flags = 0\<rparr>" and ?n = "length (regions p)"
  note ad = add_region_effect [OF ok, where s = s and z = z, unfolded assms(2) prod.case]
  have ok1: "region_ok p1" and r1: "regions p1 = regions p @ [?new]" using ad by simp_all
  note sm = set_mapping_effect [OF ok1, where s = s and z = z and pa = pa and fl = fl, unfolded assms(3) prod.case]
  obtain q where q: "process_find_user_region s z p1 = Some q"
    "process_find_user_region s z p2 = Some (q\<lparr>ur_paddr := pa, ur_flags := fl\<rparr>)" and ok2: "region_ok p2"
    and same: "map range_of (regions p2) = map range_of (regions p @ [?new])" using sm r1 by auto
  note rm = remove_region_effect [OF ok2, where s = s and z = z, unfolded assms(4) prod.case]
  obtain e i where e: "user_region_end s z = Some e" and i: "region_index s e p1 = Some i" "q = p_user_regions p1 ! i"
    using q(1) by (auto simp: process_find_user_region_def split: option.splits)
  note ri = region_index_Some [OF ok1 i(1)]
  note u = user_region_end_nat [OF e]
  have e': "e = s + z" using e by (simp add: user_region_end_Some)
  have pos: "unat s \<in> range_of ?new" using u by (simp add: range_of_def e' [symmetric])
  have "range_of (regions p1 ! i) = range_of (regions p1 ! ?n)" using ri(2,3) by (simp add: r1 range_of_def e')
  then have "i = ?n" using range_unique [OF ok1 ri(1), of ?n] pos by (auto simp: r1)
  then have qn: "q = ?new" using i(2) ri(4) by (simp add: r1)
  have r: "r = Some (?new\<lparr>ur_paddr := pa, ur_flags := fl\<rparr>)" using rm q(2) qn by simp
  then obtain j where j: "j < length (regions p2)" "regions p2 ! j = ?new\<lparr>ur_paddr := pa, ur_flags := fl\<rparr>"
    "regions p3 = take j (regions p2) @ drop (Suc j) (regions p2)" using rm by auto
  have len2: "length (regions p2) = Suc ?n" using arg_cong [OF same, of length] by simp
  have "range_of (regions p2 ! ?n) = range_of ?new" using arg_cong [OF same, of "\<lambda>xs. xs ! ?n"] len2 by (simp add: nth_append)
  then have "j = ?n" using range_unique [OF ok2 j(1), of ?n] pos j(2) len2 by (auto simp: range_of_def)
  then have "regions p3 = take ?n (regions p2)" using j(3) len2 by simp
  moreover have "take ?n (regions p2) = regions p"
    by (rule set_mapping_prefix [OF ok1 assms(3) i(1) e \<open>i = ?n\<close> r1])
  ultimately show ?thesis using r rm q(2) qn by simp
qed

definition process_remapped :: process where
  "process_remapped = snd (process_set_user_region_mapping 0x10000 0x1000 0x40080000 1 (snd (process_add_user_region 0x10000 0x1000 process_mapped)))"

lemma process_remapped_steps:
  "process_add_user_region 0x10000 0x1000 process_mapped = (True, snd (process_add_user_region 0x10000 0x1000 process_mapped))"
  "process_set_user_region_mapping 0x10000 0x1000 0x40080000 1 (snd (process_add_user_region 0x10000 0x1000 process_mapped)) =
     (True, process_remapped)"
proof -
  have "fst (process_add_user_region 0x10000 0x1000 process_mapped)" by code_simp
  then show "process_add_user_region 0x10000 0x1000 process_mapped = (True, snd (process_add_user_region 0x10000 0x1000 process_mapped))"
    by (metis (full_types) prod.collapse)
  have "fst (process_set_user_region_mapping 0x10000 0x1000 0x40080000 1 (snd (process_add_user_region 0x10000 0x1000 process_mapped)))"
    by code_simp
  then show "process_set_user_region_mapping 0x10000 0x1000 0x40080000 1 (snd (process_add_user_region 0x10000 0x1000 process_mapped)) =
     (True, process_remapped)" unfolding process_remapped_def by (metis (full_types) prod.collapse)
qed

theorem process_region_round_trip_witness:
  "regions (snd (process_remove_user_region_info 0x10000 0x1000 process_remapped)) = regions process_mapped"
  using process_region_round_trip [OF process_mapped_ok(1) process_remapped_steps surjective_pairing] by simp

inductive region_step :: "process \<Rightarrow> process \<Rightarrow> bool" where
  add: "region_step p (snd (process_add_user_region s z p))"
| alloc: "region_step p (snd (process_alloc_user_region z p))"
| mapping: "region_step p (snd (process_set_user_region_mapping s z pa fl p))"
| remove: "region_step p (snd (process_remove_user_region s z p))"

lemma region_step_ok:
  assumes "region_step p p'" and ok: "region_ok p"
  shows "region_ok p'"
  using assms(1)
proof cases
  case (add s z)
  then show ?thesis using add_region_effect [OF ok, where s = s and z = z] by (simp add: case_prod_beta)
next
  case (alloc z)
  then show ?thesis using alloc_region_effect [OF ok, of z] by (cases "process_alloc_user_region z p") simp
next
  case (mapping s z pa fl)
  then show ?thesis
    using set_mapping_effect [OF ok, where s = s and z = z and pa = pa and fl = fl] by (simp add: case_prod_beta)
next
  case (remove s z)
  then show ?thesis
    using remove_region_effect [OF ok, where s = s and z = z] by (simp add: process_remove_user_region_def case_prod_beta)
qed

lemma region_runs_ok:
  assumes "region_step\<^sup>*\<^sup>* p p'" and "region_ok p"
  shows "region_ok p'"
  using assms by (induction rule: rtranclp_induct) (auto intro: region_step_ok)

text \<open>C14 From \<open>process_init\<close> on, whatever regions are added, allocated, mapped and removed, a process has at most eight regions, none is
  empty, and no address lies in two of them.\<close>

theorem process_regions_disjoint:
  assumes "region_step\<^sup>*\<^sup>* (process_init pid name p0) p"
  shows "length (regions p) \<le> PROCESS_MAX_USER_REGIONS \<and> (\<forall>r\<in>set (regions p). ur_start r < ur_end r) \<and>
    (\<forall>i<length (regions p). \<forall>j<length (regions p). i \<noteq> j \<longrightarrow> range_of (regions p ! i) \<inter> range_of (regions p ! j) = {})"
proof -
  have ok: "region_ok p" by (rule region_runs_ok [OF assms process_init_regions(1)])
  then show ?thesis using range_unique [OF ok] length_regions [OF ok] by (auto simp: region_ok_def)
qed

theorem process_regions_disjoint_witness: "length (regions process_mapped) \<le> PROCESS_MAX_USER_REGIONS"
  using process_regions_disjoint [of 1 "Some ''demo''"] region_step.add
  unfolding process_mapped_def process_demo_def by blast

end
