(* ===== verification/Process.thy ===== *)
theory Process
  imports Region Vmm Gui RoundRobin
begin

text \<open>
  The process table, \<open>kernel/process.c\<close>. The record \<open>kernel\<close> has the table, the current process, the count of used slots and
  the parts of the system that the process code calls: the page-table manager with the physical
  allocator, the window system, and the translation base register that \<open>process_activate_context\<close> sets. A
  \<open>process_t *\<close> is a slot index, null is \<open>None\<close>; \<open>process_in_table\<close> holds of every index below the
  table size. The loop of \<open>process_free_resources\<close> over the pages of a region is a fold over its page numbers (a region
  longer than \<open>2 ^ 64 - 4096\<close> bytes, where the byte counter of the loop would wrap, needs a start in the first page of the address
  space and is excluded).
\<close>

abbreviation PROCESS_MAX_PROCESSES :: nat where "PROCESS_MAX_PROCESSES \<equiv> 16"
abbreviation PROCESS_DISPATCH_EXIT :: nat where "PROCESS_DISPATCH_EXIT \<equiv> 0"
abbreviation PROCESS_DISPATCH_PREEMPT :: nat where "PROCESS_DISPATCH_PREEMPT \<equiv> 1"

record exception_frame =
  fr_x :: "u64 list"
  fr_elr :: u64
  fr_spsr :: u64
  fr_sp_el0 :: u64

record kernel =
  g_processes :: "process list"
  g_current_process :: "nat option"
  g_process_count :: nat
  k_vmm :: vmm
  k_gui :: gui
  k_ttbr0 :: u64

definition set_process :: "nat \<Rightarrow> (process \<Rightarrow> process) \<Rightarrow> kernel \<Rightarrow> kernel" where
  "set_process i f k = k\<lparr>g_processes := (g_processes k)[i := f (g_processes k ! i)]\<rparr>"

section \<open>Operations\<close>

definition process_in_table :: "nat \<Rightarrow> bool" where
  "process_in_table i \<longleftrightarrow> i < PROCESS_MAX_PROCESSES"

definition free_region_pages :: "process_user_region \<Rightarrow> pmm \<Rightarrow> pmm" where
  "free_region_pages r p =
     (if ur_end r > ur_start r
      then fold (\<lambda>j p. pmm_free_page (ur_paddr r + of_nat j * PAGE_SIZE) p)
             [0..<(unat (ur_end r - ur_start r) + 4095) div 4096] p
      else p)"

definition free_region :: "nat \<Rightarrow> process \<times> vmm \<Rightarrow> process \<times> vmm" where
  "free_region i x =
     (let (p, s) = x; r = p_user_regions p ! i
      in if ur_flags r AND PROCESS_USER_REGION_OWNED_PAGES = 0 \<or> ur_paddr r = 0 then (p, s)
         else (p\<lparr>p_user_regions := (p_user_regions p)[i :=
                  r\<lparr>ur_flags := ur_flags r AND NOT PROCESS_USER_REGION_OWNED_PAGES, ur_paddr := 0\<rparr>]\<rparr>,
               s\<lparr>vpmm := free_region_pages r (vpmm s)\<rparr>))"

definition process_free_resources :: "process \<Rightarrow> vmm \<Rightarrow> process \<times> vmm" where
  "process_free_resources p s =
     (let (p1, s1) = fold free_region [0..<min (p_user_region_count p) PROCESS_MAX_USER_REGIONS] (p, s)
      in if p_page_table p1 \<noteq> 0
         then (p1\<lparr>p_page_table := 0\<rparr>, vmm_free_table (p_page_table p1) s1)
         else (p1, s1))"

definition process_set_current :: "nat option \<Rightarrow> kernel \<Rightarrow> kernel" where
  "process_set_current i k = k\<lparr>g_current_process := i\<rparr>"

definition process_current :: "kernel \<Rightarrow> nat option" where
  "process_current k = g_current_process k"

definition unused_slot :: "process \<Rightarrow> process" where
  "unused_slot p = (process_init 0 None p)\<lparr>p_state := PROCESS_UNUSED\<rparr>"

definition process_table_init :: "kernel \<Rightarrow> kernel" where
  "process_table_init k =
     k\<lparr>g_current_process := None, g_process_count := 0, g_processes := map unused_slot (g_processes k)\<rparr>"

definition process_find :: "u32 \<Rightarrow> kernel \<Rightarrow> nat option" where
  "process_find pid k =
     (if pid = 0 then None
      else first_index PROCESS_MAX_PROCESSES
        (\<lambda>i. p_state (g_processes k ! i) \<noteq> PROCESS_UNUSED \<and> p_pid (g_processes k ! i) = pid))"

definition process_alloc :: "u32 \<Rightarrow> string option \<Rightarrow> kernel \<Rightarrow> nat option \<times> kernel" where
  "process_alloc pid name k =
     (if pid = 0 \<or> process_find pid k \<noteq> None then (None, k)
      else case first_index PROCESS_MAX_PROCESSES (\<lambda>i. p_state (g_processes k ! i) = PROCESS_UNUSED) of
          None \<Rightarrow> (None, k)
        | Some i \<Rightarrow> (Some i, (set_process i (process_init pid name) k)\<lparr>g_process_count := g_process_count k + 1\<rparr>))"

definition process_release :: "nat \<Rightarrow> kernel \<Rightarrow> kernel" where
  "process_release i k =
     (let p = g_processes k ! i
      in if p_state p = PROCESS_UNUSED \<and> p_page_table p = 0 \<and> p_user_region_count p = 0 then k
         else
           (let k1 = (if g_current_process k = Some i then k\<lparr>g_current_process := None\<rparr> else k);
                counted = (process_in_table i \<and> p_state p \<noteq> PROCESS_UNUSED);
                (p1, s1) = process_free_resources p (k_vmm k1);
                k2 = k1\<lparr>k_vmm := s1, g_processes := (g_processes k1)[i := unused_slot p1]\<rparr>
            in if counted \<and> g_process_count k2 > 0
               then k2\<lparr>g_process_count := g_process_count k2 - 1\<rparr> else k2))"

definition process_count :: "kernel \<Rightarrow> nat" where
  "process_count k = g_process_count k"

definition process_at :: "nat \<Rightarrow> kernel \<Rightarrow> process option" where
  "process_at index k =
     (if index \<ge> PROCESS_MAX_PROCESSES \<or> p_state (g_processes k ! index) = PROCESS_UNUSED then None
      else Some (g_processes k ! index))"

definition process_index :: "nat option \<Rightarrow> nat option" where
  "process_index p = (case p of None \<Rightarrow> None | Some i \<Rightarrow> if \<not> process_in_table i then None else Some i)"

definition process_next_runnable :: "nat option \<Rightarrow> kernel \<Rightarrow> nat option" where
  "process_next_runnable after k =
     (let (start, count) = (case after of
            Some a \<Rightarrow> if process_in_table a then (a + 1, PROCESS_MAX_PROCESSES - 1) else (0, PROCESS_MAX_PROCESSES)
          | None \<Rightarrow> (0, PROCESS_MAX_PROCESSES))
      in cyclic_scan PROCESS_MAX_PROCESSES start count (\<lambda>i. p_state (g_processes k ! i) = PROCESS_READY))"

definition process_save_context :: "u64 list \<Rightarrow> u64 \<Rightarrow> u64 \<Rightarrow> u64 \<Rightarrow> process \<Rightarrow> process" where
  "process_save_context regs pc pstate sp p =
     p\<lparr>p_regs := copy_loop (p_regs p) 0 regs 31, p_pc := pc, p_pstate := pstate, p_sp := sp\<rparr>"

definition process_load_context :: "process \<Rightarrow> exception_frame \<Rightarrow> exception_frame" where
  "process_load_context p f =
     f\<lparr>fr_x := copy_loop (fr_x f) 0 (p_regs p) 31, fr_elr := p_pc p, fr_spsr := p_pstate p, fr_sp_el0 := p_sp p\<rparr>"

definition process_activate_context :: "nat \<Rightarrow> exception_frame \<Rightarrow> kernel \<Rightarrow> exception_frame \<times> kernel" where
  "process_activate_context i f k =
     (let p = g_processes k ! i
      in (process_load_context p f, if p_page_table p \<noteq> 0 then k\<lparr>k_ttbr0 := p_page_table p\<rparr> else k))"

definition process_dispatch_next :: "nat option \<Rightarrow> exception_frame \<Rightarrow> nat \<Rightarrow> kernel \<Rightarrow> bool \<times> exception_frame \<times> kernel" where
  "process_dispatch_next current f policy k =
     (if policy \<noteq> PROCESS_DISPATCH_EXIT \<and> policy \<noteq> PROCESS_DISPATCH_PREEMPT then (False, f, k)
      else if current = None \<and> policy = PROCESS_DISPATCH_PREEMPT then (False, f, k)
      else case process_next_runnable current k of
          None \<Rightarrow> (False, f, k)
        | Some next \<Rightarrow>
            (let k1 = (case current of
                   Some c \<Rightarrow> if policy = PROCESS_DISPATCH_PREEMPT \<and> p_state (g_processes k ! c) = PROCESS_RUNNING
                             then set_process c (\<lambda>p. p\<lparr>p_state := PROCESS_READY\<rparr>) k else k
                 | None \<Rightarrow> k);
                 k2 = process_set_current (Some next) (set_process next (\<lambda>p. p\<lparr>p_state := PROCESS_RUNNING\<rparr>) k1)
             in (True, process_activate_context next f k2)))"

definition process_mark_exited :: "nat \<Rightarrow> u64 \<Rightarrow> kernel \<Rightarrow> kernel" where
  "process_mark_exited i code k =
     (if p_state (g_processes k ! i) = PROCESS_ZOMBIE then k
      else
        (let k1 = (if g_gui_active (k_gui k)
                   then k\<lparr>k_gui := gui_destroy_windows_for_pid (p_pid (g_processes k ! i)) (k_gui k)\<rparr> else k)
         in set_process i (\<lambda>p. p\<lparr>p_exit_code := code, p_state := PROCESS_ZOMBIE\<rparr>) k1))"

definition process_wait_zombie :: "u32 \<Rightarrow> kernel \<Rightarrow> u64 option \<times> kernel" where
  "process_wait_zombie pid k =
     (case process_find pid k of
        None \<Rightarrow> (None, k)
      | Some i \<Rightarrow>
          if Some i = g_current_process k \<or> p_state (g_processes k ! i) \<noteq> PROCESS_ZOMBIE then (None, k)
          else (Some (p_exit_code (g_processes k ! i)), process_release i k))"

definition process_kill :: "u32 \<Rightarrow> u64 \<Rightarrow> kernel \<Rightarrow> bool \<times> kernel" where
  "process_kill pid code k =
     (case process_find pid k of
        None \<Rightarrow> (False, k)
      | Some i \<Rightarrow>
          if Some i = g_current_process k \<or> p_state (g_processes k ! i) = PROCESS_ZOMBIE then (False, k)
          else (True, process_mark_exited i code k))"

definition process_reclaim_zombies :: "kernel \<Rightarrow> kernel" where
  "process_reclaim_zombies k =
     fold (\<lambda>i k. if p_state (g_processes k ! i) = PROCESS_ZOMBIE then process_release i k else k)
       [0..<PROCESS_MAX_PROCESSES] k"

section \<open>Memory of a process\<close>

definition region_pages :: "process_user_region \<Rightarrow> u64 set" where
  "region_pages r =
     (if ur_flags r AND PROCESS_USER_REGION_OWNED_PAGES \<noteq> 0 \<and> ur_paddr r \<noteq> 0 \<and> ur_start r < ur_end r
      then (\<lambda>j. ur_paddr r + of_nat j * 4096) ` {..<(unat (ur_end r - ur_start r) + 4095) div 4096} else {})"

definition owned_pages :: "process \<Rightarrow> u64 set" where
  "owned_pages p = (\<Union>r\<in>set (regions p). region_pages r)"

lemma frees_none: "pmm_ready (vpmm s) \<Longrightarrow> frees {} s s"
  by (simp add: frees_def)

lemma frees_ready: "frees A s s' \<Longrightarrow> pmm_ready (vpmm s')"
  by (simp add: frees_def)

lemma free_region_pages_frees:
  assumes "pmm_ready (vpmm s)" and "region_pages r \<subseteq> managed_pages (vpmm s)"
    and "ur_flags r AND PROCESS_USER_REGION_OWNED_PAGES \<noteq> 0" and "ur_paddr r \<noteq> 0"
  shows "frees (region_pages r) s (s\<lparr>vpmm := free_region_pages r (vpmm s)\<rparr>)"
proof (cases "ur_start r < ur_end r")
  case False
  then show ?thesis using frees_none [OF assms(1)] by (simp add: region_pages_def free_region_pages_def)
next
  case True
  let ?n = "(unat (ur_end r - ur_start r) + 4095) div 4096"
  have "region_pages r = (\<lambda>j. ur_paddr r + of_nat j * 4096) ` {..<?n}" using True assms(3,4) by (simp add: region_pages_def)
  then show ?thesis
    using frees_run [OF assms(1), where n = ?n and a = "ur_paddr r"] assms(2) True by (auto simp: free_region_pages_def)
qed

lemma free_region_frees:
  assumes "pmm_ready (vpmm s)" and "region_pages (p_user_regions p ! i) \<subseteq> managed_pages (vpmm s)"
    and "free_region i (p, s) = (p', s')"
  shows "frees (region_pages (p_user_regions p ! i)) s s' \<and> p_user_region_count p' = p_user_region_count p \<and>
     p_page_table p' = p_page_table p \<and> (\<forall>j. j \<noteq> i \<longrightarrow> p_user_regions p' ! j = p_user_regions p ! j)"
proof (cases "ur_flags (p_user_regions p ! i) AND PROCESS_USER_REGION_OWNED_PAGES = 0 \<or> ur_paddr (p_user_regions p ! i) = 0")
  case True
  then show ?thesis using assms(1,3) frees_none by (auto simp: free_region_def region_pages_def)
next
  case False
  then show ?thesis
    using assms(3) free_region_pages_frees [OF assms(1,2)] by (auto simp: free_region_def Let_def)
qed

lemma free_regions_fold:
  assumes "pmm_ready (vpmm s)" and "\<forall>i<n. region_pages (p_user_regions p ! i) \<subseteq> managed_pages (vpmm s)"
  shows "case fold free_region [0..<n] (p, s) of (p', s') \<Rightarrow>
     frees (\<Union>i<n. region_pages (p_user_regions p ! i)) s s' \<and> p_page_table p' = p_page_table p \<and>
     (\<forall>j\<ge>n. p_user_regions p' ! j = p_user_regions p ! j)"
  using assms(2)
proof (induction n)
  case 0
  then show ?case using frees_none [OF assms(1)] by simp
next
  case (Suc n)
  obtain p1 s1 where f1: "fold free_region [0..<n] (p, s) = (p1, s1)" by force
  obtain p2 s2 where f2: "free_region n (p1, s1) = (p2, s2)" by force
  have IH: "frees (\<Union>i<n. region_pages (p_user_regions p ! i)) s s1" "p_page_table p1 = p_page_table p"
    "\<forall>j\<ge>n. p_user_regions p1 ! j = p_user_regions p ! j" using Suc f1 by auto
  have "region_pages (p_user_regions p1 ! n) \<subseteq> managed_pages (vpmm s1)"
    using IH Suc.prems by (simp add: frees_def)
  note fr = free_region_frees [OF frees_ready [OF IH(1)] this f2]
  have "frees (region_pages (p_user_regions p ! n)) s1 s2" using fr IH(3) by simp
  from frees_trans [OF IH(1) this] show ?case
    using f1 f2 fr IH(2,3) by (simp add: lessThan_Suc Un_commute)
qed

lemma vm_ok_frees:
  assumes ok: "vm_ok R s" and f: "frees A s s'" and "A \<inter> tables R s = {}"
  shows "vm_ok R s'" and "translation s' r v = translation s r v"
proof -
  have "tables R s' = tables R s" "ram s' = ram s" using f by (simp_all add: tables_def frees_def)
  then show "vm_ok R s'" using ok f assms(3) unfolding vm_ok_def frees_def by auto
  show "translation s' r v = translation s r v" unfolding translation_def \<open>ram s' = ram s\<close> ..
qed

lemma vm_ok_subset:
  assumes "vm_ok R s" and "Q \<subseteq> R"
  shows "vm_ok Q s"
proof -
  have "tables Q s \<subseteq> tables R s" using assms(2) by (auto simp: tables_def)
  then have "tables Q s \<subseteq> managed_pages (vpmm s) - avail_pages (vpmm s)" using vm_ok_tables [OF assms(1)] by blast
  moreover have "\<forall>r\<in>Q. \<forall>r'\<in>Q. \<forall>p\<in>paths 3. \<forall>p'\<in>paths 3. \<forall>a. walk (ram s) r p = Some a \<longrightarrow>
      walk (ram s) r' p' = Some a \<longrightarrow> r = r' \<and> p = p'"
    using vm_ok_inj [OF assms(1)] assms(2) by blast
  moreover have "\<forall>r\<in>Q. \<forall>p\<in>paths 2. \<forall>a. \<forall>i<512. walk (ram s) r p = Some a \<longrightarrow>
      ram s (cell a i) AND DESC_VALID \<noteq> 0 \<longrightarrow> ram s (cell a i) AND DESC_TABLE \<noteq> 0"
    using vm_ok_no_block [OF assms(1)] assms(2) unfolding is_table_def by blast
  ultimately show ?thesis using vm_ok_ready [OF assms(1)] vm_ok_bound [OF assms(1)] by (simp add: vm_ok_def)
qed

lemma process_free_resources_effect:
  assumes ok: "vm_ok R s" and reg: "region_ok p" and own: "owned_pages p \<subseteq> managed_pages (vpmm s) - tables R s"
    and pt: "p_page_table p \<noteq> 0 \<Longrightarrow> p_page_table p \<in> R"
    and eq: "process_free_resources p s = (p', s')"
  shows "frees (owned_pages p \<union> (if p_page_table p = 0 then {} else reached (ram s) (p_page_table p) 3)) s s' \<and>
    vm_ok (R - {p_page_table p}) s' \<and> (\<forall>r\<in>R. \<forall>v. translation s' r v = translation s r v)"
proof -
  let ?n = "p_user_region_count p"
  have n: "min ?n 8 = ?n" "?n \<le> length (p_user_regions p)" using reg by (simp_all add: region_ok_def)
  have "set (regions p) = (\<lambda>i. p_user_regions p ! i) ` {..<?n}"
    using n(2) by (simp add: regions_def nth_image [symmetric] lessThan_atLeast0)
  then have own_n: "owned_pages p = (\<Union>i<?n. region_pages (p_user_regions p ! i))" by (simp add: owned_pages_def)
  obtain p1 s1 where f1: "fold free_region [0..<?n] (p, s) = (p1, s1)" by force
  have "\<forall>i<?n. region_pages (p_user_regions p ! i) \<subseteq> managed_pages (vpmm s)" using own own_n by blast
  note fr = free_regions_fold [OF vm_ok_ready [OF ok] this, unfolded f1 prod.case, folded own_n]
  have disj: "owned_pages p \<inter> tables R s = {}" using own by auto
  have ok1: "vm_ok R s1" and tr1: "\<And>r v. translation s1 r v = translation s r v"
    using vm_ok_frees [OF ok _ disj] fr by auto
  show ?thesis
  proof (cases "p_page_table p = 0")
    case True
    then have "s' = s1" using eq fr f1 n(1) by (simp add: process_free_resources_def)
    moreover have "vm_ok (R - {0}) s1" using vm_ok_subset [OF ok1] by blast
    ultimately show ?thesis using True fr ok1 tr1 by simp
  next
    case False
    then have "s' = vmm_free_table (p_page_table p) s1" using eq fr f1 n(1) by (simp add: process_free_resources_def)
    moreover note vmm_free_table_effect [OF ok1 pt [OF False]]
    moreover have "ram s1 = ram s" using fr by (simp add: frees_def)
    ultimately show ?thesis using False fr tr1 frees_trans by auto
  qed
qed

section \<open>Invariant of the table\<close>

definition in_use :: "process \<Rightarrow> bool" where
  "in_use p \<longleftrightarrow> p_state p \<noteq> PROCESS_UNUSED"

definition process_ok :: "process \<Rightarrow> bool" where
  "process_ok p \<longleftrightarrow> region_ok p \<and> length (p_regs p) = 31 \<and>
     (if in_use p then p_pid p \<noteq> 0 else p_page_table p = 0 \<and> p_user_region_count p = 0)"

definition pids_unique :: "process list \<Rightarrow> bool" where
  "pids_unique ps \<longleftrightarrow> (\<forall>i<length ps. \<forall>j<length ps. in_use (ps ! i) \<longrightarrow> in_use (ps ! j) \<longrightarrow>
     p_pid (ps ! i) = p_pid (ps ! j) \<longrightarrow> i = j)"

definition current_ok :: "process list \<Rightarrow> nat option \<Rightarrow> bool" where
  "current_ok ps cur \<longleftrightarrow> (\<forall>c. cur = Some c \<longrightarrow> c < length ps \<and> in_use (ps ! c)) \<and>
     (\<forall>i<length ps. p_state (ps ! i) = PROCESS_RUNNING \<longrightarrow> cur = Some i)"

definition table_ok :: "kernel \<Rightarrow> bool" where
  "table_ok k \<longleftrightarrow> length (g_processes k) = PROCESS_MAX_PROCESSES \<and> (\<forall>p\<in>set (g_processes k). process_ok p) \<and>
     pids_unique (g_processes k) \<and> g_process_count k = length (filter in_use (g_processes k)) \<and>
     current_ok (g_processes k) (g_current_process k)"

lemma unused_slot_fields [simp]:
  "in_use (unused_slot p) = False" "process_ok (unused_slot p)" "p_state (unused_slot p) = PROCESS_UNUSED"
  "regions (unused_slot p) = []" "p_page_table (unused_slot p) = 0"
  using process_init_regions [of 0 None p]
  by (simp_all add: unused_slot_def in_use_def process_ok_def process_init_def region_ok_def regions_def)

lemma process_init_fields [simp]:
  "in_use (process_init pid name p)" "p_pid (process_init pid name p) = pid" "p_state (process_init pid name p) = PROCESS_READY"
  "pid \<noteq> 0 \<Longrightarrow> process_ok (process_init pid name p)"
  using process_init_regions(1) [of pid name p] by (simp_all add: in_use_def process_ok_def) (simp_all add: process_init_def)

lemma filter_update:
  assumes "i < length xs"
  shows "length (filter P (xs[i := y])) + (if P (xs ! i) then 1 else 0) = length (filter P xs) + (if P y then 1 else 0)"
proof -
  have "xs = take i xs @ xs ! i # drop (Suc i) xs" "xs[i := y] = take i xs @ y # drop (Suc i) xs"
    using assms by (simp_all add: id_take_nth_drop upd_conv_take_nth_drop)
  then have "filter P xs = filter P (take i xs) @ filter P (xs ! i # drop (Suc i) xs)"
    "filter P (xs[i := y]) = filter P (take i xs) @ filter P (y # drop (Suc i) xs)"
    by (metis filter_append)+
  then show ?thesis by simp
qed

text \<open>One slot is replaced; the other slots stay.\<close>

lemma pids_unique_update:
  assumes "pids_unique ps" and "\<And>j. j < length ps \<Longrightarrow> j \<noteq> i \<Longrightarrow> in_use (ps ! j) \<Longrightarrow> in_use p \<Longrightarrow> p_pid (ps ! j) \<noteq> p_pid p"
  shows "pids_unique (ps[i := p])"
  unfolding pids_unique_def
proof (intro allI impI, unfold length_list_update)
  fix a b assume ab: "a < length ps" "b < length ps" "in_use (ps[i := p] ! a)" "in_use (ps[i := p] ! b)"
    "p_pid (ps[i := p] ! a) = p_pid (ps[i := p] ! b)"
  show "a = b"
    using ab assms(2) [of a] assms(2) [of b] assms(1)
    by (cases "a = i"; cases "b = i") (auto simp: pids_unique_def)
qed

lemma current_ok_update:
  assumes c: "current_ok ps cur" and i: "i < length ps" and "cur' = Some i \<Longrightarrow> in_use p"
    and "p_state p = PROCESS_RUNNING \<Longrightarrow> cur' = Some i"
    and cur: "cur' = cur \<or> cur' = None \<and> cur = Some i"
  shows "current_ok (ps[i := p]) cur'"
proof -
  have "j < length ps \<and> in_use (ps[i := p] ! j)" if "cur' = Some j" for j
  proof (cases "j = i")
    case True
    then show ?thesis using that i assms(3) by simp
  next
    case False
    then have "cur = Some j" using that cur by simp
    then show ?thesis using c False by (simp add: current_ok_def)
  qed
  moreover have "cur' = Some j" if "j < length ps" "p_state (ps[i := p] ! j) = PROCESS_RUNNING" for j
  proof (cases "j = i")
    case True
    then show ?thesis using that i assms(4) by simp
  next
    case False
    then have "p_state (ps ! j) = PROCESS_RUNNING" using that(2) by simp
    then have "cur = Some j" using that(1) c unfolding current_ok_def by blast
    then show ?thesis using cur False by simp
  qed
  ultimately show ?thesis unfolding current_ok_def length_list_update by blast
qed

lemma table_ok_update:
  assumes ok: "table_ok k" and i: "i < 16" and p: "process_ok p"
    and pid: "in_use p \<Longrightarrow> (\<And>j. j < 16 \<Longrightarrow> j \<noteq> i \<Longrightarrow> in_use (g_processes k ! j) \<Longrightarrow> p_pid (g_processes k ! j) \<noteq> p_pid p)"
    and ps: "g_processes k' = (g_processes k)[i := p]"
    and cnt: "g_process_count k' + (if in_use (g_processes k ! i) then 1 else 0) = g_process_count k + (if in_use p then 1 else 0)"
    and cur: "current_ok ((g_processes k)[i := p]) (g_current_process k')"
  shows "table_ok k'"
proof -
  have len: "length (g_processes k) = 16" using ok by (simp add: table_ok_def)
  have "pids_unique (g_processes k')"
    unfolding ps using ok pid len by (intro pids_unique_update) (auto simp: table_ok_def)
  moreover have "\<forall>q\<in>set (g_processes k'). process_ok q"
    unfolding ps using ok p by (intro list_update_all) (auto simp: table_ok_def)
  moreover have "g_process_count k' = length (filter in_use (g_processes k'))"
    using filter_update [of i "g_processes k" in_use p] cnt i len ok unfolding ps by (simp add: table_ok_def)
  ultimately show ?thesis using len cur by (simp add: table_ok_def ps)
qed

lemma other_pid:
  assumes "table_ok k" and "i < 16" and "in_use (g_processes k ! i)" and "p_pid p = p_pid (g_processes k ! i)"
    and "j < 16" and "j \<noteq> i" and "in_use (g_processes k ! j)"
  shows "p_pid (g_processes k ! j) \<noteq> p_pid p"
  using assms unfolding table_ok_def pids_unique_def by metis

lemma table_ok_slot: "table_ok k \<Longrightarrow> i < 16 \<Longrightarrow> process_ok (g_processes k ! i)"
  by (simp add: table_ok_def)

text \<open>A slot keeps its process and does not become the running one unless it is the current one.\<close>

lemma table_ok_set:
  assumes ok: "table_ok k" and i: "i < 16" and "in_use (g_processes k ! i)" and p: "process_ok p" "in_use p"
    and "p_pid p = p_pid (g_processes k ! i)"
    and st: "p_state p = PROCESS_RUNNING \<longrightarrow> g_current_process k = Some i"
    and "g_processes k' = (g_processes k)[i := p]" "g_process_count k' = g_process_count k" "g_current_process k' = g_current_process k"
  shows "table_ok k'"
proof (rule table_ok_update [OF ok i p(1) other_pid [OF ok i assms(3,6)] assms(8)])
  show "current_ok ((g_processes k)[i := p]) (g_current_process k')"
    using ok i p(2) st assms(10) by (auto simp: table_ok_def current_ok_def nth_list_update)
qed (use assms in auto)

lemma process_find_Some:
  assumes "process_find pid k = Some i"
  shows "i < 16" "in_use (g_processes k ! i)" "p_pid (g_processes k ! i) = pid" "pid \<noteq> 0"
proof -
  have f: "first_index 16 (\<lambda>i. p_state (g_processes k ! i) \<noteq> PROCESS_UNUSED \<and> p_pid (g_processes k ! i) = pid) = Some i"
    and nz: "pid \<noteq> 0"
    using assms by (simp_all add: process_find_def split: if_splits)
  show "i < 16" "in_use (g_processes k ! i)" "p_pid (g_processes k ! i) = pid" "pid \<noteq> 0"
    using first_index_SomeD(1,2) [OF f] nz by (simp_all add: in_use_def)
qed

lemma process_find_None:
  assumes "process_find pid k = None" and "pid \<noteq> 0" and "j < 16" and "in_use (g_processes k ! j)"
  shows "p_pid (g_processes k ! j) \<noteq> pid"
  using assms by (auto simp: process_find_def first_index_None_iff in_use_def)

lemma process_find_unique:
  assumes ok: "table_ok k" and "i < 16" and "in_use (g_processes k ! i)"
  shows "process_find (p_pid (g_processes k ! i)) k = Some i"
proof (cases "process_find (p_pid (g_processes k ! i)) k")
  case None
  have "p_pid (g_processes k ! i) \<noteq> 0" using table_ok_slot [OF ok assms(2)] assms(3) by (simp add: process_ok_def)
  then show ?thesis using process_find_None [OF None _ assms(2,3)] by simp
next
  case (Some j)
  then show ?thesis using process_find_Some [OF Some] ok assms by (auto simp: table_ok_def pids_unique_def)
qed

section \<open>Effects of the operations\<close>

lemma process_alloc_effect:
  assumes ok: "table_ok k" and eq: "process_alloc pid name k = (r, k')"
  shows "table_ok k' \<and> (case r of
      None \<Rightarrow> k' = k \<and> (pid = 0 \<or> process_find pid k \<noteq> None \<or> (\<forall>i<16. in_use (g_processes k ! i)))
    | Some i \<Rightarrow> i < 16 \<and> \<not> in_use (g_processes k ! i) \<and> process_find pid k = None \<and> pid \<noteq> 0 \<and>
        g_processes k' = (g_processes k)[i := process_init pid name (g_processes k ! i)] \<and>
        k_vmm k' = k_vmm k \<and> k_gui k' = k_gui k \<and> g_current_process k' = g_current_process k)"
proof (cases "pid = 0 \<or> process_find pid k \<noteq> None")
  case True
  then show ?thesis using eq ok by (auto simp: process_alloc_def)
next
  case new: False
  show ?thesis
  proof (cases "first_index 16 (\<lambda>i. p_state (g_processes k ! i) = PROCESS_UNUSED)")
    case None
    then have "r = None" "k' = k" using new eq by (auto simp: process_alloc_def)
    then show ?thesis using None ok by (simp add: first_index_None_iff in_use_def)
  next
    case (Some i)
    let ?p = "process_init pid name (g_processes k ! i)"
    have i: "i < 16" "\<not> in_use (g_processes k ! i)" using first_index_SomeD(1,2) [OF Some] by (simp_all add: in_use_def)
    have r: "r = Some i" "k' = (set_process i (process_init pid name) k)\<lparr>g_process_count := g_process_count k + 1\<rparr>"
      using new Some eq by (auto simp: process_alloc_def)
    have "table_ok k'"
    proof (rule table_ok_update [OF ok i(1), of ?p])
      show "p_pid (g_processes k ! j) \<noteq> p_pid ?p" if "j < 16" "in_use (g_processes k ! j)" for j
        using process_find_None [of pid k j] new that by simp
      show "current_ok ((g_processes k)[i := ?p]) (g_current_process k')"
        using ok i by (auto simp: r(2) table_ok_def current_ok_def set_process_def nth_list_update)
    qed (use new i(2) in \<open>auto simp: r(2) set_process_def\<close>)
    then show ?thesis using i new by (simp add: r set_process_def)
  qed
qed

lemma process_release_effect:
  assumes ok: "table_ok k" and i: "i < 16"
  shows "table_ok (process_release i k) \<and> \<not> in_use (g_processes (process_release i k) ! i) \<and>
    (\<forall>j<16. j \<noteq> i \<longrightarrow> g_processes (process_release i k) ! j = g_processes k ! j) \<and>
    k_gui (process_release i k) = k_gui k \<and>
    g_current_process (process_release i k) = (if g_current_process k = Some i then None else g_current_process k) \<and>
    k_vmm (process_release i k) = (if in_use (g_processes k ! i) then snd (process_free_resources (g_processes k ! i) (k_vmm k)) else k_vmm k)"
proof (cases "in_use (g_processes k ! i)")
  case False
  then have "p_page_table (g_processes k ! i) = 0" "p_user_region_count (g_processes k ! i) = 0"
    using table_ok_slot [OF ok i] by (simp_all add: process_ok_def)
  then have "process_release i k = k" using False by (simp add: process_release_def in_use_def)
  moreover have "g_current_process k \<noteq> Some i" using ok False by (auto simp: table_ok_def current_ok_def)
  ultimately show ?thesis using ok False by simp
next
  case True
  obtain p1 s1 where f: "process_free_resources (g_processes k ! i) (k_vmm k) = (p1, s1)" by force
  let ?k = "process_release i k"
  have len: "length (g_processes k) = 16" using ok by (simp add: table_ok_def)
  have "g_processes k ! i \<in> set (filter in_use (g_processes k))" using True i len by simp
  then have pos: "0 < g_process_count k" using ok length_pos_if_in_set by (fastforce simp: table_ok_def)
  have st: "p_state (g_processes k ! i) \<noteq> PROCESS_UNUSED" using True by (simp add: in_use_def)
  have "process_release i k = (if g_current_process k = Some i then k\<lparr>g_current_process := None\<rparr> else k)
      \<lparr>k_vmm := s1, g_processes := (g_processes k)[i := unused_slot p1], g_process_count := g_process_count k - 1\<rparr>"
    unfolding process_release_def Let_def using st i pos f by (simp add: process_in_table_def)
  then have k': "g_processes ?k = (g_processes k)[i := unused_slot p1]" "k_gui ?k = k_gui k" "k_vmm ?k = s1"
    "g_process_count ?k = g_process_count k - 1"
    "g_current_process ?k = (if g_current_process k = Some i then None else g_current_process k)"
    by simp_all
  have "table_ok ?k"
  proof (rule table_ok_update [OF ok i unused_slot_fields(2) _ k'(1)])
    show "current_ok ((g_processes k)[i := unused_slot p1]) (g_current_process ?k)"
      using ok i len unfolding k'(5)
      by (intro current_ok_update [of _ "g_current_process k"]) (simp_all add: table_ok_def split: if_splits)
  qed (use True k'(4) pos in auto)
  then show ?thesis using True i len k' f by simp
qed

lemma mark_exited_fields:
  assumes "p_state (g_processes k ! i) \<noteq> PROCESS_ZOMBIE"
  shows "g_processes (process_mark_exited i code k) =
      (g_processes k)[i := (g_processes k ! i)\<lparr>p_exit_code := code, p_state := PROCESS_ZOMBIE\<rparr>]"
    and "g_current_process (process_mark_exited i code k) = g_current_process k"
    and "g_process_count (process_mark_exited i code k) = g_process_count k"
    and "k_vmm (process_mark_exited i code k) = k_vmm k"
    and "k_gui (process_mark_exited i code k) = (if g_gui_active (k_gui k)
      then gui_destroy_windows_for_pid (p_pid (g_processes k ! i)) (k_gui k) else k_gui k)"
  using assms by (simp_all add: process_mark_exited_def Let_def set_process_def)

lemma process_ok_state:
  "process_ok p \<Longrightarrow> in_use p \<Longrightarrow> s \<noteq> PROCESS_UNUSED \<Longrightarrow> process_ok (p\<lparr>p_state := s\<rparr>)"
  "process_ok (p\<lparr>p_exit_code := c\<rparr>) = process_ok p"
  "in_use (p\<lparr>p_state := s\<rparr>) = (s \<noteq> PROCESS_UNUSED)"
  by (simp_all add: process_ok_def in_use_def region_ok_def regions_def)

lemma process_mark_exited_ok:
  assumes ok: "table_ok k" and i: "i < 16" and use: "in_use (g_processes k ! i)"
  shows "table_ok (process_mark_exited i code k)"
proof (cases "p_state (g_processes k ! i) = PROCESS_ZOMBIE")
  case True
  then show ?thesis using ok by (simp add: process_mark_exited_def)
next
  case False
  note m = mark_exited_fields [OF False, of code]
  have "process_ok ((g_processes k ! i)\<lparr>p_exit_code := code, p_state := PROCESS_ZOMBIE\<rparr>)"
    using table_ok_slot [OF ok i] use by (simp add: process_ok_def in_use_def region_ok_def regions_def)
  then show ?thesis by (rule table_ok_set [OF ok i use _ _ _ _ m(1,3,2)]) (simp_all add: in_use_def)
qed

section \<open>Dispatching\<close>

definition dispatch_state :: "nat option \<Rightarrow> nat \<Rightarrow> nat \<Rightarrow> nat \<Rightarrow> process \<Rightarrow> process_state" where
  "dispatch_state cur policy n j p =
     (if j = n then PROCESS_RUNNING
      else if cur = Some j \<and> policy = PROCESS_DISPATCH_PREEMPT \<and> p_state p = PROCESS_RUNNING then PROCESS_READY
      else p_state p)"

lemma process_next_runnable_Some:
  assumes "process_next_runnable after k = Some n"
  shows "n < 16" and "p_state (g_processes k ! n) = PROCESS_READY"
  using assms cyclic_scan_Some [of 16 _ _ "\<lambda>i. p_state (g_processes k ! i) = PROCESS_READY" n]
  by (auto simp: process_next_runnable_def Let_def split: option.splits if_splits)

lemma dispatch_effect:
  assumes len: "length (g_processes k) = 16" and eq: "process_dispatch_next cur f policy k = (True, f', k')"
  obtains n where "process_next_runnable cur k = Some n" "n < 16" "p_state (g_processes k ! n) = PROCESS_READY"
    "f' = process_load_context (g_processes k ! n) f"
    "g_current_process k' = Some n" "g_process_count k' = g_process_count k" "length (g_processes k') = 16"
    "\<forall>j<16. g_processes k' ! j = (g_processes k ! j)\<lparr>p_state := dispatch_state cur policy n j (g_processes k ! j)\<rparr>"
    "k_vmm k' = k_vmm k" "k_gui k' = k_gui k"
    "p_page_table (g_processes k ! n) \<noteq> 0 \<longrightarrow> k_ttbr0 k' = p_page_table (g_processes k ! n)"
    "policy = PROCESS_DISPATCH_EXIT \<or> policy = PROCESS_DISPATCH_PREEMPT \<and> cur \<noteq> None"
proof -
  have pol: "policy = PROCESS_DISPATCH_EXIT \<or> policy = PROCESS_DISPATCH_PREEMPT \<and> cur \<noteq> None"
    using eq by (auto simp: process_dispatch_next_def split: if_splits)
  then obtain n where n: "process_next_runnable cur k = Some n"
    using eq by (auto simp: process_dispatch_next_def split: if_splits option.splits)
  note nr = process_next_runnable_Some [OF n]
  define k1 where "k1 = (case cur of
       Some c \<Rightarrow> if policy = PROCESS_DISPATCH_PREEMPT \<and> p_state (g_processes k ! c) = PROCESS_RUNNING
                 then set_process c (\<lambda>p. p\<lparr>p_state := PROCESS_READY\<rparr>) k else k
     | None \<Rightarrow> k)"
  define k2 where "k2 = process_set_current (Some n) (set_process n (\<lambda>p. p\<lparr>p_state := PROCESS_RUNNING\<rparr>) k1)"
  have res: "(f', k') = process_activate_context n f k2"
  proof -
    have g: "\<not> (policy \<noteq> PROCESS_DISPATCH_EXIT \<and> policy \<noteq> PROCESS_DISPATCH_PREEMPT)"
      "\<not> (cur = None \<and> policy = PROCESS_DISPATCH_PREEMPT)" using pol by auto
    have "process_dispatch_next cur f policy k = (True, process_activate_context n f k2)"
      unfolding process_dispatch_next_def if_not_P [OF g(1)] if_not_P [OF g(2)] n option.case Let_def k1_def [symmetric] k2_def ..
    then show ?thesis using eq by simp
  qed
  have k1: "length (g_processes k1) = 16" "g_process_count k1 = g_process_count k" "k_vmm k1 = k_vmm k" "k_gui k1 = k_gui k"
    using len by (simp_all add: k1_def set_process_def split: option.splits)
  have p1: "g_processes k1 ! j = (g_processes k ! j)\<lparr>p_state := if cur = Some j \<and> policy = PROCESS_DISPATCH_PREEMPT \<and>
      p_state (g_processes k ! j) = PROCESS_RUNNING then PROCESS_READY else p_state (g_processes k ! j)\<rparr>" if "j < 16" for j
  proof (cases cur)
    case (Some c)
    then show ?thesis using that len by (cases "c = j") (auto simp: k1_def set_process_def)
  qed (simp add: k1_def)
  have p2: "g_processes k2 ! j = (g_processes k ! j)\<lparr>p_state := dispatch_state cur policy n j (g_processes k ! j)\<rparr>" if "j < 16" for j
    using that p1 [OF that] k1(1) nr(1)
    by (cases "j = n") (simp_all add: k2_def process_set_current_def set_process_def dispatch_state_def)
  have k2: "length (g_processes k2) = 16" "g_process_count k2 = g_process_count k" "k_vmm k2 = k_vmm k" "k_gui k2 = k_gui k"
    "g_current_process k2 = Some n"
    using k1 by (simp_all add: k2_def process_set_current_def set_process_def)
  have f': "f' = process_load_context (g_processes k2 ! n) f" and k': "k' = (if p_page_table (g_processes k2 ! n) \<noteq> 0
      then k2\<lparr>k_ttbr0 := p_page_table (g_processes k2 ! n)\<rparr> else k2)"
    using res by (simp_all add: process_activate_context_def Let_def)
  have n2: "g_processes k2 ! n = (g_processes k ! n)\<lparr>p_state := PROCESS_RUNNING\<rparr>"
    using p2 [OF nr(1)] by (simp add: dispatch_state_def)
  show thesis
    by (rule that [OF n nr]) (use k' k2 p2 pol f' n2 in \<open>auto simp: process_load_context_def\<close>)
qed

lemma filter_length_map: "length (filter P xs) = length (filter id (map P xs))"
  by (simp add: filter_map)

lemma process_dispatch_next_ok:
  assumes ok: "table_ok k" and cur: "cur = g_current_process k"
    and exit: "policy = PROCESS_DISPATCH_EXIT \<Longrightarrow> \<forall>i<16. p_state (g_processes k ! i) \<noteq> PROCESS_RUNNING"
    and eq: "process_dispatch_next cur f policy k = (r, f', k')"
  shows "table_ok k' \<and> (r \<longrightarrow> (\<exists>n<16. g_current_process k' = Some n \<and> p_state (g_processes k' ! n) = PROCESS_RUNNING)) \<and>
    (\<not> r \<longrightarrow> f' = f \<and> k' = k)"
proof (cases r)
  case False
  then show ?thesis using eq ok
    by (auto simp: process_dispatch_next_def Let_def split: if_splits option.splits)
next
  case True
  have len: "length (g_processes k) = 16" using ok by (simp add: table_ok_def)
  have eq': "process_dispatch_next cur f policy k = (True, f', k')" using eq True by simp
  from dispatch_effect [OF len eq'] obtain n where n: "n < 16" "p_state (g_processes k ! n) = PROCESS_READY"
    and k': "g_current_process k' = Some n" "g_process_count k' = g_process_count k" "length (g_processes k') = 16"
    and ps: "\<forall>j<16. g_processes k' ! j = (g_processes k ! j)\<lparr>p_state := dispatch_state cur policy n j (g_processes k ! j)\<rparr>"
    and pol: "policy = PROCESS_DISPATCH_EXIT \<or> policy = PROCESS_DISPATCH_PREEMPT \<and> cur \<noteq> None" by metis
  have use: "in_use (g_processes k' ! j) = in_use (g_processes k ! j)" "p_pid (g_processes k' ! j) = p_pid (g_processes k ! j)"
    if "j < 16" for j
    using ps that n(2) by (auto simp: in_use_def dispatch_state_def)
  have "process_ok (g_processes k' ! j)" if j: "j < 16" for j
    using table_ok_slot [OF ok j] use [OF j] ps j by (simp add: process_ok_def region_ok_def regions_def)
  then have "\<forall>p\<in>set (g_processes k'). process_ok p" using k'(3) by (auto simp: in_set_conv_nth)
  moreover have "pids_unique (g_processes k')"
    unfolding pids_unique_def k'(3)
  proof (intro allI impI)
    fix i j assume ij: "i < 16" "j < 16" "in_use (g_processes k' ! i)" "in_use (g_processes k' ! j)"
      "p_pid (g_processes k' ! i) = p_pid (g_processes k' ! j)"
    then show "i = j" using ok len use [OF ij(1)] use [OF ij(2)] unfolding table_ok_def pids_unique_def by metis
  qed
  moreover have "map in_use (g_processes k') = map in_use (g_processes k)"
    using use k'(3) len by (intro nth_equalityI) auto
  then have "length (filter in_use (g_processes k')) = length (filter in_use (g_processes k))"
    unfolding filter_length_map [of in_use "g_processes k'"] filter_length_map [of in_use "g_processes k"] by (rule arg_cong)
  moreover have "n = j" if j: "j < 16" "p_state (g_processes k' ! j) = PROCESS_RUNNING" for j
  proof (rule ccontr)
    assume nj: "n \<noteq> j"
    then have run: "p_state (g_processes k ! j) = PROCESS_RUNNING"
      and not: "\<not> (cur = Some j \<and> policy = PROCESS_DISPATCH_PREEMPT)"
      using j ps by (auto simp: dispatch_state_def split: if_splits)
    have "g_current_process k = Some j" using run ok j(1) unfolding table_ok_def current_ok_def by metis
    then show False using not pol exit run j(1) cur by auto
  qed
  then have "current_ok (g_processes k') (g_current_process k')"
    using k'(1,3) n use [OF n(1)] unfolding current_ok_def by (auto simp: in_use_def)
  ultimately show ?thesis using k' n ps ok True by (auto simp: table_ok_def dispatch_state_def)
qed

section \<open>Runs of the process table\<close>

lemma set_process_ok:
  assumes ok: "table_ok k" and i: "i < 16" and "in_use (g_processes k ! i)" and "process_ok (f (g_processes k ! i))"
    and "p_pid (f (g_processes k ! i)) = p_pid (g_processes k ! i)" and "p_state (f (g_processes k ! i)) = p_state (g_processes k ! i)"
  shows "table_ok (set_process i f k)"
proof -
  have run: "p_state (f (g_processes k ! i)) = PROCESS_RUNNING \<longrightarrow> g_current_process k = Some i"
    using assms(6) ok i unfolding table_ok_def current_ok_def by (metis (no_types))
  show ?thesis
    by (rule table_ok_set [OF ok i assms(3,4) _ assms(5) run]) (use assms(3,6) in \<open>simp_all add: in_use_def set_process_def\<close>)
qed

text \<open>The operations of the process table as the kernel uses them: the system calls and \<open>app_spawn_vfs\<close> (allocate, hold back
  as blocked, set up, make ready), \<open>panel_boot_run\<close> (start the first process), the trap handlers (save the context, dispatch,
  exit), and the reclaiming of zombies.\<close>

inductive process_step :: "kernel \<Rightarrow> kernel \<Rightarrow> bool" where
  alloc: "process_alloc pid name k = (r, k') \<Longrightarrow> process_step k k'"
| release: "i < PROCESS_MAX_PROCESSES \<Longrightarrow> process_step k (process_release i k)"
| wait: "process_wait_zombie pid k = (r, k') \<Longrightarrow> process_step k k'"
| kill: "process_kill pid code k = (r, k') \<Longrightarrow> process_step k k'"
| exit: "process_current k = Some i \<Longrightarrow> process_step k (process_mark_exited i code k)"
| preempt: "process_dispatch_next (process_current k) f PROCESS_DISPATCH_PREEMPT k = (r, f', k') \<Longrightarrow> process_step k k'"
| dispatch_exit: "process_current k = Some i \<Longrightarrow> p_state (g_processes k ! i) = PROCESS_ZOMBIE \<Longrightarrow>
    process_dispatch_next (Some i) f PROCESS_DISPATCH_EXIT k = (r, f', k') \<Longrightarrow> process_step k k'"
| save: "process_current k = Some i \<Longrightarrow> process_step k (set_process i (process_save_context regs pc ps sp) k)"
| hold: "process_find pid k = Some i \<Longrightarrow> p_state (g_processes k ! i) = PROCESS_READY \<Longrightarrow>
    process_step k (set_process i (\<lambda>p. p\<lparr>p_state := PROCESS_BLOCKED\<rparr>) k)"
| ready: "process_find pid k = Some i \<Longrightarrow> p_state (g_processes k ! i) = PROCESS_BLOCKED \<Longrightarrow>
    process_step k (set_process i (\<lambda>p. p\<lparr>p_state := PROCESS_READY\<rparr>) k)"
| region: "process_find pid k = Some i \<Longrightarrow> region_step (g_processes k ! i) p \<Longrightarrow>
    process_step k (set_process i (\<lambda>_. p) k)"
| entry: "process_find pid k = Some i \<Longrightarrow> process_step k (set_process i (process_set_entry pc sp ps) k)"
| page_table: "process_find pid k = Some i \<Longrightarrow> process_step k (set_process i (process_set_page_table t) k)"
| start: "process_find pid k = Some i \<Longrightarrow> p_state (g_processes k ! i) = PROCESS_READY \<Longrightarrow> process_current k = None \<Longrightarrow>
    process_step k (process_set_current (Some i) (set_process i (\<lambda>p. p\<lparr>p_state := PROCESS_RUNNING\<rparr>) k))"
| reclaim: "process_step k (process_reclaim_zombies k)"

lemma region_step_frame:
  assumes "region_step p p'"
  shows "p_pid p' = p_pid p" "p_state p' = p_state p" "p_regs p' = p_regs p"
  using assms
  by (cases; simp add: process_add_user_region_def process_alloc_user_region_def process_set_user_region_mapping_def
      process_remove_user_region_def process_remove_user_region_info_def Let_def case_prod_beta
      split: option.splits bool.splits prod.splits)+

lemma reclaim_ok:
  assumes "table_ok k" and "set is \<subseteq> {..<16}"
  shows "table_ok (fold (\<lambda>i k. if p_state (g_processes k ! i) = PROCESS_ZOMBIE then process_release i k else k) is k)"
  using assms
proof (induction "is" arbitrary: k)
  case (Cons i js)
  then have "table_ok (if p_state (g_processes k ! i) = PROCESS_ZOMBIE then process_release i k else k)"
    using process_release_effect [of k i] by simp
  then show ?case using Cons by simp
qed simp

lemma process_start_ok:
  assumes ok: "table_ok k" and i: "i < 16" "p_state (g_processes k ! i) = PROCESS_READY" and none: "g_current_process k = None"
  shows "table_ok (process_set_current (Some i) (set_process i (\<lambda>p. p\<lparr>p_state := PROCESS_RUNNING\<rparr>) k))"
proof (rule table_ok_update [OF ok i(1), of "(g_processes k ! i)\<lparr>p_state := PROCESS_RUNNING\<rparr>"])
  let ?p = "(g_processes k ! i)\<lparr>p_state := PROCESS_RUNNING\<rparr>"
  have use: "in_use (g_processes k ! i)" using i by (simp add: in_use_def)
  show "process_ok ?p" using process_ok_state(1) [OF table_ok_slot [OF ok i(1)] use] by simp
  show "p_pid (g_processes k ! j) \<noteq> p_pid ?p" if "j < 16" "j \<noteq> i" "in_use (g_processes k ! j)" for j
    using other_pid [OF ok i(1) use _ that, of ?p] by simp
  have "p_state (g_processes k ! j) \<noteq> PROCESS_RUNNING" if "j < 16" for j
    using ok none that unfolding table_ok_def current_ok_def by force
  then show "current_ok ((g_processes k)[i := ?p]) (g_current_process (process_set_current (Some i)
      (set_process i (\<lambda>p. p\<lparr>p_state := PROCESS_RUNNING\<rparr>) k)))"
    using ok i(1) by (auto simp: table_ok_def current_ok_def process_set_current_def in_use_def nth_list_update)
qed (use i in \<open>simp_all add: process_set_current_def set_process_def in_use_def\<close>)

lemma current_slot:
  assumes "table_ok k" and "process_current k = Some i"
  shows "i < 16" "in_use (g_processes k ! i)"
  using assms by (simp_all add: table_ok_def current_ok_def process_current_def)

lemma process_wait_ok: "table_ok k \<Longrightarrow> table_ok (snd (process_wait_zombie pid k))"
  using process_release_effect process_find_Some(1) by (auto simp: process_wait_zombie_def split: option.splits)

lemma process_kill_ok: "table_ok k \<Longrightarrow> table_ok (snd (process_kill pid code k))"
  using process_mark_exited_ok process_find_Some(1,2) by (auto simp: process_kill_def split: option.splits)

lemma process_step_ok:
  assumes "process_step k k'" and ok: "table_ok k"
  shows "table_ok k'"
  using assms(1)
proof cases
  case (alloc pid name r)
  then show ?thesis using process_alloc_effect [OF ok] by simp
next
  case (release i)
  then show ?thesis using process_release_effect [OF ok] by simp
next
  case (wait pid r)
  then show ?thesis using process_wait_ok [OF ok, of pid] by simp
next
  case (kill pid code r)
  then show ?thesis using process_kill_ok [OF ok, of pid code] by simp
next
  case (exit i code)
  then show ?thesis using process_mark_exited_ok [OF ok] current_slot [OF ok] by simp
next
  case (preempt f r f')
  then show ?thesis using process_dispatch_next_ok [OF ok _ _ preempt] by (simp add: process_current_def)
next
  case (dispatch_exit i f r f')
  have "p_state (g_processes k ! j) \<noteq> PROCESS_RUNNING" if "j < 16" for j
  proof
    assume "p_state (g_processes k ! j) = PROCESS_RUNNING"
    then have "g_current_process k = Some j" using ok that unfolding table_ok_def current_ok_def by metis
    then show False using dispatch_exit(1,2) \<open>p_state (g_processes k ! j) = PROCESS_RUNNING\<close> by (simp add: process_current_def)
  qed
  then show ?thesis using process_dispatch_next_ok [OF ok _ _ dispatch_exit(3)] dispatch_exit(1) by (simp add: process_current_def)
next
  case (save i regs pc ps sp)
  note i = current_slot [OF ok save(2)]
  show ?thesis unfolding save(1)
    by (rule set_process_ok [OF ok i]) (use table_ok_slot [OF ok i(1)] in
      \<open>simp_all add: process_save_context_def process_ok_def in_use_def region_ok_def regions_def\<close>)
next
  case (hold pid i)
  note i = process_find_Some [OF hold(2)]
  show ?thesis
    by (rule table_ok_set [OF ok i(1,2) process_ok_state(1) [OF table_ok_slot [OF ok i(1)] i(2)], of PROCESS_BLOCKED])
      (simp_all add: hold(1) set_process_def in_use_def)
next
  case (ready pid i)
  note i = process_find_Some [OF ready(2)]
  show ?thesis
    by (rule table_ok_set [OF ok i(1,2) process_ok_state(1) [OF table_ok_slot [OF ok i(1)] i(2)], of PROCESS_READY])
      (simp_all add: ready(1) set_process_def in_use_def)
next
  case (region pid i p)
  note i = process_find_Some [OF region(2)]
  note fr = region_step_frame [OF region(3)]
  have "process_ok p" using table_ok_slot [OF ok i(1)] region_step_ok [OF region(3)] fr i(2)
    by (simp add: process_ok_def in_use_def)
  then show ?thesis unfolding region(1) by (intro set_process_ok [OF ok i(1,2)]) (simp_all add: fr)
next
  case (entry pid i pc sp ps)
  note i = process_find_Some [OF entry(2)]
  show ?thesis unfolding entry(1)
    by (rule set_process_ok [OF ok i(1,2)]) (use table_ok_slot [OF ok i(1)] in
      \<open>simp_all add: process_set_entry_def process_ok_def in_use_def region_ok_def regions_def\<close>)
next
  case (page_table pid i t)
  note i = process_find_Some [OF page_table(2)]
  show ?thesis unfolding page_table(1)
    by (rule set_process_ok [OF ok i(1,2)]) (use table_ok_slot [OF ok i(1)] i(2) in
      \<open>simp_all add: process_set_page_table_def process_ok_def in_use_def region_ok_def regions_def\<close>)
next
  case (start pid i)
  then show ?thesis using process_start_ok [OF ok process_find_Some(1) [OF start(2)] start(3)]
    by (simp add: process_current_def)
next
  case reclaim
  have "set [0..<16] \<subseteq> {..<16::nat}" by auto
  from reclaim_ok [OF ok this] show ?thesis unfolding reclaim process_reclaim_zombies_def .
qed

lemma process_table_init_ok:
  assumes "length (g_processes k) = PROCESS_MAX_PROCESSES"
  shows "table_ok (process_table_init k)"
  using assms by (auto simp: table_ok_def process_table_init_def pids_unique_def current_ok_def filter_empty_conv)

text \<open>C1 Invariant of the process table. From \<open>process_table_init\<close> on, in every state the kernel reaches: used slots have
  distinct non-zero process ids, \<open>process_count\<close> is the number of used slots, the current process is a used slot, at most
  one process is running and it is the current one, an unused slot owns neither a page table nor a
  region, and the regions of every process are disjoint.\<close>

theorem process_table_invariant:
  assumes "length (g_processes k0) = PROCESS_MAX_PROCESSES" and "process_step\<^sup>*\<^sup>* (process_table_init k0) k"
  shows "table_ok k"
  using assms(2) process_table_init_ok [OF assms(1)]
  by (induction rule: rtranclp_induct) (auto intro: process_step_ok)

definition kernel_demo :: kernel where
  "kernel_demo = process_table_init \<lparr>g_processes = replicate 16 process_demo, g_current_process = None, g_process_count = 0,
     k_vmm = boot_space, k_gui = desktop_demo, k_ttbr0 = 0\<rparr>"

lemma kernel_demo_ok: "table_ok kernel_demo"
  unfolding kernel_demo_def by (rule process_table_init_ok) simp

lemma kernel_demo_slot: "i < 16 \<Longrightarrow> \<not> in_use (g_processes kernel_demo ! i)"
  by (simp add: kernel_demo_def process_table_init_def)

definition kernel_one :: kernel where
  "kernel_one = snd (process_alloc 7 (Some ''shell'') kernel_demo)"

lemma kernel_one_alloc:
  "process_alloc 7 (Some ''shell'') kernel_demo = (Some 0, kernel_one)" "table_ok kernel_one"
  "p_state (g_processes kernel_one ! 0) = PROCESS_READY" "p_pid (g_processes kernel_one ! 0) = 7"
  "length (g_processes kernel_one) = 16" "g_current_process kernel_one = None" "k_gui kernel_one = desktop_demo"
proof -
  have nf: "process_find 7 kernel_demo = None"
    using kernel_demo_slot by (auto simp: process_find_def first_index_None_iff in_use_def)
  have f: "first_index 16 (\<lambda>i. p_state (g_processes kernel_demo ! i) = PROCESS_UNUSED) = Some 0"
    using kernel_demo_slot by (auto simp: first_index_Some_iff in_use_def)
  show eq: "process_alloc 7 (Some ''shell'') kernel_demo = (Some 0, kernel_one)"
    using nf f unfolding kernel_one_def by (simp add: process_alloc_def)
  note e = process_alloc_effect [OF kernel_demo_ok eq]
  then show "table_ok kernel_one" "p_state (g_processes kernel_one ! 0) = PROCESS_READY" "p_pid (g_processes kernel_one ! 0) = 7"
    "length (g_processes kernel_one) = 16" "g_current_process kernel_one = None" "k_gui kernel_one = desktop_demo"
    using kernel_demo_ok by (auto simp: table_ok_def) (simp_all add: kernel_demo_def process_table_init_def)
qed

theorem process_table_invariant_witness: "table_ok (process_release 0 kernel_one)"
proof -
  have "process_step kernel_demo kernel_one" "process_step kernel_one (process_release 0 kernel_one)"
    by (rule process_step.alloc [OF kernel_one_alloc(1)], rule process_step.release, simp)
  then have "process_step\<^sup>*\<^sup>* kernel_demo (process_release 0 kernel_one)" by simp
  then show ?thesis unfolding kernel_demo_def by (intro process_table_invariant) simp_all
qed

text \<open>C2 Releasing a process returns its memory and nothing else. The pages of its owned regions and the pages of its
  page tables, exactly those, become available; memory contents and the translations of every other address
  space are unchanged, the slot is free, and every other slot is as before.\<close>

theorem process_release_returns_memory:
  assumes ok: "table_ok k" and i: "i < PROCESS_MAX_PROCESSES" and use: "in_use (g_processes k ! i)"
    and vm: "vm_ok R (k_vmm k)" and pt: "p_page_table (g_processes k ! i) \<in> insert 0 R"
    and own: "owned_pages (g_processes k ! i) \<subseteq> managed_pages (vpmm (k_vmm k)) - tables R (k_vmm k)"
  shows "let p = g_processes k ! i; k' = process_release i k in
    avail_pages (vpmm (k_vmm k')) = avail_pages (vpmm (k_vmm k)) \<union> owned_pages p \<union>
      (if p_page_table p = 0 then {} else reached (ram (k_vmm k)) (p_page_table p) 3) \<and>
    ram (k_vmm k') = ram (k_vmm k) \<and> vm_ok (R - {p_page_table p}) (k_vmm k') \<and>
    (\<forall>r\<in>R. \<forall>v. translation (k_vmm k') r v = translation (k_vmm k) r v) \<and>
    \<not> in_use (g_processes k' ! i) \<and> (\<forall>j<PROCESS_MAX_PROCESSES. j \<noteq> i \<longrightarrow> g_processes k' ! j = g_processes k ! j)"
proof -
  let ?p = "g_processes k ! i"
  obtain p' s' where f: "process_free_resources ?p (k_vmm k) = (p', s')" by force
  have reg: "region_ok ?p" using table_ok_slot [OF ok i] by (simp add: process_ok_def)
  have "p_page_table ?p \<noteq> 0 \<Longrightarrow> p_page_table ?p \<in> R" using pt by simp
  note e = process_free_resources_effect [OF vm reg own this f]
  have "k_vmm (process_release i k) = s'" using process_release_effect [OF ok i] use f by simp
  then show ?thesis using e process_release_effect [OF ok i] by (simp add: Let_def frees_def Un_assoc)
qed

definition owned_region :: process_user_region where
  "owned_region = \<lparr>ur_start = 0x400000, ur_end = 0x401000, ur_paddr = 0x40001000, ur_flags = 1\<rparr>"

definition kernel_mem :: kernel where
  "kernel_mem = set_process 0 (\<lambda>p. p\<lparr>p_page_table := boot_pgd, p_user_regions := owned_region # replicate 7 region_clear,
     p_user_region_count := 1\<rparr>) kernel_one"

lemma kernel_mem_slot:
  "regions (g_processes kernel_mem ! 0) = [owned_region]" "p_page_table (g_processes kernel_mem ! 0) = boot_pgd"
  "in_use (g_processes kernel_mem ! 0)" "k_vmm kernel_mem = boot_space" "table_ok kernel_mem"
proof -
  let ?f = "\<lambda>p. p\<lparr>p_page_table := boot_pgd, p_user_regions := owned_region # replicate 7 region_clear, p_user_region_count := 1\<rparr>"
  have use: "in_use (g_processes kernel_one ! 0)" using kernel_one_alloc(3) by (simp add: in_use_def)
  show "regions (g_processes kernel_mem ! 0) = [owned_region]" "p_page_table (g_processes kernel_mem ! 0) = boot_pgd"
    "in_use (g_processes kernel_mem ! 0)"
    using use kernel_one_alloc(5) by (simp_all add: kernel_mem_def set_process_def regions_def in_use_def)
  show "k_vmm kernel_mem = boot_space"
    using process_alloc_effect [OF kernel_demo_ok kernel_one_alloc(1)]
    by (simp add: kernel_mem_def set_process_def kernel_demo_def process_table_init_def)
  show "table_ok kernel_mem" unfolding kernel_mem_def
    by (rule set_process_ok [OF kernel_one_alloc(2) _ use])
      (use table_ok_slot [OF kernel_one_alloc(2), of 0] use in
        \<open>simp_all add: process_ok_def in_use_def region_ok_def regions_def owned_region_def\<close>)
qed

lemma boot_pgd_value: "boot_pgd = 0x40000000"
proof -
  have "fst (pmm_alloc_page (pmm_init 0x40000000 0x10000)) = 0x40000000" by code_simp
  then show ?thesis by (simp add: boot_pgd_def vmm_new_table_def vmm_boot_def case_prod_beta Let_def)
qed

theorem process_release_returns_memory_witness:
  "avail_pages (vpmm (k_vmm (process_release 0 kernel_mem))) = avail_pages (vpmm vmm_boot) \<union> {0x40001000} \<union> {boot_pgd}"
proof -
  have own: "owned_pages (g_processes kernel_mem ! 0) = {0x40001000}"
    by (simp add: owned_pages_def kernel_mem_slot(1) region_pages_def owned_region_def lessThan_Suc)
  have reach: "reached (ram boot_space) boot_pgd 3 = {boot_pgd}" "managed_pages (vpmm boot_space) = managed_pages (vpmm vmm_boot)"
    using vmm_new_table_effect [OF vmm_boot_ok boot_space_ok(3)] boot_space_ok(1) by simp_all
  have "(0x40001000 :: u64) \<in> managed_pages (vpmm vmm_boot)"
    unfolding managed_pages_def by (rule image_eqI [of _ _ 1]) (simp_all add: page_addr_def pmm_boot)
  then have own': "owned_pages (g_processes kernel_mem ! 0) \<subseteq> managed_pages (vpmm (k_vmm kernel_mem)) - tables {boot_pgd} (k_vmm kernel_mem)"
    unfolding own kernel_mem_slot(4) reach(2) tables_def UN_simps using reach(1) by (simp add: boot_pgd_value)
  have "p_page_table (g_processes kernel_mem ! 0) \<in> insert 0 {boot_pgd}" by (simp add: kernel_mem_slot(2))
  from process_release_returns_memory [OF kernel_mem_slot(5) _ kernel_mem_slot(3) _ this own'] boot_space_ok(2)
  show ?thesis
    using boot_space_ok(1,5) by (auto simp: Let_def kernel_mem_slot(2,4) own reach(1))
qed

section \<open>Fairness\<close>

text \<open>A preemption: the timer or a yield dispatches from the current process. The state has the trap frame beside the kernel.\<close>

definition process_rotate :: "exception_frame \<times> kernel \<Rightarrow> exception_frame \<times> kernel" where
  "process_rotate x = snd (process_dispatch_next (g_current_process (snd x)) (fst x) PROCESS_DISPATCH_PREEMPT (snd x))"

definition running_ok :: "kernel \<Rightarrow> bool" where
  "running_ok k \<longleftrightarrow> table_ok k \<and> (\<forall>c. g_current_process k = Some c \<longrightarrow> p_state (g_processes k ! c) = PROCESS_RUNNING)"

definition is_ready :: "kernel \<Rightarrow> nat \<Rightarrow> bool" where
  "is_ready k i \<longleftrightarrow> p_state (g_processes k ! i) = PROCESS_READY"

lemma rotate_next:
  assumes ok: "running_ok k" and c: "g_current_process k = Some c" and i: "i < 16" "is_ready k i"
    and rot: "process_rotate (f, k) = (f', k')"
  shows "\<exists>n<16. g_current_process k' = Some n \<and> is_ready k n \<and> (\<forall>j<16. is_ready k j \<longrightarrow> cdist 16 c n \<le> cdist 16 c j) \<and>
     (\<forall>j<16. is_ready k j \<longrightarrow> j \<noteq> n \<longrightarrow> is_ready k' j)"
proof -
  have tab: "table_ok k" and len: "length (g_processes k) = 16" and c16: "c < 16" and run: "p_state (g_processes k ! c) = PROCESS_RUNNING"
    using ok c by (auto simp: running_ok_def table_ok_def current_ok_def)
  have scan: "process_next_runnable (Some c) k = cyclic_scan 16 (c + 1) 15 (is_ready k)"
    using c16 by (simp add: process_next_runnable_def process_in_table_def is_ready_def [abs_def])
  have "i \<noteq> c" using i(2) run by (auto simp: is_ready_def)
  then have "cdist 16 c i < 15" using cdist_other [OF c16 i(1)] by simp
  then have "process_next_runnable (Some c) k \<noteq> None" using cyclic_scan_None [OF c16 _ i(1)] i(2) scan by metis
  then have "fst (process_dispatch_next (Some c) f PROCESS_DISPATCH_PREEMPT k)"
    by (auto simp: process_dispatch_next_def Let_def)
  moreover have "snd (process_dispatch_next (Some c) f PROCESS_DISPATCH_PREEMPT k) = (f', k')"
    using rot c by (simp add: process_rotate_def)
  ultimately have d: "process_dispatch_next (Some c) f PROCESS_DISPATCH_PREEMPT k = (True, f', k')"
    by (simp add: prod_eq_iff)
  from dispatch_effect [OF len d] obtain n where n: "process_next_runnable (Some c) k = Some n" "n < 16"
    "p_state (g_processes k ! n) = PROCESS_READY" "g_current_process k' = Some n"
    and ps: "\<forall>j<16. g_processes k' ! j = (g_processes k ! j)\<lparr>p_state := dispatch_state (Some c) PROCESS_DISPATCH_PREEMPT n j (g_processes k ! j)\<rparr>"
    by metis
  have "cdist 16 c n \<le> cdist 16 c j" if "j < 16" "is_ready k j" for j
    using cyclic_scan_nearest [OF c16 _ n(1) [unfolded scan] that] by simp
  moreover have "is_ready k' j" if "j < 16" "is_ready k j" "j \<noteq> n" for j
    using that ps by (simp add: is_ready_def dispatch_state_def)
  ultimately show ?thesis using n by (auto simp: is_ready_def)
qed

lemma rotate_running_ok:
  assumes ok: "running_ok k" and rot: "process_rotate (f, k) = (f', k')"
  shows "running_ok k'"
proof -
  obtain r where d: "process_dispatch_next (g_current_process k) f PROCESS_DISPATCH_PREEMPT k = (r, f', k')"
    using rot by (metis fst_conv process_rotate_def prod.collapse snd_conv)
  have "table_ok k" using ok by (simp add: running_ok_def)
  from process_dispatch_next_ok [OF this refl _ d] ok show ?thesis by (cases r) (auto simp: running_ok_def)
qed

interpretation pr: round_robin PROCESS_MAX_PROCESSES "\<lambda>x. running_ok (snd x)" "\<lambda>x. g_current_process (snd x)" "\<lambda>x. is_ready (snd x)" process_rotate
proof
  fix x :: "exception_frame \<times> kernel" and c
  assume ok: "running_ok (snd x)" and c: "g_current_process (snd x) = Some c"
  then show "c < 16 \<and> \<not> is_ready (snd x) c" by (auto simp: running_ok_def table_ok_def current_ok_def is_ready_def)
  fix i assume "i < 16" "is_ready (snd x) i"
  then show "\<exists>n<16. g_current_process (snd (process_rotate x)) = Some n \<and> is_ready (snd x) n \<and>
      (\<forall>j<16. is_ready (snd x) j \<longrightarrow> cdist 16 c n \<le> cdist 16 c j) \<and>
      (\<forall>j<16. is_ready (snd x) j \<longrightarrow> j \<noteq> n \<longrightarrow> is_ready (snd (process_rotate x)) j)"
    using rotate_next [OF ok c, of i "fst x"] by (metis prod.collapse)
next
  fix x :: "exception_frame \<times> kernel"
  assume "running_ok (snd x)"
  then show "running_ok (snd (process_rotate x))" using rotate_running_ok [of "snd x" "fst x"] by (metis prod.collapse)
qed

text \<open>C5 No process starves. When a process runs and preemptions follow one another, every process that is ready gets
  the processor within fifteen dispatches.\<close>

theorem process_dispatch_fair:
  assumes "running_ok k" and "g_current_process k = Some c" and "i < PROCESS_MAX_PROCESSES"
    and "p_state (g_processes k ! i) = PROCESS_READY"
  shows "\<exists>n<PROCESS_MAX_PROCESSES. g_current_process (snd ((process_rotate ^^ n) (f, k))) = Some i"
  using pr.served_in_one_round [of "(f, k)" c i] assms by (simp add: is_ready_def)

definition kernel_two :: kernel where
  "kernel_two = snd (process_alloc 9 (Some ''clock'') (process_set_current (Some 0)
     (set_process 0 (\<lambda>p. p\<lparr>p_state := PROCESS_RUNNING\<rparr>) kernel_one)))"

lemma kernel_two_ok:
  "running_ok kernel_two" "g_current_process kernel_two = Some 0" "p_state (g_processes kernel_two ! 1) = PROCESS_READY"
  "p_pid (g_processes kernel_two ! 1) = 9" "k_gui kernel_two = desktop_demo" "table_ok kernel_two"
  "p_pid (g_processes kernel_two ! 0) = 7" "\<forall>j<16. 1 < j \<longrightarrow> p_state (g_processes kernel_two ! j) = PROCESS_UNUSED"
proof -
  let ?k = "process_set_current (Some 0) (set_process 0 (\<lambda>p. p\<lparr>p_state := PROCESS_RUNNING\<rparr>) kernel_one)"
  have ok: "table_ok ?k" by (rule process_start_ok [OF kernel_one_alloc(2)]) (simp_all add: kernel_one_alloc)
  have k: "g_processes ?k = (g_processes kernel_one)[0 := (g_processes kernel_one ! 0)\<lparr>p_state := PROCESS_RUNNING\<rparr>]"
    "g_current_process ?k = Some 0" "k_gui ?k = desktop_demo"
    by (simp_all add: process_set_current_def set_process_def kernel_one_alloc)
  have unused: "\<not> in_use (g_processes ?k ! j)" if "0 < j" "j < 16" for j
    using that process_alloc_effect [OF kernel_demo_ok kernel_one_alloc(1)] kernel_demo_slot [OF that(2)] by (simp add: k)
  have zero: "p_pid (g_processes ?k ! 0) = 7" "p_state (g_processes ?k ! 0) = PROCESS_RUNNING"
    using kernel_one_alloc(4,5) by (simp_all add: k)
  have nf: "process_find 9 ?k = None"
    unfolding process_find_def
  proof (simp add: first_index_None_iff, intro allI impI)
    fix j :: nat assume "j < 16"
    then show "p_state (g_processes ?k ! j) = PROCESS_UNUSED \<or> p_pid (g_processes ?k ! j) \<noteq> 9"
      using unused [of j] zero(1) by (cases "j = 0") (simp_all add: in_use_def)
  qed
  have f: "first_index 16 (\<lambda>i. p_state (g_processes ?k ! i) = PROCESS_UNUSED) = Some 1"
    using unused [of 1] zero(2) by (simp add: first_index_Some_iff in_use_def)
  have eq: "process_alloc 9 (Some ''clock'') ?k = (Some 1, kernel_two)"
    using nf f unfolding kernel_two_def by (simp add: process_alloc_def)
  note e = process_alloc_effect [OF ok eq, unfolded option.case]
  have len: "length (g_processes ?k) = 16" using ok by (simp add: table_ok_def)
  show two: "g_current_process kernel_two = Some 0" "p_state (g_processes kernel_two ! 1) = PROCESS_READY"
    "p_pid (g_processes kernel_two ! 1) = 9" "k_gui kernel_two = desktop_demo" "table_ok kernel_two"
    using e len k by simp_all
  show "\<forall>j<16. 1 < j \<longrightarrow> p_state (g_processes kernel_two ! j) = PROCESS_UNUSED" using e len unused by (simp add: in_use_def)
  have "g_processes kernel_two ! 0 = g_processes ?k ! 0" using e len by simp
  then show "running_ok kernel_two" "p_pid (g_processes kernel_two ! 0) = 7" using two zero by (simp_all add: running_ok_def)
qed

definition frame_demo :: exception_frame where
  "frame_demo = \<lparr>fr_x = replicate 31 5, fr_elr = 0x400010, fr_spsr = 0, fr_sp_el0 = 0x7000\<rparr>"

theorem process_dispatch_fair_witness:
  "\<exists>n<16. g_current_process (snd ((process_rotate ^^ n) (frame_demo, kernel_two))) = Some 1"
  using process_dispatch_fair [OF kernel_two_ok(1,2), of 1 frame_demo] kernel_two_ok(3) by simp

section \<open>Contexts\<close>

text \<open>The saved context of a process, and the steps of the kernel in which a process neither runs nor changes hands.\<close>

definition context_of :: "process \<Rightarrow> u64 list \<times> u64 \<times> u64 \<times> u64" where
  "context_of p = (p_regs p, p_pc p, p_pstate p, p_sp p)"

lemma context_of_state [simp]: "context_of (p\<lparr>p_state := st\<rparr>) = context_of p"
  by (simp add: context_of_def)

inductive elsewhere :: "nat \<Rightarrow> kernel \<Rightarrow> kernel \<Rightarrow> bool" for i where
  dispatch: "process_dispatch_next cur g policy k = (True, g', k') \<Longrightarrow> g_current_process k' \<noteq> Some i \<Longrightarrow> elsewhere i k k'"
| save: "j \<noteq> i \<Longrightarrow> elsewhere i k (set_process j (process_save_context regs pc ps sp) k)"
| exit: "j \<noteq> i \<Longrightarrow> elsewhere i k (process_mark_exited j code k)"
| release: "j \<noteq> i \<Longrightarrow> elsewhere i k (process_release j k)"
| alloc: "process_alloc pid name k = (r, k') \<Longrightarrow> r \<noteq> Some i \<Longrightarrow> elsewhere i k k'"

lemma save_load:
  assumes "length (fr_x f) = 31" and "length (p_regs p) = 31" and "length (fr_x g) = 31"
    and "context_of q = context_of (process_save_context (fr_x f) (fr_elr f) (fr_spsr f) (fr_sp_el0 f) p)"
  shows "process_load_context q g = f"
  using assms by (cases f) (simp add: process_load_context_def process_save_context_def context_of_def copy_loop_eq)

lemma elsewhere_frame:
  assumes "elsewhere i k k'" and len: "length (g_processes k) = 16" and i: "i < 16"
  shows "length (g_processes k') = 16 \<and> context_of (g_processes k' ! i) = context_of (g_processes k ! i)"
  using assms(1)
proof cases
  case (dispatch cur g policy g')
  then show ?thesis using dispatch_effect [OF len dispatch(1)] i by (metis context_of_state)
next
  case (alloc pid name r)
  show ?thesis
  proof (cases r)
    case None
    then have "k' = k" using alloc(1) by (auto simp: process_alloc_def Let_def split: option.splits if_splits)
    then show ?thesis using len by simp
  next
    case (Some j)
    then have "g_processes k' = (g_processes k)[j := process_init pid name (g_processes k ! j)]"
      using alloc(1) by (auto simp: process_alloc_def set_process_def Let_def split: option.splits if_splits)
    then show ?thesis using len alloc(2) Some by simp
  qed
qed (use len in \<open>auto simp: process_release_def process_mark_exited_def set_process_def Let_def split: prod.split\<close>)

lemma elsewhere_run_frame:
  assumes "(elsewhere i)\<^sup>*\<^sup>* k k'" and "length (g_processes k) = 16" and "i < 16"
  shows "length (g_processes k') = 16 \<and> context_of (g_processes k' ! i) = context_of (g_processes k ! i)"
  using assms by (induction rule: rtranclp_induct) (use elsewhere_frame in \<open>simp, metis\<close>)

text \<open>C4 A preempted process resumes where it was interrupted. Its context is saved from the trap frame; then other processes are
  dispatched, have their own contexts saved, exit, are released or allocated, in any order and number; the dispatch
  that selects the process again restores the whole frame as it was at the interrupt: the 31 registers, the return address,
  the status and the stack pointer. A dispatch that selects another process leaves the saved context alone, and the selected
  process was ready and gets its own page table.\<close>

theorem process_context_switch:
  assumes "length (g_processes k) = PROCESS_MAX_PROCESSES" and "i < PROCESS_MAX_PROCESSES"
    and "length (fr_x f) = 31" and "length (fr_x g) = 31" and "length (p_regs (g_processes k ! i)) = 31"
    and "(elsewhere i)\<^sup>*\<^sup>* (set_process i (process_save_context (fr_x f) (fr_elr f) (fr_spsr f) (fr_sp_el0 f)) k) k1"
    and "process_dispatch_next cur g policy k1 = (True, g', k')"
  shows "\<exists>n<PROCESS_MAX_PROCESSES. g_current_process k' = Some n \<and> p_state (g_processes k1 ! n) = PROCESS_READY \<and>
      (p_page_table (g_processes k1 ! n) \<noteq> 0 \<longrightarrow> k_ttbr0 k' = p_page_table (g_processes k1 ! n)) \<and>
      (n = i \<longrightarrow> g' = f) \<and> context_of (g_processes k' ! i) = context_of (g_processes k1 ! i)"
proof -
  let ?save = "process_save_context (fr_x f) (fr_elr f) (fr_spsr f) (fr_sp_el0 f)"
  have k1: "length (g_processes k1) = 16" "context_of (g_processes k1 ! i) = context_of (?save (g_processes k ! i))"
    using elsewhere_run_frame [OF assms(6)] assms(1,2) by (simp_all add: set_process_def)
  from dispatch_effect [OF k1(1) assms(7)] obtain n where n: "n < 16" "p_state (g_processes k1 ! n) = PROCESS_READY"
    "g' = process_load_context (g_processes k1 ! n) g" "g_current_process k' = Some n"
    "p_page_table (g_processes k1 ! n) \<noteq> 0 \<longrightarrow> k_ttbr0 k' = p_page_table (g_processes k1 ! n)"
    and ps: "\<forall>j<16. g_processes k' ! j = (g_processes k1 ! j)\<lparr>p_state := dispatch_state cur policy n j (g_processes k1 ! j)\<rparr>"
    by metis
  have "g' = f" if "n = i" using save_load [OF assms(3,5,4) k1(2)] n(3) that by simp
  moreover have "context_of (g_processes k' ! i) = context_of (g_processes k1 ! i)" using ps assms(2) by simp
  ultimately show ?thesis using n by (intro exI [of _ n]) simp
qed

definition kernel_saved :: kernel where
  "kernel_saved = set_process 0 (process_save_context (fr_x frame_demo) (fr_elr frame_demo) (fr_spsr frame_demo) (fr_sp_el0 frame_demo)) kernel_two"

lemma kernel_saved_states:
  "length (g_processes kernel_saved) = 16" "p_state (g_processes kernel_saved ! 0) = PROCESS_RUNNING"
  "p_state (g_processes kernel_saved ! 1) = PROCESS_READY" "\<And>j. j < 16 \<Longrightarrow> 1 < j \<Longrightarrow> p_state (g_processes kernel_saved ! j) = PROCESS_UNUSED"
proof -
  have len: "length (g_processes kernel_two) = 16" using kernel_two_ok(6) by (simp add: table_ok_def)
  then show "length (g_processes kernel_saved) = 16" "p_state (g_processes kernel_saved ! 0) = PROCESS_RUNNING"
    "p_state (g_processes kernel_saved ! 1) = PROCESS_READY" "\<And>j. j < 16 \<Longrightarrow> 1 < j \<Longrightarrow> p_state (g_processes kernel_saved ! j) = PROCESS_UNUSED"
    using kernel_two_ok by (simp_all add: kernel_saved_def set_process_def process_save_context_def running_ok_def)
qed

lemma dispatch_preempt:
  assumes "process_next_runnable (Some c) k = Some n" and "length (g_processes k) = 16"
  shows "\<exists>g' k'. process_dispatch_next (Some c) g PROCESS_DISPATCH_PREEMPT k = (True, g', k') \<and> g_current_process k' = Some n \<and>
    length (g_processes k') = 16 \<and>
    (\<forall>j<16. p_state (g_processes k' ! j) = dispatch_state (Some c) PROCESS_DISPATCH_PREEMPT n j (g_processes k ! j))"
proof -
  obtain g' k' where d: "process_dispatch_next (Some c) g PROCESS_DISPATCH_PREEMPT k = (True, g', k')"
    using assms(1) by (cases "process_dispatch_next (Some c) g PROCESS_DISPATCH_PREEMPT k") (simp add: process_dispatch_next_def Let_def)
  obtain m where m: "process_next_runnable (Some c) k = Some m" "g_current_process k' = Some m" "length (g_processes k') = 16"
    "\<forall>j<16. g_processes k' ! j = (g_processes k ! j)\<lparr>p_state := dispatch_state (Some c) PROCESS_DISPATCH_PREEMPT m j (g_processes k ! j)\<rparr>"
    by (rule dispatch_effect [OF assms(2) d]) blast
  then show ?thesis using d assms(1) by simp
qed

theorem process_context_switch_witness:
  "\<exists>g1 k1 g2 k2. process_dispatch_next (Some 0) frame_demo PROCESS_DISPATCH_PREEMPT kernel_saved = (True, g1, k1) \<and>
     g_current_process k1 = Some 1 \<and> process_dispatch_next (Some 1) (frame_demo\<lparr>fr_elr := 0\<rparr>) PROCESS_DISPATCH_PREEMPT k1 = (True, g2, k2) \<and>
     g_current_process k2 = Some 0 \<and> g2 = frame_demo"
proof -
  let ?g = "frame_demo\<lparr>fr_elr := 0\<rparr>"
  have len: "length (g_processes kernel_two) = 16" using kernel_two_ok(6) by (simp add: table_ok_def)
  have "first_index 15 (\<lambda>j. p_state (g_processes kernel_saved ! ((0 + 1 + j) mod 16)) = PROCESS_READY) = Some 0"
    using kernel_saved_states by (simp add: first_index_Some_iff)
  then have "process_next_runnable (Some 0) kernel_saved = Some 1"
    by (simp add: process_next_runnable_def process_in_table_def cyclic_scan_def)
  from dispatch_preempt [OF this kernel_saved_states(1), of frame_demo] obtain g1 k1
    where d1: "process_dispatch_next (Some 0) frame_demo PROCESS_DISPATCH_PREEMPT kernel_saved = (True, g1, k1)" "g_current_process k1 = Some 1"
      "length (g_processes k1) = 16"
      and st: "\<forall>j<16. p_state (g_processes k1 ! j) = dispatch_state (Some 0) PROCESS_DISPATCH_PREEMPT 1 j (g_processes kernel_saved ! j)" by blast
  have "p_state (g_processes k1 ! 0) = PROCESS_READY" "\<And>j. j < 16 \<Longrightarrow> 1 < j \<Longrightarrow> p_state (g_processes k1 ! j) = PROCESS_UNUSED"
    using st kernel_saved_states by (simp_all add: dispatch_state_def)
  then have "first_index 15 (\<lambda>j. p_state (g_processes k1 ! ((1 + 1 + j) mod 16)) = PROCESS_READY) = Some 14"
    by (simp add: first_index_Some_iff)
  then have "process_next_runnable (Some 1) k1 = Some 0"
    by (simp add: process_next_runnable_def process_in_table_def cyclic_scan_def)
  from dispatch_preempt [OF this d1(3), of ?g] obtain g2 k2
    where d2: "process_dispatch_next (Some 1) ?g PROCESS_DISPATCH_PREEMPT k1 = (True, g2, k2)" "g_current_process k2 = Some 0" by blast
  have run: "(elsewhere 0)\<^sup>*\<^sup>* kernel_saved k1" using elsewhere.dispatch [OF d1(1), of 0] d1(2) by simp
  have regs: "length (p_regs (g_processes kernel_two ! 0)) = 31" using table_ok_slot [OF kernel_two_ok(6), of 0] by (simp add: process_ok_def)
  have "g2 = frame_demo"
    using process_context_switch [OF len _ _ _ regs run [unfolded kernel_saved_def] d2(1)] d2(2) by (auto simp: frame_demo_def)
  then show ?thesis using d1 d2 by blast
qed

section \<open>Life cycle\<close>

text \<open>C6 Killing and waiting. Killing a process other than the current one makes it a zombie with the given exit code, takes
  away exactly its windows and touches no other process; a second kill fails without change. Waiting for the
  zombie returns that exit code once, frees the slot so that the process id is unknown afterwards, and a second wait fails.\<close>

theorem process_kill_then_wait:
  assumes ok: "table_ok k" and f: "process_find pid k = Some i" and cur: "g_current_process k \<noteq> Some i"
    and alive: "p_state (g_processes k ! i) \<noteq> PROCESS_ZOMBIE" and kill: "process_kill pid code k = (r, k1)"
    and wait: "process_wait_zombie pid k1 = (c, k2)"
  shows "r \<and> k_gui k1 = (if g_gui_active (k_gui k) then gui_destroy_windows_for_pid pid (k_gui k) else k_gui k) \<and>
    (\<forall>j<PROCESS_MAX_PROCESSES. j \<noteq> i \<longrightarrow> g_processes k1 ! j = g_processes k ! j \<and> g_processes k2 ! j = g_processes k ! j) \<and>
    process_kill pid code' k1 = (False, k1) \<and>
    c = Some code \<and> process_find pid k2 = None \<and> process_wait_zombie pid k2 = (None, k2) \<and> table_ok k2"
proof -
  note i = process_find_Some [OF f]
  have k1: "r" "k1 = process_mark_exited i code k" using kill f cur alive by (auto simp: process_kill_def)
  note m = mark_exited_fields [OF alive, of code, folded k1(2)]
  have ok1: "table_ok k1" unfolding k1(2) by (rule process_mark_exited_ok [OF ok i(1,2)])
  have len: "length (g_processes k) = 16" using ok by (simp add: table_ok_def)
  have z: "g_processes k1 ! i = (g_processes k ! i)\<lparr>p_exit_code := code, p_state := PROCESS_ZOMBIE\<rparr>" using m(1) i(1) len by simp
  have f1: "process_find pid k1 = Some i"
    using process_find_unique [OF ok1 i(1)] z i(3) by (simp add: in_use_def)
  have c: "c = Some code" "k2 = process_release i k1" using wait f1 m(2) cur z by (auto simp: process_wait_zombie_def)
  note rel = process_release_effect [OF ok1 i(1), folded c(2)]
  have pid: "p_pid (g_processes k2 ! j) \<noteq> pid" if j: "j < 16" "in_use (g_processes k2 ! j)" for j
  proof (cases "j = i")
    case True
    then show ?thesis using rel j(2) by simp
  next
    case False
    then have "g_processes k2 ! j = g_processes k ! j" using rel j(1) m(1) by simp
    then show ?thesis using other_pid [OF ok i(1,2) refl j(1) False] j(2) i(3) by simp
  qed
  have f2: "process_find pid k2 = None"
    using pid by (auto simp: process_find_def first_index_None_iff in_use_def)
  have "process_kill pid code' k1 = (False, k1)" using f1 z by (simp add: process_kill_def)
  moreover have "process_wait_zombie pid k2 = (None, k2)" using f2 by (simp add: process_wait_zombie_def)
  ultimately show ?thesis using k1(1) m(1,5) i(3) c(1) f2 rel by simp
qed

theorem process_kill_then_wait_witness:
  "\<exists>k1 k2. process_kill 9 42 kernel_two = (True, k1) \<and> process_wait_zombie 9 k1 = (Some 42, k2) \<and> process_find 9 k2 = None"
proof -
  have f: "process_find 9 kernel_two = Some 1"
    using process_find_unique [OF kernel_two_ok(6), of 1] kernel_two_ok(3,4) by (simp add: in_use_def)
  obtain r k1 where kill: "process_kill 9 42 kernel_two = (r, k1)" by force
  obtain c k2 where wait: "process_wait_zombie 9 k1 = (c, k2)" by force
  from process_kill_then_wait [OF kernel_two_ok(6) f _ _ kill wait] kernel_two_ok(2,3) kill wait show ?thesis by simp
qed

end
