(* ===== verification/GuiInput.thy ===== *)
theory GuiInput
  imports Process Input
begin

text \<open>
  Input for the window system: the decorations of a window, the mouse button and the routing of input
  events to windows (\<open>kernel/gui_input.c\<close>, \<open>gui_cursor_button\<close> of \<open>kernel/gui_cursor.c\<close>, \<open>gui_handle_input\<close> of
  \<open>kernel/gui_compositor.c\<close>). A rectangle is the tuple of its corner and its size. The process table is only read, to find out
  whether the owner of a window is still alive.
\<close>

abbreviation GUI_CLOSE_BTN_W :: u32 where "GUI_CLOSE_BTN_W \<equiv> 14"
abbreviation GUI_CLOSE_BTN_PAD :: u32 where "GUI_CLOSE_BTN_PAD \<equiv> 2"
abbreviation GUI_CLOSE_BTN_MIN_TITLE_H :: u32 where "GUI_CLOSE_BTN_MIN_TITLE_H \<equiv> 10"

datatype decoration_slot = SLOT_NONE | SLOT_MINIMIZE | SLOT_MAXIMIZE | SLOT_CLOSE

type_synonym rect = "u32 \<times> u32 \<times> u32 \<times> u32"

section \<open>Decorations\<close>

definition gui_rect_contains :: "rect \<Rightarrow> int \<Rightarrow> int \<Rightarrow> bool" where
  "gui_rect_contains r x y =
     (case r of (rx, ry, rw, rh) \<Rightarrow>
        x \<ge> sint rx \<and> x < uint rx + uint rw \<and> y \<ge> sint ry \<and> y < uint ry + uint rh)"

definition gui_close_box_rect :: "gui_window \<Rightarrow> rect option" where
  "gui_close_box_rect w =
     (if \<not> gw_used w \<or> gw_title_h w = 0 \<or> gw_title w = [] \<or> gw_title_h w < GUI_CLOSE_BTN_MIN_TITLE_H then None
      else
        (let bh = gw_title_h w - 2 * GUI_CLOSE_BTN_PAD
         in if bh < 4 then None
            else
              (let bw = (if bh < GUI_CLOSE_BTN_W then bh else GUI_CLOSE_BTN_W)
               in if gw_w w < bw + 2 * GUI_CLOSE_BTN_PAD then None
                  else Some (gw_x w + gw_w w - bw - GUI_CLOSE_BTN_PAD, gw_y w + GUI_CLOSE_BTN_PAD, bw, bh))))"

definition gui_min_max_btn_row :: "gui_window \<Rightarrow> rect option" where
  "gui_min_max_btn_row w =
     (if \<not> gw_used w \<or> gw_title_h w = 0 \<or> gw_title w = [] \<or> gw_title_h w < GUI_CLOSE_BTN_MIN_TITLE_H then None
      else
        (let bh = gw_title_h w - 2 * GUI_CLOSE_BTN_PAD
         in if bh < 4 then None
            else
              (let bw = (if bh < GUI_CLOSE_BTN_W then bh else GUI_CLOSE_BTN_W)
               in if gw_w w < 3 * bw + 4 * GUI_CLOSE_BTN_PAD then None
                  else Some (gw_x w + gw_w w - bw - GUI_CLOSE_BTN_PAD, gw_y w + GUI_CLOSE_BTN_PAD, bw, bh))))"

definition gui_minimize_button_rect :: "gui_window \<Rightarrow> rect option" where
  "gui_minimize_button_rect w =
     map_option (\<lambda>(right_x, y, bw, bh). (right_x - 2 * bw - 2 * GUI_CLOSE_BTN_PAD, y, bw, bh)) (gui_min_max_btn_row w)"

definition gui_maximize_button_rect :: "gui_window \<Rightarrow> rect option" where
  "gui_maximize_button_rect w =
     map_option (\<lambda>(right_x, y, bw, bh). (right_x - bw - GUI_CLOSE_BTN_PAD, y, bw, bh)) (gui_min_max_btn_row w)"

definition gui_try_decoration_slot :: "gui_window \<Rightarrow> decoration_slot \<Rightarrow> int \<Rightarrow> int \<Rightarrow> rect option" where
  "gui_try_decoration_slot w slot x y =
     (case (case slot of SLOT_MINIMIZE \<Rightarrow> gui_minimize_button_rect w | SLOT_MAXIMIZE \<Rightarrow> gui_maximize_button_rect w
             | SLOT_CLOSE \<Rightarrow> gui_close_box_rect w | SLOT_NONE \<Rightarrow> None) of
        None \<Rightarrow> None
      | Some r \<Rightarrow> if \<not> gui_rect_contains r x y then None else Some r)"

definition gui_hit_test_decoration :: "gui_window \<Rightarrow> int \<Rightarrow> int \<Rightarrow> decoration_slot \<times> rect" where
  "gui_hit_test_decoration w x y =
     (case gui_try_decoration_slot w SLOT_MINIMIZE x y of
        Some r \<Rightarrow> (SLOT_MINIMIZE, r)
      | None \<Rightarrow>
          (case gui_try_decoration_slot w SLOT_MAXIMIZE x y of
             Some r \<Rightarrow> (SLOT_MAXIMIZE, r)
           | None \<Rightarrow>
               (case gui_try_decoration_slot w SLOT_CLOSE x y of
                  Some r \<Rightarrow> (SLOT_CLOSE, r)
                | None \<Rightarrow> (SLOT_NONE, (0, 0, 0, 0)))))"

section \<open>Routing\<close>

definition gui_window_owner_dead :: "kernel \<Rightarrow> gui_window \<Rightarrow> bool" where
  "gui_window_owner_dead k w =
     (if \<not> gw_used w \<or> gw_owner_pid w = GUI_NO_OWNER then False
      else case process_find (gw_owner_pid w) k of
          None \<Rightarrow> True
        | Some i \<Rightarrow> p_state (g_processes k ! i) = PROCESS_ZOMBIE \<or> p_state (g_processes k ! i) = PROCESS_UNUSED)"

definition gui_cursor_button :: "u32 \<Rightarrow> u32 \<Rightarrow> gui \<Rightarrow> gui" where
  "gui_cursor_button button pressed g =
     (if button > 2 then g
      else
        (let mask = push_bit (unat button) (1 :: u8); c = gd_cursor g;
             g1 = g\<lparr>gd_cursor := c\<lparr>cur_buttons_mask :=
                    if pressed \<noteq> 0 then cur_buttons_mask c OR mask else cur_buttons_mask c AND NOT mask\<rparr>\<rparr>
         in if button \<noteq> 0 \<or> pressed = 0 then g1
            else case gui_hit_test (cur_x c) (cur_y c) g1 of
                Some hit \<Rightarrow> snd (gui_focus_window (of_nat hit) g1)
              | None \<Rightarrow> g1\<lparr>gd_focused_window_id := GUI_NO_WINDOW\<rparr>))"

definition push_to :: "nat \<Rightarrow> u32 \<Rightarrow> int \<Rightarrow> int \<Rightarrow> gui \<Rightarrow> gui" where
  "push_to i typ d1 d2 g = set_window i (\<lambda>w. snd (gui_window_push_event typ d1 d2 w)) g"

fun gui_dispatch_input :: "input_event \<Rightarrow> gui \<Rightarrow> bool \<times> gui" where
  "gui_dispatch_input (INPUT_EVENT_KEY_PRESS t key) g =
     (if gd_focused_window_id g \<noteq> GUI_NO_WINDOW \<and> gd_focused_window_id g < of_nat GUI_MAX_WINDOWS \<and>
         gw_used (gd_windows g ! unat (gd_focused_window_id g))
      then (True, push_to (unat (gd_focused_window_id g)) GUI_EVENT_KEY_PRESS (sint key) 0 g) else (True, g))"
| "gui_dispatch_input (INPUT_EVENT_KEY_RELEASE t key) g =
     (if gd_focused_window_id g \<noteq> GUI_NO_WINDOW \<and> gd_focused_window_id g < of_nat GUI_MAX_WINDOWS \<and>
         gw_used (gd_windows g ! unat (gd_focused_window_id g))
      then (True, push_to (unat (gd_focused_window_id g)) GUI_EVENT_KEY_RELEASE (sint key) 0 g) else (True, g))"
| "gui_dispatch_input (INPUT_EVENT_MOUSE_MOVE t dx dy) g =
     (case gui_hit_test (cur_x (gd_cursor g)) (cur_y (gd_cursor g)) g of
        None \<Rightarrow> (True, g)
      | Some hit \<Rightarrow> (True, push_to hit GUI_EVENT_MOUSE_MOVE (cur_x (gd_cursor g)) (cur_y (gd_cursor g)) g))"
| "gui_dispatch_input (INPUT_EVENT_MOUSE_BUTTON t button pressed) g = (False, g)"

definition gui_click :: "kernel \<Rightarrow> nat \<Rightarrow> gui \<Rightarrow> gui" where
  "gui_click k hit g =
     (let w = gd_windows g ! hit; x = cur_x (gd_cursor g); y = cur_y (gd_cursor g)
      in case fst (gui_hit_test_decoration w x y) of
           SLOT_CLOSE \<Rightarrow> if gui_window_owner_dead k w then snd (gui_destroy_window (of_nat hit) g)
                         else push_to hit GUI_EVENT_CLOSE 0 0 g
         | SLOT_MINIMIZE \<Rightarrow> snd (gui_window_minimize (of_nat hit) g)
         | SLOT_MAXIMIZE \<Rightarrow> push_to hit GUI_EVENT_MAXIMIZE 0 0 g
         | SLOT_NONE \<Rightarrow> push_to hit GUI_EVENT_MOUSE_CLICK x y
                          (gui_drag_start (of_nat hit) (x - sint (gw_x w)) (y - sint (gw_y w)) g))"

fun gui_handle_desktop_input :: "kernel \<Rightarrow> input_event \<Rightarrow> gui \<Rightarrow> gui" where
  "gui_handle_desktop_input k (INPUT_EVENT_MOUSE_MOVE t dx dy) g =
     (let g1 = gui_cursor_move dx dy g;
          g2 = (if gd_drag_window_id g1 \<noteq> GUI_NO_WINDOW
                then gui_drag_update (cur_x (gd_cursor g1)) (cur_y (gd_cursor g1)) g1 else g1)
      in snd (gui_dispatch_input (INPUT_EVENT_MOUSE_MOVE t dx dy) g2))"
| "gui_handle_desktop_input k (INPUT_EVENT_MOUSE_BUTTON t button pressed) g =
     (let g1 = gui_cursor_button button pressed g
      in if button = 0
         then if pressed \<noteq> 0
              then case gui_hit_test (cur_x (gd_cursor g1)) (cur_y (gd_cursor g1)) g1 of
                  None \<Rightarrow> g1 | Some hit \<Rightarrow> gui_click k hit g1
              else gui_drag_end g1
         else g1)"
| "gui_handle_desktop_input k (INPUT_EVENT_KEY_PRESS t key) g =
     (let g1 = snd (gui_focus_window_ensure g)
      in if gd_focused_window_id g1 \<noteq> GUI_NO_WINDOW
         then push_to (unat (gd_focused_window_id g1)) GUI_EVENT_KEY_PRESS (sint key) 0 g1 else g1)"
| "gui_handle_desktop_input k (INPUT_EVENT_KEY_RELEASE t key) g =
     (if gd_focused_window_id g \<noteq> GUI_NO_WINDOW
      then push_to (unat (gd_focused_window_id g)) GUI_EVENT_KEY_RELEASE (sint key) 0 g else g)"

definition gui_handle_input :: "input_event \<Rightarrow> kernel \<Rightarrow> bool \<times> kernel" where
  "gui_handle_input event k =
     (if \<not> g_gui_active (k_gui k) then (False, k)
      else (True, k\<lparr>k_gui := gui_handle_desktop_input k event (k_gui k)\<rparr>))"

section \<open>Input keeps the window system consistent\<close>

lemma push_to_ok: "gui_ok p g \<Longrightarrow> gui_ok p (push_to i typ d1 d2 g)"
  unfolding push_to_def by (rule gui_events_ok(1))

lemma no_focus_ok: "gui_ok p g \<Longrightarrow> gui_ok p (g\<lparr>gd_focused_window_id := GUI_NO_WINDOW\<rparr>)"
  by (rule gui_ok_focus) (simp_all add: id_ok_def)

lemma cursor_button_ok: "gui_ok p g \<Longrightarrow> gui_ok p (gui_cursor_button button pressed g)"
  by (simp add: gui_cursor_button_def Let_def no_focus_ok gui_focus_ok split: option.splits)

lemma gui_click_ok: "gui_ok p g \<Longrightarrow> gui_ok p (gui_click k hit g)"
  by (simp add: gui_click_def Let_def push_to_ok gui_destroy_window_ok gui_minimize_ok gui_drag_ok split: decoration_slot.splits)

lemma dispatch_input_ok: "gui_ok p g \<Longrightarrow> gui_ok p (snd (gui_dispatch_input ev g))"
  by (cases ev) (simp_all add: push_to_ok split: option.splits)

lemma handle_input_ok:
  assumes ok: "gui_ok p g"
  shows "gui_ok p (gui_handle_desktop_input k ev g)"
proof (cases ev)
  case (INPUT_EVENT_MOUSE_MOVE t dx dy)
  have m: "gui_ok p (gui_cursor_move dx dy g)" by (rule gui_small_ok [OF ok])
  then show ?thesis
    unfolding INPUT_EVENT_MOUSE_MOVE gui_handle_desktop_input.simps Let_def
    by (intro dispatch_input_ok) (simp add: gui_drag_ok [OF m])
next
  case (INPUT_EVENT_MOUSE_BUTTON t button pressed)
  have "gui_ok p (gui_cursor_button b q g)" for b q by (rule cursor_button_ok [OF ok])
  then show ?thesis
    by (simp add: INPUT_EVENT_MOUSE_BUTTON Let_def gui_click_ok gui_small_ok split: option.splits)
qed (simp_all add: Let_def push_to_ok gui_ok_ensure ok)

text \<open>Whatever the user types, clicks and drags, the window system stays consistent: handling any sequence of input events
  keeps the invariant of the window table, the focus, the drag and the buffers.\<close>

theorem gui_handle_input_ok:
  assumes "gui_ok p (k_gui k)"
  shows "gui_ok p (k_gui (fold (\<lambda>ev k. snd (gui_handle_input ev k)) events k))"
  using assms
proof (induction events arbitrary: k)
  case (Cons ev events)
  then have "gui_ok p (k_gui (snd (gui_handle_input ev k)))" by (simp add: gui_handle_input_def handle_input_ok)
  then show ?case using Cons.IH by simp
qed simp

theorem gui_handle_input_ok_witness:
  "gui_ok (pmm_init 0x40000000 0x3000) (k_gui (fold (\<lambda>ev k. snd (gui_handle_input ev k))
     [INPUT_EVENT_MOUSE_MOVE 0 (-300) (-220), INPUT_EVENT_MOUSE_BUTTON 1 0 1, INPUT_EVENT_MOUSE_MOVE 2 5 5,
      INPUT_EVENT_KEY_PRESS 3 0x61] kernel_two))"
  by (rule gui_handle_input_ok) (simp only: kernel_two_ok(5) desktop_demo_ok [OF pmm_demo(1)])

section \<open>Keys\<close>

text \<open>A key goes to the focused window and to no other: when the focus is on a window that may have it, a key
  press appends exactly that key to its event queue (the oldest event makes room in a full queue), every other window is
  unchanged and the focus stays.\<close>

theorem gui_key_to_focused:
  assumes ok: "gui_ok p g" and f: "gd_focused_window_id g \<noteq> GUI_NO_WINDOW" "i = unat (gd_focused_window_id g)"
    and w: "focusable (gd_windows g ! i)"
  shows "let g' = gui_handle_desktop_input k (INPUT_EVENT_KEY_PRESS t key) g;
      e = \<lparr>ev_type = GUI_EVENT_KEY_PRESS, ev_data1 = sint key, ev_data2 = 0\<rparr> in
    win_events (gd_windows g' ! i) = (let q = win_events (gd_windows g ! i) in if length q < 32 then q @ [e] else tl q @ [e]) \<and>
    (\<forall>j<GUI_MAX_WINDOWS. j \<noteq> i \<longrightarrow> gd_windows g' ! j = gd_windows g ! j) \<and> gd_focused_window_id g' = gd_focused_window_id g"
proof -
  have i: "i < length (gd_windows g)" "length (gd_windows g) = 16" using ok f by (auto simp: gui_ok_def id_ok_def)
  have "gd_focused_window_id g < 16" using i f(2) by (simp add: word_less_nat_alt)
  then have e: "snd (gui_focus_window_ensure g) = g" using f w by (simp add: gui_focus_window_ensure_def)
  have wok: "win_ok (gd_windows g ! i)" and used: "gw_used (gd_windows g ! i)"
    using ok i(1) w by (simp_all add: gui_ok_def focusable_def)
  have g': "gui_handle_desktop_input k (INPUT_EVENT_KEY_PRESS t key) g = push_to i GUI_EVENT_KEY_PRESS (sint key) 0 g"
    using f by (simp add: e Let_def)
  show ?thesis
    unfolding g' using push_event_spec [OF wok used, of GUI_EVENT_KEY_PRESS "sint key" 0] i
    by (simp add: push_to_def push_spec_def Let_def)
qed

theorem gui_key_to_focused_witness:
  "win_events (gd_windows (gui_handle_desktop_input kernel_two (INPUT_EVENT_KEY_PRESS 0 0x61) desktop_demo) ! 1) =
     [\<lparr>ev_type = GUI_EVENT_KEY_PRESS, ev_data1 = 0x61, ev_data2 = 0\<rparr>]"
proof -
  have "gd_focused_window_id desktop_demo \<noteq> GUI_NO_WINDOW" "1 = unat (gd_focused_window_id desktop_demo)"
    "focusable (gd_windows desktop_demo ! 1)" "win_events (gd_windows desktop_demo ! 1) = []"
    by (simp_all add: desktop_demo_def focusable_def blank_window_def win_events_def ring_content_def)
  from gui_key_to_focused [OF desktop_demo_ok [OF pmm_demo(1)] this(1-3)] this(4) show ?thesis
    by (simp add: Let_def del: gui_handle_desktop_input.simps)
qed

section \<open>Title-bar buttons\<close>

lemma button_metrics:
  assumes nowrap: "unat (gw_x w) + unat (gw_w w) < 2 ^ 32" and t: "\<not> gw_title_h w < 10"
    and bw: "bw = (if gw_title_h w - 4 < 14 then gw_title_h w - 4 else 14)"
    and cx: "cx = gw_x w + gw_w w - bw - 2"
  shows "unat (gw_title_h w - 4) = unat (gw_title_h w) - 4" and "10 \<le> unat (gw_title_h w)"
    and "6 \<le> unat bw" and "unat bw \<le> 14"
    and "\<not> gw_w w < bw + 4 \<longleftrightarrow> unat bw + 4 \<le> unat (gw_w w)"
    and "\<not> gw_w w < 3 * bw + 8 \<longleftrightarrow> 3 * unat bw + 8 \<le> unat (gw_w w)"
    and "unat bw + 4 \<le> unat (gw_w w) \<Longrightarrow> unat cx = unat (gw_x w) + unat (gw_w w) - unat bw - 2"
    and "3 * unat bw + 8 \<le> unat (gw_w w) \<Longrightarrow> unat (cx - 2 * bw - 4) = unat (gw_x w) + unat (gw_w w) - 3 * unat bw - 6"
    and "3 * unat bw + 8 \<le> unat (gw_w w) \<Longrightarrow> unat (cx - bw - 2) = unat (gw_x w) + unat (gw_w w) - 2 * unat bw - 4"
proof -
  show h: "10 \<le> unat (gw_title_h w)" using t by (simp add: word_less_nat_alt)
  then have "(4 :: u32) \<le> gw_title_h w" by (simp add: word_le_nat_alt)
  then show h4: "unat (gw_title_h w - 4) = unat (gw_title_h w) - 4" by (simp add: unat_sub)
  show b: "6 \<le> unat bw" "unat bw \<le> 14" using h h4 by (simp_all add: bw word_less_nat_alt) linarith
  have u4: "unat (bw + 4) = unat bw + 4" using b by (subst unat_add_lem [THEN iffD1]) simp_all
  have u3: "unat (3 * bw) = 3 * unat bw" using b by (subst unat_mult_lem [THEN iffD1]) simp_all
  have u38: "unat (3 * bw + 8) = 3 * unat bw + 8" using b u3 by (subst unat_add_lem [THEN iffD1]) simp_all
  have u2: "unat (2 * bw) = 2 * unat bw" using b by (subst unat_mult_lem [THEN iffD1]) simp_all
  show "\<not> gw_w w < bw + 4 \<longleftrightarrow> unat bw + 4 \<le> unat (gw_w w)"
    "\<not> gw_w w < 3 * bw + 8 \<longleftrightarrow> 3 * unat bw + 8 \<le> unat (gw_w w)"
    by (simp_all add: word_less_nat_alt u4 u38 not_less)
  have xw: "unat (gw_x w + gw_w w) = unat (gw_x w) + unat (gw_w w)"
    using nowrap by (subst unat_add_lem [THEN iffD1]) simp_all
  have c: "unat cx = unat (gw_x w) + unat (gw_w w) - unat bw - 2" if "unat bw + 4 \<le> unat (gw_w w)"
  proof -
    have "bw \<le> gw_x w + gw_w w" using that xw by (simp add: word_le_nat_alt)
    then have s: "unat (gw_x w + gw_w w - bw) = unat (gw_x w) + unat (gw_w w) - unat bw" by (simp add: unat_sub xw)
    then have "2 \<le> gw_x w + gw_w w - bw" using that by (simp add: word_le_nat_alt)
    then show ?thesis by (simp add: cx unat_sub s)
  qed
  then show "unat bw + 4 \<le> unat (gw_w w) \<Longrightarrow> unat cx = unat (gw_x w) + unat (gw_w w) - unat bw - 2" .
  assume big: "3 * unat bw + 8 \<le> unat (gw_w w)"
  then have c': "unat cx = unat (gw_x w) + unat (gw_w w) - unat bw - 2" using c by simp
  have "2 * bw \<le> cx" using big c' u2 by (simp add: word_le_nat_alt)
  then have s: "unat (cx - 2 * bw) = unat (gw_x w) + unat (gw_w w) - 3 * unat bw - 2" by (simp add: unat_sub c' u2)
  then have "4 \<le> cx - 2 * bw" using big by (simp add: word_le_nat_alt)
  then show "unat (cx - 2 * bw - 4) = unat (gw_x w) + unat (gw_w w) - 3 * unat bw - 6" by (simp add: unat_sub s)
  have "bw \<le> cx" using big c' by (simp add: word_le_nat_alt)
  then have s: "unat (cx - bw) = unat (gw_x w) + unat (gw_w w) - 2 * unat bw - 2" by (simp add: unat_sub c')
  then have "2 \<le> cx - bw" using big by (simp add: word_le_nat_alt)
  then show "unat (cx - bw - 2) = unat (gw_x w) + unat (gw_w w) - 2 * unat bw - 4" by (simp add: unat_sub s)
qed

text \<open>The title-bar buttons lie inside the title bar, side by side: on a window whose right and lower edges do not wrap
  around, the close box is inside the title bar with a margin, and when the minimise and maximise buttons exist so
  does the close box, the three have the same size, and minimise ends before maximise begins, which
  ends before close begins.\<close>

theorem gui_buttons_in_title_bar:
  assumes nowrap: "unat (gw_x w) + unat (gw_w w) < 2 ^ 32" "unat (gw_y w) + unat (gw_title_h w) < 2 ^ 32"
  shows "(case gui_close_box_rect w of None \<Rightarrow> gui_minimize_button_rect w = None \<and> gui_maximize_button_rect w = None
    | Some (cx, cy, cw, ch) \<Rightarrow> unat (gw_x w) < unat cx \<and> unat cx + unat cw < unat (gw_x w) + unat (gw_w w) \<and>
        unat (gw_y w) < unat cy \<and> unat cy + unat ch < unat (gw_y w) + unat (gw_title_h w) \<and> 0 < unat cw \<and>
        (case (gui_minimize_button_rect w, gui_maximize_button_rect w) of
           (Some (nx, ny, nw, nh), Some (mx, my, mw, mh)) \<Rightarrow>
             (ny, nw, nh) = (cy, cw, ch) \<and> (my, mw, mh) = (cy, cw, ch) \<and>
             unat (gw_x w) < unat nx \<and> unat nx + unat cw < unat mx \<and> unat mx + unat cw < unat cx
         | (None, None) \<Rightarrow> True | _ \<Rightarrow> False))"
proof (cases "\<not> gw_used w \<or> gw_title_h w = 0 \<or> gw_title w = [] \<or> gw_title_h w < 10")
  case True
  then have "gui_close_box_rect w = None" "gui_min_max_btn_row w = None"
    by (auto simp: gui_close_box_rect_def gui_min_max_btn_row_def)
  then show ?thesis by (simp add: gui_minimize_button_rect_def gui_maximize_button_rect_def)
next
  case False
  define bh where "bh = gw_title_h w - 4"
  define bw where "bw = (if bh < 14 then bh else 14)"
  define cx where "cx = gw_x w + gw_w w - bw - 2"
  have t: "\<not> gw_title_h w < 10" using False by simp
  note m = button_metrics [OF nowrap(1) t bw_def [unfolded bh_def] cx_def]
  have bh: "\<not> bh < 4" using m(1,2) by (simp add: bh_def word_less_nat_alt)
  have cy: "unat (gw_y w + 2) = unat (gw_y w) + 2" using nowrap(2) m(2) by (subst unat_add_lem [THEN iffD1]) simp_all
  have ch: "unat bh = unat (gw_title_h w) - 4" using m(1) by (simp add: bh_def)
  have close: "gui_close_box_rect w = (if gw_w w < bw + 4 then None else Some (cx, gw_y w + 2, bw, bh))"
    using False bh by (simp add: gui_close_box_rect_def Let_def bh_def [symmetric] bw_def [symmetric] cx_def [symmetric])
  have row: "gui_min_max_btn_row w = (if gw_w w < 3 * bw + 8 then None else Some (cx, gw_y w + 2, bw, bh))"
    using False bh by (simp add: gui_min_max_btn_row_def Let_def bh_def [symmetric] bw_def [symmetric] cx_def [symmetric])
  show ?thesis
  proof (cases "3 * unat bw + 8 \<le> unat (gw_w w)")
    case True
    then have n: "\<not> gw_w w < 3 * bw + 8" "\<not> gw_w w < bw + 4" using m(5,6) by simp_all
    have r: "gui_close_box_rect w = Some (cx, gw_y w + 2, bw, bh)"
      "gui_minimize_button_rect w = Some (cx - 2 * bw - 4, gw_y w + 2, bw, bh)"
      "gui_maximize_button_rect w = Some (cx - bw - 2, gw_y w + 2, bw, bh)"
      using n by (simp_all add: close row gui_minimize_button_rect_def gui_maximize_button_rect_def)
    show ?thesis unfolding r using True m(2-4,7-9) cy ch by (simp, intro conjI; linarith)
  next
    case False
    then have n: "gw_w w < 3 * bw + 8" using m(6) by blast
    have r: "gui_minimize_button_rect w = None" "gui_maximize_button_rect w = None"
      using n by (simp_all add: row gui_minimize_button_rect_def gui_maximize_button_rect_def)
    show ?thesis
    proof (cases "gw_w w < bw + 4")
      case True
      then show ?thesis by (simp add: close r)
    next
      case wide: False
      then show ?thesis using m(2-5,7) cy ch by (simp add: close r, intro conjI; linarith)
    qed
  qed
qed

definition titled_window :: gui_window where
  "titled_window = blank_window\<lparr>gw_used := True, gw_x := 10, gw_y := 20, gw_w := 200, gw_h := 100, gw_title_h := 12, gw_title := ''shell''\<rparr>"

theorem gui_buttons_in_title_bar_witness:
  "gui_close_box_rect titled_window = Some (200, 22, 8, 8) \<and> gui_maximize_button_rect titled_window = Some (190, 22, 8, 8) \<and>
   unat (190 :: u32) + unat (8 :: u32) < unat (200 :: u32)"
proof -
  have c: "gui_close_box_rect titled_window = Some (200, 22, 8, 8)" and m: "gui_maximize_button_rect titled_window = Some (190, 22, 8, 8)"
    and n: "gui_minimize_button_rect titled_window = Some (180, 22, 8, 8)"
    by code_simp+
  have "unat (gw_x titled_window) + unat (gw_w titled_window) < 2 ^ 32" "unat (gw_y titled_window) + unat (gw_title_h titled_window) < 2 ^ 32"
    by (simp_all add: titled_window_def)
  from gui_buttons_in_title_bar [OF this] show ?thesis unfolding c m n by simp
qed

end
