(* ===== verification/UserVm.thy ===== *)
theory UserVm
  imports Process
begin

text \<open>
  Mapping memory for user processes, \<open>kernel/user_vm.c\<close>: the anonymous mappings of the mmap system calls and the fixed
  mappings of the program loader, over the regions of the process, the page-table manager and the
  page allocator. The functions take the process and the memory and return both; an error code is the left summand. The byte
  counter of \<open>free_page_range\<close> runs over whole pages, since its callers round the size up.
\<close>

abbreviation USER_VM_PROT_READ :: u64 where "USER_VM_PROT_READ \<equiv> 1"
abbreviation USER_VM_PROT_WRITE :: u64 where "USER_VM_PROT_WRITE \<equiv> 2"
abbreviation USER_VM_PROT_EXEC :: u64 where "USER_VM_PROT_EXEC \<equiv> 4"

datatype user_vm_error = USER_VM_ERR_INVAL | USER_VM_ERR_NOMEM

section \<open>Operations\<close>

definition user_page_align_up :: "u64 \<Rightarrow> u64" where
  "user_page_align_up value =
     (if value = 0 \<or> value > - 1 - (PAGE_SIZE - 1) then 0 else (value + PAGE_SIZE - 1) AND NOT (PAGE_SIZE - 1))"

definition flags_to_vmm :: "u64 \<Rightarrow> u64 option" where
  "flags_to_vmm flags0 =
     (if flags0 AND NOT (USER_VM_PROT_READ OR USER_VM_PROT_WRITE OR USER_VM_PROT_EXEC) \<noteq> 0 then None
      else
        (let flags = (if flags0 = 0 then USER_VM_PROT_READ OR USER_VM_PROT_WRITE else flags0);
             r1 = (if flags AND USER_VM_PROT_WRITE \<noteq> 0 then VMM_FLAG_USER OR (VMM_FLAG_READ OR VMM_FLAG_WRITE)
                   else if flags AND USER_VM_PROT_READ \<noteq> 0 then VMM_FLAG_USER OR VMM_FLAG_READ
                   else VMM_FLAG_USER);
             r2 = (if flags AND USER_VM_PROT_EXEC \<noteq> 0 then r1 OR VMM_FLAG_EXEC else r1)
         in Some r2))"

definition free_page_range :: "u64 \<Rightarrow> u64 \<Rightarrow> vmm \<Rightarrow> vmm" where
  "free_page_range paddr sz s =
     s\<lparr>vpmm := fold (\<lambda>j p. pmm_free_page (paddr + of_nat j * PAGE_SIZE) p) [0..<(unat sz + 4095) div 4096] (vpmm s)\<rparr>"

definition user_vm_map_anonymous ::
    "u64 \<Rightarrow> u64 \<Rightarrow> u64 \<Rightarrow> process \<Rightarrow> vmm \<Rightarrow> (user_vm_error + u64) \<times> process \<times> vmm" where
  "user_vm_map_anonymous hint sz flags p s =
     (let aligned_size = user_page_align_up sz
      in case flags_to_vmm flags of
           None \<Rightarrow> (Inl USER_VM_ERR_INVAL, p, s)
         | Some vmm_flags \<Rightarrow>
             if p_page_table p = 0 \<or> hint \<noteq> 0 \<or> aligned_size = 0 then (Inl USER_VM_ERR_INVAL, p, s)
             else
               (case process_alloc_user_region aligned_size p of
                  (None, p1) \<Rightarrow> (Inl USER_VM_ERR_INVAL, p1, s)
                | (Some addr, p1) \<Rightarrow>
                    (case pmm_alloc_pages (aligned_size div PAGE_SIZE) (vpmm s) of
                       (paddr, pm) \<Rightarrow>
                         (let s1 = s\<lparr>vpmm := pm\<rparr>
                          in if paddr = 0
                             then (Inl USER_VM_ERR_NOMEM, snd (process_remove_user_region addr aligned_size p1), s1)
                             else
                               (case vmm_map_range (p_page_table p1) addr paddr aligned_size vmm_flags s1 of
                                  (False, s2) \<Rightarrow>
                                    (Inl USER_VM_ERR_NOMEM, snd (process_remove_user_region addr aligned_size p1),
                                     free_page_range paddr aligned_size (snd (vmm_unmap_range (p_page_table p1) addr aligned_size s2)))
                                | (True, s2) \<Rightarrow>
                                    (case process_set_user_region_mapping addr aligned_size paddr PROCESS_USER_REGION_OWNED_PAGES p1 of
                                       (False, p2) \<Rightarrow>
                                         (Inl USER_VM_ERR_INVAL, snd (process_remove_user_region addr aligned_size p2),
                                          free_page_range paddr aligned_size (snd (vmm_unmap_range (p_page_table p2) addr aligned_size s2)))
                                     | (True, p2) \<Rightarrow> (Inr addr, p2, s2)))))))"

definition user_vm_unmap_anonymous :: "u64 \<Rightarrow> u64 \<Rightarrow> process \<Rightarrow> vmm \<Rightarrow> (user_vm_error + unit) \<times> process \<times> vmm" where
  "user_vm_unmap_anonymous addr sz p s =
     (let aligned_size = user_page_align_up sz
      in if p_page_table p = 0 \<or> aligned_size = 0 then (Inl USER_VM_ERR_INVAL, p, s)
         else case process_find_user_region addr aligned_size p of
             None \<Rightarrow> (Inl USER_VM_ERR_INVAL, p, s)
           | Some region \<Rightarrow>
               if ur_flags region AND PROCESS_USER_REGION_OWNED_PAGES = 0 \<or> ur_paddr region = 0 then (Inl USER_VM_ERR_INVAL, p, s)
               else
                 (case vmm_unmap_range (p_page_table p) addr aligned_size s of
                    (False, s1) \<Rightarrow> (Inl USER_VM_ERR_INVAL, p, s1)
                  | (True, s1) \<Rightarrow>
                      (case process_remove_user_region addr aligned_size p of
                         (False, p1) \<Rightarrow> (Inl USER_VM_ERR_INVAL, p1, s1)
                       | (True, p1) \<Rightarrow> (Inr (), p1, free_page_range (ur_paddr region) aligned_size s1))))"

definition user_vm_map_physical :: "u64 \<Rightarrow> u64 \<Rightarrow> u64 \<Rightarrow> u64 \<Rightarrow> process \<Rightarrow> vmm \<Rightarrow> bool \<times> process \<times> vmm" where
  "user_vm_map_physical vaddr paddr sz flags p s =
     (if p_page_table p = 0 \<or> vaddr = 0 \<or> paddr = 0 \<or> sz = 0 then (False, p, s)
      else case flags_to_vmm flags of
          None \<Rightarrow> (False, p, s)
        | Some vmm_flags \<Rightarrow>
            if process_find_user_region vaddr sz p = None then (False, p, s)
            else
              (case vmm_map_range (p_page_table p) vaddr paddr sz vmm_flags s of
                 (False, s1) \<Rightarrow> (False, p, snd (vmm_unmap_range (p_page_table p) vaddr sz s1))
               | (True, s1) \<Rightarrow>
                   (case process_set_user_region_mapping vaddr sz paddr 0 p of
                      (False, p1) \<Rightarrow> (False, p1, snd (vmm_unmap_range (p_page_table p1) vaddr sz s1))
                    | (True, p1) \<Rightarrow> (True, p1, s1))))"

section \<open>The region of a mapping\<close>

lemma region_align_up_down: "region_align_up v 4096 = page_align_down (v + 4095)"
  by (simp add: region_align_up_def page_align_down_def add.commute)

lemma region_align_up_id:
  assumes "unat v mod 4096 = 0"
  shows "region_align_up v 4096 = v"
proof -
  obtain q where q: "unat v = q * 4096" using assms by (metis mod_0_imp_dvd dvd_div_mult_self)
  have "q * 4096 < 2 ^ 52 * 4096" using unsigned_less [of v, where ?'a = nat] by (simp add: q)
  then have "q + 1 \<le> 2 ^ 52" by simp
  then have "(q + 1) * 4096 \<le> 2 ^ 52 * 4096" by (rule mult_le_mono1)
  then have "unat v + 4095 < 2 ^ 64" by (simp add: q)
  then have "unat (v + 4095) = unat v + 4095" by (subst unat_add_bounded) simp_all
  moreover have "(unat v + 4095) mod 4096 = 4095" by (simp add: q)
  ultimately have "unat (region_align_up v 4096) = unat v"
    by (simp add: region_align_up_down unat_page_align_down)
  then show ?thesis by (rule unsigned_word_eqI)
qed

lemma user_page_align_up_nonzero:
  assumes "user_page_align_up z \<noteq> 0"
  shows "unat (user_page_align_up z) mod 4096 = 0" and "region_align_up (user_page_align_up z) 4096 = user_page_align_up z"
proof -
  have "user_page_align_up z = region_align_up z 4096"
    using assms by (simp add: user_page_align_up_def region_align_up_def split: if_splits)
  then show "unat (user_page_align_up z) mod 4096 = 0" using align_up_aligned [of z] by simp
  then show "region_align_up (user_page_align_up z) 4096 = user_page_align_up z" by (rule region_align_up_id)
qed

lemma find_region_at:
  assumes ok: "region_ok p" and r: "regions p = xs @ y # ys" and e: "user_region_end (ur_start y) z = Some (ur_end y)"
  shows "region_index (ur_start y) (ur_end y) p = Some (length xs)" and "process_find_user_region (ur_start y) z p = Some y"
proof -
  have y: "y = regions p ! length xs" "length xs < length (regions p)" by (simp_all add: r)
  have "range_of y \<noteq> {}" using ok r by (auto simp: region_ok_def range_of_def word_less_nat_alt)
  show i: "region_index (ur_start y) (ur_end y) p = Some (length xs)"
  proof (cases "region_index (ur_start y) (ur_end y) p")
    case None
    then show ?thesis using region_index_None [OF ok None, of y] r by simp
  next
    case (Some i)
    note ri = region_index_Some [OF ok Some]
    then have "range_of (regions p ! i) = range_of y" by (simp add: range_of_def)
    with ri(1) y \<open>range_of y \<noteq> {}\<close> have "i = length xs" by (intro range_unique [OF ok]) auto
    then show ?thesis using Some by simp
  qed
  then show "process_find_user_region (ur_start y) z p = Some y"
    using e region_index_Some(4) [OF ok i] y(1) by (simp add: process_find_user_region_def)
qed

lemma remove_last_region:
  assumes ok: "region_ok p" and r: "regions p = xs @ [y]" and e: "user_region_end (ur_start y) z = Some (ur_end y)"
  obtains p' where "process_remove_user_region (ur_start y) z p = (True, p')" "region_ok p'" "regions p' = xs"
proof -
  obtain q p' where eq: "process_remove_user_region_info (ur_start y) z p = (q, p')" by fastforce
  note f = find_region_at [OF assms]
  have q: "region_ok p'" "q = Some y" using remove_region_effect [OF ok, where s = "ur_start y" and z = z] f eq by auto
  have n: "p_user_region_count p = Suc (length xs)" using length_regions [OF ok] r by simp
  have "regions p' = take (Suc (length xs) - 1) ((shift_regions (length xs) (Suc (length xs)) (p_user_regions p))[Suc (length xs) - 1 := region_clear])"
    using eq e f(1) unfolding process_remove_user_region_info_def Let_def n by (auto simp: regions_def)
  also have "\<dots> = take (length xs) (regions p) @ drop (Suc (length xs)) (regions p)"
    unfolding regions_def n by (rule remove_regions) (use ok n in \<open>simp_all add: region_ok_def\<close>)
  finally have "regions p' = take (length xs) (regions p) @ drop (Suc (length xs)) (regions p)" .
  then have "regions p' = xs" by (simp add: r)
  then show thesis using that q eq by (simp add: process_remove_user_region_def)
qed

lemma remove_region_frame:
  assumes "process_remove_user_region a z p = (r, p')"
  shows "p_page_table p' = p_page_table p" and "p_next_user_vaddr p' = p_next_user_vaddr p"
  using assms
  by (auto simp: process_remove_user_region_def process_remove_user_region_info_def Let_def split: prod.splits option.splits)

lemma set_mapping_at:
  assumes ok: "region_ok p" and r: "regions p = xs @ y # ys" and e: "user_region_end (ur_start y) z = Some (ur_end y)"
  obtains p' where "process_set_user_region_mapping (ur_start y) z pa fl p = (True, p')" "region_ok p'"
    "regions p' = xs @ y\<lparr>ur_paddr := pa, ur_flags := fl\<rparr> # ys" "p_page_table p' = p_page_table p"
    "p_next_user_vaddr p' = p_next_user_vaddr p"
proof -
  note f = find_region_at [OF assms]
  define p' where "p' = p\<lparr>p_user_regions := (p_user_regions p)[length xs := (p_user_regions p ! length xs)\<lparr>ur_paddr := pa, ur_flags := fl\<rparr>]\<rparr>"
  have eq: "process_set_user_region_mapping (ur_start y) z pa fl p = (True, p')"
    using e f by (simp add: process_set_user_region_mapping_def p'_def)
  have "p_user_regions p ! length xs = y" using region_index_Some(4) [OF ok f(1)] by (simp add: r)
  then have "regions p' = (regions p)[length xs := y\<lparr>ur_paddr := pa, ur_flags := fl\<rparr>]"
    by (simp add: p'_def regions_def take_update_swap)
  then have "regions p' = xs @ y\<lparr>ur_paddr := pa, ur_flags := fl\<rparr> # ys" by (simp add: r)
  moreover have "region_ok p'" using set_mapping_effect [OF ok, where s = "ur_start y" and z = z and pa = pa and fl = fl] eq by simp
  ultimately show thesis using that eq by (simp add: p'_def)
qed

lemma alloc_region_exact:
  assumes ok: "region_ok p" and z: "unat z mod 4096 = 0" and eq: "process_alloc_user_region z p = (Some a, p')"
  shows "region_ok p'" and "unat a mod 4096 = 0" and "p_next_user_vaddr p \<le> a" and "unat (p_next_user_vaddr p') = unat a + unat z"
    and "unat a + unat z \<le> 0x200000000" and "user_region_end a z = Some (a + z)"
    and "regions p' = regions p @ [\<lparr>ur_start = a, ur_end = a + z, ur_paddr = 0, ur_flags = 0\<rparr>]"
    and "p_page_table p' = p_page_table p"
proof -
  obtain len where len: "region_ok p'" "unat a mod 4096 = 0" "p_next_user_vaddr p \<le> a" "unat (p_next_user_vaddr p') = unat a + unat len"
    "unat a + unat len \<le> 0x200000000" "regions p' = regions p @ [\<lparr>ur_start = a, ur_end = a + len, ur_paddr = 0, ur_flags = 0\<rparr>]"
    using alloc_region_effect [OF ok eq] by auto
  from eq [unfolded process_alloc_user_region_def Let_def] obtain p1 where
    add: "z \<noteq> 0" "process_add_user_region a z p = (True, p1)" "user_region_end a z \<noteq> None"
    and p': "p' = p1\<lparr>p_next_user_vaddr := the (user_region_end a z)\<rparr>"
    by (auto simp: region_align_up_id [OF z] split: if_splits option.splits prod.splits bool.splits)
  have "regions p' = regions p1" by (simp add: p' regions_def)
  moreover have "regions p1 = regions p @ [\<lparr>ur_start = a, ur_end = a + z, ur_paddr = 0, ur_flags = 0\<rparr>]"
    using add_region_effect [OF ok, where s = a and z = z] add(2) by auto
  ultimately have "len = z" using len(6) by simp
  then show "region_ok p'" "unat a mod 4096 = 0" "p_next_user_vaddr p \<le> a" "unat (p_next_user_vaddr p') = unat a + unat z"
    "unat a + unat z \<le> 0x200000000" "regions p' = regions p @ [\<lparr>ur_start = a, ur_end = a + z, ur_paddr = 0, ur_flags = 0\<rparr>]"
    using len by simp_all
  show "user_region_end a z = Some (a + z)" using add(3) user_region_end_Some by fastforce
  have "p_page_table p1 = p_page_table p"
    using add(2) by (auto simp: process_add_user_region_def split: if_splits option.splits)
  then show "p_page_table p' = p_page_table p" by (simp add: p')
qed

section \<open>Pages taken from the allocator\<close>

definition page_run :: "u64 \<Rightarrow> u64 \<Rightarrow> u64 set" where
  "page_run paddr sz = (\<lambda>j. paddr + of_nat j * PAGE_SIZE) ` {..<(unat sz + 4095) div 4096}"

definition takes :: "u64 set \<Rightarrow> vmm \<Rightarrow> vmm \<Rightarrow> bool" where
  "takes A s s' \<longleftrightarrow> ram s' = ram s \<and> pmm_ready (vpmm s') \<and> managed_pages (vpmm s') = managed_pages (vpmm s) \<and>
     A \<subseteq> avail_pages (vpmm s) \<and> avail_pages (vpmm s') = avail_pages (vpmm s) - A"

lemma vm_ok_takes:
  assumes ok: "vm_ok R s" and t: "takes A s s'"
  shows "vm_ok R s'" and "tables R s' = tables R s" and "translation s' r v = translation s r v"
    and "A \<inter> tables R s = {}"
proof -
  have m: "ram s' = ram s" using t by (simp add: takes_def)
  then show tb: "tables R s' = tables R s" by (simp add: tables_def)
  show "translation s' r v = translation s r v" unfolding translation_def m ..
  show "A \<inter> tables R s = {}" using t vm_ok_tables [OF ok] by (auto simp: takes_def)
  have "tables R s' \<subseteq> managed_pages (vpmm s') - avail_pages (vpmm s')"
    using vm_ok_tables [OF ok] t unfolding tb by (auto simp: takes_def)
  then show "vm_ok R s'" using ok t unfolding vm_ok_def by (auto simp: takes_def)
qed

lemma alloc_pages_takes:
  assumes ok: "vm_ok R s" and z: "unat z mod 4096 = 0" "z \<noteq> 0"
    and eq: "pmm_alloc_pages (z div PAGE_SIZE) (vpmm s) = (a, pm)" and "a \<noteq> 0"
  shows "takes (page_run a z) s (s\<lparr>vpmm := pm\<rparr>)" and "unat a mod 4096 = 0" and "unat a + unat z \<le> 2 ^ 48"
proof -
  let ?p = "vpmm s"
  obtain d where d: "unat z = d * 4096" using z(1) by (metis mod_0_imp_dvd dvd_div_mult_self)
  have c: "unat (z div PAGE_SIZE) = d" by (simp add: unat_div d)
  have "unat z > 0" using z(2) by (simp add: unat_gt_0)
  then have pos: "0 < d" by (simp add: d)
  then have "z div PAGE_SIZE \<noteq> 0" using c by (metis less_numeral_extra(3) unat_0)
  note ready = vm_ok_ready [OF ok]
  obtain r where r: "{r..<r + d} \<subseteq> free_set ?p" "a = page_addr ?p r" "free_set pm = free_set ?p - {r..<r + d}" "pmm_ready pm"
    by (rule pmm_alloc_pages_nonzero [OF ready \<open>z div PAGE_SIZE \<noteq> 0\<close> eq \<open>a \<noteq> 0\<close>, unfolded c])
  note fr = pmm_alloc_pages_frame [OF eq]
  have addr: "page_addr pm = page_addr ?p" by (simp add: page_addr_def fr(1) fun_eq_iff)
  have less: "r + j < n_pages ?p" if "j < d" for j
    using that by (intro free_set_less subsetD [OF r(1)]) simp
  have n: "(unat z + 4095) div 4096 = d" by (simp add: d)
  have "page_addr ?p (r + j) = a + of_nat j * PAGE_SIZE" for j by (simp add: r(2) page_addr_def algebra_simps)
  then have "page_run a z = (\<lambda>j. page_addr ?p (r + j)) ` {..<d}" unfolding page_run_def n by presburger
  also have "\<dots> = page_addr ?p ` (+) r ` {0..<d}" unfolding image_image lessThan_atLeast0 ..
  also have "\<dots> = page_addr ?p ` {r..<r + d}" unfolding image_add_atLeastLessThan by (simp add: add.commute)
  finally have run: "page_run a z = page_addr ?p ` {r..<r + d}" .
  have "inj_on (page_addr ?p) (free_set ?p)" using page_addr_inj [OF ready] free_set_less by (auto simp: inj_on_def)
  then have "page_addr ?p ` free_set pm = avail_pages ?p - page_addr ?p ` {r..<r + d}"
    unfolding r(3) avail_pages_def by (rule inj_on_image_set_diff [OF _ Diff_subset r(1)])
  moreover have "page_run a z \<subseteq> avail_pages ?p" using r(1) by (auto simp: run avail_pages_def)
  moreover have "managed_pages pm = managed_pages ?p" by (simp add: managed_pages_def addr fr)
  ultimately show "takes (page_run a z) s (s\<lparr>vpmm := pm\<rparr>)" using r(4) by (simp add: takes_def run avail_pages_def addr)
  show al: "unat a mod 4096 = 0" using page_addr_aligned [OF ready less [OF pos]] r(2) by simp
  have last: "unat (page_addr ?p (r + (d - 1))) = unat a + (d - 1) * 4096"
    using unat_page_addr [OF ready less [of "d - 1"]] unat_page_addr [OF ready less [OF pos]] pos r(2) by simp
  have "page_addr ?p (r + (d - 1)) \<in> managed_pages ?p" using less [of "d - 1"] pos by (simp add: managed_pages_def)
  from vm_ok_bound [OF ok this] last have "unat a + (d - 1) * 4096 < 2 ^ 48" by simp
  moreover obtain b where "unat a = b * 4096" using al by (metis mod_0_imp_dvd dvd_div_mult_self)
  ultimately have "(b + (d - 1)) * 4096 < 2 ^ 36 * 4096" by (simp add: algebra_simps)
  then have "b + (d - 1) < 2 ^ 36" by simp
  then have "b + d \<le> 2 ^ 36" using pos by simp
  then show "unat a + unat z \<le> 2 ^ 48" by (simp add: d \<open>unat a = b * 4096\<close>)
qed

lemma free_page_range_frees:
  assumes "pmm_ready (vpmm s)" and "page_run a z \<subseteq> managed_pages (vpmm s)"
  shows "frees (page_run a z) s (free_page_range a z s)"
  using assms unfolding page_run_def free_page_range_def by (intro frees_run) auto

section \<open>Mapping and undoing\<close>

text \<open>Nothing is mapped in the part of the user area that the allocation pointer has not reached.\<close>

definition mmap_ok :: "process \<Rightarrow> vmm \<Rightarrow> bool" where
  "mmap_ok p s \<longleftrightarrow> region_ok p \<and>
     (\<forall>v. p_next_user_vaddr p \<le> v \<and> v < PROCESS_USER_MMAP_LIMIT \<longrightarrow> translation s (p_page_table p) v = None)"

text \<open>What a system call that fails leaves: the regions, the translations of all spaces and, except for new page tables, the free pages.\<close>

definition vm_restored :: "u64 set \<Rightarrow> process \<Rightarrow> vmm \<Rightarrow> process \<Rightarrow> vmm \<Rightarrow> bool" where
  "vm_restored R p s p' s' \<longleftrightarrow> vm_ok R s' \<and> region_ok p' \<and> regions p' = regions p \<and> p_page_table p' = p_page_table p \<and>
     (\<forall>r\<in>R. \<forall>v. translation s' r v = translation s r v) \<and>
     avail_pages (vpmm s') \<union> tables R s' = avail_pages (vpmm s) \<union> tables R s"

lemma run_data_pages:
  assumes ok: "vm_ok R s" and t: "takes A s s1" and k: "vm_keeps R g s1 s2"
  shows "A \<subseteq> managed_pages (vpmm s2)" and "A \<inter> avail_pages (vpmm s2) = {}" and "A \<inter> tables R s2 = {}"
    and "avail_pages (vpmm s2) \<union> tables R s2 \<union> A = avail_pages (vpmm s) \<union> tables R s"
proof -
  note tk = vm_ok_takes [OF ok t]
  have "avail_pages (vpmm s) \<subseteq> managed_pages (vpmm s)"
    by (auto simp: avail_pages_def managed_pages_def dest: free_set_less)
  then have "data_page R s1 a" if "a \<in> A" for a
    using that t tk(2,4) by (auto simp: data_page_def takes_def)
  then have "data_page R s2 a" if "a \<in> A" for a using that k by (auto simp: vm_keeps_def)
  then show "A \<subseteq> managed_pages (vpmm s2)" "A \<inter> avail_pages (vpmm s2) = {}" "A \<inter> tables R s2 = {}"
    by (auto simp: data_page_def)
  show "avail_pages (vpmm s2) \<union> tables R s2 \<union> A = avail_pages (vpmm s) \<union> tables R s"
    using k t tk(2) by (auto simp: vm_keeps_def takes_def)
qed

lemma free_run_restores:
  assumes ok: "vm_ok R s" and t: "takes (page_run a z) s s1" and k: "vm_keeps R g s1 s2"
  shows "vm_ok R (free_page_range a z s2)" and "translation (free_page_range a z s2) r v = translation s2 r v"
    and "avail_pages (vpmm (free_page_range a z s2)) \<union> tables R (free_page_range a z s2) = avail_pages (vpmm s) \<union> tables R s"
proof -
  note d = run_data_pages [OF assms]
  have ok2: "vm_ok R s2" using k by (rule vm_keeps_ok)
  note f = free_page_range_frees [OF vm_ok_ready [OF ok2] d(1)]
  from vm_ok_frees [OF ok2 f d(3)]
  show "vm_ok R (free_page_range a z s2)" "translation (free_page_range a z s2) r v = translation s2 r v" .
  have "tables R (free_page_range a z s2) = tables R s2" using f by (simp add: frees_def tables_def)
  then show "avail_pages (vpmm (free_page_range a z s2)) \<union> tables R (free_page_range a z s2) = avail_pages (vpmm s) \<union> tables R s"
    using d(4) f by (auto simp: frees_def)
qed

lemma unmap_nothing:
  assumes ok: "vm_ok R s" and g: "g \<in> R" and eq: "vmm_unmap_range g va z s = (b, s')" and "z \<noteq> 0"
    and none: "\<forall>j<pages_of va z. translation s g (page_of va j) = None" and r: "r \<in> R"
  shows "translation s' r v = translation s r v"
proof -
  obtain m where u: "unmaps_pages R g (page_align_down va) m s s'" and m: "m \<le> pages_of va z"
    using vmm_unmap_range_effect [OF ok g eq] \<open>z \<noteq> 0\<close> by (cases b) auto
  have "translation s g v = None" if "j < m" "same_page v (page_align_down va + of_nat j * PAGE_SIZE)" for j
    using none that m translation_same_page [OF that(2), of s g] by (simp add: page_of_def)
  then show ?thesis using u r unfolding unmaps_pages_def by auto
qed

lemma same_page_low:
  assumes "same_page v w" and "unat v < 2 ^ 48" and "unat w < 2 ^ 48"
  shows "unat v div 4096 = unat w div 4096"
proof -
  have "bit v (12 + n) = bit w (12 + n)" for n
    using assms(1) bounded_bits [OF assms(2), of "12 + n"] bounded_bits [OF assms(3), of "12 + n"]
    unfolding same_page_bits by (cases "12 + n < 48") auto
  then have "drop_bit 12 v = drop_bit 12 w" by (intro bit_word_eqI) (simp add: bit_simps)
  then have "unat (drop_bit 12 v) = unat (drop_bit 12 w)" by simp
  then show ?thesis by (simp add: drop_bit_eq_div unat_div)
qed

lemma page_of_aligned:
  assumes a: "unat a mod 4096 = 0" and z: "unat z mod 4096 = 0" and "unat a + unat z < 2 ^ 64" and j: "j < pages_of a z"
  shows "page_of a j = a + of_nat j * PAGE_SIZE" and "unat (page_of a j) = unat a + j * 4096" and "j * 4096 + 4096 \<le> unat z"
proof -
  obtain d where d: "unat z = d * 4096" using z by (metis mod_0_imp_dvd dvd_div_mult_self)
  have "j < d" using j by (simp add: pages_of_def a d)
  then show le: "j * 4096 + 4096 \<le> unat z" by (simp add: d)
  have "page_align_down a = a" using a by (simp add: word_unat_eq_iff unat_page_align_down)
  then show eq: "page_of a j = a + of_nat j * PAGE_SIZE" by (simp add: page_of_def)
  have "unat (of_nat j * 4096 :: u64) = j * 4096" using le assms(3) by (simp add: unat_mult_bounded)
  then show "unat (page_of a j) = unat a + j * 4096" unfolding eq using le assms(3) by (subst unat_add_bounded) simp_all
qed

lemma fresh_range_unmapped:
  assumes m: "mmap_ok p s" and a: "unat a mod 4096 = 0" and z: "unat z mod 4096 = 0"
    and "p_next_user_vaddr p \<le> a" and "unat a + unat z \<le> 0x200000000"
  shows "\<forall>j<pages_of a z. translation s (p_page_table p) (page_of a j) = None"
proof (intro allI impI)
  fix j assume j: "j < pages_of a z"
  note pg = page_of_aligned [OF a z _ j]
  have u: "unat (page_of a j) = unat a + j * 4096" "j * 4096 + 4096 \<le> unat z" using pg assms(5) by simp_all
  have "p_next_user_vaddr p \<le> page_of a j" using assms(4) u by (simp add: word_le_nat_alt)
  moreover have "page_of a j < PROCESS_USER_MMAP_LIMIT" using assms(5) u by (simp add: word_less_nat_alt)
  ultimately show "translation s (p_page_table p) (page_of a j) = None" using m unfolding mmap_ok_def by blast
qed

lemma beyond_range:
  assumes a: "unat a mod 4096 = 0" and z: "unat z mod 4096 = 0" and le: "unat a + unat z \<le> unat v"
    and v: "v < PROCESS_USER_MMAP_LIMIT" and j: "j < pages_of a z"
  shows "\<not> same_page v (page_of a j)"
proof
  assume sp: "same_page v (page_of a j)"
  have lim: "unat v < 0x200000000" using v by (simp add: word_less_nat_alt)
  then have "unat a + unat z < 2 ^ 64" using le by simp
  note pg = page_of_aligned [OF a z this j]
  have eq: "unat v div 4096 = unat (page_of a j) div 4096" by (rule same_page_low [OF sp]) (use lim pg le in simp_all)
  obtain c where c: "unat a = c * 4096" using a by (metis mod_0_imp_dvd dvd_div_mult_self)
  have "unat v div 4096 = c + j" unfolding eq pg(2) c by simp
  then have "unat v < (c + j) * 4096 + 4096" using dividend_less_times_div [of 4096 "unat v"] by simp
  then show False using pg(3) le c by simp
qed

text \<open>What a successful mapping of \<open>z\<close> bytes at \<open>a\<close> to the pages from \<open>pa\<close> gives.\<close>

definition anon_mapped :: "u64 set \<Rightarrow> process \<Rightarrow> vmm \<Rightarrow> u64 \<Rightarrow> u64 \<Rightarrow> u64 \<Rightarrow> process \<Rightarrow> vmm \<Rightarrow> bool" where
  "anon_mapped R p s a z pa p' s' \<longleftrightarrow> vm_ok R s' \<and> p_page_table p' = p_page_table p \<and>
     regions p' = regions p @ [\<lparr>ur_start = a, ur_end = a + z, ur_paddr = pa, ur_flags = PROCESS_USER_REGION_OWNED_PAGES\<rparr>] \<and>
     page_run pa z \<subseteq> avail_pages (vpmm s) \<and> page_run pa z \<inter> (avail_pages (vpmm s') \<union> tables R s') = {} \<and>
     avail_pages (vpmm s') \<union> tables R s' \<union> page_run pa z = avail_pages (vpmm s) \<union> tables R s \<and>
     (\<forall>k<unat z. translation s (p_page_table p) (a + of_nat k) = None \<and>
        vmm_virt_to_phys (p_page_table p) (a + of_nat k) s' = pa + of_nat k) \<and>
     (\<forall>r\<in>R. \<forall>v. r \<noteq> p_page_table p \<or> (\<forall>j<pages_of a z. \<not> same_page v (page_of a j)) \<longrightarrow>
        translation s' r v = translation s r v)"

lemma mmap_ok_mono:
  assumes m: "mmap_ok p s" and "region_ok p'" and "p_next_user_vaddr p \<le> p_next_user_vaddr p'"
    and "p_page_table p' = p_page_table p"
    and "\<And>v. p_next_user_vaddr p' \<le> v \<Longrightarrow> v < PROCESS_USER_MMAP_LIMIT \<Longrightarrow> translation s (p_page_table p) v = None \<Longrightarrow>
      translation s' (p_page_table p) v = None"
  shows "mmap_ok p' s'"
  unfolding mmap_ok_def assms(4)
proof (intro conjI allI impI)
  fix v assume v: "p_next_user_vaddr p' \<le> v \<and> v < PROCESS_USER_MMAP_LIMIT"
  then have "p_next_user_vaddr p \<le> v" using assms(3) order_trans by blast
  then have "translation s (p_page_table p) v = None" using m v unfolding mmap_ok_def by blast
  then show "translation s' (p_page_table p) v = None" using assms(5) v by blast
qed (rule assms(2))

lemma map_anonymous_split:
  assumes eq: "user_vm_map_anonymous hint sz flags p s = (res, p', s')"
  obtains (rejected) e where "res = Inl e" "p' = p" "s' = s"
    | (run) f where "flags_to_vmm flags = Some f" "p_page_table p \<noteq> 0" "user_page_align_up sz \<noteq> 0"
  using assms that unfolding user_vm_map_anonymous_def Let_def by (auto split: option.splits if_splits)

lemma removed_region_restores:
  assumes al: "region_ok p" "unat z mod 4096 = 0" "process_alloc_user_region z p = (Some a, p1)"
    and m: "mmap_ok p s" and k: "vm_ok R s'" "\<forall>r\<in>R. \<forall>v. translation s' r v = translation s r v" "p_page_table p \<in> R"
    and av: "avail_pages (vpmm s') \<union> tables R s' = avail_pages (vpmm s) \<union> tables R s"
  shows "mmap_ok (snd (process_remove_user_region a z p1)) s' \<and> vm_restored R p s (snd (process_remove_user_region a z p1)) s'"
proof -
  note ex = alloc_region_exact [OF al]
  obtain p2 where r: "process_remove_user_region a z p1 = (True, p2)" "region_ok p2" "regions p2 = regions p"
    using remove_last_region [OF ex(1,7), of z] ex(6) by auto
  note fr = remove_region_frame [OF r(1)]
  have le: "p_next_user_vaddr p \<le> p_next_user_vaddr p2" unfolding fr(2) using ex(3,4) by (simp add: word_le_nat_alt)
  have pt: "p_page_table p2 = p_page_table p" using fr(1) ex(8) by simp
  have "mmap_ok p2 s'" by (rule mmap_ok_mono [OF m r(2) le pt]) (use k in auto)
  then show ?thesis using r k av pt by (simp add: vm_restored_def)
qed

lemma failed_map_restores:
  assumes ok: "vm_ok R s" and g: "p_page_table p \<in> R" and m: "mmap_ok p s" and z: "unat z mod 4096 = 0" "z \<noteq> 0"
    and al: "process_alloc_user_region z p = (Some a, p1)" and t: "takes (page_run pa z) s s1"
    and map: "vmm_map_range (p_page_table p) a pa z f s1 = (False, s2)"
    and s3: "s3 = snd (vmm_unmap_range (p_page_table p) a z s2)"
  shows "mmap_ok (snd (process_remove_user_region a z p1)) (free_page_range pa z s3) \<and>
     vm_restored R p s (snd (process_remove_user_region a z p1)) (free_page_range pa z s3)"
proof -
  let ?g = "p_page_table p"
  have rok: "region_ok p" using m by (simp add: mmap_ok_def)
  note ex = alloc_region_exact [OF rok z(1) al]
  note tk = vm_ok_takes [OF ok t]
  note me = vmm_map_range_effect [OF tk(1) g map z(2)]
  then have k2: "vm_keeps R ?g s1 s2" and same: "\<forall>r\<in>R. \<forall>v. translation s2 r v = translation s r v" using tk(3) by auto
  obtain b where un: "vmm_unmap_range ?g a z s2 = (b, s3)" using s3 by (cases "vmm_unmap_range ?g a z s2") simp
  have ok2: "vm_ok R s2" using k2 by (rule vm_keeps_ok)
  have none: "\<forall>j<pages_of a z. translation s2 ?g (page_of a j) = None"
    using fresh_range_unmapped [OF m ex(2) z(1) ex(3,5)] same g by simp
  have k3: "vm_keeps R ?g s1 s3" using vmm_unmap_range_effect [OF ok2 g un] vm_keeps_trans [OF k2] by blast
  note fr = free_run_restores [OF ok t k3]
  have tr: "\<forall>r\<in>R. \<forall>v. translation (free_page_range pa z s3) r v = translation s r v"
    using unmap_nothing [OF ok2 g un z(2) none] same fr(2) by simp
  show ?thesis by (rule removed_region_restores [OF rok z(1) al m fr(1) tr g fr(3)])
qed

lemma map_succeeds:
  assumes ok: "vm_ok R s" and g: "p_page_table p \<in> R" and m: "mmap_ok p s" and z: "unat z mod 4096 = 0" "z \<noteq> 0"
    and al: "process_alloc_user_region z p = (Some a, p1)" and t: "takes (page_run pa z) s s1" and b: "unat pa + unat z \<le> 2 ^ 48"
    and map: "vmm_map_range (p_page_table p) a pa z f s1 = (True, s2)"
    and "process_set_user_region_mapping a z pa PROCESS_USER_REGION_OWNED_PAGES p1 = (c, p2)"
  shows "c \<and> mmap_ok p2 s2 \<and> anon_mapped R p s a z pa p2 s2"
proof -
  let ?g = "p_page_table p"
  have rok: "region_ok p" using m by (simp add: mmap_ok_def)
  note ex = alloc_region_exact [OF rok z(1) al]
  note tk = vm_ok_takes [OF ok t]
  note me = vmm_map_range_bytes [OF tk(1) g z(2) map]
  then have k2: "vm_keeps R ?g s1 s2" by simp
  obtain p3 where set: "process_set_user_region_mapping a z pa PROCESS_USER_REGION_OWNED_PAGES p1 = (True, p3)" "region_ok p3"
    "regions p3 = regions p @ [\<lparr>ur_start = a, ur_end = a + z, ur_paddr = pa, ur_flags = PROCESS_USER_REGION_OWNED_PAGES\<rparr>]"
    "p_page_table p3 = ?g" "p_next_user_vaddr p3 = p_next_user_vaddr p1"
    using set_mapping_at [OF ex(1,7), of z pa 1] ex(6,8) by auto
  then have "c" "p2 = p3" using assms(10) by simp_all
  note r = \<open>c\<close> set(2,4,5,3) [folded \<open>p2 = p3\<close>]
  have le: "p_next_user_vaddr p \<le> p_next_user_vaddr p2" unfolding r(4) using ex(3,4) by (simp add: word_le_nat_alt)
  have others: "\<forall>r\<in>R. \<forall>v. r \<noteq> ?g \<or> (\<forall>j<pages_of a z. \<not> same_page v (page_of a j)) \<longrightarrow> translation s2 r v = translation s r v"
    using me tk(3) by simp
  have "mmap_ok p2 s2"
  proof (rule mmap_ok_mono [OF m r(2) le r(3)])
    fix v assume v: "p_next_user_vaddr p2 \<le> v" "v < PROCESS_USER_MMAP_LIMIT" "translation s ?g v = None"
    then have "unat a + unat z \<le> unat v" using ex(4) r(4) by (simp add: word_le_nat_alt)
    then show "translation s2 ?g v = None" using others g v beyond_range [OF ex(2) z(1) _ v(2)] by metis
  qed
  moreover note run_data_pages [OF ok t k2]
  ultimately show ?thesis
    using r t me b tk(3) others vm_keeps_ok [OF k2] unfolding anon_mapped_def takes_def by auto
qed

lemma vm_restored_refl: "vm_ok R s \<Longrightarrow> region_ok p \<Longrightarrow> vm_restored R p s p s"
  by (simp add: vm_restored_def)

lemma map_anonymous_run:
  assumes "flags_to_vmm flags = Some f" and "p_page_table p \<noteq> 0" and "user_page_align_up sz = z" and "z \<noteq> 0"
    and "process_alloc_user_region z p = (Some a, p1)" and "pmm_alloc_pages (z div PAGE_SIZE) (vpmm s) = (pa, pm)"
  shows "pa = 0 \<Longrightarrow> user_vm_map_anonymous 0 sz flags p s = (Inl USER_VM_ERR_NOMEM, snd (process_remove_user_region a z p1), s\<lparr>vpmm := pm\<rparr>)"
    and "pa \<noteq> 0 \<Longrightarrow> vmm_map_range (p_page_table p1) a pa z f (s\<lparr>vpmm := pm\<rparr>) = (False, s2) \<Longrightarrow>
      user_vm_map_anonymous 0 sz flags p s = (Inl USER_VM_ERR_NOMEM, snd (process_remove_user_region a z p1),
        free_page_range pa z (snd (vmm_unmap_range (p_page_table p1) a z s2)))"
    and "pa \<noteq> 0 \<Longrightarrow> vmm_map_range (p_page_table p1) a pa z f (s\<lparr>vpmm := pm\<rparr>) = (True, s2) \<Longrightarrow>
      process_set_user_region_mapping a z pa PROCESS_USER_REGION_OWNED_PAGES p1 = (True, p2) \<Longrightarrow>
      user_vm_map_anonymous 0 sz flags p s = (Inr a, p2, s2)"
  using assms by (simp_all add: user_vm_map_anonymous_def Let_def)

lemma map_anonymous_pages:
  assumes ok: "vm_ok R s" and g: "p_page_table p \<in> R" and m: "mmap_ok p s"
    and f: "flags_to_vmm flags = Some f" "p_page_table p \<noteq> 0" "user_page_align_up sz = z" "z \<noteq> 0"
    and al: "process_alloc_user_region z p = (Some a, p1)" and eq: "user_vm_map_anonymous 0 sz flags p s = (res, p', s')"
  shows "mmap_ok p' s' \<and> (case res of Inl e \<Rightarrow> vm_restored R p s p' s' | Inr a \<Rightarrow> \<exists>pa. anon_mapped R p s a z pa p' s')"
proof -
  have z: "unat z mod 4096 = 0" using user_page_align_up_nonzero(1) [of sz] f by simp
  have rok: "region_ok p" using m by (simp add: mmap_ok_def)
  obtain pa pm where pg: "pmm_alloc_pages (z div PAGE_SIZE) (vpmm s) = (pa, pm)" by fastforce
  note ex = alloc_region_exact [OF rok z al]
  note run = map_anonymous_run [OF f al pg, unfolded eq ex(8)]
  show ?thesis
  proof (cases "pa = 0")
    case True
    have "0 < unat z" using f(4) by (simp add: unat_gt_0)
    then have "unat (z div PAGE_SIZE) \<noteq> 0" using z by (auto simp: unat_div div_eq_0_iff dest: dvd_imp_le)
    then have "z div PAGE_SIZE \<noteq> 0" by (metis unat_0)
    with True have "pm = vpmm s" using pmm_alloc_pages_zero [OF vm_ok_ready [OF ok] _ pg [unfolded True]] by simp
    with run(1) [OF True] show ?thesis using removed_region_restores [OF rok z al m ok _ g] by simp
  next
    case False
    note t = alloc_pages_takes [OF ok z f(4) pg False]
    obtain b s2 where mp: "vmm_map_range (p_page_table p) a pa z f (s\<lparr>vpmm := pm\<rparr>) = (b, s2)" by fastforce
    obtain c p2 where st: "process_set_user_region_mapping a z pa PROCESS_USER_REGION_OWNED_PAGES p1 = (c, p2)" by fastforce
    show ?thesis
    proof (cases b)
      case True
      then have "b = True" by simp
      note mp = mp [unfolded this]
      note su = map_succeeds [OF ok g m z f(4) al t(1,3) mp st]
      then have "c = True" by simp
      from run(3) [OF False mp st [unfolded this]] su show ?thesis by auto
    next
      case f2: False
      then have "b = False" by simp
      note mp = mp [unfolded this]
      from run(2) [OF False mp] failed_map_restores [OF ok g m z f(4) al t(1) mp refl] show ?thesis by simp
    qed
  qed
qed

lemma map_anonymous_effect:
  assumes ok: "vm_ok R s" and g: "p_page_table p \<in> R" and m: "mmap_ok p s"
    and eq: "user_vm_map_anonymous hint sz flags p s = (res, p', s')"
  shows "mmap_ok p' s' \<and> (case res of Inl e \<Rightarrow> vm_restored R p s p' s'
    | Inr a \<Rightarrow> \<exists>pa. anon_mapped R p s a (user_page_align_up sz) pa p' s')"
proof -
  have rok: "region_ok p" using m by (simp add: mmap_ok_def)
  note rr = vm_restored_refl [OF ok rok]
  show ?thesis
  proof (cases rule: map_anonymous_split [OF eq])
    case (1 e)
    then show ?thesis using m rr by simp
  next
    case (2 f)
    obtain ao p1 where al: "process_alloc_user_region (user_page_align_up sz) p = (ao, p1)" by fastforce
    show ?thesis
    proof (cases "hint = 0 \<and> ao \<noteq> None")
      case True
      then show ?thesis using map_anonymous_pages [OF ok g m 2(1,2) refl 2(3)] al eq by auto
    next
      case False
      have "ao = None \<Longrightarrow> p1 = p" using alloc_region_effect [OF rok al] by simp
      then have "user_vm_map_anonymous hint sz flags p s = (Inl USER_VM_ERR_INVAL, p, s)"
        using False 2 al by (cases "hint = 0") (simp_all add: user_vm_map_anonymous_def Let_def)
      then show ?thesis using eq m rr by simp
    qed
  qed
qed

lemma map_anonymous_steps:
  assumes "user_vm_map_anonymous hint sz flags p s = (Inr a, p', s')" and "z = user_page_align_up sz"
  obtains f p1 pa pm where "z \<noteq> 0" "process_alloc_user_region z p = (Some a, p1)" "pmm_alloc_pages (z div PAGE_SIZE) (vpmm s) = (pa, pm)"
    "pa \<noteq> 0" "vmm_map_range (p_page_table p1) a pa z f (s\<lparr>vpmm := pm\<rparr>) = (True, s')"
    "process_set_user_region_mapping a z pa PROCESS_USER_REGION_OWNED_PAGES p1 = (True, p')"
  using assms(1) unfolding user_vm_map_anonymous_def Let_def assms(2) [symmetric]
  by (auto split: option.splits if_splits prod.splits bool.splits)

lemma unmap_after_map:
  assumes ok: "vm_ok R s" and g: "p_page_table p \<in> R" and m: "mmap_ok p s"
    and map: "user_vm_map_anonymous hint sz flags p s = (Inr a, p1, s1)"
    and eq: "user_vm_unmap_anonymous a sz p1 s1 = (res, p2, s2)"
  shows "res = Inr () \<and> mmap_ok p2 s2 \<and> vm_restored R p s p2 s2"
proof -
  let ?g = "p_page_table p"
  define z where "z = user_page_align_up sz"
  obtain f p0 pa pm where st: "z \<noteq> 0" "process_alloc_user_region z p = (Some a, p0)"
    "pmm_alloc_pages (z div PAGE_SIZE) (vpmm s) = (pa, pm)" "pa \<noteq> 0"
    "vmm_map_range (p_page_table p0) a pa z f (s\<lparr>vpmm := pm\<rparr>) = (True, s1)"
    "process_set_user_region_mapping a z pa PROCESS_USER_REGION_OWNED_PAGES p0 = (True, p1)"
    by (rule map_anonymous_steps [OF map z_def])
  have z: "unat z mod 4096 = 0" using user_page_align_up_nonzero(1) [of sz] st(1) by (simp add: z_def)
  have rok: "region_ok p" using m by (simp add: mmap_ok_def)
  note ex = alloc_region_exact [OF rok z st(2)]
  note t = alloc_pages_takes [OF ok z st(1,3,4)]
  note su = map_succeeds [OF ok g m z st(1,2) t(1,3) st(5) [unfolded ex(8)] st(6)]
  let ?new = "\<lparr>ur_start = a, ur_end = a + z, ur_paddr = pa, ur_flags = PROCESS_USER_REGION_OWNED_PAGES\<rparr>"
  have r1: "region_ok p1" "regions p1 = regions p @ [?new]" "p_page_table p1 = ?g"
    using su by (simp_all add: mmap_ok_def anon_mapped_def)
  have find: "process_find_user_region a z p1 = Some ?new" using find_region_at(2) [OF r1(1,2), of z] ex(6) by simp
  obtain p3 where rm: "process_remove_user_region a z p1 = (True, p3)" "region_ok p3" "regions p3 = regions p"
    using remove_last_region [OF r1(1,2), of z] ex(6) by auto
  note fr = remove_region_frame [OF rm(1)]
  obtain b s3 where un: "vmm_unmap_range ?g a z s1 = (b, s3)" by fastforce
  note tk = vm_ok_takes [OF ok t(1)]
  note u = vmm_unmap_mapped [OF tk(1) g st(1) st(5) [unfolded ex(8)] un]
  have k: "vm_keeps R ?g (s\<lparr>vpmm := pm\<rparr>) s1" using vmm_map_range_bytes [OF tk(1) g st(1) st(5) [unfolded ex(8)]] by simp
  have k3: "vm_keeps R ?g (s\<lparr>vpmm := pm\<rparr>) s3" using u vm_keeps_trans [OF k] by blast
  note fre = free_run_restores [OF ok t(1) k3]
  have "?g \<noteq> 0" using walk_table(4) [OF ok g paths_Nil root_walk] .
  moreover have "b = True" using u by simp
  ultimately have "user_vm_unmap_anonymous a sz p1 s1 = (Inr (), p3, free_page_range pa z s3)"
    unfolding user_vm_unmap_anonymous_def z_def [symmetric] Let_def by (simp add: find un rm r1(3) st)
  then have res: "res = Inr ()" "p2 = p3" "s2 = free_page_range pa z s3" using eq by simp_all
  have tr: "\<forall>r\<in>R. \<forall>v. translation s2 r v = translation s r v"
    unfolding res(3) fre(2) using u [unfolded tk(3)] by blast
  have "p_next_user_vaddr p1 = p_next_user_vaddr p0"
    using set_mapping_at [OF ex(1,7), of z pa 1] ex(6) st(6) by auto
  then have le: "p_next_user_vaddr p \<le> p_next_user_vaddr p2"
    using ex(3,4) fr(2) res(2) by (simp add: word_le_nat_alt)
  have "mmap_ok p2 s2" by (rule mmap_ok_mono [OF m _ le]) (use rm fr res r1 tr g in auto)
  then show ?thesis using res tr rm fr r1(3) fre by (simp add: vm_restored_def)
qed

section \<open>Properties\<close>

text \<open>Anonymous mappings are all or nothing. If \<open>user_vm_map_anonymous\<close> fails, at whatever step, the process has the regions
  it had, every address space translates as before and the pages are back (new page tables apart). If it succeeds, the process has one more
  region, owning a run of pages that were free and are now neither free nor page tables; every byte of the region was unmapped
  and now translates to the byte of the run at the same offset; all other pages of all address spaces are as
  before. In both cases nothing is mapped beyond the allocation pointer, so the next call starts from the same state of affairs.\<close>

theorem user_vm_map_anonymous_correct:
  assumes "vm_ok R s" and "p_page_table p \<in> R" and "mmap_ok p s"
    and "user_vm_map_anonymous hint sz flags p s = (res, p', s')"
  shows "mmap_ok p' s' \<and> (case res of Inl e \<Rightarrow> vm_restored R p s p' s'
    | Inr a \<Rightarrow> \<exists>pa. anon_mapped R p s a (user_page_align_up sz) pa p' s')"
  by (rule map_anonymous_effect [OF assms])

definition process_vm :: process where
  "process_vm = process_demo\<lparr>p_page_table := boot_pgd\<rparr>"

lemma process_vm_ok: "p_page_table process_vm = boot_pgd" "mmap_ok process_vm boot_space"
proof -
  show pt: "p_page_table process_vm = boot_pgd" by (simp add: process_vm_def)
  have "region_ok process_demo" by (simp add: process_demo_def process_init_regions)
  then have "region_ok process_vm" by (simp add: process_vm_def region_ok_def regions_def)
  then show "mmap_ok process_vm boot_space" unfolding mmap_ok_def pt using boot_space_ok(4) by blast
qed

theorem user_vm_map_anonymous_correct_witness:
  "case user_vm_map_anonymous 0 5000 3 process_vm boot_space of
     (Inl e, p', s') \<Rightarrow> vm_restored {boot_pgd} process_vm boot_space p' s'
   | (Inr a, p', s') \<Rightarrow> vm_ok {boot_pgd} s' \<and> map ur_start (regions p') = [a]"
proof -
  obtain res p' s' where eq: "user_vm_map_anonymous 0 5000 3 process_vm boot_space = (res, p', s')" by (metis prod_cases3)
  have "regions process_vm = []" using process_init_regions(2) [of 1 "Some ''demo''"]
    by (simp add: process_vm_def regions_def process_demo_def)
  then show ?thesis
    using user_vm_map_anonymous_correct [OF boot_space_ok(2) _ process_vm_ok(2) eq] process_vm_ok(1) eq
    by (auto simp: anon_mapped_def split: sum.splits)
qed

text \<open>C12 An anonymous mapping can be undone. Either \<open>user_vm_map_anonymous\<close> fails and restores everything, or \<open>user_vm_unmap_anonymous\<close> of
  the address it returned and the same size succeeds: the process has the regions it had before the two calls, every address
  space translates as before them, and all pages of the mapping are free again.\<close>

theorem user_vm_map_unmap_round_trip:
  assumes "vm_ok R s" and "p_page_table p \<in> R" and "mmap_ok p s"
  shows "case user_vm_map_anonymous hint sz flags p s of
      (Inl e, p', s') \<Rightarrow> vm_restored R p s p' s'
    | (Inr a, p1, s1) \<Rightarrow>
        (case user_vm_unmap_anonymous a sz p1 s1 of (res, p2, s2) \<Rightarrow> res = Inr () \<and> mmap_ok p2 s2 \<and> vm_restored R p s p2 s2)"
proof -
  obtain r p' s' where eq: "user_vm_map_anonymous hint sz flags p s = (r, p', s')" by (metis prod_cases3)
  show ?thesis
  proof (cases r)
    case (Inl e)
    then show ?thesis using map_anonymous_effect [OF assms eq] eq by simp
  next
    case (Inr a)
    then show ?thesis using unmap_after_map [OF assms eq [unfolded Inr]] eq by auto
  qed
qed

theorem user_vm_map_unmap_round_trip_witness:
  "case user_vm_map_anonymous 0 5000 3 process_vm boot_space of
      (Inl e, p', s') \<Rightarrow> regions p' = regions process_vm
    | (Inr a, p1, s1) \<Rightarrow>
        (case user_vm_unmap_anonymous a 5000 p1 s1 of (res, p2, s2) \<Rightarrow> res = Inr () \<and> regions p2 = regions process_vm)"
  using user_vm_map_unmap_round_trip [OF boot_space_ok(2) _ process_vm_ok(2), where hint = 0 and sz = 5000 and flags = 3] process_vm_ok(1)
  by (auto simp: vm_restored_def split: sum.splits prod.splits)

end
