(* ===== verification/Loader.thy ===== *)
theory Loader
  imports Region Vfs
begin

text \<open>
  Program images: the registry of embedded programs (\<open>kernel/boot_program.c\<close>), the boot file system over it
  (\<open>kernel/bootfs.c\<close>), the loader of flat KLI1 images (\<open>kernel/user_image.c\<close>) and the packing of the
  arguments on the stack of a new process (\<open>kernel/panel_boot_argv.c\<close>). These functions
  read and write memory through pointers, so the memory is a function from addresses to bytes, passed in and returned. The address ranges of
  the embedded blobs are linker symbols: the list \<open>blobs\<close> of start and end addresses, in the order
  of \<open>g_boot_programs\<close>, is a parameter.
\<close>

type_synonym memory = "u64 \<Rightarrow> u8"

section \<open>Memory\<close>

definition load_le :: "memory \<Rightarrow> u64 \<Rightarrow> nat \<Rightarrow> u64" where
  "load_le m a n = foldr (\<lambda>i acc. push_bit 8 acc OR ucast (m (a + of_nat i))) [0..<n] 0"

definition store_u64 :: "u64 \<Rightarrow> u64 \<Rightarrow> memory \<Rightarrow> memory" where
  "store_u64 dst v m = fold (\<lambda>i m. m(dst + of_nat i := ucast (drop_bit (i * 8) v))) [0..<8] m"

definition copy_bytes :: "u64 \<Rightarrow> u64 \<Rightarrow> nat \<Rightarrow> memory \<Rightarrow> memory" where
  "copy_bytes dst src n m = fold (\<lambda>i m. m(dst + of_nat i := m (src + of_nat i))) [0..<n] m"

section \<open>Images\<close>

abbreviation USER_IMAGE_MAGIC :: u64 where "USER_IMAGE_MAGIC \<equiv> 0x31494c4b"
abbreviation USER_IMAGE_MAX_ENTRIES :: u64 where "USER_IMAGE_MAX_ENTRIES \<equiv> 8"
abbreviation USER_IMAGE_HEADER_SIZE :: u64 where "USER_IMAGE_HEADER_SIZE \<equiv> 80"

record user_image =
  im_name :: string
  im_base :: u64
  im_size :: u64
  im_entry_offset :: u64

text \<open>The fields of \<open>user_flat_image_header_t\<close> at an address.\<close>

definition h_magic :: "memory \<Rightarrow> u64 \<Rightarrow> u64" where "h_magic m a = load_le m a 4"
definition h_header_size :: "memory \<Rightarrow> u64 \<Rightarrow> u64" where "h_header_size m a = load_le m (a + 4) 2"
definition h_entry_count :: "memory \<Rightarrow> u64 \<Rightarrow> u64" where "h_entry_count m a = load_le m (a + 6) 2"
definition h_image_size :: "memory \<Rightarrow> u64 \<Rightarrow> u64" where "h_image_size m a = load_le m (a + 8) 8"
definition h_entry_offset :: "memory \<Rightarrow> u64 \<Rightarrow> nat \<Rightarrow> u64" where
  "h_entry_offset m a i = load_le m (a + 16 + of_nat i * 8) 8"

definition add_u64_checked :: "u64 \<Rightarrow> u64 \<Rightarrow> u64 option" where
  "add_u64_checked a b = (if a > - 1 - b then None else Some (a + b))"

definition user_image_entry :: "user_image \<Rightarrow> u64" where
  "user_image_entry img =
     (if im_base img = 0 \<or> im_size img = 0 \<or> im_entry_offset img \<ge> im_size img then 0
      else case add_u64_checked (im_base img) (im_entry_offset img) of None \<Rightarrow> 0 | Some entry \<Rightarrow> entry)"

definition user_image_load_copy ::
    "string \<Rightarrow> u64 \<Rightarrow> u64 \<Rightarrow> u64 \<Rightarrow> u64 \<Rightarrow> u64 \<Rightarrow> memory \<Rightarrow> (user_image \<times> memory) option" where
  "user_image_load_copy name load_base load_capacity source_base src_size source_entry m =
     (if load_base = 0 \<or> load_capacity = 0 \<or> source_base = 0 \<or> src_size = 0 \<or> src_size > load_capacity \<or>
         source_entry < source_base \<or> source_entry - source_base \<ge> src_size then None
      else Some (\<lparr>im_name = name, im_base = load_base, im_size = src_size, im_entry_offset = source_entry - source_base\<rparr>,
                 copy_bytes load_base source_base (unat src_size) m))"

definition user_image_load_flat ::
    "string \<Rightarrow> u64 \<Rightarrow> u64 \<Rightarrow> u64 \<Rightarrow> u64 \<Rightarrow> u32 \<Rightarrow> memory \<Rightarrow> (user_image \<times> memory) option" where
  "user_image_load_flat name load_base load_capacity source_base source_capacity entry_index m =
     (if source_base = 0 \<or> source_capacity < 4 then None
      else if h_magic m source_base = USER_IMAGE_MAGIC then
        (if source_capacity < USER_IMAGE_HEADER_SIZE \<or> h_header_size m source_base \<noteq> USER_IMAGE_HEADER_SIZE \<or>
            h_header_size m source_base > h_image_size m source_base \<or> h_entry_count m source_base = 0 \<or>
            h_entry_count m source_base > USER_IMAGE_MAX_ENTRIES \<or> ucast entry_index \<ge> h_entry_count m source_base \<or>
            h_image_size m source_base > source_capacity then None
         else
           (let header_size = h_header_size m source_base; image_size = h_image_size m source_base;
                entry_offset = h_entry_offset m source_base (unat entry_index)
            in if entry_offset < header_size \<or> entry_offset \<ge> image_size then None
               else case add_u64_checked source_base entry_offset of
                   None \<Rightarrow> None
                 | Some source_entry \<Rightarrow>
                     user_image_load_copy name load_base load_capacity source_base image_size source_entry m))
      else None)"

definition user_image_prepare_process :: "user_image \<Rightarrow> u64 \<Rightarrow> u64 \<Rightarrow> u64 \<Rightarrow> process \<Rightarrow> bool \<times> process" where
  "user_image_prepare_process img stack_start stack_size pstate p =
     (let entry = user_image_entry img
      in if entry = 0 \<or> stack_start = 0 \<or> stack_size = 0 then (False, p)
         else case add_u64_checked stack_start stack_size of
             None \<Rightarrow> (False, p)
           | Some stack_top \<Rightarrow>
               (let p1 = process_set_entry entry stack_top pstate p
                in case process_add_user_region (im_base img) (im_size img) p1 of
                     (False, p2) \<Rightarrow> (False, process_set_entry (p_pc p) (p_sp p) (p_pstate p) p2)
                   | (True, p2) \<Rightarrow>
                       (case process_add_user_region stack_start stack_size p2 of
                          (True, p3) \<Rightarrow> (True, p3)
                        | (False, p3) \<Rightarrow>
                            (False, process_set_entry (p_pc p) (p_sp p) (p_pstate p)
                               (snd (process_remove_user_region (im_base img) (im_size img) p3))))))"

section \<open>The registry of embedded programs\<close>

record boot_program =
  bp_name :: string
  bp_image :: u64
  bp_size :: u64

definition g_boot_programs :: "string list" where
  "g_boot_programs = [''shell'', ''editor'', ''files'', ''monitor'', ''panel'', ''clock'']"

definition boot_program_source_is_kli1 :: "memory \<Rightarrow> u64 \<times> u64 \<Rightarrow> u64 option" where
  "boot_program_source_is_kli1 m blob =
     (case blob of (start, e) \<Rightarrow>
        if start = 0 \<or> e \<le> start then None
        else
          (let sz = e - start
           in if sz < USER_IMAGE_HEADER_SIZE then None
              else if h_magic m start \<noteq> USER_IMAGE_MAGIC \<or> h_header_size m start \<noteq> USER_IMAGE_HEADER_SIZE \<or>
                      h_image_size m start > sz \<or> h_entry_count m start = 0 \<or>
                      h_entry_count m start > USER_IMAGE_MAX_ENTRIES then None
              else if first_index (unat (h_entry_count m start))
                        (\<lambda>i. h_entry_offset m start i < h_header_size m start \<or> h_entry_offset m start i \<ge> h_image_size m start) \<noteq> None
                   then None
              else Some sz))"

definition boot_program_find :: "(u64 \<times> u64) list \<Rightarrow> memory \<Rightarrow> string \<Rightarrow> boot_program option" where
  "boot_program_find blobs m name =
     (if name = [] then None
      else map_option (\<lambda>i. \<lparr>bp_name = g_boot_programs ! i, bp_image = fst (blobs ! i),
                             bp_size = the (boot_program_source_is_kli1 m (blobs ! i))\<rparr>)
             (first_index (length g_boot_programs)
                (\<lambda>i. cstr_loop_eq (g_boot_programs ! i) name \<and> boot_program_source_is_kli1 m (blobs ! i) \<noteq> None)))"

section \<open>The boot file system\<close>

definition g_bootfs_entries :: "(string \<times> string) list" where
  "g_bootfs_entries = [(''shell'', ''/armonios/shell''), (''editor'', ''/armonios/editor''), (''files'', ''/armonios/files''),
     (''monitor'', ''/armonios/monitor''), (''panel'', ''/armonios/panel''), (''clock'', ''/armonios/clock'')]"

definition bootfs_find :: "(u64 \<times> u64) list \<Rightarrow> memory \<Rightarrow> string \<Rightarrow> boot_program option" where
  "bootfs_find blobs m name =
     (case boot_program_find blobs m name of
        None \<Rightarrow> None
      | Some program \<Rightarrow>
          map_option (\<lambda>i. program)
            (first_index (length g_bootfs_entries) (\<lambda>i. cstr_loop_eq (bp_name program) (fst (g_bootfs_entries ! i)))))"

definition bootfs_read :: "(u64 \<times> u64) list \<Rightarrow> memory \<Rightarrow> string \<Rightarrow> u64 \<Rightarrow> u64 \<Rightarrow> u8 list option" where
  "bootfs_read blobs m name offset capacity =
     (case bootfs_find blobs m name of
        None \<Rightarrow> None
      | Some file \<Rightarrow>
          if offset > bp_size file then None
          else
            (let available = bp_size file - offset;
                 count = (if capacity > available then available else capacity)
             in Some (map (\<lambda>i. m (bp_image file + offset + of_nat i)) [0..<unat count])))"

definition bootfs_vfs_read :: "(u64 \<times> u64) list \<Rightarrow> memory \<Rightarrow> string \<Rightarrow> 'b \<Rightarrow> u64 \<Rightarrow> u64 \<Rightarrow> int \<times> u64 \<times> u8 list" where
  "bootfs_vfs_read blobs m name b offset capacity =
     (case bootfs_read blobs m name offset capacity of
        None \<Rightarrow> (-1, 0, [])
      | Some bytes \<Rightarrow> (0, of_nat (length bytes), bytes))"

definition bootfs_mount_vfs :: "(u64 \<times> u64) list \<Rightarrow> memory \<Rightarrow> 'b vfs \<Rightarrow> bool \<times> 'b vfs" where
  "bootfs_mount_vfs blobs m s =
     (let nodes = concat (map (\<lambda>(name, path).
            case bootfs_find blobs m name of
              None \<Rightarrow> []
            | Some file \<Rightarrow>
                if bp_size file = 0 then []
                else [\<lparr>vn_path = Some path, vn_size = bp_size file, vn_read = Some (bootfs_vfs_read blobs m (bp_name file)),
                       vn_write = None, vn_stat = None\<rparr>]) g_bootfs_entries)
      in if nodes = [] then (False, s) else vfs_mount_static nodes s)"

definition user_image_load_bootfs_flat ::
    "(u64 \<times> u64) list \<Rightarrow> string \<Rightarrow> string \<Rightarrow> u64 \<Rightarrow> u64 \<Rightarrow> u32 \<Rightarrow> memory \<Rightarrow> (user_image \<times> memory) option" where
  "user_image_load_bootfs_flat blobs image_name bootfs_name load_base load_capacity entry_index m =
     (case bootfs_find blobs m bootfs_name of
        None \<Rightarrow> None
      | Some file \<Rightarrow> user_image_load_flat image_name load_base load_capacity (bp_image file) (bp_size file) entry_index m)"

section \<open>Arguments on the stack\<close>

abbreviation PANEL_BOOT_ARGV_MAX_STRINGS :: u32 where "PANEL_BOOT_ARGV_MAX_STRINGS \<equiv> 8"
abbreviation PANEL_BOOT_ARGV_MAX_BYTES :: nat where "PANEL_BOOT_ARGV_MAX_BYTES \<equiv> 256"

function measure_string :: "memory \<Rightarrow> u64 \<Rightarrow> nat \<Rightarrow> nat \<Rightarrow> nat option" where
  "measure_string m str len string_bytes =
     (if string_bytes + 1 > PANEL_BOOT_ARGV_MAX_BYTES then None
      else if m (str + of_nat len) = 0 then Some (string_bytes + 1)
      else measure_string m str (len + 1) (string_bytes + 1))"
  by auto
termination by (relation "measure (\<lambda>(m, str, len, sb). 256 - sb)") auto

fun measure_argv :: "memory \<Rightarrow> u64 \<Rightarrow> nat \<Rightarrow> nat \<Rightarrow> nat \<Rightarrow> nat option" where
  "measure_argv m argv_ptr i 0 string_bytes = Some string_bytes"
| "measure_argv m argv_ptr i (Suc n) string_bytes =
     (let str = load_le m (argv_ptr + of_nat i * 8) 8
      in if str = 0 then None
         else case measure_string m str 0 string_bytes of
             None \<Rightarrow> None
           | Some sb \<Rightarrow> measure_argv m argv_ptr (Suc i) n sb)"

partial_function (option) copy_string :: "u64 \<Rightarrow> u64 \<Rightarrow> nat \<Rightarrow> memory \<Rightarrow> (nat \<times> memory) option" where
  "copy_string src dst len m =
     (let c = m (src + of_nat len);
          m' = m(dst + of_nat len := c)
      in if c = 0 then Some (len + 1, m') else copy_string src dst (len + 1) m')"

text \<open>The loop over the arguments, \<open>n\<close> of them left; \<open>None\<close> stands for a copy loop that does not end.\<close>

fun copy_argv :: "u64 \<Rightarrow> u64 \<Rightarrow> u64 \<Rightarrow> u64 \<Rightarrow> nat \<Rightarrow> nat \<Rightarrow> u64 \<Rightarrow> memory \<Rightarrow> memory option" where
  "copy_argv stack stack_base argv_vaddr argv_ptr i 0 cursor m =
     Some (store_u64 (stack + (argv_vaddr - stack_base) + of_nat i * 8) 0 m)"
| "copy_argv stack stack_base argv_vaddr argv_ptr i (Suc n) cursor m =
     (case copy_string (load_le m (argv_ptr + of_nat i * 8) 8) (stack + (cursor - stack_base)) 0 m of
        None \<Rightarrow> None
      | Some (len, m1) \<Rightarrow>
          copy_argv stack stack_base argv_vaddr argv_ptr (Suc i) n (cursor + of_nat len)
            (store_u64 (stack + (argv_vaddr - stack_base) + of_nat i * 8) cursor m1))"

definition panel_boot_place_argv_on_stack ::
    "u64 \<Rightarrow> u64 \<Rightarrow> u64 \<Rightarrow> u64 \<Rightarrow> u32 \<Rightarrow> memory \<Rightarrow> (u64 option \<times> memory) option" where
  "panel_boot_place_argv_on_stack stack stack_base stack_size argv_ptr argc m =
     (if stack = 0 \<or> stack_size = 0 then Some (None, m)
      else if argc = 0 then Some (Some 0, m)
      else if argv_ptr = 0 \<or> argc > PANEL_BOOT_ARGV_MAX_STRINGS then Some (None, m)
      else case measure_argv m argv_ptr 0 (unat argc) 0 of
          None \<Rightarrow> Some (None, m)
        | Some string_bytes \<Rightarrow>
            (let table = (ucast (argc + 1) :: u64) * 8;
                 total = (of_nat string_bytes + table + 15) AND NOT 15
             in if total > stack_size \<or> stack_base + stack_size < stack_base then Some (None, m)
                else
                  (let argv_vaddr = stack_base + stack_size - total
                   in case copy_argv stack stack_base argv_vaddr argv_ptr 0 (unat argc) (argv_vaddr + table) m of
                        None \<Rightarrow> None
                      | Some m' \<Rightarrow> Some (Some argv_vaddr, m'))))"

section \<open>Bytes in memory\<close>

lemma addr_inj: "i < 2 ^ 64 \<Longrightarrow> j < 2 ^ 64 \<Longrightarrow> (a :: u64) + of_nat i = a + of_nat j \<longleftrightarrow> i = j"
  by (metis add_left_cancel unat_of_nat_u64)

lemma fold_fun_upd_outside:
  assumes "\<And>i. i \<in> set is \<Longrightarrow> f i \<noteq> x"
  shows "fold (\<lambda>i m. m(f i := g i m)) is m x = m x"
  using assms by (induction "is" arbitrary: m) auto

lemma copy_bytes_outside: "(\<And>i. i < n \<Longrightarrow> dst + of_nat i \<noteq> x) \<Longrightarrow> copy_bytes dst src n m x = m x"
  unfolding copy_bytes_def by (rule fold_fun_upd_outside) simp

lemma copy_bytes_inside:
  assumes "n \<le> 2 ^ 64" and "\<And>i j. i < n \<Longrightarrow> j < n \<Longrightarrow> dst + of_nat i \<noteq> src + of_nat j" and "k < n"
  shows "copy_bytes dst src n m (dst + of_nat k) = m (src + of_nat k)"
  using assms
proof (induction n)
  case (Suc n)
  have *: "copy_bytes dst src n m (src + of_nat n) = m (src + of_nat n)"
    using Suc.prems(2) [of _ n] by (intro copy_bytes_outside) simp
  show ?case
  proof (cases "k = n")
    case True
    then show ?thesis using * by (simp add: copy_bytes_def)
  next
    case False
    then have "k < n" "dst + of_nat n \<noteq> dst + of_nat k" using Suc.prems addr_inj [of n k dst] by simp_all
    then show ?thesis using Suc by (simp add: copy_bytes_def)
  qed
qed simp

lemma store_u64_outside: "(\<And>i. i < 8 \<Longrightarrow> dst + of_nat i \<noteq> x) \<Longrightarrow> store_u64 dst v m x = m x"
  unfolding store_u64_def by (rule fold_fun_upd_outside) simp

lemma store_u64_inside:
  assumes "k < 8"
  shows "store_u64 dst v m (dst + of_nat k) = ucast (drop_bit (k * 8) v)"
proof -
  have "fold (\<lambda>i m. m(dst + of_nat i := ucast (drop_bit (i * 8) v))) [0..<n] m (dst + of_nat k) = (ucast (drop_bit (k * 8) v) :: u8)"
    if "k < n" "n \<le> 8" for n
    using that
  proof (induction n)
    case (Suc n)
    then show ?case using addr_inj [of n k dst] by (cases "k = n") simp_all
  qed simp
  then show ?thesis using assms by (simp add: store_u64_def)
qed

lemma load_le_Suc: "load_le m a (Suc n) = push_bit 8 (load_le m (a + 1) n) OR ucast (m a)"
proof -
  have "[0..<Suc n] = 0 # map Suc [0..<n]" by (metis upt_conv_Cons zero_less_Suc map_Suc_upt)
  then show ?thesis unfolding load_le_def by (simp add: foldr_map comp_def add.assoc)
qed

lemma bit_load_le:
  "bit (load_le m a n) k \<longleftrightarrow> k < 64 \<and> k < 8 * n \<and> bit (m (a + of_nat (k div 8))) (k mod 8)"
proof (induction n arbitrary: a k)
  case 0
  then show ?case by (simp add: load_le_def)
next
  case (Suc n)
  show ?case
  proof (cases "k < 8")
    case True
    then show ?thesis by (simp add: load_le_Suc bit_simps)
  next
    case False
    define j where "j = k - 8"
    have k: "k = j + 8" using False by (simp add: j_def)
    have "(j + 8) div 8 = Suc (j div 8)" by simp
    then have a: "a + of_nat ((j + 8) div 8) = a + 1 + of_nat (j div 8)" by (simp only: of_nat_Suc add.assoc)
    have "\<not> bit (ucast (m a) :: u64) k" using False bit_imp_le_length [of "m a" k] by (auto simp: bit_simps)
    then show ?thesis using Suc [of "a + 1" j] unfolding load_le_Suc k a by (auto simp: bit_simps)
  qed
qed

lemma load_store_u64: "load_le (store_u64 a v m) a 8 = v"
proof (rule bit_word_eqI)
  fix k assume "k < LENGTH(64)"
  then have k: "k < 64" by simp
  then have "k div 8 < 8" by (simp add: less_mult_imp_div_less)
  moreover have "k mod 8 < LENGTH(8)" using mod_less_divisor [of 8 k] by simp
  ultimately show "bit (load_le (store_u64 a v m) a 8) k = bit v k"
    using k by (simp only: bit_load_le store_u64_inside bit_ucast_iff bit_drop_bit_eq comp_apply) (simp add: ac_simps)
qed

lemma load_le_cong: "(\<And>i. i < n \<Longrightarrow> m (a + of_nat i) = m' (a + of_nat i)) \<Longrightarrow> load_le m a n = load_le m' a n"
  unfolding load_le_def by (rule foldr_cong) auto

section \<open>Strings in memory\<close>

definition cstr_at :: "memory \<Rightarrow> u64 \<Rightarrow> u8 list \<Rightarrow> bool" where
  "cstr_at m a s \<longleftrightarrow> (\<forall>i<length s. m (a + of_nat i) = s ! i) \<and> 0 \<notin> set s \<and> m (a + of_nat (length s)) = 0"

definition bytes_of :: "u8 list list \<Rightarrow> nat" where
  "bytes_of ss = (\<Sum>s\<leftarrow>ss. length s + 1)"

lemma bytes_of_simps [simp]: "bytes_of [] = 0" "bytes_of (s # ss) = length s + 1 + bytes_of ss"
  by (simp_all add: bytes_of_def)

lemma cstr_at_cong:
  "cstr_at m a s \<Longrightarrow> (\<And>i. i \<le> length s \<Longrightarrow> m' (a + of_nat i) = m (a + of_nat i)) \<Longrightarrow> cstr_at m' a s"
  unfolding cstr_at_def by simp

lemma cstr_at_nonzero: "cstr_at m a s \<Longrightarrow> i < length s \<Longrightarrow> m (a + of_nat i) \<noteq> 0"
  unfolding cstr_at_def by (metis nth_mem)

lemma cstr_at_unique:
  assumes "cstr_at m a s" and "cstr_at m a t"
  shows "s = t"
proof -
  have le: "length s \<le> length t" if "cstr_at m a s" "cstr_at m a t" for s t
    using cstr_at_nonzero [OF that(1), of "length t"] that(2) by (force simp: cstr_at_def not_le)
  have "length s = length t" using le [OF assms] le [OF assms(2,1)] by simp
  then show ?thesis using assms by (auto simp: cstr_at_def intro!: nth_equalityI)
qed

lemma measure_string_cstr:
  assumes "cstr_at m a s" and "len \<le> length s" and "sb + (length s - len) + 1 \<le> 256"
  shows "measure_string m a len sb = Some (sb + (length s - len) + 1)"
  using assms(2,3)
proof (induction "length s - len" arbitrary: len sb)
  case 0
  then have "len = length s" by simp
  then show ?case using assms(1) 0 by (subst measure_string.simps) (simp add: cstr_at_def)
next
  case (Suc d)
  then have len: "len < length s" by simp
  have "sb + 1 \<le> 256" using Suc.prems len by simp
  then have "measure_string m a len sb = measure_string m a (len + 1) (sb + 1)"
    using cstr_at_nonzero [OF assms(1) len] by (subst measure_string.simps) (simp del: measure_string.simps)
  moreover have "measure_string m a (len + 1) (sb + 1) = Some (sb + 1 + (length s - (len + 1)) + 1)"
    by (rule Suc.hyps(1)) (use Suc.hyps(2) Suc.prems len in simp_all)
  ultimately show ?case using len by (simp del: measure_string.simps)
qed

lemma copy_string_cstr:
  assumes "cstr_at m src s" and "length s < 2 ^ 64"
    and sep: "\<And>i j. i \<le> length s \<Longrightarrow> j \<le> length s \<Longrightarrow> dst + of_nat i \<noteq> src + of_nat j"
  shows "copy_string src dst 0 m = Some (length s + 1, copy_bytes dst src (length s + 1) m)"
proof -
  have "copy_string src dst len (copy_bytes dst src len m) = Some (length s + 1, copy_bytes dst src (length s + 1) m)"
    if "len \<le> length s" for len
    using that
  proof (induction "length s - len" arbitrary: len)
    case 0
    then have len: "len = length s" by simp
    have "copy_bytes dst src len m (src + of_nat len) = m (src + of_nat len)"
      using sep [of _ len] len by (intro copy_bytes_outside) simp
    then show ?case using assms(1) len by (subst copy_string.simps) (simp add: cstr_at_def copy_bytes_def)
  next
    case (Suc d)
    have "copy_bytes dst src len m (src + of_nat len) = m (src + of_nat len)"
      using sep [of _ len] Suc.prems Suc.hyps(2) by (intro copy_bytes_outside) simp
    moreover have "m (src + of_nat len) \<noteq> 0" using cstr_at_nonzero [OF assms(1), of len] Suc.hyps(2) by simp
    ultimately have "copy_string src dst len (copy_bytes dst src len m) = copy_string src dst (len + 1) (copy_bytes dst src (len + 1) m)"
      by (subst copy_string.simps) (simp add: copy_bytes_def)
    then show ?case using Suc.hyps(1) [of "len + 1"] Suc.hyps(2) Suc.prems by simp
  qed
  from this [of 0] show ?thesis by (simp add: copy_bytes_def)
qed

lemma copied_cstr:
  assumes "cstr_at m src s" and "length s < 2 ^ 63"
    and "\<And>i j. i \<le> length s \<Longrightarrow> j \<le> length s \<Longrightarrow> dst + of_nat i \<noteq> src + of_nat j"
  shows "cstr_at (copy_bytes dst src (length s + 1) m) dst s"
proof -
  have "copy_bytes dst src (length s + 1) m (dst + of_nat k) = m (src + of_nat k)" if "k \<le> length s" for k
    using assms that by (intro copy_bytes_inside) simp_all
  then show ?thesis using assms(1) by (simp add: cstr_at_def)
qed

section \<open>Packing the arguments\<close>

text \<open>
  The pointers from index \<open>i\<close> of the array at \<open>ap\<close> point to the strings \<open>ss\<close>, and neither the pointers nor the
  strings lie in \<open>S\<close>.
\<close>

definition args_from :: "u64 set \<Rightarrow> memory \<Rightarrow> u64 \<Rightarrow> nat \<Rightarrow> u8 list list \<Rightarrow> bool" where
  "args_from S m ap i ss \<longleftrightarrow> (\<forall>j<length ss. load_le m (ap + of_nat (i + j) * 8) 8 \<noteq> 0 \<and>
     cstr_at m (load_le m (ap + of_nat (i + j) * 8) 8) (ss ! j) \<and> (\<forall>b<8. ap + of_nat (i + j) * 8 + of_nat b \<notin> S) \<and>
     (\<forall>b\<le>length (ss ! j). load_le m (ap + of_nat (i + j) * 8) 8 + of_nat b \<notin> S))"

lemma args_from_cong:
  assumes a: "args_from S m ap i ss" and eq: "\<And>x. x \<notin> S \<Longrightarrow> m' x = m x"
  shows "args_from S m' ap i ss"
  unfolding args_from_def
proof (intro allI impI)
  fix j assume j: "j < length ss"
  let ?p = "load_le m (ap + of_nat (i + j) * 8) 8"
  from a j have p: "?p \<noteq> 0" "cstr_at m ?p (ss ! j)" "\<forall>b<8. ap + of_nat (i + j) * 8 + of_nat b \<notin> S" "\<forall>b\<le>length (ss ! j). ?p + of_nat b \<notin> S"
    unfolding args_from_def by blast+
  have "load_le m' (ap + of_nat (i + j) * 8) 8 = ?p" using p(3) eq by (intro load_le_cong) blast
  moreover have "cstr_at m' ?p (ss ! j)" using p(2) by (rule cstr_at_cong) (use p(4) eq in blast)
  ultimately show "load_le m' (ap + of_nat (i + j) * 8) 8 \<noteq> 0 \<and> cstr_at m' (load_le m' (ap + of_nat (i + j) * 8) 8) (ss ! j) \<and>
      (\<forall>b<8. ap + of_nat (i + j) * 8 + of_nat b \<notin> S) \<and> (\<forall>b\<le>length (ss ! j). load_le m' (ap + of_nat (i + j) * 8) 8 + of_nat b \<notin> S)"
    using p by simp
qed

lemma args_from_Cons:
  assumes "args_from S m ap i (s # ss)"
  shows "load_le m (ap + of_nat i * 8) 8 \<noteq> 0" and "cstr_at m (load_le m (ap + of_nat i * 8) 8) s"
    and "\<And>b. b \<le> length s \<Longrightarrow> load_le m (ap + of_nat i * 8) 8 + of_nat b \<notin> S" and "args_from S m ap (Suc i) ss"
proof -
  note a = assms [unfolded args_from_def]
  from a [rule_format, of 0] show "load_le m (ap + of_nat i * 8) 8 \<noteq> 0" "cstr_at m (load_le m (ap + of_nat i * 8) 8) s"
    "\<And>b. b \<le> length s \<Longrightarrow> load_le m (ap + of_nat i * 8) 8 + of_nat b \<notin> S" by simp_all
  show "args_from S m ap (Suc i) ss" unfolding args_from_def
    using a [rule_format, of "Suc _"] by (simp only: length_Cons Suc_less_eq nth_Cons_Suc add_Suc_right add_Suc) blast
qed

lemma measure_argv_args:
  assumes "args_from S m ap i ss" and "sb + bytes_of ss \<le> 256"
  shows "measure_argv m ap i (length ss) sb = Some (sb + bytes_of ss)"
  using assms
proof (induction ss arbitrary: i sb)
  case (Cons s ss)
  note a = args_from_Cons [OF Cons.prems(1)]
  have "measure_string m (load_le m (ap + of_nat i * 8) 8) 0 sb = Some (sb + length s + 1)"
    using measure_string_cstr [OF a(2), of 0 sb] Cons.prems(2) by (simp del: measure_string.simps)
  then show ?case using Cons.IH [OF a(4), of "sb + length s + 1"] Cons.prems(2) a(1) by (simp add: Let_def del: measure_string.simps)
qed simp

definition stack_bytes :: "u64 \<Rightarrow> nat \<Rightarrow> u64 set" where
  "stack_bytes st N = (\<lambda>k. st + of_nat k) ` {..<N}"

lemma in_stack: "k < N \<Longrightarrow> st + of_nat k \<in> stack_bytes st N"
  unfolding stack_bytes_def by (rule imageI) simp

lemma stack_store:
  assumes "k + 8 \<le> N" and "N < 2 ^ 63"
  shows "x \<notin> stack_bytes st N \<Longrightarrow> store_u64 (st + of_nat k) v m x = m x"
    and "l < N \<Longrightarrow> \<not> (k \<le> l \<and> l < k + 8) \<Longrightarrow> store_u64 (st + of_nat k) v m (st + of_nat l) = m (st + of_nat l)"
proof -
  have in_s: "st + of_nat (k + i) \<in> stack_bytes st N" if "i < 8" for i using assms that by (intro in_stack) simp
  show "x \<notin> stack_bytes st N \<Longrightarrow> store_u64 (st + of_nat k) v m x = m x"
    using in_s by (intro store_u64_outside) (auto simp: add.assoc)
  show "l < N \<Longrightarrow> \<not> (k \<le> l \<and> l < k + 8) \<Longrightarrow> store_u64 (st + of_nat k) v m (st + of_nat l) = m (st + of_nat l)"
    using assms addr_inj [of "k + _" l st] by (intro store_u64_outside) (simp add: add.assoc, linarith)
qed

lemma stack_copy:
  assumes "k + n \<le> N" and "N < 2 ^ 63"
  shows "x \<notin> stack_bytes st N \<Longrightarrow> copy_bytes (st + of_nat k) src n m x = m x"
    and "l < N \<Longrightarrow> \<not> (k \<le> l \<and> l < k + n) \<Longrightarrow> copy_bytes (st + of_nat k) src n m (st + of_nat l) = m (st + of_nat l)"
proof -
  have in_s: "st + of_nat (k + i) \<in> stack_bytes st N" if "i < n" for i using assms that by (intro in_stack) simp
  show "x \<notin> stack_bytes st N \<Longrightarrow> copy_bytes (st + of_nat k) src n m x = m x"
    using in_s by (intro copy_bytes_outside) (auto simp: add.assoc)
  show "l < N \<Longrightarrow> \<not> (k \<le> l \<and> l < k + n) \<Longrightarrow> copy_bytes (st + of_nat k) src n m (st + of_nat l) = m (st + of_nat l)"
    using assms addr_inj [of "k + _" l st] by (intro copy_bytes_outside) (simp add: add.assoc, linarith)
qed

text \<open>What the loop leaves behind: \<open>off\<close> is the offset of the pointer array in the stack, \<open>c\<close> that of the next string.\<close>

definition argv_packed :: "u64 \<Rightarrow> nat \<Rightarrow> u64 \<Rightarrow> nat \<Rightarrow> nat \<Rightarrow> nat \<Rightarrow> u8 list list \<Rightarrow> memory \<Rightarrow> memory \<Rightarrow> bool" where
  "argv_packed st N base off i c ss m m' \<longleftrightarrow>
     (\<forall>x. x \<notin> stack_bytes st N \<longrightarrow> m' x = m x) \<and>
     (\<forall>k<N. \<not> (off + 8 * i \<le> k \<and> k < off + 8 * (i + length ss + 1)) \<and> \<not> (c \<le> k \<and> k < c + bytes_of ss) \<longrightarrow>
        m' (st + of_nat k) = m (st + of_nat k)) \<and>
     (\<forall>j<length ss. load_le m' (st + of_nat (off + 8 * (i + j))) 8 = base + of_nat (c + bytes_of (take j ss)) \<and>
        cstr_at m' (st + of_nat (c + bytes_of (take j ss))) (ss ! j)) \<and>
     load_le m' (st + of_nat (off + 8 * (i + length ss))) 8 = 0"

lemma argv_packed_Cons:
  assumes m2: "m2 = store_u64 (st + of_nat (off + 8 * i)) (base + of_nat c) (copy_bytes (st + of_nat c) p (length s + 1) m)"
    and cs: "cstr_at (copy_bytes (st + of_nat c) p (length s + 1) m) (st + of_nat c) s"
    and N: "off + 8 * (i + length (s # ss) + 1) \<le> c" "c + bytes_of (s # ss) \<le> N" "N < 2 ^ 63"
    and IH: "argv_packed st N base off (Suc i) (c + length s + 1) ss m2 m'"
  shows "argv_packed st N base off i c (s # ss) m m'"
proof -
  let ?m1 = "copy_bytes (st + of_nat c) p (length s + 1) m"
  have k8: "off + 8 * i + 8 \<le> N" and cn: "c + (length s + 1) \<le> N" using N by simp_all
  note st = stack_store [OF k8 N(3), of _ st "base + of_nat c" ?m1] and cp = stack_copy [OF cn N(3), of _ st p m]
  note ih = IH [unfolded argv_packed_def]
  have ptr: "load_le m' (st + of_nat (off + 8 * i)) 8 = base + of_nat c"
  proof -
    have "m' (st + of_nat (off + 8 * i) + of_nat b) = m2 (st + of_nat (off + 8 * i) + of_nat b)" if "b < 8" for b
      using ih [THEN conjunct2, THEN conjunct1, rule_format, of "off + 8 * i + b"] that N by (simp add: add.assoc)
    then have "load_le m' (st + of_nat (off + 8 * i)) 8 = load_le m2 (st + of_nat (off + 8 * i)) 8" by (rule load_le_cong)
    then show ?thesis unfolding m2 by (simp add: load_store_u64)
  qed
  have str: "cstr_at m' (st + of_nat c) s"
  proof (rule cstr_at_cong [OF cs])
    fix b assume b: "b \<le> length s"
    have "m' (st + of_nat (c + b)) = m2 (st + of_nat (c + b))"
      using ih [THEN conjunct2, THEN conjunct1, rule_format, of "c + b"] b N by simp
    also have "\<dots> = ?m1 (st + of_nat (c + b))" unfolding m2 using st(2) [of "c + b"] b N by simp
    finally show "m' (st + of_nat c + of_nat b) = ?m1 (st + of_nat c + of_nat b)" by (simp add: add.assoc)
  qed
  have rest: "load_le m' (st + of_nat (off + 8 * (i + j))) 8 = base + of_nat (c + bytes_of (take j (s # ss))) \<and>
      cstr_at m' (st + of_nat (c + bytes_of (take j (s # ss)))) ((s # ss) ! j)" if "j < length (s # ss)" for j
  proof (cases j)
    case 0
    then show ?thesis using ptr str by simp
  next
    case (Suc l)
    then show ?thesis using ih [THEN conjunct2, THEN conjunct2, THEN conjunct1, rule_format, of l] that by (simp add: algebra_simps)
  qed
  have "m' (st + of_nat k) = m (st + of_nat k)"
    if k: "k < N" "\<not> (off + 8 * i \<le> k \<and> k < off + 8 * (i + length (s # ss) + 1))" "\<not> (c \<le> k \<and> k < c + bytes_of (s # ss))" for k
  proof -
    have "m' (st + of_nat k) = m2 (st + of_nat k)"
      using ih [THEN conjunct2, THEN conjunct1, rule_format, of k] k by (simp, linarith)
    also have "\<dots> = ?m1 (st + of_nat k)" unfolding m2 using st(2) [of k] k by (simp, linarith)
    also have "\<dots> = m (st + of_nat k)" using cp(2) [of k] k by (simp, linarith)
    finally show ?thesis .
  qed
  moreover have "m' x = m x" if "x \<notin> stack_bytes st N" for x using that ih st(1) [of x] cp(1) [of x] by (simp add: m2)
  moreover have "load_le m' (st + of_nat (off + 8 * (i + length (s # ss)))) 8 = 0" using ih by (simp add: algebra_simps)
  ultimately show ?thesis using rest unfolding argv_packed_def by blast
qed

lemma copy_argv_effect:
  assumes "args_from (stack_bytes st N) m ap i ss" and "off + 8 * (i + length ss + 1) \<le> c" and "c + bytes_of ss \<le> N" and "N < 2 ^ 63"
  shows "\<exists>m'. copy_argv st base (base + of_nat off) ap i (length ss) (base + of_nat c) m = Some m' \<and> argv_packed st N base off i c ss m m'"
  using assms
proof (induction ss arbitrary: i c m)
  case Nil
  have a: "st + of_nat off + of_nat i * 8 = st + of_nat (off + 8 * i)" by (simp add: algebra_simps)
  have k8: "off + 8 * i + 8 \<le> N" using Nil by simp
  have b: "off + 8 * (i + length [] + 1) = off + 8 * i + 8" by simp
  have "argv_packed st N base off i c [] m (store_u64 (st + of_nat (off + 8 * i)) 0 m)"
    unfolding argv_packed_def b using stack_store [OF k8 Nil(4)] by (simp add: load_store_u64 del: of_nat_add of_nat_mult)
  then show ?case by (simp add: a del: of_nat_add of_nat_mult)
next
  case (Cons s ss)
  let ?S = "stack_bytes st N" and ?p = "load_le m (ap + of_nat i * 8) 8"
  note a = args_from_Cons [OF Cons.prems(1)]
  have len: "length s < 2 ^ 63" "c + (length s + 1) \<le> N" "off + 8 * i + 8 \<le> N" using Cons.prems by simp_all
  have sep: "st + of_nat c + of_nat k \<noteq> ?p + of_nat l" if "k \<le> length s" "l \<le> length s" for k l
    using a(3) [OF that(2)] in_stack [of "c + k" N st] len(2) that(1) by (auto simp: add.assoc)
  define m1 where "m1 = copy_bytes (st + of_nat c) ?p (length s + 1) m"
  define m2 where "m2 = store_u64 (st + of_nat (off + 8 * i)) (base + of_nat c) m1"
  have cp: "copy_string ?p (st + of_nat c) 0 m = Some (length s + 1, m1)"
    unfolding m1_def using len(1) by (intro copy_string_cstr [OF a(2)] sep) simp_all
  have "m2 x = m x" if "x \<notin> ?S" for x
    using that stack_store(1) [OF len(3) Cons.prems(4)] stack_copy(1) [OF len(2) Cons.prems(4)] by (simp add: m1_def m2_def)
  then have "args_from ?S m2 ap (Suc i) ss" using a(4) by (rule args_from_cong [rotated])
  then obtain m' where m': "copy_argv st base (base + of_nat off) ap (Suc i) (length ss) (base + of_nat (c + length s + 1)) m2 = Some m'"
      "argv_packed st N base off (Suc i) (c + length s + 1) ss m2 m'"
    using Cons.IH [of m2 "Suc i" "c + length s + 1"] Cons.prems by auto
  have "st + (base + of_nat off - base) + of_nat i * 8 = st + of_nat (off + 8 * i)" "st + (base + of_nat c - base) = st + of_nat c"
    by (simp_all add: algebra_simps)
  then have "copy_argv st base (base + of_nat off) ap i (length (s # ss)) (base + of_nat c) m = Some m'"
    using cp m'(1) by (simp add: m2_def algebra_simps)
  moreover have "argv_packed st N base off i c (s # ss) m m'"
    using copied_cstr [OF a(2) len(1) sep] Cons.prems m'(2) unfolding m1_def m2_def by (intro argv_packed_Cons) simp_all
  ultimately show ?case by blast
qed

lemma unat_and_not_15: "unat ((x :: u64) AND NOT 15) = unat x - unat x mod 16"
  using unat_and_not_mask [of x 4] by (simp add: mask_eq_exp_minus_1)

lemma place_argv_effect:
  assumes args: "args_from (stack_bytes st (unat sz)) m ap 0 ss" and n: "ss \<noteq> []" "length ss \<le> 8" and bytes: "bytes_of ss \<le> 256"
    and st: "st \<noteq> 0" "ap \<noteq> 0" and sz: "unat sz < 2 ^ 63" "unat base + unat sz < 2 ^ 64"
    and room: "bytes_of ss + 8 * (length ss + 1) + 15 \<le> unat sz" and argc: "argc = of_nat (length ss)"
  obtains off m' where "panel_boot_place_argv_on_stack st base sz ap argc m = Some (Some (base + of_nat off), m')"
    "argv_packed st (unat sz) base off 0 (off + 8 * (length ss + 1)) ss m m'" "off < unat sz" "(unat sz - off) mod 16 = 0"
    "off + 8 * (length ss + 1) + bytes_of ss \<le> unat sz"
proof -
  let ?n = "length ss"
  define T where "T = bytes_of ss + 8 * (?n + 1) + 15"
  define t where "t = T - T mod 16"
  define off where "off = unat sz - t"
  have Tb: "T < 2 ^ 64" "T mod 16 \<le> 15" "t \<le> unat sz" "bytes_of ss + 8 * (?n + 1) \<le> t" "0 < t" "t mod 16 = 0"
    using room bytes n mod_less_divisor [of 16 T] unfolding T_def t_def by (simp_all add: minus_mod_eq_div_mult)
  have ac: "unat argc = ?n" "argc \<noteq> 0" "\<not> argc > 8"
    using n argc by (simp_all add: word_less_nat_alt unat_eq_0 [symmetric])
  have tb: "(ucast (argc + 1) :: u64) * 8 = of_nat (8 * (?n + 1))"
  proof -
    have "argc + 1 = of_nat (?n + 1)" by (simp add: argc)
    moreover have "unat (of_nat (?n + 1) :: u32) = ?n + 1" using n(2) by (intro unat_of_nat_u32) simp
    ultimately have "unat (argc + 1) = ?n + 1" by (simp only:)
    then have "(ucast (argc + 1) :: u64) = of_nat (?n + 1)" by (metis of_nat_unat)
    then show ?thesis by (simp add: algebra_simps)
  qed
  have tot: "(of_nat (bytes_of ss) + of_nat (8 * (?n + 1)) + 15 :: u64) AND NOT 15 = of_nat t"
  proof -
    have "(of_nat (bytes_of ss) + of_nat (8 * (?n + 1)) + 15 :: u64) = of_nat T" by (simp add: T_def algebra_simps)
    moreover have "unat (of_nat T AND NOT 15 :: u64) = t" unfolding unat_and_not_15 unat_of_nat_u64 [OF Tb(1)] t_def ..
    moreover have "t < 2 ^ 64" using Tb(1) by (simp add: t_def)
    ultimately show ?thesis by (metis unat_of_nat_u64 word_unat_eq_iff)
  qed
  have le: "\<not> sz < of_nat t" using Tb(3) sz(1) by (simp add: word_less_nat_alt)
  have nov: "\<not> base + sz < base" using sz(2) by (simp add: word_less_nat_alt unat_add_bounded)
  have "sz = of_nat (off + t)" using Tb(3) by (simp add: off_def)
  then have av: "base + sz - of_nat t = base + of_nat off" by simp
  have cur: "base + of_nat off + of_nat (8 * (?n + 1)) = base + of_nat (off + 8 * (?n + 1))" by (simp only: of_nat_add add.assoc)
  have fits: "off + 8 * (?n + 1) + bytes_of ss \<le> unat sz" using Tb(3,4) by (simp add: off_def)
  obtain m' where m': "copy_argv st base (base + of_nat off) ap 0 ?n (base + of_nat (off + 8 * (?n + 1))) m = Some m'"
      "argv_packed st (unat sz) base off 0 (off + 8 * (?n + 1)) ss m m'"
    using copy_argv_effect [OF args _ fits sz(1), of off base] by auto
  have "sz \<noteq> 0" using Tb(3,5) by auto
  moreover have me: "measure_argv m ap 0 ?n 0 = Some (bytes_of ss)" using measure_argv_args [OF args, of 0] bytes by simp
  ultimately have "panel_boot_place_argv_on_stack st base sz ap argc m = Some (Some (base + of_nat off), m')"
    unfolding panel_boot_place_argv_on_stack_def Let_def ac(1) me option.case tb tot av cur m'(1) using st ac(2,3) le nov by simp
  moreover have "(unat sz - off) mod 16 = 0" "off < unat sz" using Tb by (simp_all add: off_def)
  ultimately show thesis using m'(2) fits by (intro that)
qed

lemma bytes_of_take: "j < length ss \<Longrightarrow> bytes_of (take j ss) + length (ss ! j) + 1 \<le> bytes_of ss"
proof (induction ss arbitrary: j)
  case (Cons s ss)
  then show ?case using Cons.IH [of "j - 1"] by (cases j) auto
qed simp

lemma not_in_stack:
  assumes "unat x < unat st" and "unat st + N \<le> 2 ^ 64"
  shows "x \<notin> stack_bytes st N"
proof
  assume "x \<in> stack_bytes st N"
  then obtain k where "k < N" "x = st + of_nat k" by (auto simp: stack_bytes_def)
  then have "unat x = unat st + k" using assms(2) by (simp add: unat_add_bounded)
  then show False using assms(1) by simp
qed

text \<open>C13 Arguments arrive. When the strings and the pointer array of the caller lie outside the stack of the new process and fit
  its limits, \<open>panel_boot_place_argv_on_stack\<close> returns an address, aligned to 16 bytes and inside the stack as the new
  process sees it, from which the process can read its arguments back: the array there points, for each argument, to an address inside its
  stack that holds the same string, ends with a null pointer, and no byte outside the stack is written.\<close>

theorem panel_boot_argv_round_trip:
  assumes "args_from (stack_bytes stack (unat stack_size)) m argv_ptr 0 ss" and "ss \<noteq> []" "length ss \<le> 8" "bytes_of ss \<le> 256"
    and "stack \<noteq> 0" "argv_ptr \<noteq> 0" and "unat stack_size < 2 ^ 63" "unat stack_base + unat stack_size < 2 ^ 64"
    and "bytes_of ss + 8 * (length ss + 1) + 15 \<le> unat stack_size" and "(unat stack_base + unat stack_size) mod 16 = 0"
  shows "\<exists>av m'. panel_boot_place_argv_on_stack stack stack_base stack_size argv_ptr (of_nat (length ss)) m = Some (Some av, m') \<and>
    unat av mod 16 = 0 \<and> stack_base \<le> av \<and> unat av < unat stack_base + unat stack_size \<and>
    (\<forall>x. x \<notin> stack_bytes stack (unat stack_size) \<longrightarrow> m' x = m x) \<and>
    (\<forall>j<length ss. \<exists>p. load_le m' (stack + (av - stack_base) + of_nat j * 8) 8 = p \<and> stack_base \<le> p \<and>
       unat p + length (ss ! j) < unat stack_base + unat stack_size \<and> cstr_at m' (stack + (p - stack_base)) (ss ! j)) \<and>
    load_le m' (stack + (av - stack_base) + of_nat (length ss) * 8) 8 = 0"
proof -
  obtain off m' where r: "panel_boot_place_argv_on_stack stack stack_base stack_size argv_ptr (of_nat (length ss)) m = Some (Some (stack_base + of_nat off), m')"
    and pk: "argv_packed stack (unat stack_size) stack_base off 0 (off + 8 * (length ss + 1)) ss m m'"
    and off: "off < unat stack_size" "(unat stack_size - off) mod 16 = 0" "off + 8 * (length ss + 1) + bytes_of ss \<le> unat stack_size"
    by (rule place_argv_effect [OF assms(1-9) refl])
  have av: "unat (stack_base + of_nat off) = unat stack_base + off" using off(1) assms(7,8) by (simp add: unat_add_bounded)
  have "(unat stack_base + off) mod 16 = 0"
  proof -
    have "unat stack_base + unat stack_size = (unat stack_base + off) + (unat stack_size - off)" using off(1) by simp
    then show ?thesis using assms(10) off(2) by (metis mod_add_eq add_0_right mod_mod_trivial)
  qed
  moreover have "\<exists>p. load_le m' (stack + (stack_base + of_nat off - stack_base) + of_nat j * 8) 8 = p \<and> stack_base \<le> p \<and>
       unat p + length (ss ! j) < unat stack_base + unat stack_size \<and> cstr_at m' (stack + (p - stack_base)) (ss ! j)" if j: "j < length ss" for j
  proof -
    define c where "c = off + 8 * (length ss + 1) + bytes_of (take j ss)"
    have c: "c + length (ss ! j) < unat stack_size" using off(3) bytes_of_take [OF j] by (simp add: c_def)
    then have u: "unat (stack_base + of_nat c) = unat stack_base + c" using assms(7,8) by (simp add: unat_add_bounded)
    have "load_le m' (stack + of_nat (off + 8 * j)) 8 = stack_base + of_nat c" "cstr_at m' (stack + of_nat c) (ss ! j)"
      using pk j unfolding argv_packed_def c_def by auto
    then show ?thesis using c u by (simp add: word_le_nat_alt algebra_simps)
  qed
  ultimately show ?thesis using r pk av off(1) unfolding argv_packed_def by (auto simp: word_le_nat_alt algebra_simps)
qed

definition argv_memory :: memory where
  "argv_memory = (\<lambda>_. 0)(0x1001 := 0x20, 0x2000 := 0x68, 0x2001 := 0x69)"

lemma argv_memory_ptr: "load_le argv_memory 0x1000 8 = 0x2000"
  by code_simp

lemma argv_memory_args: "args_from (stack_bytes 0x5000 4096) argv_memory 0x1000 0 [[0x68, 0x69]]"
proof -
  have out: "(0x1000 :: u64) + of_nat b \<notin> stack_bytes 0x5000 4096" "(0x2000 :: u64) + of_nat b \<notin> stack_bytes 0x5000 4096" if "b < 8" for b
    using that by (intro not_in_stack, simp_all add: unat_add_bounded)+
  have "cstr_at argv_memory 0x2000 [0x68, 0x69]" by (auto simp: cstr_at_def argv_memory_def less_Suc_eq)
  then show ?thesis using out by (auto simp: args_from_def argv_memory_ptr)
qed

theorem panel_boot_argv_round_trip_witness:
  "\<exists>av m' p. panel_boot_place_argv_on_stack 0x5000 0x800000 4096 0x1000 1 argv_memory = Some (Some av, m') \<and>
     load_le m' (0x5000 + (av - 0x800000)) 8 = p \<and> cstr_at m' (0x5000 + (p - 0x800000)) [0x68, 0x69]"
  using panel_boot_argv_round_trip [where stack = "0x5000" and stack_size = 4096 and m = argv_memory and argv_ptr = "0x1000"
      and ss = "[[0x68, 0x69]]" and stack_base = "0x800000"] argv_memory_args
  by auto

section \<open>Loading images\<close>

text \<open>The images that the loader accepts: a KLI1 header with an entry inside the image, which fits the source and the destination.\<close>

definition kli1_ok :: "memory \<Rightarrow> u64 \<Rightarrow> u64 \<Rightarrow> u64 \<Rightarrow> nat \<Rightarrow> bool" where
  "kli1_ok m source capacity load_capacity i \<longleftrightarrow> source \<noteq> 0 \<and> h_magic m source = USER_IMAGE_MAGIC \<and> h_header_size m source = 80 \<and>
     unat (h_entry_count m source) \<le> 8 \<and> i < unat (h_entry_count m source) \<and>
     80 \<le> unat (h_entry_offset m source i) \<and> unat (h_entry_offset m source i) < unat (h_image_size m source) \<and>
     unat (h_image_size m source) \<le> unat capacity \<and> unat (h_image_size m source) \<le> unat load_capacity \<and>
     unat source + unat (h_entry_offset m source i) < 2 ^ 64"

lemma add_u64_checked_Some: "add_u64_checked a b = Some c \<longleftrightarrow> unat a + unat b < 2 ^ 64 \<and> c = a + b"
proof -
  have "a > - 1 - b \<longleftrightarrow> \<not> unat a + unat b < 2 ^ 64"
    unfolding word_less_nat_alt unat_max_minus using unsigned_less [of b, where ?'a = nat] by (simp, linarith)
  then show ?thesis by (auto simp: add_u64_checked_def)
qed

lemma add_u64_checked_None: "add_u64_checked a b = None \<longleftrightarrow> \<not> unat a + unat b < 2 ^ 64"
  using add_u64_checked_Some [of a b "a + b"] by (cases "add_u64_checked a b") (auto simp: add_u64_checked_Some)

lemma source_entry_range:
  assumes "unat a + unat b < 2 ^ 64"
  shows "\<not> a + b < (a :: u64)" and "a + b - a = b"
  using assms by (simp_all add: word_less_nat_alt unat_add_bounded)

lemma unat_ucast_u32 [simp]: "unat (ucast (x :: u32) :: u64) = unat x"
proof -
  have "unat x < 2 ^ 64" using unsigned_less [of x, where ?'a = nat] by simp
  then show ?thesis by (simp add: unsigned_ucast_eq take_bit_nat_eq_self)
qed

lemma load_flat_Some:
  assumes "kli1_ok m sb sc lc (unat idx)" and "lb \<noteq> 0"
  shows "user_image_load_flat name lb lc sb sc idx m =
    Some (\<lparr>im_name = name, im_base = lb, im_size = h_image_size m sb, im_entry_offset = h_entry_offset m sb (unat idx)\<rparr>,
      copy_bytes lb sb (unat (h_image_size m sb)) m)"
proof -
  note k = assms(1) [unfolded kli1_ok_def]
  let ?e = "h_entry_offset m sb (unat idx)" and ?n = "h_image_size m sb"
  have u: "\<not> sc < 4" "\<not> sc < 80" "\<not> 80 > ?n" "h_entry_count m sb \<noteq> 0" "\<not> h_entry_count m sb > 8"
    "\<not> ucast idx \<ge> h_entry_count m sb" "\<not> ?n > sc" "\<not> ?e < 80" "\<not> ?e \<ge> ?n" "lc \<noteq> 0" "?n \<noteq> 0" "\<not> ?n > lc"
    using k by (auto simp: word_less_nat_alt word_le_nat_alt)
  have "add_u64_checked sb ?e = Some (sb + ?e)" using k by (simp add: add_u64_checked_Some)
  then show ?thesis
    using k u assms(2) source_entry_range [of sb ?e] by (simp add: user_image_load_flat_def user_image_load_copy_def Let_def)
qed

lemma load_flat_None:
  assumes "user_image_load_flat name lb lc sb sc idx m = Some r"
  shows "kli1_ok m sb sc lc (unat idx) \<and> lb \<noteq> 0"
proof -
  note a = assms [unfolded user_image_load_flat_def user_image_load_copy_def Let_def]
  from a show ?thesis
    unfolding kli1_ok_def
    by (auto simp: add_u64_checked_Some word_less_nat_alt word_le_nat_alt not_less not_le
        split: if_splits option.splits)
qed

text \<open>C37 The loader accepts exactly the well-formed images: \<open>user_image_load_flat\<close> succeeds if and only if the source holds a KLI1
  header of 80 bytes with at most eight entries, the entry asked for exists and points behind the header and inside the image, and the image fits both the source
  and the slot it is loaded to. The slot then holds a copy of the image, no byte outside the copied range is
  written, and the recorded entry lies inside the image.\<close>

theorem user_image_load_flat_correct:
  assumes "\<And>i j. i < unat (h_image_size m source_base) \<Longrightarrow> j < unat (h_image_size m source_base) \<Longrightarrow>
      load_base + of_nat i \<noteq> source_base + of_nat j"
  shows "case user_image_load_flat name load_base load_capacity source_base source_capacity entry_index m of
      None \<Rightarrow> \<not> (kli1_ok m source_base source_capacity load_capacity (unat entry_index) \<and> load_base \<noteq> 0)
    | Some (img, m') \<Rightarrow> kli1_ok m source_base source_capacity load_capacity (unat entry_index) \<and> load_base \<noteq> 0 \<and>
        im_base img = load_base \<and> im_size img = h_image_size m source_base \<and> im_size img \<le> load_capacity \<and>
        80 \<le> im_entry_offset img \<and> im_entry_offset img < im_size img \<and>
        (\<forall>k<unat (im_size img). m' (load_base + of_nat k) = m (source_base + of_nat k)) \<and>
        (\<forall>x. (\<forall>k<unat (im_size img). load_base + of_nat k \<noteq> x) \<longrightarrow> m' x = m x)"
proof (cases "kli1_ok m source_base source_capacity load_capacity (unat entry_index) \<and> load_base \<noteq> 0")
  case False
  then show ?thesis
    using load_flat_None [of name load_base load_capacity source_base source_capacity entry_index m] by (auto split: option.split)
next
  case True
  let ?n = "unat (h_image_size m source_base)"
  have "?n \<le> 2 ^ 64" using unsigned_less [of "h_image_size m source_base", where ?'a = nat] by simp
  then have "\<forall>k<?n. copy_bytes load_base source_base ?n m (load_base + of_nat k) = m (source_base + of_nat k)"
    using copy_bytes_inside [OF _ assms] by blast
  moreover have "\<forall>x. (\<forall>k<?n. load_base + of_nat k \<noteq> x) \<longrightarrow> copy_bytes load_base source_base ?n m x = m x"
    using copy_bytes_outside by blast
  moreover have "h_image_size m source_base \<le> load_capacity" "80 \<le> h_entry_offset m source_base (unat entry_index)"
    "h_entry_offset m source_base (unat entry_index) < h_image_size m source_base"
    using True by (simp_all add: kli1_ok_def word_le_nat_alt word_less_nat_alt)
  ultimately show ?thesis
    using True load_flat_Some [OF True [THEN conjunct1] True [THEN conjunct2], of name] by simp
qed

text \<open>A program of 84 bytes at 0x1000 with one entry at offset 80.\<close>

definition image_memory :: memory where
  "image_memory = (\<lambda>_. 0)(0x1000 := 0x4b, 0x1001 := 0x4c, 0x1002 := 0x49, 0x1003 := 0x31, 0x1004 := 80, 0x1006 := 1, 0x1008 := 84,
     0x1010 := 80, 0x1050 := 0xc0)"

lemma image_memory_fields:
  "h_magic image_memory 0x1000 = USER_IMAGE_MAGIC" "h_header_size image_memory 0x1000 = 80"
  "h_entry_count image_memory 0x1000 = 1" "h_image_size image_memory 0x1000 = 84" "h_entry_offset image_memory 0x1000 0 = 80"
  by code_simp+

lemma apart: "i < 84 \<Longrightarrow> j < 84 \<Longrightarrow> (0x8000 :: u64) + of_nat i \<noteq> 0x1000 + of_nat j"
proof
  assume ij: "i < 84" "j < 84" and eq: "(0x8000 :: u64) + of_nat i = 0x1000 + of_nat j"
  have "unat ((0x8000 :: u64) + of_nat i) = 0x8000 + i" "unat ((0x1000 :: u64) + of_nat j) = 0x1000 + j"
    using ij by (simp_all add: unat_add_bounded)
  then have "0x8000 + i = 0x1000 + j" unfolding eq by simp
  then show False using ij by simp
qed

theorem user_image_load_flat_correct_witness:
  "\<exists>img m'. user_image_load_flat ''p'' 0x8000 8192 0x1000 84 0 image_memory = Some (img, m') \<and> m' 0x8050 = 0xc0 \<and>
     im_entry_offset img = 80"
proof -
  have k: "kli1_ok image_memory 0x1000 84 8192 (unat (0 :: u32))" by (simp add: kli1_ok_def image_memory_fields)
  note s = load_flat_Some [OF k, where lb = "0x8000" and name = "''p''"]
  show ?thesis
    using user_image_load_flat_correct [where m = image_memory and source_base = "0x1000" and load_base = "0x8000" and name = "''p''"
        and load_capacity = 8192 and source_capacity = 84 and entry_index = 0] apart s
    by (simp add: image_memory_fields) (auto simp: image_memory_def dest: spec [where x = 80])
qed

lemma kli1_source_ok:
  assumes "boot_program_source_is_kli1 m (start, e) = Some sz" and "i < unat (h_entry_count m start)" and "h_image_size m start \<le> lc"
  shows "kli1_ok m start sz lc i"
proof -
  note a = assms(1) [unfolded boot_program_source_is_kli1_def prod.case Let_def]
  have f: "start \<noteq> 0" "start < e" "sz = e - start" "h_magic m start = USER_IMAGE_MAGIC" "h_header_size m start = 80"
    "\<not> h_image_size m start > sz" "\<not> h_entry_count m start > 8"
    using a by (auto split: if_splits)
  have en: "first_index (unat (h_entry_count m start))
      (\<lambda>i. h_entry_offset m start i < h_header_size m start \<or> h_entry_offset m start i \<ge> h_image_size m start) = None"
    using a by (auto split: if_splits)
  then have e: "\<not> h_entry_offset m start i < 80" "\<not> h_entry_offset m start i \<ge> h_image_size m start"
    using assms(2) f(5) unfolding first_index_None_iff by auto
  have "unat sz = unat e - unat start" using f(2,3) by (simp add: unat_sub less_imp_le)
  moreover have "unat e < 2 ^ 64" "unat start < unat e" using unsigned_less [of e, where ?'a = nat] f(2) by (simp_all add: word_less_nat_alt)
  ultimately show ?thesis
    using f e assms(2,3) unfolding kli1_ok_def word_less_nat_alt word_le_nat_alt not_less not_le by auto
qed

lemma bootfs_find_source:
  assumes "bootfs_find blobs m name = Some file"
  obtains e where "boot_program_source_is_kli1 m (bp_image file, e) = Some (bp_size file)"
proof -
  from assms obtain i where i: "first_index (length g_boot_programs)
      (\<lambda>i. cstr_loop_eq (g_boot_programs ! i) name \<and> boot_program_source_is_kli1 m (blobs ! i) \<noteq> None) = Some i"
    and fl: "file = \<lparr>bp_name = g_boot_programs ! i, bp_image = fst (blobs ! i), bp_size = the (boot_program_source_is_kli1 m (blobs ! i))\<rparr>"
    by (auto simp: bootfs_find_def boot_program_find_def split: option.splits if_splits)
  from first_index_SomeD(2) [OF i] show thesis using that [of "snd (blobs ! i)"] by (auto simp: fl)
qed

text \<open>The registry and the loader agree: every program that the boot file system finds can be loaded at each of its entries, provided the image fits
  the slot. A damaged program is not found in the first place.\<close>

theorem bootfs_programs_load:
  assumes "bootfs_find blobs m name = Some file" and "load_base \<noteq> 0"
    and "unat entry_index < unat (h_entry_count m (bp_image file))" and "h_image_size m (bp_image file) \<le> load_capacity"
  shows "\<exists>img m'. user_image_load_bootfs_flat blobs image_name name load_base load_capacity entry_index m = Some (img, m') \<and>
    im_base img = load_base \<and> im_entry_offset img = h_entry_offset m (bp_image file) (unat entry_index)"
proof -
  obtain e where "boot_program_source_is_kli1 m (bp_image file, e) = Some (bp_size file)" by (rule bootfs_find_source [OF assms(1)])
  from load_flat_Some [OF kli1_source_ok [OF this assms(3,4)] assms(2)] assms(1) show ?thesis
    by (simp add: user_image_load_bootfs_flat_def)
qed

definition blobs_demo :: "(u64 \<times> u64) list" where
  "blobs_demo = replicate 5 (0, 0) @ [(0x1000, 0x1054)]"

theorem bootfs_programs_load_witness:
  "\<exists>img m'. user_image_load_bootfs_flat blobs_demo ''clock'' ''clock'' 0x8000 8192 0 image_memory = Some (img, m') \<and> im_entry_offset img = 80"
proof -
  have f: "bootfs_find blobs_demo image_memory ''clock'' = Some \<lparr>bp_name = ''clock'', bp_image = 0x1000, bp_size = 0x54\<rparr>" by code_simp
  show ?thesis
    using bootfs_programs_load [OF f, where load_base = "0x8000" and entry_index = 0 and load_capacity = 8192 and image_name = "''clock''"]
    by (auto simp: image_memory_fields)
qed

end
