(* ===== verification/Spawn.thy ===== *)
theory Spawn
  imports UserVm Loader
begin

text \<open>
  Starting user processes: \<open>kernel/panel_boot.c\<close> and the device mappings of the boards
  (\<open>drivers/boards/*/board.c\<close>). A spawn takes a slot of the process table, copies a program
  image into fresh pages, prepares a stack and an address space, and packs the arguments. Page tables live in the \<open>ram\<close> of the page-table manager; the bytes
  of image and stack pages are the separate function \<open>memory\<close>, since no page is both. The board's function that maps the devices
  is reached through a pointer, so it is a field of the state; its contract is the locale \<open>mmio_mapper\<close>.
\<close>

abbreviation KERNEL_USER_IMAGE_VA_BASE :: u64 where "KERNEL_USER_IMAGE_VA_BASE \<equiv> 0x400000"
abbreviation KERNEL_USER_IMAGE_VA_STRIDE :: u64 where "KERNEL_USER_IMAGE_VA_STRIDE \<equiv> 0x10000"
abbreviation KERNEL_USER_IMAGE_SLOT_SIZE :: u64 where "KERNEL_USER_IMAGE_SLOT_SIZE \<equiv> 8192"
abbreviation KERNEL_USER_IMAGE_SLOT_PAGES :: u64 where "KERNEL_USER_IMAGE_SLOT_PAGES \<equiv> 2"
abbreviation KERNEL_USER_STACK_VA_BASE :: u64 where "KERNEL_USER_STACK_VA_BASE \<equiv> 0x800000"
abbreviation KERNEL_USER_STACK_VA_STRIDE :: u64 where "KERNEL_USER_STACK_VA_STRIDE \<equiv> 0x10000"
abbreviation KERNEL_USER_STACK_SIZE :: u64 where "KERNEL_USER_STACK_SIZE \<equiv> 4096"
abbreviation KERNEL_USER_STACK_PAGES :: u64 where "KERNEL_USER_STACK_PAGES \<equiv> 1"
abbreviation AARCH64_SPSR_EL0T_DAF_MASKED :: u64 where "AARCH64_SPSR_EL0T_DAF_MASKED \<equiv> 0x340"
abbreviation PANEL_BOOT_PID_BASE :: u32 where "PANEL_BOOT_PID_BASE \<equiv> 1"

type_synonym map_mmio = "u64 \<Rightarrow> vmm \<Rightarrow> bool \<times> vmm"

record panel_user_storage =
  st_image_paddr :: u64
  st_stack_paddr :: u64

record launcher =
  g_spawn_memory_base :: u64
  g_spawn_memory_size :: u64
  g_spawn_map_mmio :: "map_mmio option"
  g_next_spawn_pid :: u32

section \<open>Devices of the boards\<close>

abbreviation MMIO_FLAGS :: u64 where "MMIO_FLAGS \<equiv> VMM_FLAG_READ OR VMM_FLAG_WRITE OR VMM_FLAG_DEVICE"

text \<open>The ranges are mapped one after the other until one fails.\<close>

fun map_devices :: "(u64 \<times> u64) list \<Rightarrow> u64 \<Rightarrow> vmm \<Rightarrow> bool \<times> vmm" where
  "map_devices [] pgd s = (True, s)"
| "map_devices ((base, sz) # rs) pgd s =
     (case vmm_map_range pgd base base sz MMIO_FLAGS s of
        (False, s1) \<Rightarrow> (False, s1)
      | (True, s1) \<Rightarrow> map_devices rs pgd s1)"

definition qemu_virt_map_mmio :: map_mmio where
  "qemu_virt_map_mmio pgd s =
     (case vmm_map_page pgd 0x09000000 0x09000000 MMIO_FLAGS s of
        (False, s1) \<Rightarrow> (False, s1)
      | (True, s1) \<Rightarrow> map_devices [(0x08000000, 0x20000), (0x0a000000, 0x4000), (0x4010000000, 0x1000000), (0x10000000, 0x30000000)] pgd s1)"

definition rpi4_map_mmio :: map_mmio where
  "rpi4_map_mmio pgd s =
     (case vmm_map_page pgd 0xFE201000 0xFE201000 MMIO_FLAGS s of
        (False, s1) \<Rightarrow> (False, s1)
      | (True, s1) \<Rightarrow> map_devices [(0xFF841000, 0x1000), (0xFE000000, 0x40000), (0xFE00B880, 0x40), (0xFE340000, 0x1000)] pgd s1)"

section \<open>Loading a program\<close>

definition panel_image_vaddr :: "nat \<Rightarrow> u64" where
  "panel_image_vaddr slot = KERNEL_USER_IMAGE_VA_BASE + of_nat slot * KERNEL_USER_IMAGE_VA_STRIDE"

definition panel_stack_vaddr :: "nat \<Rightarrow> u64" where
  "panel_stack_vaddr slot = KERNEL_USER_STACK_VA_BASE + of_nat slot * KERNEL_USER_STACK_VA_STRIDE"

definition zero_memory :: "u64 \<Rightarrow> u64 \<Rightarrow> memory \<Rightarrow> memory" where
  "zero_memory paddr sz m = fold (\<lambda>i m. m(paddr + of_nat i := 0)) [0..<unat sz] m"

definition free_image_pages :: "u64 \<Rightarrow> vmm \<Rightarrow> vmm" where
  "free_image_pages image_paddr s =
     (if image_paddr = 0 then s
      else s\<lparr>vpmm := fold (\<lambda>i p. pmm_free_page (image_paddr + of_nat i * PAGE_SIZE) p) [0..<unat KERNEL_USER_IMAGE_SLOT_PAGES] (vpmm s)\<rparr>)"

definition free_user_storage :: "panel_user_storage \<Rightarrow> vmm \<Rightarrow> panel_user_storage \<times> vmm" where
  "free_user_storage storage s =
     (let s1 = free_image_pages (st_image_paddr storage) s;
          s2 = (if st_stack_paddr storage \<noteq> 0 then s1\<lparr>vpmm := pmm_free_page (st_stack_paddr storage) (vpmm s1)\<rparr> else s1)
      in (\<lparr>st_image_paddr = 0, st_stack_paddr = 0\<rparr>, s2))"

definition load_named_image ::
    "(u64 \<times> u64) list \<Rightarrow> string \<Rightarrow> nat \<Rightarrow> u32 \<Rightarrow> panel_user_storage \<Rightarrow> vmm \<Rightarrow> memory \<Rightarrow>
     (user_image \<times> panel_user_storage) option \<times> vmm \<times> memory" where
  "load_named_image blobs name slot entry_index storage s m =
     (if st_image_paddr storage \<noteq> 0 then (None, s, m)
      else case pmm_alloc_pages KERNEL_USER_IMAGE_SLOT_PAGES (vpmm s) of
          (image_paddr, pm) \<Rightarrow>
            (let s1 = s\<lparr>vpmm := pm\<rparr>
             in if image_paddr = 0 then (None, s1, m)
                else
                  (let m1 = zero_memory image_paddr KERNEL_USER_IMAGE_SLOT_SIZE m
                   in case user_image_load_bootfs_flat blobs name name image_paddr KERNEL_USER_IMAGE_SLOT_SIZE entry_index m1 of
                        None \<Rightarrow> (None, free_image_pages image_paddr s1, m1)
                      | Some (img, m2) \<Rightarrow>
                          (Some (img\<lparr>im_base := panel_image_vaddr slot, im_size := KERNEL_USER_IMAGE_SLOT_SIZE\<rparr>,
                                 storage\<lparr>st_image_paddr := image_paddr\<rparr>), s1, m2))))"

definition map_kernel_identity :: "u64 \<Rightarrow> u64 \<Rightarrow> u64 \<Rightarrow> map_mmio option \<Rightarrow> vmm \<Rightarrow> bool \<times> vmm" where
  "map_kernel_identity pgd memory_base memory_size map_mmio s =
     (if pgd = 0 \<or> memory_size = 0 then (False, s)
      else case vmm_map_range pgd memory_base memory_base memory_size (VMM_FLAG_READ OR VMM_FLAG_WRITE OR VMM_FLAG_EXEC) s of
          (False, s1) \<Rightarrow> (False, s1)
        | (True, s1) \<Rightarrow> (case map_mmio of None \<Rightarrow> (True, s1) | Some f \<Rightarrow> f pgd s1))"

definition create_panel_page_table ::
    "user_image \<Rightarrow> u64 \<Rightarrow> u64 \<Rightarrow> u64 \<Rightarrow> u64 \<Rightarrow> u64 \<Rightarrow> u64 \<Rightarrow> map_mmio option \<Rightarrow> process \<Rightarrow> vmm \<Rightarrow> bool \<times> process \<times> vmm" where
  "create_panel_page_table img image_paddr stack_vaddr stack_paddr stack_size memory_base memory_size map_mmio p s =
     (case vmm_new_table s of (pgd, s1) \<Rightarrow>
        if pgd = 0 then (False, p, s1)
        else case map_kernel_identity pgd memory_base memory_size map_mmio s1 of
            (False, s2) \<Rightarrow> (False, p, vmm_free_table pgd s2)
          | (True, s2) \<Rightarrow>
              (let p1 = process_set_page_table pgd p
               in case user_vm_map_physical (im_base img) image_paddr (im_size img) (USER_VM_PROT_READ OR USER_VM_PROT_EXEC) p1 s2 of
                    (False, p2, s3) \<Rightarrow> (False, p2, s3)
                  | (True, p2, s3) \<Rightarrow>
                      user_vm_map_physical stack_vaddr stack_paddr stack_size (USER_VM_PROT_READ OR USER_VM_PROT_WRITE) p2 s3))"

definition init_panel_process ::
    "user_image \<Rightarrow> panel_user_storage \<Rightarrow> nat \<Rightarrow> u64 \<Rightarrow> u64 \<Rightarrow> map_mmio option \<Rightarrow> process \<Rightarrow> vmm \<Rightarrow> memory \<Rightarrow>
     bool \<times> process \<times> panel_user_storage \<times> vmm \<times> memory" where
  "init_panel_process img storage slot memory_base memory_size map_mmio p s m =
     (if slot \<ge> PROCESS_MAX_PROCESSES \<or> st_image_paddr storage = 0 then (False, p, storage, s, m)
      else case pmm_alloc_pages KERNEL_USER_STACK_PAGES (vpmm s) of
          (stack_paddr, pm) \<Rightarrow>
            (let s1 = s\<lparr>vpmm := pm\<rparr>; storage1 = storage\<lparr>st_stack_paddr := stack_paddr\<rparr>
             in if stack_paddr = 0 then (False, p, storage1, s1, m)
                else
                  (let m1 = zero_memory stack_paddr KERNEL_USER_STACK_SIZE m;
                       stack_vaddr = panel_stack_vaddr slot
                   in case user_image_prepare_process img stack_vaddr KERNEL_USER_STACK_SIZE AARCH64_SPSR_EL0T_DAF_MASKED p of
                        (False, p1) \<Rightarrow> (False, p1, storage1, s1, m1)
                      | (True, p1) \<Rightarrow>
                          (case create_panel_page_table img (st_image_paddr storage1) stack_vaddr stack_paddr KERNEL_USER_STACK_SIZE
                                  memory_base memory_size map_mmio p1 s1 of
                             (False, p2, s2) \<Rightarrow> (False, p2, storage1, s2, m1)
                           | (True, p2, s2) \<Rightarrow>
                               (case process_set_user_region_mapping (im_base img) (im_size img) (st_image_paddr storage1)
                                       PROCESS_USER_REGION_OWNED_PAGES p2 of
                                  (False, p3) \<Rightarrow> (False, p3, storage1, s2, m1)
                                | (True, p3) \<Rightarrow>
                                    (let storage2 = storage1\<lparr>st_image_paddr := 0\<rparr>
                                     in case process_set_user_region_mapping stack_vaddr KERNEL_USER_STACK_SIZE stack_paddr
                                               PROCESS_USER_REGION_OWNED_PAGES p3 of
                                          (okay, p4) \<Rightarrow> (okay, p4, storage2, s2, m1)))))))"

definition place_argv_on_stack :: "u64 \<Rightarrow> nat \<Rightarrow> u64 \<Rightarrow> u32 \<Rightarrow> memory \<Rightarrow> (u64 option \<times> memory) option" where
  "place_argv_on_stack stack_paddr slot argv_ptr argc m =
     (if stack_paddr = 0 \<or> slot \<ge> PROCESS_MAX_PROCESSES then Some (None, m)
      else panel_boot_place_argv_on_stack stack_paddr (panel_stack_vaddr slot) KERNEL_USER_STACK_SIZE argv_ptr argc m)"

text \<open>
  The part of \<open>app_spawn_vfs\<close> that fills the slot of the new process; \<open>-1\<close> is failure. The outer \<open>None\<close> would be an argument copy that does not end.
\<close>

definition spawn_slot ::
    "(u64 \<times> u64) list \<Rightarrow> string \<Rightarrow> u32 \<Rightarrow> u64 \<Rightarrow> u32 \<Rightarrow> launcher \<Rightarrow> nat \<Rightarrow> kernel \<Rightarrow> memory \<Rightarrow> (int \<times> kernel \<times> memory) option" where
  "spawn_slot blobs app_name entry_index argv_ptr argc l i k0 m =
     (let k = set_process i (\<lambda>p. p\<lparr>p_state := PROCESS_BLOCKED\<rparr>) k0
      in case process_index (Some i) of
           None \<Rightarrow> Some (-1, process_release i k, m)
         | Some slot \<Rightarrow>
             (case load_named_image blobs app_name slot entry_index \<lparr>st_image_paddr = 0, st_stack_paddr = 0\<rparr> (k_vmm k) m of
                (None, s, m1) \<Rightarrow>
                  (let k1 = process_release i (k\<lparr>k_vmm := s\<rparr>)
                   in Some (-1, k1\<lparr>k_vmm := snd (free_user_storage \<lparr>st_image_paddr = 0, st_stack_paddr = 0\<rparr> (k_vmm k1))\<rparr>, m1))
              | (Some (img, storage), s, m1) \<Rightarrow>
                  (case init_panel_process img storage slot (g_spawn_memory_base l) (g_spawn_memory_size l) (g_spawn_map_mmio l)
                          (g_processes k ! i) s m1 of
                     (False, p, storage1, s1, m2) \<Rightarrow>
                       (let k1 = process_release i ((set_process i (\<lambda>_. p) k)\<lparr>k_vmm := s1\<rparr>)
                        in Some (-1, k1\<lparr>k_vmm := snd (free_user_storage storage1 (k_vmm k1))\<rparr>, m2))
                   | (True, p, storage1, s1, m2) \<Rightarrow>
                       (let k1 = (set_process i (\<lambda>_. p\<lparr>p_regs := (p_regs p)[0 := 0, 1 := 0]\<rparr>) k)\<lparr>k_vmm := s1\<rparr>
                        in case place_argv_on_stack (st_stack_paddr storage1) slot argv_ptr argc m2 of
                             None \<Rightarrow> None
                           | Some (None, m3) \<Rightarrow> Some (-1, process_release i k1, m3)
                           | Some (Some argv_vaddr, m3) \<Rightarrow>
                               (let k2 = (if argv_vaddr \<noteq> 0
                                          then set_process i (\<lambda>p. p\<lparr>p_sp := argv_vaddr, p_regs := (p_regs p)[0 := ucast argc, 1 := argv_vaddr]\<rparr>) k1
                                          else k1);
                                    k3 = set_process i (\<lambda>p. p\<lparr>p_state := PROCESS_READY\<rparr>) k2
                                in Some (sint (p_pid (g_processes k3 ! i)), k3, m3))))))"

definition app_spawn_vfs ::
    "(u64 \<times> u64) list \<Rightarrow> string \<Rightarrow> u32 \<Rightarrow> u64 \<Rightarrow> u32 \<Rightarrow> launcher \<Rightarrow> kernel \<Rightarrow> memory \<Rightarrow> (int \<times> launcher \<times> kernel \<times> memory) option" where
  "app_spawn_vfs blobs path entry_index argv_ptr argc l k m =
     (if g_spawn_memory_size l = 0 then Some (-1, l, k, m)
      else case vfs_strip_prefix (Some path) (Some ''/armonios/'') of
          None \<Rightarrow> Some (-1, l, k, m)
        | Some app_name \<Rightarrow>
            if length app_name = 0 \<or> length app_name \<ge> 32 then Some (-1, l, k, m)
            else
              (let l1 = l\<lparr>g_next_spawn_pid := g_next_spawn_pid l + 1\<rparr>
               in case process_alloc (g_next_spawn_pid l) (Some app_name) (process_reclaim_zombies k) of
                    (None, k1) \<Rightarrow> Some (-1, l1, k1, m)
                  | (Some i, k1) \<Rightarrow>
                      map_option (\<lambda>(r, k2, m2). (r, l1, k2, m2)) (spawn_slot blobs app_name entry_index argv_ptr argc l i k1 m)))"

text \<open>
  The start of the panel, the first process. \<open>el0\<close> stands for the run in user mode that \<open>user_enter_el0\<close> starts and that ends
  when the panel exits: it maps the state at the entry to the exit code and the state at the return.
\<close>

definition panel_boot_run ::
    "(u64 \<times> u64) list \<Rightarrow> u64 \<Rightarrow> u64 \<Rightarrow> map_mmio option \<Rightarrow> (launcher \<times> kernel \<times> memory \<Rightarrow> u64 \<times> launcher \<times> kernel \<times> memory) \<Rightarrow>
     launcher \<Rightarrow> kernel \<Rightarrow> memory \<Rightarrow> u64 \<times> launcher \<times> kernel \<times> memory" where
  "panel_boot_run blobs memory_base memory_size map_mmio el0 l k0 m =
     (let kernel_page_table = k_ttbr0 k0
      in case process_alloc PANEL_BOOT_PID_BASE (Some ''panel'') (process_reclaim_zombies k0) of
           (None, k) \<Rightarrow> (1, l, k, m)
         | (Some i, k) \<Rightarrow>
             (case process_index (Some i) of
                None \<Rightarrow> (1, l, process_release i k, m)
              | Some slot \<Rightarrow>
                  (case load_named_image blobs ''panel'' slot 0 \<lparr>st_image_paddr = 0, st_stack_paddr = 0\<rparr> (k_vmm k) m of
                     (None, s, m1) \<Rightarrow>
                       (let k1 = process_release i (k\<lparr>k_vmm := s\<rparr>)
                        in (1, l, k1\<lparr>k_vmm := snd (free_user_storage \<lparr>st_image_paddr = 0, st_stack_paddr = 0\<rparr> (k_vmm k1))\<rparr>, m1))
                   | (Some (img, storage), s, m1) \<Rightarrow>
                       (case init_panel_process img storage slot memory_base memory_size map_mmio (g_processes k ! i) s m1 of
                          (False, p, storage1, s1, m2) \<Rightarrow>
                            (let k1 = process_release i ((set_process i (\<lambda>_. p) k)\<lparr>k_vmm := s1\<rparr>)
                             in (1, l, k1\<lparr>k_vmm := snd (free_user_storage storage1 (k_vmm k1))\<rparr>, m2))
                        | (True, p, storage1, s1, m2) \<Rightarrow>
                            (let l1 = l\<lparr>g_spawn_memory_base := memory_base, g_spawn_memory_size := memory_size, g_spawn_map_mmio := map_mmio\<rparr>;
                                 k1 = process_set_current (Some i) ((set_process i (\<lambda>_. p\<lparr>p_state := PROCESS_RUNNING\<rparr>) k)\<lparr>k_vmm := s1\<rparr>);
                                 k2 = (if p_page_table p \<noteq> 0 then k1\<lparr>k_ttbr0 := p_page_table p\<rparr> else k1)
                             in case el0 (l1, k2, m2) of
                                  (exit_code, l2, k3, m3) \<Rightarrow>
                                    (let k4 = (if kernel_page_table \<noteq> 0 then k3\<lparr>k_ttbr0 := kernel_page_table\<rparr> else k3)
                                     in (exit_code, l2, process_release i (process_reclaim_zombies k4), m3)))))))"

section \<open>A new address space\<close>

text \<open>The space \<open>g\<close> was made after \<open>s0\<close>: its tables are the only pages gone, and the spaces \<open>R\<close> are as they were.\<close>

definition new_space :: "u64 set \<Rightarrow> vmm \<Rightarrow> u64 \<Rightarrow> vmm \<Rightarrow> bool" where
  "new_space R s0 g s \<longleftrightarrow> g \<noteq> 0 \<and> g \<notin> R \<and> vm_ok (insert g R) s \<and> managed_pages (vpmm s) = managed_pages (vpmm s0) \<and>
     avail_pages (vpmm s) \<union> reached (ram s) g 3 = avail_pages (vpmm s0) \<and>
     (\<forall>r\<in>R. reached (ram s) r 3 = reached (ram s0) r 3 \<and> (\<forall>v. translation s r v = translation s0 r v))"

lemma tables_insert: "tables (insert g R) s = reached (ram s) g 3 \<union> tables R s"
  by (simp add: tables_def)

lemma new_space_tables: "new_space R s0 g s \<Longrightarrow> tables R s = tables R s0"
  by (simp add: new_space_def tables_def)

lemma new_space_init:
  assumes "vm_ok R s0" and "vmm_new_table s0 = (g, s)" and "g \<noteq> 0"
  shows "new_space R s0 g s"
  using vmm_new_table_effect [OF assms(1,2)] assms(3) by (auto simp: new_space_def)

lemma new_space_others:
  assumes n: "new_space R s0 g s" and o: "vm_others (insert g R) g s s'" and ok0: "vm_ok R s0"
  shows "new_space R s0 g s'"
proof -
  have g: "g \<notin> R" "vm_ok (insert g R) s" and ok': "vm_ok (insert g R) s'" using n vm_others_ok [OF o] by (simp_all add: new_space_def)
  have T: "tables R s' = tables R s" using o g(1) by (auto simp: vm_others_def vm_keeps_def tables_def)
  have dis: "reached (ram t) g 3 \<inter> tables R t = {}" "tables R t \<inter> avail_pages (vpmm t) = {}" if "vm_ok (insert g R) t" for t
  proof -
    show "reached (ram t) g 3 \<inter> tables R t = {}" using vm_ok_inj [OF that] g(1) unfolding tables_def reached_def by fast
    show "tables R t \<inter> avail_pages (vpmm t) = {}" using vm_ok_tables [OF that] unfolding tables_insert by blast
  qed
  have "avail_pages (vpmm s') \<union> reached (ram s') g 3 \<union> tables R s = avail_pages (vpmm s) \<union> reached (ram s) g 3 \<union> tables R s"
    using o T unfolding vm_others_def vm_keeps_def tables_insert by (simp add: Un_assoc)
  then have "avail_pages (vpmm s') \<union> reached (ram s') g 3 = avail_pages (vpmm s) \<union> reached (ram s) g 3"
    using dis [OF ok'] dis [OF g(2)] unfolding T by blast
  then show ?thesis using n o ok' g(1) by (auto simp: new_space_def vm_others_def vm_keeps_def)
qed

lemma new_space_free:
  assumes n: "new_space R s0 g s"
  shows "vm_ok R (vmm_free_table g s) \<and> avail_pages (vpmm (vmm_free_table g s)) = avail_pages (vpmm s0) \<and>
    managed_pages (vpmm (vmm_free_table g s)) = managed_pages (vpmm s0) \<and>
    (\<forall>r\<in>R. reached (ram (vmm_free_table g s)) r 3 = reached (ram s0) r 3 \<and> (\<forall>v. translation (vmm_free_table g s) r v = translation s0 r v))"
proof -
  have "vm_ok (insert g R) s" "insert g R - {g} = R" using n by (simp_all add: new_space_def)
  from vmm_free_table_effect [OF this(1) insertI1, unfolded this(2)] n show ?thesis
    by (simp add: new_space_def frees_def)
qed

section \<open>Mapping the devices\<close>

locale mmio_mapper =
  fixes map_mmio :: map_mmio
  assumes maps_one_space: "\<lbrakk>vm_ok R s; pgd \<in> R\<rbrakk> \<Longrightarrow> vm_others R pgd s (snd (map_mmio pgd s))"
begin

lemma identity_one_space:
  assumes ok: "vm_ok R s" and r: "pgd \<in> R"
  shows "vm_others R pgd s (snd (map_kernel_identity pgd base sz (Some map_mmio) s))"
proof -
  obtain b s1 where eq: "vmm_map_range pgd base base sz (VMM_FLAG_READ OR VMM_FLAG_WRITE OR VMM_FLAG_EXEC) s = (b, s1)" by fastforce
  then have o: "vm_others R pgd s s1" using vm_others_map [OF ok r] by (metis snd_conv)
  then have "vm_others R pgd s (snd (map_mmio pgd s1))"
    using maps_one_space [OF vm_others_ok [OF o] r] vm_others_trans by blast
  moreover have "vm_others R pgd s s" using vm_keeps_refl [OF ok] by (simp add: vm_others_def)
  ultimately show ?thesis using o unfolding map_kernel_identity_def eq by (auto split: bool.split)
qed

end

lemma vm_others_page:
  assumes "vm_ok R s" and "pgd \<in> R"
  shows "vm_others R pgd s (snd (vmm_map_page pgd va pa fl s))"
proof -
  obtain b s' where eq: "vmm_map_page pgd va pa fl s = (b, s')" by fastforce
  from vmm_map_page_effect [OF assms eq] show ?thesis by (auto simp: eq vm_others_def)
qed

lemma map_devices_others:
  assumes "vm_ok R s" and "pgd \<in> R"
  shows "vm_others R pgd s (snd (map_devices rs pgd s))"
  using assms
proof (induction rs pgd s rule: map_devices.induct)
  case (1 pgd s)
  then show ?case using vm_keeps_refl by (simp add: vm_others_def)
next
  case (2 base sz rs pgd s)
  obtain b s1 where eq: "vmm_map_range pgd base base sz MMIO_FLAGS s = (b, s1)" by fastforce
  then have o: "vm_others R pgd s s1" using vm_others_map [OF 2(2,3)] by (metis snd_conv)
  have "b \<Longrightarrow> vm_others R pgd s1 (snd (map_devices rs pgd s1))"
    using 2(1) [OF eq [symmetric]] vm_others_ok [OF o] 2(3) by auto
  then show ?case using o vm_others_trans unfolding map_devices.simps eq by (auto split: bool.split)
qed

lemma page_then_devices:
  assumes "vm_ok R s" and "pgd \<in> R"
  shows "vm_others R pgd s (snd (case vmm_map_page pgd va va MMIO_FLAGS s of (False, s1) \<Rightarrow> (False, s1) | (True, s1) \<Rightarrow> map_devices rs pgd s1))"
proof -
  obtain b s1 where eq: "vmm_map_page pgd va va MMIO_FLAGS s = (b, s1)" by fastforce
  then have o: "vm_others R pgd s s1" using vm_others_page [OF assms] by (metis snd_conv)
  then show ?thesis using map_devices_others [OF vm_others_ok [OF o] assms(2), of rs] vm_others_trans
    unfolding eq by (auto split: bool.split)
qed

interpretation qemu: mmio_mapper qemu_virt_map_mmio
  by unfold_locales (simp only: qemu_virt_map_mmio_def page_then_devices)

interpretation rpi4: mmio_mapper rpi4_map_mmio
  by unfold_locales (simp only: rpi4_map_mmio_def page_then_devices)

lemma rpi4_mailbox_conflict:
  assumes ok: "vm_ok R s" and r: "pgd \<in> R" and v: "vmm_map_range pgd 0xFE000000 0xFE000000 0x40000 f s = (True, s1)"
  shows "\<not> fst (vmm_map_range pgd 0xFE00B880 0xFE00B880 0x40 f s1)"
proof -
  obtain b s2 where m: "vmm_map_range pgd 0xFE00B880 0xFE00B880 0x40 f s1 = (b, s2)" by fastforce
  note e1 = vmm_map_range_effect [OF ok r v]
  have a: "page_align_down 0xFE000000 = 0xFE000000" "page_align_down 0xFE00B880 = 0xFE00B000" by code_simp+
  have n: "pages_of 0xFE000000 0x40000 = 64" "pages_of 0xFE00B880 0x40 = 1" by (simp_all add: pages_of_def)
  have maps: "maps_pages R pgd 0xFE000000 0xFE000000 f 64 s s1" and ok1: "vm_ok R s1"
    using e1 by (simp_all add: a n) (metis vm_keeps_ok)
  have "translation s1 pgd (0xFE000000 + of_nat 11 * PAGE_SIZE) \<noteq> None"
    using maps [unfolded maps_pages_def, THEN conjunct1, rule_format, of 11] by simp
  then have "translation s1 pgd 0xFE00B000 \<noteq> None" by simp
  moreover have "translation s1 pgd 0xFE00B000 = None" if b
    using vmm_map_range_effect [OF ok1 r m] that by (simp add: a n maps_pages_def)
  ultimately show ?thesis using m by auto
qed

text \<open>On the Raspberry Pi board \<open>board_map_mmio\<close> cannot succeed: the mailbox registers lie in a page of the range that was mapped for
  the virtio devices just before, and mapping a page twice is refused. So no process can be started on this board
  when its device mapping is part of the address space.\<close>

theorem rpi4_map_mmio_fails:
  assumes "vm_ok R s" and "pgd \<in> R"
  shows "\<not> fst (rpi4_map_mmio pgd s) \<and> \<not> fst (map_kernel_identity pgd memory_base memory_size (Some rpi4_map_mmio) s)"
proof -
  have fails: "\<not> fst (rpi4_map_mmio pgd s)" if "vm_ok R s" for s
  proof -
    obtain b1 s1 where e1: "vmm_map_page pgd 0xFE201000 0xFE201000 MMIO_FLAGS s = (b1, s1)" by fastforce
    obtain b2 s2 where e2: "vmm_map_range pgd 0xFF841000 0xFF841000 0x1000 MMIO_FLAGS s1 = (b2, s2)" by fastforce
    obtain b3 s3 where e3: "vmm_map_range pgd 0xFE000000 0xFE000000 0x40000 MMIO_FLAGS s2 = (b3, s3)" by fastforce
    obtain b4 s4 where e4: "vmm_map_range pgd 0xFE00B880 0xFE00B880 0x40 MMIO_FLAGS s3 = (b4, s4)" by fastforce
    have "vm_ok R s1" using vm_others_ok vm_others_page [OF that assms(2)] e1 by (metis snd_conv)
    then have ok2: "vm_ok R s2" using vm_others_ok vm_others_map [OF _ assms(2)] e2 by (metis snd_conv)
    have "b3 \<Longrightarrow> \<not> b4" using rpi4_mailbox_conflict [OF ok2 assms(2), of MMIO_FLAGS s3] e3 e4 by (cases b3) simp_all
    then show ?thesis unfolding rpi4_map_mmio_def e1 prod.case map_devices.simps e2 e3 e4 by (auto split: bool.split)
  qed
  obtain b s1 where e: "vmm_map_range pgd memory_base memory_base memory_size (VMM_FLAG_READ OR VMM_FLAG_WRITE OR VMM_FLAG_EXEC) s = (b, s1)"
    by fastforce
  then have "vm_ok R s1" using vm_others_ok vm_others_map [OF assms] by (metis snd_conv)
  then show ?thesis using fails [OF assms(1)] fails unfolding map_kernel_identity_def e by (auto split: bool.split)
qed

theorem rpi4_map_mmio_fails_witness: "\<not> fst (rpi4_map_mmio boot_pgd boot_space)"
  using rpi4_map_mmio_fails [OF boot_space_ok(2), of boot_pgd] by simp

section \<open>Preparing the process\<close>

text \<open>Fields that the loader's steps leave alone, and a process that owns no pages yet.\<close>

definition same_slot :: "process \<Rightarrow> process \<Rightarrow> bool" where
  "same_slot p p' \<longleftrightarrow> p_pid p' = p_pid p \<and> p_state p' = p_state p \<and> length (p_regs p') = length (p_regs p)"

definition unowned :: "process \<Rightarrow> bool" where
  "unowned p \<longleftrightarrow> region_ok p \<and> (\<forall>r\<in>set (regions p). ur_flags r = 0)"

lemma same_slot_trans: "same_slot p q \<Longrightarrow> same_slot q r \<Longrightarrow> same_slot p r"
  by (simp add: same_slot_def)

lemma unowned_pages: "unowned p \<Longrightarrow> owned_pages p = {}"
  by (auto simp: unowned_def owned_pages_def region_pages_def)

lemma unowned_add:
  assumes "unowned p" and "process_add_user_region a z p = (b, p')"
  shows "unowned p' \<and> same_slot p p' \<and> p_page_table p' = p_page_table p \<and>
    (b \<longrightarrow> user_region_end a z = Some (a + z) \<and> regions p' = regions p @ [\<lparr>ur_start = a, ur_end = a + z, ur_paddr = 0, ur_flags = 0\<rparr>])"
proof -
  have "same_slot p p' \<and> p_page_table p' = p_page_table p"
    using assms(2) by (auto simp: process_add_user_region_def same_slot_def split: if_splits option.splits)
  moreover note add_region_effect [where p = p and s = a and z = z, unfolded assms(2) prod.case]
  moreover have "region_ok p" using assms(1) by (simp add: unowned_def)
  ultimately show ?thesis using assms(1) user_region_end_Some [of a z "a + z"] by (auto simp: unowned_def split: if_splits)
qed

lemma unowned_remove:
  assumes "unowned p" and "process_remove_user_region a z p = (b, p')"
  shows "unowned p' \<and> same_slot p p' \<and> p_page_table p' = p_page_table p"
proof -
  obtain r where r: "process_remove_user_region_info a z p = (r, p')"
    using assms(2) by (auto simp: process_remove_user_region_def split: prod.splits)
  then have "same_slot p p' \<and> p_page_table p' = p_page_table p"
    by (auto simp: process_remove_user_region_info_def same_slot_def Let_def split: option.splits)
  moreover have "region_ok p' \<and> set (regions p') \<subseteq> set (regions p)"
    using remove_region_effect [where p = p and s = a and z = z, unfolded r prod.case] assms(1)
    by (auto simp: unowned_def split: option.splits dest: in_set_takeD in_set_dropD)
  ultimately show ?thesis using assms(1) by (auto simp: unowned_def)
qed

lemma unowned_set_mapping:
  assumes "unowned p" and "process_set_user_region_mapping a z pa 0 p = (b, p')"
  shows "unowned p'"
proof (cases b)
  case False
  then show ?thesis using assms by (auto simp: process_set_user_region_mapping_def split: option.splits)
next
  case True
  then obtain e i where e: "region_index a e p = Some i"
    and p': "p' = p\<lparr>p_user_regions := (p_user_regions p)[i := (p_user_regions p ! i)\<lparr>ur_paddr := pa, ur_flags := 0\<rparr>]\<rparr>"
    using assms(2) by (auto simp: process_set_user_region_mapping_def split: option.splits)
  have "regions p' = (regions p)[i := (p_user_regions p ! i)\<lparr>ur_paddr := pa, ur_flags := 0\<rparr>]"
    by (simp add: p' regions_def take_update_swap)
  then have "set (regions p') \<subseteq> insert ((p_user_regions p ! i)\<lparr>ur_paddr := pa, ur_flags := 0\<rparr>) (set (regions p))"
    by (simp add: set_update_subset_insert)
  moreover have "region_ok p'" using set_mapping_effect [where p = p and s = a and z = z and pa = pa and fl = 0] assms by (simp add: unowned_def)
  ultimately show ?thesis using assms(1) by (auto simp: unowned_def)
qed

lemma set_mapping_slot:
  assumes "process_set_user_region_mapping a z pa fl p = (b, p')"
  shows "same_slot p p' \<and> p_page_table p' = p_page_table p"
  using assms by (auto simp: process_set_user_region_mapping_def same_slot_def split: option.splits)

lemma set_entry_frame [simp]:
  "regions (process_set_entry pc sp ps p) = regions p" "region_ok (process_set_entry pc sp ps p) = region_ok p"
  "unowned (process_set_entry pc sp ps p) = unowned p" "same_slot q (process_set_entry pc sp ps p) = same_slot q p"
  "p_page_table (process_set_entry pc sp ps p) = p_page_table p"
  by (simp_all add: process_set_entry_def regions_def region_ok_def unowned_def same_slot_def)

lemma same_slot_refl [simp]: "same_slot p p" "same_slot (process_set_entry pc sp ps p) q = same_slot p q"
  by (simp_all add: same_slot_def process_set_entry_def)

lemma prepare_process_effect:
  assumes un: "unowned p" and rg: "regions p = []" and eq: "user_image_prepare_process img sv sz ps p = (b, p')"
  shows "unowned p' \<and> same_slot p p' \<and> p_page_table p' = p_page_table p \<and>
    (b \<longrightarrow> user_region_end (im_base img) (im_size img) = Some (im_base img + im_size img) \<and> user_region_end sv sz = Some (sv + sz) \<and>
      regions p' = [\<lparr>ur_start = im_base img, ur_end = im_base img + im_size img, ur_paddr = 0, ur_flags = 0\<rparr>,
        \<lparr>ur_start = sv, ur_end = sv + sz, ur_paddr = 0, ur_flags = 0\<rparr>])"
proof -
  define e where "e = user_image_entry img"
  note eq = eq [unfolded user_image_prepare_process_def Let_def, folded e_def]
  show ?thesis
  proof (cases "e = 0 \<or> sv = 0 \<or> sz = 0 \<or> add_u64_checked sv sz = None")
    case True
    then have "b = False" "p' = p" using eq by (auto split: if_splits)
    then show ?thesis using un by simp
  next
    case False
    then obtain top where top: "add_u64_checked sv sz = Some top" by auto
    define p1 where "p1 = process_set_entry e top ps p"
    obtain b1 p2 where a1: "process_add_user_region (im_base img) (im_size img) p1 = (b1, p2)" by fastforce
    obtain b2 p3 where a2: "process_add_user_region sv sz p2 = (b2, p3)" by fastforce
    obtain b3 p4 where a3: "process_remove_user_region (im_base img) (im_size img) p3 = (b3, p4)" by fastforce
    have p1: "unowned p1" "same_slot p p1" "p_page_table p1 = p_page_table p" "regions p1 = []" using un rg by (simp_all add: p1_def)
    note u1 = unowned_add [OF p1(1) a1]
    note u2 = unowned_add [OF u1 [THEN conjunct1] a2]
    note u3 = unowned_remove [OF u2 [THEN conjunct1] a3]
    have "(b, p') = (if \<not> b1 then (False, process_set_entry (p_pc p) (p_sp p) (p_pstate p) p2)
        else if b2 then (True, p3) else (False, process_set_entry (p_pc p) (p_sp p) (p_pstate p) p4))"
      using eq False top a1 a2 a3 by (cases b1; cases b2) (simp_all add: p1_def)
    moreover have "same_slot p p2" using u1 p1(2) same_slot_trans by blast
    moreover from this have "same_slot p p3" using u2 same_slot_trans by blast
    moreover from this have "same_slot p p4" using u3 same_slot_trans by blast
    ultimately show ?thesis using u1 u2 u3 p1 by (auto split: if_splits)
  qed
qed

lemma map_physical_effect:
  assumes ok: "vm_ok R s" and r: "p_page_table p \<in> R" and un: "unowned p" and eq: "user_vm_map_physical va pa sz fl p s = (b, p', s')"
  shows "vm_others R (p_page_table p) s s' \<and> unowned p' \<and> same_slot p p' \<and> p_page_table p' = p_page_table p \<and>
    (b \<longrightarrow> process_set_user_region_mapping va sz pa 0 p = (True, p'))"
proof -
  have refl: "vm_others R (p_page_table p) s s" using vm_keeps_refl [OF ok] by (simp add: vm_others_def)
  note eq = eq [unfolded user_vm_map_physical_def]
  show ?thesis
  proof (cases "p_page_table p = 0 \<or> va = 0 \<or> pa = 0 \<or> sz = 0 \<or> flags_to_vmm fl = None \<or> process_find_user_region va sz p = None")
    case True
    then have "b = False" "p' = p" "s' = s" using eq by (auto split: if_splits option.splits)
    then show ?thesis using refl un by simp
  next
    case False
    then obtain f where f: "flags_to_vmm fl = Some f" by auto
    obtain b1 s1 where m: "vmm_map_range (p_page_table p) va pa sz f s = (b1, s1)" by fastforce
    obtain b2 p2 where st: "process_set_user_region_mapping va sz pa 0 p = (b2, p2)" by fastforce
    note sl = set_mapping_slot [OF st] and u2 = unowned_set_mapping [OF un st]
    have o1: "vm_others R (p_page_table p) s s1" using vm_others_map [OF ok r] m by (metis snd_conv)
    have o2: "vm_others R (p_page_table p) s (snd (vmm_unmap_range (p_page_table p) va sz s1))"
      using vm_others_trans [OF o1 vm_others_unmap [OF vm_others_ok [OF o1] r]] .
    have "(b, p', s') = (if \<not> b1 then (False, p, snd (vmm_unmap_range (p_page_table p) va sz s1))
        else if b2 then (True, p2, s1) else (False, p2, snd (vmm_unmap_range (p_page_table p) va sz s1)))"
      using eq [unfolded f option.case m st prod.case] False sl by (cases b1; cases b2) (auto split: if_splits)
    then show ?thesis using o1 o2 sl u2 un st by (auto split: if_splits)
  qed
qed

lemma map_kernel_identity_others:
  assumes ok: "vm_ok R s" and r: "pgd \<in> R" and mm: "\<And>f. mm = Some f \<Longrightarrow> mmio_mapper f"
  shows "vm_others R pgd s (snd (map_kernel_identity pgd base sz mm s))"
proof (cases mm)
  case None
  obtain b s1 where eq: "vmm_map_range pgd base base sz (VMM_FLAG_READ OR VMM_FLAG_WRITE OR VMM_FLAG_EXEC) s = (b, s1)" by fastforce
  then have "vm_others R pgd s s1" using vm_others_map [OF ok r] by (metis snd_conv)
  moreover have "vm_others R pgd s s" using vm_keeps_refl [OF ok] by (simp add: vm_others_def)
  ultimately show ?thesis unfolding map_kernel_identity_def eq None by (auto split: bool.split)
next
  case (Some f)
  then show ?thesis using mmio_mapper.identity_one_space [OF mm [OF Some] ok r] by simp
qed

text \<open>The memory is as in \<open>s0\<close>, with the given pages free again.\<close>

definition vm_same :: "u64 set \<Rightarrow> vmm \<Rightarrow> vmm \<Rightarrow> bool" where
  "vm_same R s0 s \<longleftrightarrow> vm_ok R s \<and> managed_pages (vpmm s) = managed_pages (vpmm s0) \<and> avail_pages (vpmm s) = avail_pages (vpmm s0) \<and>
     (\<forall>r\<in>R. reached (ram s) r 3 = reached (ram s0) r 3 \<and> (\<forall>v. translation s r v = translation s0 r v))"

lemma create_table_effect:
  assumes ok: "vm_ok R s0" and un: "unowned p" and pt: "p_page_table p = 0" and mm: "\<And>f. mm = Some f \<Longrightarrow> mmio_mapper f"
    and rg: "regions p = [\<lparr>ur_start = im_base img, ur_end = im_base img + im_size img, ur_paddr = 0, ur_flags = 0\<rparr>,
        \<lparr>ur_start = sv, ur_end = sv + sz, ur_paddr = 0, ur_flags = 0\<rparr>]"
    and e: "user_region_end (im_base img) (im_size img) = Some (im_base img + im_size img)" "user_region_end sv sz = Some (sv + sz)"
    and eq: "create_panel_page_table img ip sv sp sz mb ms mm p s0 = (b, p', s')"
  shows "unowned p' \<and> same_slot p p' \<and>
    (if p_page_table p' = 0 then \<not> b \<and> vm_same R s0 s' else new_space R s0 (p_page_table p') s') \<and>
    (b \<longrightarrow> regions p' = [\<lparr>ur_start = im_base img, ur_end = im_base img + im_size img, ur_paddr = ip, ur_flags = 0\<rparr>,
        \<lparr>ur_start = sv, ur_end = sv + sz, ur_paddr = sp, ur_flags = 0\<rparr>])"
proof -
  obtain g s1 where g: "vmm_new_table s0 = (g, s1)" by fastforce
  obtain b2 s2 where id: "map_kernel_identity g mb ms mm s1 = (b2, s2)" by fastforce
  define p1 where "p1 = process_set_page_table g p"
  obtain b3 p2 s3 where m1: "user_vm_map_physical (im_base img) ip (im_size img) (USER_VM_PROT_READ OR USER_VM_PROT_EXEC) p1 s2 = (b3, p2, s3)"
    by (metis prod_cases3)
  obtain b4 p3 s4 where m2: "user_vm_map_physical sv sp sz (USER_VM_PROT_READ OR USER_VM_PROT_WRITE) p2 s3 = (b4, p3, s4)" by (metis prod_cases3)
  note eq = eq [unfolded create_panel_page_table_def g id prod.case Let_def, folded p1_def, unfolded m1 m2 prod.case]
  show ?thesis
  proof (cases "g = 0")
    case True
    then have "b = False" "p' = p" "s' = s1" using eq by simp_all
    moreover have "s1 = s0" using vmm_new_table_effect [OF ok g] True by simp
    ultimately show ?thesis using un pt ok by (simp add: vm_same_def)
  next
    case False
    note n1 = new_space_init [OF ok g False]
    then have ok1: "vm_ok (insert g R) s1" by (simp add: new_space_def)
    have "vm_others (insert g R) g s1 s2" using map_kernel_identity_others [OF ok1 insertI1 mm] id by (metis snd_conv)
    note n2 = new_space_others [OF n1 this ok]
    then have ok2: "vm_ok (insert g R) s2" by (simp add: new_space_def)
    show ?thesis
    proof (cases b2)
      case f: False
      then have "b = False" "p' = p" "s' = vmm_free_table g s2" using eq False by simp_all
      then show ?thesis using new_space_free [OF n2] un pt by (simp add: vm_same_def)
    next
      case t: True
      have p1: "unowned p1" "same_slot p p1" "p_page_table p1 = g" "regions p1 = regions p"
        using un by (simp_all add: p1_def process_set_page_table_def unowned_def region_ok_def regions_def same_slot_def)
      note e1 = map_physical_effect [OF ok2 _ p1(1) m1, unfolded p1(3), OF insertI1]
      note n3 = new_space_others [OF n2 e1 [THEN conjunct1] ok]
      then have ok3: "vm_ok (insert g R) s3" by (simp add: new_space_def)
      have p2: "p_page_table p2 = g" "unowned p2" using e1 by simp_all
      note e2 = map_physical_effect [OF ok3 _ p2(2) m2, unfolded p2(1), OF insertI1]
      note n4 = new_space_others [OF n3 e2 [THEN conjunct1] ok]
      have "(b, p', s') = (if b3 then (b4, p3, s4) else (False, p2, s3))" using eq False t by (cases b3) simp_all
      moreover have "regions p3 = [\<lparr>ur_start = im_base img, ur_end = im_base img + im_size img, ur_paddr = ip, ur_flags = 0\<rparr>,
        \<lparr>ur_start = sv, ur_end = sv + sz, ur_paddr = sp, ur_flags = 0\<rparr>]" if "b3" "b4"
      proof -
        let ?a = "\<lparr>ur_start = im_base img, ur_end = im_base img + im_size img, ur_paddr = 0, ur_flags = 0\<rparr>"
          and ?c = "\<lparr>ur_start = sv, ur_end = sv + sz, ur_paddr = 0, ur_flags = 0\<rparr>"
        have "regions p1 = [] @ ?a # [?c]" using p1(4) rg by simp
        then have r2: "regions p2 = [?a\<lparr>ur_paddr := ip, ur_flags := 0\<rparr>] @ ?c # []"
          using set_mapping_at [of p1 "[]" ?a "[?c]" "im_size img" ip 0] p1(1) e(1) e1 that(1) by (auto simp: unowned_def)
        then show ?thesis
          using set_mapping_at [of p2 _ ?c "[]" sz sp 0, OF _ r2] p2(2) e(2) e2 that(2) by (auto simp: unowned_def)
      qed
      moreover have "same_slot p p2" using e1 p1(2) same_slot_trans by blast
      moreover from this have "same_slot p p3" using e2 same_slot_trans by blast
      ultimately show ?thesis using e1 e2 n3 n4 False by (auto split: if_splits)
    qed
  qed
qed

section \<open>Releasing what was prepared\<close>

definition space_since :: "u64 set \<Rightarrow> vmm \<Rightarrow> u64 \<Rightarrow> vmm \<Rightarrow> bool" where
  "space_since R s1 g s \<longleftrightarrow> (if g = 0 then vm_same R s1 s else new_space R s1 g s)"

lemma vm_same_refl: "vm_ok R s \<Longrightarrow> vm_same R s s"
  by (simp add: vm_same_def)

lemma space_since_refl: "vm_ok R s \<Longrightarrow> space_since R s 0 s"
  by (simp add: space_since_def vm_same_refl)

text \<open>Freeing the resources of a process gives back its address space and the pages it owns.\<close>

lemma free_resources_since:
  assumes reg: "region_ok p" and sp: "space_since R s1 (p_page_table p) s" and z: "0 \<notin> R"
    and own: "owned_pages p \<subseteq> managed_pages (vpmm s1) - avail_pages (vpmm s1) - tables R s1"
  shows "\<exists>A. A = owned_pages p \<and> vm_ok R (snd (process_free_resources p s)) \<and>
    managed_pages (vpmm (snd (process_free_resources p s))) = managed_pages (vpmm s1) \<and>
    avail_pages (vpmm (snd (process_free_resources p s))) = avail_pages (vpmm s1) \<union> A \<and>
    (\<forall>r\<in>R. reached (ram (snd (process_free_resources p s))) r 3 = reached (ram s1) r 3 \<and>
       (\<forall>v. translation (snd (process_free_resources p s)) r v = translation s1 r v))"
proof -
  obtain p' s' where eq: "process_free_resources p s = (p', s')" by fastforce
  let ?g = "p_page_table p"
  show ?thesis
  proof (cases "?g = 0")
    case True
    then have s: "vm_same R s1 s" using sp by (simp add: space_since_def)
    then have "tables R s = tables R s1" by (simp add: vm_same_def tables_def)
    with s own have "owned_pages p \<subseteq> managed_pages (vpmm s) - tables R s" by (auto simp: vm_same_def)
    from process_free_resources_effect [OF _ reg this _ eq] s True z show ?thesis
      by (simp add: eq vm_same_def frees_def)
  next
    case False
    then have s: "new_space R s1 ?g s" using sp by (simp add: space_since_def)
    then have ok: "vm_ok (insert ?g R) s" "insert ?g R - {?g} = R" by (simp_all add: new_space_def)
    have "owned_pages p \<subseteq> managed_pages (vpmm s) - tables (insert ?g R) s"
      using own s new_space_tables [OF s] unfolding tables_insert by (auto simp: new_space_def)
    from process_free_resources_effect [OF ok(1) reg this _ eq] ok(2) s False show ?thesis
      by (auto simp: eq new_space_def frees_def)
  qed
qed

lemma init_process_effect:
  assumes ok: "vm_ok R s" and un: "unowned p" "regions p = []" "p_page_table p = 0" and mm: "\<And>f. mm = Some f \<Longrightarrow> mmio_mapper f"
    and st0: "st_stack_paddr st = 0"
    and eq: "init_panel_process img st slot mb ms mm p s m = (b, p', st', s', m')"
  shows "\<exists>s1 B. (if st_stack_paddr st' = 0 then B = {} \<and> s1 = s else B = page_run (st_stack_paddr st') 4096 \<and> takes B s s1) \<and>
    same_slot p p' \<and> region_ok p' \<and> space_since R s1 (p_page_table p') s' \<and>
    (if b then st_stack_paddr st' \<noteq> 0 \<and> p_page_table p' \<noteq> 0 \<and> st_image_paddr st' = 0 \<and>
       owned_pages p' = page_run (st_image_paddr st) (im_size img) \<union> B
     else unowned p' \<and> st_image_paddr st' = st_image_paddr st)"
proof (cases "slot \<ge> 16 \<or> st_image_paddr st = 0")
  case True
  then have "b = False" "p' = p" "st' = st" "s' = s" using eq by (auto simp: init_panel_process_def)
  then show ?thesis using st0 un space_since_refl [OF ok] by (intro exI [of _ s] exI [of _ "{}"]) (simp add: unowned_def)
next
  case False
  obtain sp pm where al: "pmm_alloc_pages KERNEL_USER_STACK_PAGES (vpmm s) = (sp, pm)" by fastforce
  have one: "KERNEL_USER_STACK_SIZE div PAGE_SIZE = 1" by simp
  define s1 where "s1 = s\<lparr>vpmm := pm\<rparr>"
  define sv where "sv = panel_stack_vaddr slot"
  obtain b1 p1 where pr: "user_image_prepare_process img sv KERNEL_USER_STACK_SIZE AARCH64_SPSR_EL0T_DAF_MASKED p = (b1, p1)" by fastforce
  obtain b2 p2 s2 where cr: "create_panel_page_table img (st_image_paddr st) sv sp KERNEL_USER_STACK_SIZE mb ms mm p1 s1 = (b2, p2, s2)"
    by (metis prod_cases3)
  obtain b3 p3 where m3: "process_set_user_region_mapping (im_base img) (im_size img) (st_image_paddr st) PROCESS_USER_REGION_OWNED_PAGES p2 = (b3, p3)"
    by fastforce
  obtain b4 p4 where m4: "process_set_user_region_mapping sv KERNEL_USER_STACK_SIZE sp PROCESS_USER_REGION_OWNED_PAGES p3 = (b4, p4)" by fastforce
  note eq = eq [unfolded init_panel_process_def al prod.case Let_def, folded s1_def sv_def]
  show ?thesis
  proof (cases "sp = 0")
    case True
    have "pm = vpmm s" using pmm_alloc_pages_zero [OF vm_ok_ready [OF ok] _ al [unfolded True]] by simp
    then have "b = False" "p' = p" "st' = st\<lparr>st_stack_paddr := 0\<rparr>" "s' = s" using eq False True by (simp_all add: s1_def)
    then show ?thesis using un space_since_refl [OF ok] by (intro exI [of _ s] exI [of _ "{}"]) (simp add: unowned_def)
  next
    case nz: False
    have t: "takes (page_run sp 4096) s s1"
      using alloc_pages_takes(1) [OF ok _ _ al [folded one] nz] by (simp add: s1_def)
    note ok1 = vm_ok_takes(1) [OF ok t]
    note e1 = prepare_process_effect [OF un(1,2) pr]
    have fin: "(b, p', st', s') = (if \<not> b1 then (False, p1, st\<lparr>st_stack_paddr := sp\<rparr>, s1)
        else if \<not> b2 then (False, p2, st\<lparr>st_stack_paddr := sp\<rparr>, s2)
        else if \<not> b3 then (False, p3, st\<lparr>st_stack_paddr := sp\<rparr>, s2)
        else (b4, p4, st\<lparr>st_stack_paddr := sp, st_image_paddr := 0\<rparr>, s2))"
      using eq False nz by (cases b1; cases b2; cases b3) (simp_all add: pr cr m3 m4)
    show ?thesis
    proof (cases b1)
      case f: False
      then have "b = False" "p' = p1" "st' = st\<lparr>st_stack_paddr := sp\<rparr>" "s' = s1" using fin by simp_all
      then show ?thesis using e1 un(3) nz t space_since_refl [OF ok1]
        by (intro exI [of _ s1] exI [of _ "page_run sp 4096"]) (simp add: unowned_def)
    next
      case b1: True
      let ?a = "\<lparr>ur_start = im_base img, ur_end = im_base img + im_size img, ur_paddr = st_image_paddr st, ur_flags = 0\<rparr>"
        and ?c = "\<lparr>ur_start = sv, ur_end = sv + KERNEL_USER_STACK_SIZE, ur_paddr = sp, ur_flags = 0\<rparr>"
      have e: "user_region_end (im_base img) (im_size img) = Some (im_base img + im_size img)"
        "user_region_end sv KERNEL_USER_STACK_SIZE = Some (sv + KERNEL_USER_STACK_SIZE)" "unowned p1" "p_page_table p1 = 0" "same_slot p p1"
        using e1 b1 un(3) by simp_all
      note c = create_table_effect [OF ok1 e(3,4) mm _ e(1,2) cr]
      have c: "unowned p2" "same_slot p p2" "space_since R s1 (p_page_table p2) s2" "p_page_table p2 = 0 \<longrightarrow> \<not> b2"
        "b2 \<longrightarrow> regions p2 = [?a, ?c]"
        using c e1 b1 same_slot_trans [OF e(5)] by (auto simp: space_since_def split: if_splits)
      show ?thesis
      proof (cases b2)
        case f: False
        then have "b = False" "p' = p2" "st' = st\<lparr>st_stack_paddr := sp\<rparr>" "s' = s2" using fin b1 by simp_all
        then show ?thesis using c nz t by (intro exI [of _ s1] exI [of _ "page_run sp 4096"]) (simp add: unowned_def)
      next
        case b2: True
        let ?a1 = "?a\<lparr>ur_flags := 1\<rparr>" and ?c1 = "?c\<lparr>ur_flags := 1\<rparr>"
        have "region_ok p2" using c(1) by (simp add: unowned_def)
        then have r3: "b3" "region_ok p3" "regions p3 = [?a1] @ ?c # []" "p_page_table p3 = p_page_table p2"
          using set_mapping_at [of p2 "[]" ?a "[?c]" "im_size img" "st_image_paddr st" 1] c(5) b2 e(1) m3 by auto
        then have r4: "b4" "region_ok p4" "regions p4 = [?a1, ?c1]" "p_page_table p4 = p_page_table p2"
          using set_mapping_at [of p3 "[?a1]" ?c "[]" KERNEL_USER_STACK_SIZE sp 1] e(2) m4 by auto
        have res: "b = True" "p' = p4" "st' = st\<lparr>st_stack_paddr := sp, st_image_paddr := 0\<rparr>" "s' = s2"
          using fin b1 b2 r3(1) r4(1) by simp_all
        have "region_pages ?a1 = page_run (st_image_paddr st) (im_size img)" "region_pages ?c1 = page_run sp 4096"
          using False nz user_region_end_nat(2) [OF e(1)] user_region_end_nat(2) [OF e(2)] by (simp_all add: region_pages_def page_run_def)
        then have "owned_pages p4 = page_run (st_image_paddr st) (im_size img) \<union> page_run sp 4096" by (simp add: owned_pages_def r4(3))
        moreover have "same_slot p p4"
          using c(2) set_mapping_slot [OF m3] set_mapping_slot [OF m4] by (simp add: same_slot_def)
        ultimately show ?thesis using res c(3,4) r4(2,4) nz t b2
          by (intro exI [of _ s1] exI [of _ "page_run sp 4096"]) simp
      qed
    qed
  qed
qed

lemma takes_then_frees:
  assumes "vm_ok R s" and "takes A s s1" and "frees A s1 s2"
  shows "vm_same R s s2"
proof -
  note t = vm_ok_takes [OF assms(1,2)]
  have "vm_ok R s2" "\<And>r v. translation s2 r v = translation s r v"
    using vm_ok_frees [OF t(1) assms(3)] t by simp_all
  then show ?thesis using assms(2,3) by (auto simp: vm_same_def takes_def frees_def)
qed

lemma image_pages_free:
  assumes "ip \<noteq> 0"
  shows "free_image_pages ip s = free_page_range ip 8192 s"
proof -
  have "[0..<unat KERNEL_USER_IMAGE_SLOT_PAGES] = [0..<(unat (8192 :: u64) + 4095) div 4096]" by simp
  then show ?thesis using assms unfolding free_image_pages_def free_page_range_def by (simp only: if_False)
qed

lemma page_run_single: "page_run sp 4096 = {sp}"
  by (simp add: page_run_def lessThan_Suc)

lemma free_storage_frees:
  assumes "pmm_ready (vpmm s)" and "st_image_paddr st \<noteq> 0 \<Longrightarrow> page_run (st_image_paddr st) 8192 \<subseteq> managed_pages (vpmm s)"
    and "st_stack_paddr st \<noteq> 0 \<Longrightarrow> page_run (st_stack_paddr st) 4096 \<subseteq> managed_pages (vpmm s)"
  shows "frees ((if st_image_paddr st = 0 then {} else page_run (st_image_paddr st) 8192) \<union>
    (if st_stack_paddr st = 0 then {} else page_run (st_stack_paddr st) 4096)) s (snd (free_user_storage st s))"
proof -
  let ?A = "if st_image_paddr st = 0 then {} else page_run (st_image_paddr st) 8192" and ?s = "free_image_pages (st_image_paddr st) s"
  have 1: "frees ?A s ?s"
    using free_page_range_frees [OF assms(1,2)] image_pages_free frees_none [OF assms(1)] by (auto simp: free_image_pages_def)
  show ?thesis
  proof (cases "st_stack_paddr st = 0")
    case True
    then show ?thesis using 1 by (simp add: free_user_storage_def Let_def)
  next
    case False
    then have "frees {st_stack_paddr st} ?s (?s\<lparr>vpmm := pmm_free_page (st_stack_paddr st) (vpmm ?s)\<rparr>)"
      using assms(3) 1 by (intro frees_page) (auto simp: page_run_single frees_def)
    from frees_trans [OF 1 this] show ?thesis using False by (simp add: free_user_storage_def Let_def page_run_single)
  qed
qed

lemma load_image_effect:
  assumes ok: "vm_ok R s" and eq: "load_named_image blobs name slot idx \<lparr>st_image_paddr = 0, st_stack_paddr = 0\<rparr> s m = (r, s', m')"
  shows "case r of None \<Rightarrow> vm_same R s s'
    | Some (img, st) \<Rightarrow> im_size img = 8192 \<and> st_image_paddr st \<noteq> 0 \<and> st_stack_paddr st = 0 \<and> takes (page_run (st_image_paddr st) 8192) s s'"
proof -
  obtain ip pm where al: "pmm_alloc_pages KERNEL_USER_IMAGE_SLOT_PAGES (vpmm s) = (ip, pm)" by fastforce
  have two: "KERNEL_USER_IMAGE_SLOT_SIZE div PAGE_SIZE = 2" by simp
  note eq = eq [unfolded load_named_image_def al prod.case Let_def]
  show ?thesis
  proof (cases "ip = 0")
    case True
    have "pm = vpmm s" using pmm_alloc_pages_zero [OF vm_ok_ready [OF ok] _ al [unfolded True]] by simp
    then have "r = None" "s' = s" using eq True by simp_all
    then show ?thesis using vm_same_refl [OF ok] by simp
  next
    case False
    have t: "takes (page_run ip 8192) s (s\<lparr>vpmm := pm\<rparr>)"
      using alloc_pages_takes(1) [OF ok _ _ al [folded two] False] by simp
    have "page_run ip 8192 \<subseteq> managed_pages (vpmm s)"
      using t by (auto simp: takes_def avail_pages_def managed_pages_def dest!: subsetD free_set_less)
    then have "frees (page_run ip 8192) (s\<lparr>vpmm := pm\<rparr>) (free_image_pages ip (s\<lparr>vpmm := pm\<rparr>))"
      using t unfolding image_pages_free [OF False] by (intro free_page_range_frees) (simp_all add: takes_def)
    note undo = takes_then_frees [OF ok t this]
    show ?thesis
    proof (cases "user_image_load_bootfs_flat blobs name name ip KERNEL_USER_IMAGE_SLOT_SIZE idx (zero_memory ip KERNEL_USER_IMAGE_SLOT_SIZE m)")
      case None
      then have "r = None" "s' = free_image_pages ip (s\<lparr>vpmm := pm\<rparr>)" using eq False by simp_all
      then show ?thesis using undo by simp
    next
      case (Some im)
      then show ?thesis using eq False t by (cases im) auto
    qed
  qed
qed

section \<open>Spawning\<close>

text \<open>
  What a spawn does with the memory \<open>s0\<close> and the slot \<open>i\<close>. If it fails (\<open>-1\<close>), the slot is free and the memory as before. If it succeeds, the
  slot holds a ready process whose pages and page tables were free and are now accounted for, and the other address spaces are as before.
\<close>

definition spawn_outcome :: "u64 set \<Rightarrow> u32 \<Rightarrow> nat \<Rightarrow> vmm \<Rightarrow> int \<Rightarrow> kernel \<Rightarrow> bool" where
  "spawn_outcome R pid i s0 r k' \<longleftrightarrow>
     (r = -1 \<and> \<not> in_use (g_processes k' ! i) \<and> vm_same R s0 (k_vmm k')) \<or>
     (r = sint pid \<and>
      (let p = g_processes k' ! i; g = p_page_table p; s = k_vmm k'
       in p_state p = PROCESS_READY \<and> p_pid p = pid \<and> g \<noteq> 0 \<and> g \<notin> R \<and> vm_ok (insert g R) s \<and>
          owned_pages p \<union> reached (ram s) g 3 \<union> avail_pages (vpmm s) = avail_pages (vpmm s0) \<and>
          owned_pages p \<inter> (reached (ram s) g 3 \<union> avail_pages (vpmm s)) = {} \<and>
          (\<forall>r\<in>R. \<forall>v. translation s r v = translation s0 r v)))"

lemma avail_managed: "avail_pages p \<subseteq> managed_pages p"
  by (auto simp: avail_pages_def managed_pages_def dest: free_set_less)

text \<open>Release after a failed initialisation, then the pages that the process did not own yet.\<close>

lemma failed_init_restores:
  assumes ok: "vm_ok R s0" and z: "0 \<notin> R" and tA: "takes (page_run (st_image_paddr st) 8192) s0 s" and ip: "st_image_paddr st \<noteq> 0"
    and B: "if st_stack_paddr st = 0 then B = {} \<and> s1 = s else B = page_run (st_stack_paddr st) 4096 \<and> takes B s s1"
    and p: "unowned p" "space_since R s1 (p_page_table p) s2" and t: "t = snd (process_free_resources p s2)"
  shows "vm_same R s0 (snd (free_user_storage st t))"
proof -
  let ?A = "page_run (st_image_paddr st) 8192"
  have B': "B \<subseteq> avail_pages (vpmm s)" "avail_pages (vpmm s1) = avail_pages (vpmm s) - B" "managed_pages (vpmm s1) = managed_pages (vpmm s)"
    "ram s1 = ram s" "B = (if st_stack_paddr st = 0 then {} else page_run (st_stack_paddr st) 4096)"
    using B by (auto simp: takes_def split: if_splits)
  have A': "?A \<subseteq> avail_pages (vpmm s0)" "avail_pages (vpmm s) = avail_pages (vpmm s0) - ?A" "managed_pages (vpmm s) = managed_pages (vpmm s0)"
    "ram s = ram s0" using tA by (simp_all add: takes_def)
  have "owned_pages p = {}" by (rule unowned_pages [OF p(1)])
  then have fr: "vm_ok R t" "managed_pages (vpmm t) = managed_pages (vpmm s1)" "avail_pages (vpmm t) = avail_pages (vpmm s1)"
    "\<forall>r\<in>R. reached (ram t) r 3 = reached (ram s1) r 3 \<and> (\<forall>v. translation t r v = translation s1 r v)"
    using free_resources_since [OF _ p(2) z] p(1) by (auto simp: t unowned_def)
  have "?A \<union> B \<subseteq> managed_pages (vpmm t)" using A' B' fr(2) avail_managed [of "vpmm s0"] by auto
  then have f: "frees (?A \<union> B) t (snd (free_user_storage st t))"
    using free_storage_frees [OF vm_ok_ready [OF fr(1)], of st] ip B'(5) by (auto split: if_splits)
  have "tables R t = tables R s0" using fr(4) A'(4) B'(4) by (simp add: tables_def)
  then have "(?A \<union> B) \<inter> tables R t = {}" using A' B' vm_ok_tables [OF ok] by auto
  note v = vm_ok_frees [OF fr(1) f this]
  have "translation s1 r v = translation s0 r v" for r v unfolding translation_def B'(4) A'(4) ..
  then show ?thesis using v f fr A' B' by (auto simp: vm_same_def frees_def)
qed

lemma slot_table_ok:
  assumes "table_ok k" and "i < 16" and "in_use (g_processes k ! i)" and "same_slot (g_processes k ! i) p" and "region_ok p"
    and "p_state p \<noteq> PROCESS_RUNNING"
  shows "table_ok (k\<lparr>g_processes := (g_processes k)[i := p], k_vmm := s\<rparr>)" and "process_ok p" and "in_use p"
proof -
  have ok: "process_ok (g_processes k ! i)" by (rule table_ok_slot [OF assms(1,2)])
  then show p: "process_ok p" "in_use p" using assms(3-5) by (simp_all add: same_slot_def in_use_def process_ok_def)
  show "table_ok (k\<lparr>g_processes := (g_processes k)[i := p], k_vmm := s\<rparr>)"
    by (rule table_ok_set [OF assms(1-3) p]) (use assms(4,6) in \<open>simp_all add: same_slot_def\<close>)
qed

lemma argv_failed_restores:
  assumes ok: "vm_ok R s0" and z: "0 \<notin> R" and tA: "takes A s0 s" and tB: "takes B s s1"
    and p: "region_ok p" "space_since R s1 (p_page_table p) s2" "owned_pages p = A \<union> B"
  shows "vm_same R s0 (snd (process_free_resources p s2))"
proof -
  note a = vm_ok_takes [OF ok tA]
  note b = vm_ok_takes [OF a(1) tB]
  have "A \<union> B \<subseteq> managed_pages (vpmm s1) - avail_pages (vpmm s1) - tables R s1"
    using tA tB a b avail_managed [of "vpmm s0"] by (auto simp: takes_def)
  then have "vm_ok R (snd (process_free_resources p s2))"
    "managed_pages (vpmm (snd (process_free_resources p s2))) = managed_pages (vpmm s1)"
    "avail_pages (vpmm (snd (process_free_resources p s2))) = avail_pages (vpmm s1) \<union> (A \<union> B)"
    "\<forall>r\<in>R. reached (ram (snd (process_free_resources p s2))) r 3 = reached (ram s1) r 3 \<and>
       (\<forall>v. translation (snd (process_free_resources p s2)) r v = translation s1 r v)"
    using free_resources_since [OF p(1,2) z] p(3) by auto
  then show ?thesis using tA tB a(3) b(3) by (auto simp: vm_same_def takes_def)
qed

lemma ready_outcome:
  assumes ok: "vm_ok R s0" and tA: "takes A s0 s" and tB: "takes B s s1" and n: "new_space R s1 g s2"
    and k: "k_vmm k' = s2" "p_page_table (g_processes k' ! i) = g" "owned_pages (g_processes k' ! i) = A \<union> B"
      "p_state (g_processes k' ! i) = PROCESS_READY" "p_pid (g_processes k' ! i) = pid" and r: "r = sint pid"
  shows "spawn_outcome R pid i s0 r k'"
proof -
  note a = vm_ok_takes [OF ok tA]
  note b = vm_ok_takes [OF a(1) tB]
  have un: "avail_pages (vpmm s2) \<union> reached (ram s2) g 3 = avail_pages (vpmm s1)" using n by (simp add: new_space_def)
  moreover have "avail_pages (vpmm s1) = avail_pages (vpmm s0) - (A \<union> B)" "A \<union> B \<subseteq> avail_pages (vpmm s0)"
    using tA tB by (auto simp: takes_def)
  ultimately have "A \<union> B \<union> reached (ram s2) g 3 \<union> avail_pages (vpmm s2) = avail_pages (vpmm s0)"
    "(A \<union> B) \<inter> (reached (ram s2) g 3 \<union> avail_pages (vpmm s2)) = {}" by blast+
  moreover have "\<forall>r\<in>R. \<forall>v. translation s2 r v = translation s0 r v" using n a(3) b(3) by (simp add: new_space_def)
  ultimately show ?thesis using n k r unfolding spawn_outcome_def Let_def by (simp add: new_space_def)
qed

definition fresh_slot :: "process \<Rightarrow> bool" where
  "fresh_slot p \<longleftrightarrow> unowned p \<and> regions p = [] \<and> p_page_table p = 0"

text \<open>The slot of the kernel after \<open>spawn_slot\<close>, and the rest of the table untouched.\<close>

definition slot_only :: "nat \<Rightarrow> kernel \<Rightarrow> kernel \<Rightarrow> bool" where
  "slot_only i k k' \<longleftrightarrow> table_ok k' \<and> (\<forall>j<16. j \<noteq> i \<longrightarrow> g_processes k' ! j = g_processes k ! j) \<and>
     g_current_process k' = g_current_process k \<and> k_gui k' = k_gui k"

lemma release_slot_only:
  assumes t: "table_ok k" and i: "i < 16" and u: "in_use (g_processes k ! i)" and cur: "g_current_process k \<noteq> Some i"
    and p: "same_slot (g_processes k ! i) p" "region_ok p" "p_state p \<noteq> PROCESS_RUNNING"
    and k1: "k1 = process_release i (k\<lparr>g_processes := (g_processes k)[i := p], k_vmm := s\<rparr>)"
  shows "slot_only i k k1 \<and> \<not> in_use (g_processes k1 ! i) \<and> k_vmm k1 = snd (process_free_resources p s)"
proof -
  note ok = slot_table_ok [OF t i u p]
  have len: "length (g_processes k) = 16" using t by (simp add: table_ok_def)
  from process_release_effect [OF ok(1) i] show ?thesis
    using ok(3) i len cur unfolding k1 slot_only_def by (simp add: nth_list_update)
qed

lemma failed_slot:
  assumes "slot_only i k k1" and "\<not> in_use (g_processes k1 ! i)" and "vm_same R s0 s"
  shows "slot_only i k (k1\<lparr>k_vmm := s\<rparr>) \<and> spawn_outcome R pid i s0 (-1) (k1\<lparr>k_vmm := s\<rparr>)"
proof -
  have "table_ok (k1\<lparr>k_vmm := s\<rparr>) = table_ok k1" by (simp add: table_ok_def)
  then show ?thesis using assms by (simp add: slot_only_def spawn_outcome_def)
qed

lemma ready_slot_only:
  assumes t: "table_ok k" and i: "i < 16" and u: "in_use (g_processes k ! i)" and p: "p_state p = PROCESS_READY"
    "p_pid p = p_pid (g_processes k ! i)" "length (p_regs p) = length (p_regs (g_processes k ! i))" "region_ok p"
  shows "slot_only i k (k\<lparr>g_processes := (g_processes k)[i := p], k_vmm := s\<rparr>)"
proof -
  have ok: "process_ok p" "in_use p" using table_ok_slot [OF t i] u p by (simp_all add: in_use_def process_ok_def)
  have "table_ok (k\<lparr>g_processes := (g_processes k)[i := p], k_vmm := s\<rparr>)"
    by (rule table_ok_set [OF t i u ok]) (simp_all add: p)
  then show ?thesis by (simp add: slot_only_def)
qed

lemma spawn_slot_effect:
  assumes t0: "table_ok k0" and i: "i < 16" and u0: "in_use (g_processes k0 ! i)" and cur: "g_current_process k0 \<noteq> Some i"
    and fresh: "fresh_slot (g_processes k0 ! i)" and ok: "vm_ok R (k_vmm k0)" and z: "0 \<notin> R"
    and mm: "\<And>f. g_spawn_map_mmio l = Some f \<Longrightarrow> mmio_mapper f"
    and eq: "spawn_slot blobs name idx ap argc l i k0 m = Some (r, k', m')"
  shows "slot_only i k0 k' \<and> spawn_outcome R (p_pid (g_processes k0 ! i)) i (k_vmm k0) r k'"
proof -
  define pb where "pb = (g_processes k0 ! i)\<lparr>p_state := PROCESS_BLOCKED\<rparr>"
  define k where "k = k0\<lparr>g_processes := (g_processes k0)[i := pb]\<rparr>"
  have len: "length (g_processes k0) = 16" using t0 by (simp add: table_ok_def)
  have pb: "process_ok pb" "in_use pb" using table_ok_slot [OF t0 i] u0 by (simp_all add: pb_def process_ok_state in_use_def)
  have t: "table_ok k" unfolding k_def by (rule table_ok_set [OF t0 i u0 pb]) (simp_all add: pb_def)
  have ki: "g_processes k ! i = pb" "in_use (g_processes k ! i)" "g_current_process k \<noteq> Some i" "k_vmm k = k_vmm k0"
    using i len cur pb(2) by (simp_all add: k_def)
  have un: "unowned pb" "regions pb = []" "p_page_table pb = 0" "region_ok pb" "p_state pb \<noteq> PROCESS_RUNNING"
    using fresh by (simp_all add: fresh_slot_def pb_def unowned_def region_ok_def regions_def)
  have so: "slot_only i k k'' \<Longrightarrow> slot_only i k0 k''" for k'' by (simp add: slot_only_def k_def)
  have upd: "k\<lparr>g_processes := (g_processes k)[i := pb], k_vmm := s\<rparr> = k\<lparr>k_vmm := s\<rparr>" for s
    using ki(1) len by (metis (no_types, lifting) kernel.surjective kernel.update_convs(1) list_update_id)
  obtain lr s m1 where ld: "load_named_image blobs name i idx \<lparr>st_image_paddr = 0, st_stack_paddr = 0\<rparr> (k_vmm k) m = (lr, s, m1)" by (metis prod_cases3)
  note le = load_image_effect [OF ok ld [unfolded ki(4)]]
  have idx: "process_index (Some i) = Some i" using i by (simp add: process_index_def process_in_table_def)
  note eq = eq [unfolded spawn_slot_def set_process_def pb_def [symmetric] k_def [symmetric] Let_def idx option.case ld prod.case]
  show ?thesis
  proof (cases lr)
    case None
    have same: "same_slot (g_processes k ! i) pb" using ki(1) by simp
    note rl = release_slot_only [OF t i ki(2,3) same un(4,5) refl, of s, unfolded upd]
    have ps: "vm_same R (k_vmm k0) s" using le None by simp
    have since: "space_since R (k_vmm k0) (p_page_table pb) s" using ps un(3) by (simp add: space_since_def)
    have fr: "vm_same R (k_vmm k0) (snd (process_free_resources pb s))"
      using free_resources_since [OF un(4) since z] unowned_pages [OF un(1)] by (simp add: vm_same_def)
    let ?k1 = "process_release i (k\<lparr>k_vmm := s\<rparr>)"
    have nop: "snd (free_user_storage \<lparr>st_image_paddr = 0, st_stack_paddr = 0\<rparr> x) = x" for x
      by (simp add: free_user_storage_def free_image_pages_def)
    have "r = -1" "k' = ?k1\<lparr>k_vmm := k_vmm ?k1\<rparr>" using eq None unfolding nop by simp_all
    then show ?thesis using failed_slot [of i k ?k1 R "k_vmm k0" "k_vmm ?k1"] rl fr so by metis
  next
    case (Some x)
    then obtain img st where x: "lr = Some (img, st)" by (cases x) simp
    with le have img: "im_size img = 8192" "st_image_paddr st \<noteq> 0" "st_stack_paddr st = 0" "takes (page_run (st_image_paddr st) 8192) (k_vmm k0) s" by simp_all
    note oks = vm_ok_takes(1) [OF ok img(4)]
    obtain b p st1 s2 m2 where ini: "init_panel_process img st i (g_spawn_memory_base l) (g_spawn_memory_size l) (g_spawn_map_mmio l) pb s m1
        = (b, p, st1, s2, m2)" by (metis prod_cases5)
    obtain s1 B where e: "if st_stack_paddr st1 = 0 then B = {} \<and> s1 = s else B = page_run (st_stack_paddr st1) 4096 \<and> takes B s s1"
      "same_slot pb p" "region_ok p" "space_since R s1 (p_page_table p) s2"
      "if b then st_stack_paddr st1 \<noteq> 0 \<and> p_page_table p \<noteq> 0 \<and> st_image_paddr st1 = 0 \<and> owned_pages p = page_run (st_image_paddr st) 8192 \<union> B
       else unowned p \<and> st_image_paddr st1 = st_image_paddr st"
      using init_process_effect [OF oks un(1-3) mm img(3) ini] unfolding img(1) by blast
    have pst: "p_state p \<noteq> PROCESS_RUNNING" "p_pid p = p_pid (g_processes k0 ! i)" using e(2) by (simp_all add: same_slot_def pb_def)
    note eq = eq [unfolded x option.case prod.case ki(1) ini]
    show ?thesis
    proof (cases b)
      case False
      note rl = release_slot_only [OF t i ki(2,3) e(2) [folded ki(1)] e(3) pst(1) refl, of s2]
      have st1: "st_image_paddr st1 = st_image_paddr st" "unowned p" using e(5) False by simp_all
      have fr: "vm_same R (k_vmm k0) (snd (free_user_storage st1 (snd (process_free_resources p s2))))"
        by (rule failed_init_restores [OF ok z _ _ e(1) st1(2) e(4) refl]) (simp_all only: st1(1) img(2,4) not_False_eq_True)
      let ?k1 = "process_release i (k\<lparr>g_processes := (g_processes k)[i := p], k_vmm := s2\<rparr>)"
      have "r = -1" "k' = ?k1\<lparr>k_vmm := snd (free_user_storage st1 (k_vmm ?k1))\<rparr>" using eq False by simp_all
      then show ?thesis using failed_slot [of i k ?k1 R "k_vmm k0" "snd (free_user_storage st1 (k_vmm ?k1))"] rl fr so by metis
    next
      case True
      have tB: "takes B s s1" and own: "owned_pages p = page_run (st_image_paddr st) 8192 \<union> B" and pt: "p_page_table p \<noteq> 0"
        using e(1,5) True by (auto split: if_splits)
      define q where "q = p\<lparr>p_regs := (p_regs p)[0 := 0, 1 := 0]\<rparr>"
      have q: "same_slot pb q" "region_ok q" "p_state q \<noteq> PROCESS_RUNNING" "owned_pages q = owned_pages p" "p_page_table q = p_page_table p"
        using e(2,3) pst by (simp_all add: q_def same_slot_def region_ok_def regions_def owned_pages_def)
      define kq where "kq = k\<lparr>g_processes := (g_processes k)[i := q], k_vmm := s2\<rparr>"
      note rl = release_slot_only [OF t i ki(2,3) q(1) [folded ki(1)] q(2,3) refl, of s2, folded kq_def]
      have "vm_same R (k_vmm k0) (snd (process_free_resources q s2))"
        using argv_failed_restores [OF ok z img(4) tB q(2)] e(4) own q(4,5) by simp
      then have failed: "slot_only i k0 (process_release i kq) \<and> spawn_outcome R pid i (k_vmm k0) (-1) (process_release i kq)" for pid
        using rl so by (simp add: spawn_outcome_def)
      obtain ar m3 where ar: "place_argv_on_stack (st_stack_paddr st1) i ap argc m2 = Some (ar, m3)"
        using eq True by (auto split: option.splits)
      show ?thesis
      proof (cases ar)
        case None
        then have "r = -1" "k' = process_release i kq" using eq True ar by (simp_all add: kq_def q_def)
        then show ?thesis using failed by simp
      next
        case (Some av)
        define q' where "q' = (if av \<noteq> 0 then q\<lparr>p_sp := av, p_regs := (p_regs q)[0 := ucast argc, 1 := av]\<rparr> else q)\<lparr>p_state := PROCESS_READY\<rparr>"
        have q': "p_state q' = PROCESS_READY" "p_pid q' = p_pid pb" "length (p_regs q') = length (p_regs pb)"
          "region_ok q'" "owned_pages q' = owned_pages p" "p_page_table q' = p_page_table p"
          using q by (auto simp: q'_def same_slot_def region_ok_def regions_def owned_pages_def)
        have il: "i < length (g_processes k)" using len i by (simp add: k_def)
        then have k': "k' = k\<lparr>k_vmm := s2, g_processes := (g_processes k)[i := q']\<rparr>" and r: "r = sint (p_pid pb)"
          using eq True ar Some q'(2) by (auto simp: q_def q'_def split: if_splits)
        have "k\<lparr>k_vmm := s2, g_processes := (g_processes k)[i := q']\<rparr> = k\<lparr>g_processes := (g_processes k)[i := q'], k_vmm := s2\<rparr>" by simp
        note k' = k' [unfolded this]
        have "slot_only i k k'" unfolding k' by (rule ready_slot_only [OF t i ki(2)]) (simp_all add: ki(1) q')
        moreover have n: "new_space R s1 (p_page_table p) s2" using e(4) pt by (simp add: space_since_def)
        have "spawn_outcome R (p_pid pb) i (k_vmm k0) r k'"
          by (rule ready_outcome [OF ok img(4) tB n]) (use il k' q' own r in simp_all)
        ultimately show ?thesis using so by (simp add: pb_def)
      qed
    qed
  qed
qed

lemma spawn_slot_total: "spawn_slot blobs name idx ap 0 l i k m \<noteq> None"
proof -
  have "place_argv_on_stack sp slot ap 0 x = Some (if sp = 0 \<or> slot \<ge> 16 then None else Some 0, x)" for sp slot x
    by (simp add: place_argv_on_stack_def panel_boot_place_argv_on_stack_def)
  then show ?thesis unfolding spawn_slot_def Let_def by (auto split: option.split prod.split bool.split)
qed

lemma alloc_slot_fresh:
  assumes t: "table_ok k" and eq: "process_alloc pid name k = (Some i, k1)"
  shows "table_ok k1" "i < 16" "in_use (g_processes k1 ! i)" "g_current_process k1 \<noteq> Some i" "fresh_slot (g_processes k1 ! i)"
    "k_vmm k1 = k_vmm k" "p_pid (g_processes k1 ! i) = pid" "\<not> in_use (g_processes k ! i)"
    "\<forall>j<16. j \<noteq> i \<longrightarrow> g_processes k1 ! j = g_processes k ! j" "g_current_process k1 = g_current_process k" "k_gui k1 = k_gui k"
proof -
  have len: "length (g_processes k) = 16" using t by (simp add: table_ok_def)
  note e = process_alloc_effect [OF t eq]
  have p: "g_processes k1 = (g_processes k)[i := process_init pid name (g_processes k ! i)]" using e by simp
  show "table_ok k1" "i < 16" "k_vmm k1 = k_vmm k" "\<not> in_use (g_processes k ! i)" "g_current_process k1 = g_current_process k" "k_gui k1 = k_gui k"
    using e by simp_all
  then show "in_use (g_processes k1 ! i)" "fresh_slot (g_processes k1 ! i)" "p_pid (g_processes k1 ! i) = pid"
    using p len by (simp_all add: process_init_def in_use_def fresh_slot_def unowned_def region_ok_def regions_def)
  show "\<forall>j<16. j \<noteq> i \<longrightarrow> g_processes k1 ! j = g_processes k ! j" by (simp add: p)
  show "g_current_process k1 \<noteq> Some i" using t e by (auto simp: table_ok_def current_ok_def in_use_def)
qed

lemma spawn_effect:
  assumes t: "table_ok k" and ok: "vm_ok R (k_vmm (process_reclaim_zombies k))" and z: "0 \<notin> R"
    and mm: "\<And>f. g_spawn_map_mmio l = Some f \<Longrightarrow> mmio_mapper f"
  shows "case app_spawn_vfs blobs path idx ap argc l k m of
      None \<Rightarrow> argc \<noteq> 0
    | Some (r, l', k', m') \<Rightarrow> r = -1 \<and> (k' = k \<or> k' = process_reclaim_zombies k) \<or>
        (\<exists>i<16. let k1 = process_reclaim_zombies k in \<not> in_use (g_processes k1 ! i) \<and> slot_only i k1 k' \<and>
           spawn_outcome R (g_next_spawn_pid l) i (k_vmm k1) r k')"
proof -
  have t1: "table_ok (process_reclaim_zombies k)" unfolding process_reclaim_zombies_def by (rule reclaim_ok [OF t]) auto
  show ?thesis
  proof (cases "g_spawn_memory_size l = 0 \<or> vfs_strip_prefix (Some path) (Some ''/armonios/'') = None \<or>
      (\<exists>n. vfs_strip_prefix (Some path) (Some ''/armonios/'') = Some n \<and> (length n = 0 \<or> length n \<ge> 32))")
    case True
    then have "app_spawn_vfs blobs path idx ap argc l k m = Some (-1, l, k, m)" by (auto simp: app_spawn_vfs_def)
    then show ?thesis by simp
  next
    case False
    then obtain n where n: "vfs_strip_prefix (Some path) (Some ''/armonios/'') = Some n" "\<not> (length n = 0 \<or> length n \<ge> 32)"
      "g_spawn_memory_size l \<noteq> 0" by auto
    obtain a k1 where al: "process_alloc (g_next_spawn_pid l) (Some n) (process_reclaim_zombies k) = (a, k1)" by fastforce
    let ?l = "l\<lparr>g_next_spawn_pid := g_next_spawn_pid l + 1\<rparr>"
    have def: "app_spawn_vfs blobs path idx ap argc l k m = (case a of None \<Rightarrow> Some (-1, ?l, k1, m)
      | Some i \<Rightarrow> map_option (\<lambda>(r, k2, m2). (r, ?l, k2, m2)) (spawn_slot blobs n idx ap argc l i k1 m))"
      unfolding app_spawn_vfs_def n(1) option.case Let_def al prod.case using n(2,3) by simp
    show ?thesis
    proof (cases a)
      case None
      then show ?thesis using process_alloc_effect [OF t1 al] def by simp
    next
      case (Some i)
      note f = alloc_slot_fresh [OF t1 al [unfolded Some]]
      show ?thesis
      proof (cases "spawn_slot blobs n idx ap argc l i k1 m")
        case None
        then have "argc \<noteq> 0" using spawn_slot_total by metis
        then show ?thesis using def \<open>a = Some i\<close> None by simp
      next
        case (Some x)
        obtain r k2 m2 where x: "x = (r, k2, m2)" by (metis prod_cases3)
        note e = spawn_slot_effect [OF f(1-5) _ z mm Some [unfolded x], unfolded f(6,7), OF ok]
        then have "slot_only i (process_reclaim_zombies k) k2" using f(9-11) by (simp add: slot_only_def)
        with e have "\<exists>i<16. \<not> in_use (g_processes (process_reclaim_zombies k) ! i) \<and> slot_only i (process_reclaim_zombies k) k2 \<and>
            spawn_outcome R (g_next_spawn_pid l) i (k_vmm (process_reclaim_zombies k)) r k2"
          using f(2,8) by blast
        moreover have "app_spawn_vfs blobs path idx ap argc l k m = Some (r, ?l, k2, m2)" using def \<open>a = Some i\<close> Some x by simp
        ultimately show ?thesis by (simp only: option.case prod.case Let_def) blast
      qed
    qed
  qed
qed

text \<open>C11 Spawning a process is all or nothing. The call always returns when there are no arguments to copy. When it returns \<open>-1\<close> the process table is
  unchanged but for the zombies it reclaimed, or the slot it had taken is free again and the page allocator and all address spaces are as
  before. When it returns the process id, the slot of that id is ready, its image, stack and page tables are exactly the
  pages that the allocator lost, and no translation of any other address space has changed. The mapping function of
  the board may be absent or any function that keeps the contract of \<open>mmio_mapper\<close>, as those of both boards do.\<close>

theorem app_spawn_correct:
  assumes "table_ok k" and "vm_ok R (k_vmm (process_reclaim_zombies k))" and "0 \<notin> R"
    and "\<And>f. g_spawn_map_mmio l = Some f \<Longrightarrow> mmio_mapper f"
  shows "case app_spawn_vfs blobs path idx ap argc l k m of
      None \<Rightarrow> argc \<noteq> 0
    | Some (r, l', k', m') \<Rightarrow> r = -1 \<and> (k' = k \<or> k' = process_reclaim_zombies k) \<or>
        (\<exists>i<16. let k1 = process_reclaim_zombies k in \<not> in_use (g_processes k1 ! i) \<and> slot_only i k1 k' \<and>
           spawn_outcome R (g_next_spawn_pid l) i (k_vmm k1) r k')"
  using assms by (rule spawn_effect)

definition launcher_demo :: launcher where
  "launcher_demo = \<lparr>g_spawn_memory_base = 0x40000000, g_spawn_memory_size = 0x100000, g_spawn_map_mmio = Some qemu_virt_map_mmio,
     g_next_spawn_pid = 2\<rparr>"

lemma reclaim_none:
  assumes "\<And>i. i \<in> set is \<Longrightarrow> p_state (g_processes k ! i) \<noteq> PROCESS_ZOMBIE"
  shows "fold (\<lambda>i k. if p_state (g_processes k ! i) = PROCESS_ZOMBIE then process_release i k else k) is k = k"
  using assms by (induction "is") auto

lemma kernel_demo_reclaim: "process_reclaim_zombies kernel_demo = kernel_demo" "k_vmm kernel_demo = boot_space"
proof -
  have "p_state (g_processes kernel_demo ! i) \<noteq> PROCESS_ZOMBIE" if "i < 16" for i
    using kernel_demo_slot [OF that] by (simp add: in_use_def)
  then show "process_reclaim_zombies kernel_demo = kernel_demo" unfolding process_reclaim_zombies_def by (intro reclaim_none) simp
  show "k_vmm kernel_demo = boot_space" by (simp add: kernel_demo_def process_table_init_def)
qed

theorem app_spawn_correct_witness:
  "\<exists>r l' k' m'. app_spawn_vfs [] ''/armonios/shell'' 0 0 0 launcher_demo kernel_demo (\<lambda>_. 0) = Some (r, l', k', m') \<and> (r = -1 \<or>
     (\<exists>i<16. slot_only i kernel_demo k' \<and> spawn_outcome {boot_pgd} 2 i boot_space r k'))"
proof -
  have R: "vm_ok {boot_pgd} (k_vmm (process_reclaim_zombies kernel_demo))" "0 \<notin> {boot_pgd}"
    unfolding kernel_demo_reclaim using boot_space_ok(1,2) by simp_all
  have mm: "g_spawn_map_mmio launcher_demo = Some f \<Longrightarrow> mmio_mapper f" for f
    using qemu.mmio_mapper_axioms by (simp add: launcher_demo_def)
  note e = app_spawn_correct [OF kernel_demo_ok R, where l = launcher_demo and blobs = "[]" and path = "''/armonios/shell''" and idx = 0 and ap = 0
    and argc = 0 and m = "\<lambda>_. 0", OF mm]
  have pid: "g_next_spawn_pid launcher_demo = 2" by (simp add: launcher_demo_def)
  show ?thesis
  proof (cases "app_spawn_vfs [] ''/armonios/shell'' 0 0 0 launcher_demo kernel_demo (\<lambda>_. 0)")
    case None
    then show ?thesis using e by simp
  next
    case (Some x)
    obtain r l' k' m' where x: "x = (r, l', k', m')" by (metis prod_cases4)
    show ?thesis using e unfolding Some x kernel_demo_reclaim option.case prod.case pid Let_def by blast
  qed
qed

end
