(* ===== verification/Fb.thy ===== *)
theory Fb
  imports Prelude
begin

text \<open>
  Drawing into a pixel buffer: \<open>drivers/fb/fb.c\<close> and the bitmap font of \<open>kernel/font.c\<close>. A buffer is \<open>fb_t\<close> with its pixels: the words found at the
  address \<open>fb_pixels\<close> are the function \<open>fb_mem\<close> of their index. Screen
  coordinates are 32-bit words, so the index of a pixel is computed with wrap-around, as in the code; the coordinates of lines and circles, \<open>int32_t\<close> in
  the code, are integers. The lemmas show that drawing stays inside the buffer, what filled rectangles and copies leave in every pixel, and
  that the line and circle loops end.
\<close>

record fb =
  fb_pixels :: u64
  fb_width :: u32
  fb_height :: u32
  fb_stride_pixels :: u32
  fb_mem :: "nat \<Rightarrow> u32"

section \<open>Operations\<close>

definition fb_init :: "fb \<Rightarrow> u64 \<Rightarrow> u32 \<Rightarrow> u32 \<Rightarrow> u32 \<Rightarrow> bool \<times> fb" where
  "fb_init fb pixels width height stride =
     (if pixels = 0 \<or> width = 0 \<or> height = 0 \<or> stride < width then (False, fb)
      else (True, fb\<lparr>fb_pixels := pixels, fb_width := width, fb_height := height, fb_stride_pixels := stride\<rparr>))"

definition fb_index :: "fb \<Rightarrow> u32 \<Rightarrow> u32 \<Rightarrow> nat" where
  "fb_index fb x y = unat (y * fb_stride_pixels fb + x)"

definition fb_store :: "nat \<Rightarrow> u32 \<Rightarrow> fb \<Rightarrow> fb" where
  "fb_store i color fb = fb\<lparr>fb_mem := (fb_mem fb)(i := color)\<rparr>"

definition fb_putpixel :: "u32 \<Rightarrow> u32 \<Rightarrow> u32 \<Rightarrow> fb \<Rightarrow> fb" where
  "fb_putpixel x y color fb =
     (if fb_pixels fb = 0 \<or> x \<ge> fb_width fb \<or> y \<ge> fb_height fb then fb
      else fb_store (fb_index fb x y) color fb)"

definition blend_argb :: "u32 \<Rightarrow> u32 \<Rightarrow> u32" where
  "blend_argb dst src =
     (let alpha = drop_bit 24 src AND 0xff; inv = 255 - alpha;
          sr = drop_bit 16 src AND 0xff; sg = drop_bit 8 src AND 0xff; sb = src AND 0xff;
          dr = drop_bit 16 dst AND 0xff; dg = drop_bit 8 dst AND 0xff; db = dst AND 0xff;
          r = (sr * alpha + dr * inv) div 255;
          g = (sg * alpha + dg * inv) div 255;
          b = (sb * alpha + db * inv) div 255
      in 0xff000000 OR push_bit 16 r OR push_bit 8 g OR b)"

definition fb_putpixel_alpha :: "u32 \<Rightarrow> u32 \<Rightarrow> u32 \<Rightarrow> fb \<Rightarrow> fb" where
  "fb_putpixel_alpha x y color fb =
     (if fb_pixels fb = 0 \<or> x \<ge> fb_width fb \<or> y \<ge> fb_height fb then fb
      else fb_store (fb_index fb x y) (blend_argb (fb_mem fb (fb_index fb x y)) color) fb)"

definition fill_row :: "nat \<Rightarrow> nat \<Rightarrow> (nat \<Rightarrow> u32) \<Rightarrow> fb \<Rightarrow> fb" where
  "fill_row start w color fb = fold (\<lambda>col. fb_store (start + col) (color col)) [0..<w] fb"

definition fb_fillrect :: "u32 \<Rightarrow> u32 \<Rightarrow> u32 \<Rightarrow> u32 \<Rightarrow> u32 \<Rightarrow> fb \<Rightarrow> fb" where
  "fb_fillrect x y w h color fb =
     (if fb_pixels fb = 0 \<or> w = 0 \<or> h = 0 \<or> x \<ge> fb_width fb \<or> y \<ge> fb_height fb then fb
      else
        (let w1 = (if w > fb_width fb - x then fb_width fb - x else w);
             h1 = (if h > fb_height fb - y then fb_height fb - y else h);
             start = fb_index fb x y
         in fold (\<lambda>row. fill_row (start + row * unat (fb_stride_pixels fb)) (unat w1) (\<lambda>_. color)) [0..<unat h1] fb))"

definition fb_draw_rect :: "u32 \<Rightarrow> u32 \<Rightarrow> u32 \<Rightarrow> u32 \<Rightarrow> u32 \<Rightarrow> fb \<Rightarrow> fb" where
  "fb_draw_rect x y w h color fb =
     (if fb_pixels fb = 0 \<or> w = 0 \<or> h = 0 \<or> x \<ge> fb_width fb \<or> y \<ge> fb_height fb then fb
      else
        (let x1 = min (ucast x + ucast w) (ucast (fb_width fb)) :: u64;
             y1 = min (ucast y + ucast h) (ucast (fb_height fb)) :: u64;
             w1 = ucast (x1 - ucast x) :: u32; h1 = ucast (y1 - ucast y) :: u32;
             fb1 = fold (\<lambda>col fb.
                     let fb = fb_putpixel (x + of_nat col) y color fb
                     in if h1 > 1 then fb_putpixel (x + of_nat col) (y + h1 - 1) color fb else fb) [0..<unat w1] fb
         in fold (\<lambda>row fb.
              let fb = fb_putpixel x (y + of_nat row) color fb
              in if w1 > 1 then fb_putpixel (x + w1 - 1) (y + of_nat row) color fb else fb) [1..<unat h1 - 1] fb1))"

definition iabs32 :: "int \<Rightarrow> int" where
  "iabs32 v = (if v < 0 then - v else v)"

definition fb_putpixel_i32 :: "int \<Rightarrow> int \<Rightarrow> u32 \<Rightarrow> fb \<Rightarrow> fb" where
  "fb_putpixel_i32 x y color fb = (if x < 0 \<or> y < 0 then fb else fb_putpixel (of_int x) (of_int y) color fb)"

text \<open>The loop of \<open>fb_draw_line\<close>. It has no bound in the code, so that it ends is a theorem.\<close>

partial_function (option) draw_line_loop ::
    "int \<Rightarrow> int \<Rightarrow> int \<Rightarrow> int \<Rightarrow> int \<Rightarrow> int \<Rightarrow> u32 \<Rightarrow> int \<Rightarrow> int \<Rightarrow> int \<Rightarrow> fb \<Rightarrow> fb option" where
  "draw_line_loop dx dy sx sy x1 y1 color x0 y0 err fb =
     (let fb = fb_putpixel_i32 x0 y0 color fb
      in if x0 = x1 \<and> y0 = y1 then Some fb
         else
           (let e2 = 2 * err;
                (err, x0) = (if e2 \<ge> dy then (err + dy, x0 + sx) else (err, x0));
                (err, y0) = (if e2 \<le> dx then (err + dx, y0 + sy) else (err, y0))
            in draw_line_loop dx dy sx sy x1 y1 color x0 y0 err fb))"

declare draw_line_loop.simps [code]

definition fb_draw_line :: "int \<Rightarrow> int \<Rightarrow> int \<Rightarrow> int \<Rightarrow> u32 \<Rightarrow> fb \<Rightarrow> fb option" where
  "fb_draw_line x0 y0 x1 y1 color fb =
     (let dx = iabs32 (x1 - x0); sx = (if x0 < x1 then 1 else -1);
          dy = - iabs32 (y1 - y0); sy = (if y0 < y1 then 1 else -1)
      in draw_line_loop dx dy sx sy x1 y1 color x0 y0 (dx + dy) fb)"

definition fb_draw_circle_points :: "int \<Rightarrow> int \<Rightarrow> int \<Rightarrow> int \<Rightarrow> u32 \<Rightarrow> fb \<Rightarrow> fb" where
  "fb_draw_circle_points cx cy x y color fb =
     fold (\<lambda>(px, py). fb_putpixel_i32 px py color)
       [(cx + x, cy + y), (cx + y, cy + x), (cx - y, cy + x), (cx - x, cy + y),
        (cx - x, cy - y), (cx - y, cy - x), (cx + y, cy - x), (cx + x, cy - y)] fb"

function draw_circle_loop :: "int \<Rightarrow> int \<Rightarrow> u32 \<Rightarrow> int \<Rightarrow> int \<Rightarrow> int \<Rightarrow> fb \<Rightarrow> fb" where
  "draw_circle_loop cx cy color x y err fb =
     (if x \<ge> y
      then
        (let fb1 = fb_draw_circle_points cx cy x y color fb;
             y1 = y + 1;
             err1 = (if err \<le> 0 then err + 2 * y1 + 1 else err)
         in if err1 > 0 then draw_circle_loop cx cy color (x - 1) y1 (err1 - (2 * (x - 1) + 1)) fb1
            else draw_circle_loop cx cy color x y1 err1 fb1)
      else fb)"
  by pat_completeness auto
termination by (relation "measure (\<lambda>(cx, cy, color, x, y, err, fb). nat (x - y + 1))") auto

definition fb_draw_circle :: "int \<Rightarrow> int \<Rightarrow> int \<Rightarrow> u32 \<Rightarrow> fb \<Rightarrow> fb" where
  "fb_draw_circle cx cy radius color fb = (if radius < 0 then fb else draw_circle_loop cx cy color radius 0 0 fb)"

definition fb_blit :: "u32 \<Rightarrow> u32 \<Rightarrow> (nat \<Rightarrow> u32) \<Rightarrow> u32 \<Rightarrow> u32 \<Rightarrow> fb \<Rightarrow> fb" where
  "fb_blit dst_x dst_y src w h fb =
     (let src_stride = w
      in if fb_pixels fb = 0 \<or> w = 0 \<or> h = 0 \<or> dst_x \<ge> fb_width fb \<or> dst_y \<ge> fb_height fb then fb
      else
        (let w1 = (if w > fb_width fb - dst_x then fb_width fb - dst_x else w);
             h1 = (if h > fb_height fb - dst_y then fb_height fb - dst_y else h);
             start = fb_index fb dst_x dst_y
         in fold (\<lambda>row. fill_row (start + row * unat (fb_stride_pixels fb)) (unat w1) (\<lambda>col. src (row * unat src_stride + col)))
              [0..<unat h1] fb))"

section \<open>The font\<close>

definition g_font_glyphs :: "u8 list list" where
  "g_font_glyphs =
    [[0, 0, 0, 0, 0, 0, 0, 0], [24, 24, 24, 24, 24, 0, 24, 0], [108, 108, 40, 0, 0, 0, 0, 0],
     [108, 254, 108, 108, 254, 108, 0, 0], [24, 126, 192, 126, 6, 252, 24, 0], [198, 204, 24, 48, 102, 198, 0, 0],
     [56, 108, 56, 118, 220, 204, 118, 0], [24, 24, 48, 0, 0, 0, 0, 0], [12, 24, 48, 48, 48, 24, 12, 0],
     [48, 24, 12, 12, 12, 24, 48, 0], [0, 102, 60, 255, 60, 102, 0, 0], [0, 24, 24, 126, 24, 24, 0, 0],
     [0, 0, 0, 0, 24, 24, 48, 0], [0, 0, 0, 126, 0, 0, 0, 0], [0, 0, 0, 0, 0, 24, 24, 0],
     [6, 12, 24, 48, 96, 192, 128, 0], [124, 198, 206, 222, 246, 230, 124, 0], [24, 56, 24, 24, 24, 24, 126, 0],
     [124, 198, 6, 28, 48, 102, 254, 0], [124, 198, 6, 60, 6, 198, 124, 0], [28, 60, 108, 204, 254, 12, 30, 0],
     [254, 192, 192, 252, 6, 198, 124, 0], [56, 96, 192, 252, 198, 198, 124, 0], [254, 198, 12, 24, 48, 48, 48, 0],
     [124, 198, 198, 124, 198, 198, 124, 0], [124, 198, 198, 126, 6, 12, 120, 0], [0, 24, 24, 0, 24, 24, 0, 0],
     [0, 24, 24, 0, 24, 24, 48, 0], [6, 12, 24, 48, 24, 12, 6, 0], [0, 0, 126, 0, 126, 0, 0, 0],
     [96, 48, 24, 12, 24, 48, 96, 0], [124, 198, 12, 24, 24, 0, 24, 0], [124, 198, 198, 222, 220, 192, 124, 0],
     [56, 108, 198, 198, 254, 198, 198, 0], [252, 198, 198, 252, 198, 198, 252, 0], [124, 198, 192, 192, 192, 198, 124, 0],
     [248, 204, 198, 198, 198, 204, 248, 0], [254, 192, 192, 248, 192, 192, 254, 0], [254, 192, 192, 248, 192, 192, 192, 0],
     [124, 198, 192, 222, 198, 198, 126, 0], [198, 198, 198, 254, 198, 198, 198, 0], [126, 24, 24, 24, 24, 24, 126, 0],
     [30, 12, 12, 12, 12, 204, 120, 0], [198, 204, 216, 240, 216, 204, 198, 0], [192, 192, 192, 192, 192, 192, 254, 0],
     [198, 238, 254, 254, 214, 198, 198, 0], [198, 230, 246, 222, 206, 198, 198, 0], [124, 198, 198, 198, 198, 198, 124, 0],
     [252, 198, 198, 252, 192, 192, 192, 0], [124, 198, 198, 198, 214, 204, 118, 0], [252, 198, 198, 252, 216, 204, 198, 0],
     [124, 198, 192, 124, 6, 198, 124, 0], [255, 219, 24, 24, 24, 24, 24, 0], [198, 198, 198, 198, 198, 198, 124, 0],
     [198, 198, 198, 198, 108, 56, 16, 0], [198, 198, 198, 214, 214, 214, 108, 0], [198, 198, 108, 56, 108, 198, 198, 0],
     [198, 198, 198, 108, 56, 16, 16, 0], [254, 6, 12, 24, 48, 96, 254, 0], [60, 48, 48, 48, 48, 48, 60, 0],
     [192, 96, 48, 24, 12, 6, 2, 0], [60, 12, 12, 12, 12, 12, 60, 0], [16, 56, 108, 198, 0, 0, 0, 0],
     [0, 0, 0, 0, 0, 0, 0, 255], [48, 24, 12, 0, 0, 0, 0, 0], [0, 0, 124, 6, 126, 198, 126, 0],
     [192, 192, 252, 198, 198, 198, 252, 0], [0, 0, 124, 198, 192, 198, 124, 0], [6, 6, 126, 198, 198, 198, 126, 0],
     [0, 0, 124, 198, 254, 192, 124, 0], [60, 102, 96, 248, 96, 96, 96, 0], [0, 0, 126, 198, 198, 126, 6, 124],
     [192, 192, 252, 198, 198, 198, 198, 0], [24, 0, 56, 24, 24, 24, 60, 0], [6, 0, 14, 6, 6, 198, 198, 124],
     [192, 192, 198, 204, 248, 204, 198, 0], [56, 24, 24, 24, 24, 24, 60, 0], [0, 0, 204, 254, 254, 214, 214, 0],
     [0, 0, 252, 198, 198, 198, 198, 0], [0, 0, 124, 198, 198, 198, 124, 0], [0, 0, 252, 198, 198, 198, 252, 192],
     [0, 0, 126, 198, 198, 198, 126, 6], [0, 0, 252, 198, 192, 192, 192, 0], [0, 0, 126, 192, 124, 6, 252, 0],
     [48, 48, 252, 48, 48, 54, 28, 0], [0, 0, 198, 198, 198, 198, 126, 0], [0, 0, 198, 198, 198, 108, 56, 0],
     [0, 0, 198, 214, 214, 254, 108, 0], [0, 0, 198, 108, 56, 108, 198, 0], [0, 0, 198, 198, 198, 126, 6, 124],
     [0, 0, 254, 12, 56, 96, 254, 0], [14, 24, 24, 112, 24, 24, 14, 0], [24, 24, 24, 24, 24, 24, 24, 0],
     [112, 24, 24, 14, 24, 24, 112, 0], [118, 220, 0, 0, 0, 0, 0, 0]]"

definition font_glyph :: "char \<Rightarrow> u8 list option" where
  "font_glyph ch =
     (let index = of_char ch :: u8
      in if index < 0x20 \<or> index > 0x7e then None else Some (g_font_glyphs ! unat (index - 0x20)))"

definition glyph_row :: "u32 \<Rightarrow> u32 \<Rightarrow> u8 \<Rightarrow> u32 \<Rightarrow> fb \<Rightarrow> fb" where
  "glyph_row x y bits color fb =
     fold (\<lambda>col fb. if bits AND push_bit (7 - col) 1 \<noteq> 0 then fb_putpixel (x + of_nat col) y color fb else fb) [0..<8] fb"

definition font_draw_char :: "u32 \<Rightarrow> u32 \<Rightarrow> char \<Rightarrow> u32 \<Rightarrow> fb \<Rightarrow> fb" where
  "font_draw_char x y ch color fb =
     (if fb_pixels fb = 0 then fb
      else case font_glyph ch of
          None \<Rightarrow> fb
        | Some glyph \<Rightarrow> fold (\<lambda>row. glyph_row x (y + of_nat row) (glyph ! row) color) [0..<8] fb)"

fun draw_text_loop :: "u32 \<Rightarrow> u32 \<Rightarrow> u32 \<Rightarrow> u32 \<Rightarrow> string \<Rightarrow> fb \<Rightarrow> fb" where
  "draw_text_loop x color cursor_x cursor_y [] fb = fb"
| "draw_text_loop x color cursor_x cursor_y (c # cs) fb =
     (if c = CHR ''\<newline>'' then draw_text_loop x color x (cursor_y + 10) cs fb
      else draw_text_loop x color (cursor_x + 8) cursor_y cs (font_draw_char cursor_x cursor_y c color fb))"

definition font_draw_text :: "u32 \<Rightarrow> u32 \<Rightarrow> string \<Rightarrow> u32 \<Rightarrow> fb \<Rightarrow> fb" where
  "font_draw_text x y text color fb = draw_text_loop x color x y text fb"

fun text_width_loop :: "u32 \<Rightarrow> u32 \<Rightarrow> string \<Rightarrow> u32" where
  "text_width_loop widest run [] = (if run > widest then run else widest)"
| "text_width_loop widest run (c # cs) =
     (if c = CHR ''\<newline>'' then text_width_loop (if run > widest then run else widest) 0 cs
      else text_width_loop widest (run + 8) cs)"

definition font_text_width :: "string \<Rightarrow> u32" where
  "font_text_width text = text_width_loop 0 0 text"

text \<open>The rows of a glyph down to the clip line: \<open>break\<close> at the first row that is too low.\<close>

fun clipped_rows :: "u32 \<Rightarrow> u32 \<Rightarrow> u32 \<Rightarrow> u32 \<Rightarrow> u8 list \<Rightarrow> u32 \<Rightarrow> u32 \<Rightarrow> fb \<Rightarrow> fb" where
  "clipped_rows y max_h cursor_x cursor_y [] row color fb = fb"
| "clipped_rows y max_h cursor_x cursor_y (bits # glyph) row color fb =
     (let draw_y = cursor_y + row
      in if draw_y - y \<ge> max_h then fb
         else clipped_rows y max_h cursor_x cursor_y glyph (row + 1) color (glyph_row cursor_x draw_y bits color fb))"

fun draw_clipped_loop :: "u32 \<Rightarrow> u32 \<Rightarrow> u32 \<Rightarrow> u32 \<Rightarrow> u32 \<Rightarrow> u32 \<Rightarrow> string \<Rightarrow> fb \<Rightarrow> fb" where
  "draw_clipped_loop x y max_h color cursor_x cursor_y [] fb = fb"
| "draw_clipped_loop x y max_h color cursor_x cursor_y (c # cs) fb =
     (if c = CHR ''\<newline>''
      then if (cursor_y + 10) - y \<ge> max_h then fb
           else draw_clipped_loop x y max_h color x (cursor_y + 10) cs fb
      else draw_clipped_loop x y max_h color (cursor_x + 8) cursor_y cs
             (case font_glyph c of None \<Rightarrow> fb | Some glyph \<Rightarrow> clipped_rows y max_h cursor_x cursor_y glyph 0 color fb))"

definition font_draw_text_clipped :: "u32 \<Rightarrow> u32 \<Rightarrow> u32 \<Rightarrow> string \<Rightarrow> u32 \<Rightarrow> fb \<Rightarrow> fb" where
  "font_draw_text_clipped x y max_h text color fb =
     (if max_h = 0 then fb else draw_clipped_loop x y max_h color x y text fb)"

section \<open>Pixels and their addresses\<close>

text \<open>A buffer whose rows do not overlap and whose last pixel has a 32-bit index.\<close>

definition fb_ok :: "fb \<Rightarrow> bool" where
  "fb_ok fb \<longleftrightarrow> fb_width fb \<le> fb_stride_pixels fb \<and> unat (fb_stride_pixels fb) * unat (fb_height fb) \<le> 2 ^ 32"

definition pixel :: "fb \<Rightarrow> u32 \<Rightarrow> u32 \<Rightarrow> u32" where
  "pixel fb x y = fb_mem fb (fb_index fb x y)"

definition in_fb :: "fb \<Rightarrow> nat \<Rightarrow> bool" where
  "in_fb fb i \<longleftrightarrow> (\<exists>x y. x < fb_width fb \<and> y < fb_height fb \<and> i = unat y * unat (fb_stride_pixels fb) + unat x)"

definition same_fb :: "fb \<Rightarrow> fb \<Rightarrow> bool" where
  "same_fb fb fb' \<longleftrightarrow> fb_pixels fb' = fb_pixels fb \<and> fb_width fb' = fb_width fb \<and> fb_height fb' = fb_height fb \<and>
     fb_stride_pixels fb' = fb_stride_pixels fb"

text \<open>Only pixels of the buffer have changed.\<close>

definition fb_frame :: "fb \<Rightarrow> fb \<Rightarrow> bool" where
  "fb_frame fb fb' \<longleftrightarrow> same_fb fb fb' \<and> (\<forall>i. \<not> in_fb fb i \<longrightarrow> fb_mem fb' i = fb_mem fb i)"

lemma row_bound:
  assumes "x < (st :: nat)" and "y < h"
  shows "y * st + x < st * h"
proof -
  have "Suc y * st \<le> h * st" using assms(2) by (intro mult_le_mono1) simp
  then show ?thesis using assms(1) by (simp add: mult.commute)
qed

lemma fb_index_nat:
  assumes ok: "fb_ok fb" and x: "x < fb_width fb" and y: "y < fb_height fb"
  shows "fb_index fb x y = unat y * unat (fb_stride_pixels fb) + unat x"
proof -
  have "unat x < unat (fb_stride_pixels fb)" "unat y < unat (fb_height fb)"
    using x y ok by (simp_all add: fb_ok_def word_less_nat_alt word_le_nat_alt)
  from row_bound [OF this] have lt: "unat y * unat (fb_stride_pixels fb) + unat x < 2 ^ 32"
    using ok by (simp add: fb_ok_def)
  have "y * fb_stride_pixels fb + x = of_nat (unat y * unat (fb_stride_pixels fb) + unat x)" by simp
  then show ?thesis unfolding fb_index_def using lt by (simp only: unat_of_nat) (simp add: take_bit_nat_eq_self)
qed

lemma row_index_unique:
  assumes "x < (st :: nat)" and "x' < st" and "y * st + x = y' * st + x'"
  shows "y = y'" and "x = x'"
proof -
  have "(y * st + x) div st = y" "(y' * st + x') div st = y'" using assms(1,2) by auto
  then show "y = y'" using assms(3) by metis
  then show "x = x'" using assms(3) by simp
qed

lemma fb_index_inj:
  assumes ok: "fb_ok fb" and "x < fb_width fb" "y < fb_height fb" "x' < fb_width fb" "y' < fb_height fb"
  shows "fb_index fb x y = fb_index fb x' y' \<longleftrightarrow> x = x' \<and> y = y'"
proof -
  have "unat x < unat (fb_stride_pixels fb)" "unat x' < unat (fb_stride_pixels fb)"
    using assms by (simp_all add: fb_ok_def word_less_nat_alt word_le_nat_alt)
  from row_index_unique [OF this] show ?thesis using fb_index_nat [OF ok] assms by (metis word_unat_eq_iff)
qed

lemma fb_frame_refl [simp]: "fb_frame fb fb"
  by (simp add: fb_frame_def same_fb_def)

lemma fb_frame_trans: "fb_frame a b \<Longrightarrow> fb_frame b c \<Longrightarrow> fb_frame a c"
  by (auto simp: fb_frame_def same_fb_def in_fb_def)

lemma fb_frame_ok: "fb_frame a b \<Longrightarrow> fb_ok b = fb_ok a"
  by (simp add: fb_frame_def same_fb_def fb_ok_def)

lemma fb_frame_fold:
  assumes "\<And>x fb. x \<in> set xs \<Longrightarrow> fb_ok fb \<Longrightarrow> fb_frame fb (f x fb)" and "fb_ok fb"
  shows "fb_frame fb (fold f xs fb)"
  using assms
proof (induction xs arbitrary: fb)
  case (Cons x xs)
  have f: "fb_frame fb (f x fb)" using Cons.prems by simp
  then have "fb_ok (f x fb)" using Cons.prems(2) fb_frame_ok by blast
  then have "fb_frame (f x fb) (fold f xs (f x fb))" using Cons.IH Cons.prems by simp
  then show ?case using fb_frame_trans [OF f] by simp
qed simp

lemma fb_putpixel_frame: "fb_ok fb \<Longrightarrow> fb_frame fb (fb_putpixel x y color fb)"
  by (auto simp: fb_putpixel_def fb_store_def fb_frame_def same_fb_def in_fb_def fb_index_nat not_le)

lemma putpixel_i32_frame: "fb_ok fb \<Longrightarrow> fb_frame fb (fb_putpixel_i32 x y color fb)"
  by (simp add: fb_putpixel_i32_def fb_putpixel_frame)

lemma glyph_row_frame: "fb_ok fb \<Longrightarrow> fb_frame fb (glyph_row x y bits color fb)"
  unfolding glyph_row_def by (rule fb_frame_fold) (simp_all add: fb_putpixel_frame)

lemma font_draw_char_frame: "fb_ok fb \<Longrightarrow> fb_frame fb (font_draw_char x y ch color fb)"
  unfolding font_draw_char_def by (auto intro!: fb_frame_fold glyph_row_frame split: option.split)

lemma draw_text_frame: "fb_ok fb \<Longrightarrow> fb_frame fb (draw_text_loop x color cx cy ts fb)"
proof (induction x color cx cy ts fb rule: draw_text_loop.induct)
  case (2 x color cx cy c cs fb)
  have f: "fb_frame fb (font_draw_char cx cy c color fb)" by (rule font_draw_char_frame [OF 2(3)])
  show ?case using 2 fb_frame_ok [OF f] fb_frame_trans [OF f] by auto
qed simp

lemma clipped_rows_frame: "fb_ok fb \<Longrightarrow> fb_frame fb (clipped_rows y mh cx cy glyph row color fb)"
proof (induction glyph arbitrary: row fb)
  case (Cons b bs)
  have f: "fb_frame fb (glyph_row cx (cy + row) b color fb)" by (rule glyph_row_frame [OF Cons.prems])
  show ?case using Cons.IH Cons.prems fb_frame_ok [OF f] fb_frame_trans [OF f] by (simp add: Let_def)
qed simp

lemma draw_clipped_frame: "fb_ok fb \<Longrightarrow> fb_frame fb (draw_clipped_loop x y mh color cx cy ts fb)"
proof (induction x y mh color cx cy ts fb rule: draw_clipped_loop.induct)
  case (2 x y mh color cx cy c cs fb)
  have f: "fb_frame fb (case font_glyph c of None \<Rightarrow> fb | Some g \<Rightarrow> clipped_rows y mh cx cy g 0 color fb)"
    using 2(3) clipped_rows_frame by (simp split: option.split)
  show ?case using 2 fb_frame_ok [OF f] fb_frame_trans [OF f] by auto
qed simp

section \<open>Rectangles\<close>

lemma fill_row_same [simp]: "same_fb fb (fill_row s w c fb)"
  unfolding fill_row_def by (induction w) (simp_all add: same_fb_def fb_store_def)

lemma fill_row_mem: "fb_mem (fill_row s w c fb) i = (if s \<le> i \<and> i < s + w then c (i - s) else fb_mem fb i)"
  unfolding fill_row_def by (induction w) (auto simp: fb_store_def)

lemma fill_rows_same [simp]: "same_fb fb (fold (\<lambda>row. fill_row (s + row * st) w (c row)) [0..<h] fb)"
  by (induction h) (use fill_row_same in \<open>auto simp: same_fb_def\<close>)

text \<open>Rows of a rectangle, \<open>st\<close> apart, with the colour of each position.\<close>

lemma fill_rows_mem:
  assumes w: "w \<le> st" and x: "x < st"
  shows "fb_mem (fold (\<lambda>row. fill_row (s + row * st) w (c row)) [0..<h] fb) (s + y * st + x) =
    (if x < w \<and> y < h then c y x else fb_mem fb (s + y * st + x))"
proof (induction h)
  case (Suc h)
  show ?case
  proof (cases "y = h")
    case True
    then show ?thesis using Suc by (auto simp: fill_row_mem)
  next
    case False
    have "\<not> (s + h * st \<le> s + y * st + x \<and> s + y * st + x < s + h * st + w)"
    proof (cases "y < h")
      case True
      then have "y * st + x < h * st" using row_bound [OF x True] by (simp add: mult.commute)
      then show ?thesis by simp
    next
      case f: False
      with False have "Suc h * st \<le> y * st" by (intro mult_le_mono1) simp
      then show ?thesis using w by simp
    qed
    then have "fb_mem (fill_row (s + h * st) w (c h) q) (s + y * st + x) = fb_mem q (s + y * st + x)" for q
      by (simp only: fill_row_mem if_False)
    then show ?thesis using Suc False by (simp add: less_Suc_eq)
  qed
qed simp

lemma fill_rows_outside:
  assumes "\<And>row col. row < h \<Longrightarrow> col < w \<Longrightarrow> i \<noteq> s + row * st + col"
  shows "fb_mem (fold (\<lambda>row. fill_row (s + row * st) w (c row)) [0..<h] fb) i = fb_mem fb i"
  using assms
proof (induction h)
  case (Suc h)
  have "\<not> (s + h * st \<le> i \<and> i < s + h * st + w)"
  proof
    assume a: "s + h * st \<le> i \<and> i < s + h * st + w"
    then have "i - (s + h * st) < w" by linarith
    then show False using Suc.prems [of h "i - (s + h * st)"] a by simp
  qed
  then show ?case using Suc by (auto simp: fill_row_mem)
qed simp

definition clip_extent :: "u32 \<Rightarrow> u32 \<Rightarrow> u32 \<Rightarrow> u32" where
  "clip_extent lim x w = (if w > lim - x then lim - x else w)"

lemma unat_plus_of_nat: "unat (a :: u32) + n < 2 ^ 32 \<Longrightarrow> unat (a + of_nat n) = unat a + n"
  by (simp add: unat_word_ariths)

lemma clip_extent_nat: "x < lim \<Longrightarrow> unat (clip_extent lim x w) = min (unat w) (unat lim - unat x)"
  by (simp add: clip_extent_def word_less_nat_alt unat_sub_if_size word_size min_def)

text \<open>What both the filled rectangle and the copied image do to the pixels, given the colour at each offset.\<close>

lemma paint_rect:
  assumes ok: "fb_ok fb" and x: "x < fb_width fb" and y: "y < fb_height fb"
    and r: "r = fold (\<lambda>row. fill_row (fb_index fb x y + row * unat (fb_stride_pixels fb)) (unat (clip_extent (fb_width fb) x w)) (c row))
      [0..<unat (clip_extent (fb_height fb) y h)] fb"
  shows "fb_frame fb r"
    and "\<lbrakk>px < fb_width fb; py < fb_height fb\<rbrakk> \<Longrightarrow> pixel r px py =
      (if unat x \<le> unat px \<and> unat px < unat x + unat w \<and> unat y \<le> unat py \<and> unat py < unat y + unat h
       then c (unat py - unat y) (unat px - unat x) else pixel fb px py)"
proof -
  let ?st = "unat (fb_stride_pixels fb)" and ?w = "min (unat w) (unat (fb_width fb) - unat x)" and ?h = "min (unat h) (unat (fb_height fb) - unat y)"
  have ws: "unat (fb_width fb) \<le> ?st" using ok by (simp add: fb_ok_def word_le_nat_alt)
  have s: "fb_index fb x y = unat y * ?st + unat x" by (rule fb_index_nat [OF ok x y])
  have r: "r = fold (\<lambda>row. fill_row (fb_index fb x y + row * ?st) ?w (c row)) [0..<?h] fb"
    unfolding r clip_extent_nat [OF x] clip_extent_nat [OF y] ..
  have same: "same_fb fb r" unfolding r by (rule fill_rows_same)
  have out: "fb_mem r i = fb_mem fb i" if "\<And>row col. row < ?h \<Longrightarrow> col < ?w \<Longrightarrow> i \<noteq> fb_index fb x y + row * ?st + col" for i
    unfolding r by (rule fill_rows_outside) (rule that)
  have inn: "in_fb fb (fb_index fb x y + row * ?st + col)" if "row < ?h" "col < ?w" for row col
  proof -
    have lt: "unat x + col < unat (fb_width fb)" "unat y + row < unat (fb_height fb)" using that by linarith+
    then have "unat x + col < 2 ^ 32" "unat y + row < 2 ^ 32"
      using unsigned_less [of "fb_width fb", where 'a = nat] unsigned_less [of "fb_height fb", where 'a = nat] by simp_all
    then have "unat (x + of_nat col) = unat x + col" "unat (y + of_nat row) = unat y + row" by (simp_all only: unat_plus_of_nat)
    then have "x + of_nat col < fb_width fb" "y + of_nat row < fb_height fb"
      "fb_index fb x y + row * ?st + col = unat (y + of_nat row) * ?st + unat (x + of_nat col)"
      using lt by (simp_all add: word_less_nat_alt s algebra_simps)
    then show ?thesis unfolding in_fb_def by blast
  qed
  have "fb_mem r i = fb_mem fb i" if "\<not> in_fb fb i" for i
    using that inn by (intro out) metis
  then show "fb_frame fb r" using same by (simp add: fb_frame_def)
  assume p: "px < fb_width fb" "py < fb_height fb"
  have ip: "fb_index r px py = unat py * ?st + unat px" using fb_index_nat [OF ok p] same by (simp add: fb_index_def same_fb_def)
  have pu: "unat px < unat (fb_width fb)" "unat py < unat (fb_height fb)" using p by (simp_all add: word_less_nat_alt)
  show "pixel r px py = (if unat x \<le> unat px \<and> unat px < unat x + unat w \<and> unat y \<le> unat py \<and> unat py < unat y + unat h
       then c (unat py - unat y) (unat px - unat x) else pixel fb px py)"
  proof (cases "unat x \<le> unat px \<and> unat y \<le> unat py")
    case True
    then have e: "unat py * ?st + unat px = fb_index fb x y + (unat py - unat y) * ?st + (unat px - unat x)"
      by (auto simp: s dest!: le_Suc_ex simp: algebra_simps)
    have "pixel r px py = (if unat px - unat x < ?w \<and> unat py - unat y < ?h then c (unat py - unat y) (unat px - unat x) else pixel fb px py)"
      using fill_rows_mem [of ?w ?st "unat px - unat x" "fb_index fb x y" c ?h fb "unat py - unat y"] ws pu
      unfolding r [symmetric] by (simp add: pixel_def ip fb_index_nat [OF ok p] e [symmetric])
    then show ?thesis using True pu by auto
  next
    case False
    have "fb_mem r (unat py * ?st + unat px) = fb_mem fb (unat py * ?st + unat px)"
    proof (rule out, rule notI)
      fix row col assume a: "row < ?h" "col < ?w" "unat py * ?st + unat px = fb_index fb x y + row * ?st + col"
      then have "unat py * ?st + unat px = (unat y + row) * ?st + (unat x + col)" by (simp add: s algebra_simps)
      moreover have "unat px < ?st" "unat x + col < ?st" using a(2) pu(1) ws by linarith+
      ultimately have "unat py = unat y + row" "unat px = unat x + col" using row_index_unique by blast+
      then show False using False by simp
    qed
    then show ?thesis using False by (auto simp: pixel_def ip fb_index_nat [OF ok p])
  qed
qed

lemma fillrect_paints:
  assumes ok: "fb_ok fb"
  shows "fb_frame fb (fb_fillrect x y w h color fb)"
    and "\<lbrakk>px < fb_width fb; py < fb_height fb; fb_pixels fb \<noteq> 0\<rbrakk> \<Longrightarrow> pixel (fb_fillrect x y w h color fb) px py =
      (if unat x \<le> unat px \<and> unat px < unat x + unat w \<and> unat y \<le> unat py \<and> unat py < unat y + unat h then color else pixel fb px py)"
proof -
  consider (null) "fb_pixels fb = 0" | (nop) "w = 0 \<or> h = 0 \<or> x \<ge> fb_width fb \<or> y \<ge> fb_height fb"
    | (go) "fb_pixels fb \<noteq> 0" "w \<noteq> 0" "h \<noteq> 0" "x < fb_width fb" "y < fb_height fb" by force
  then have "fb_frame fb (fb_fillrect x y w h color fb) \<and>
      (px < fb_width fb \<longrightarrow> py < fb_height fb \<longrightarrow> fb_pixels fb \<noteq> 0 \<longrightarrow> pixel (fb_fillrect x y w h color fb) px py =
      (if unat x \<le> unat px \<and> unat px < unat x + unat w \<and> unat y \<le> unat py \<and> unat py < unat y + unat h then color else pixel fb px py))"
  proof cases
    case go
    note p = paint_rect [OF ok go(4,5) refl, where c = "\<lambda>_ _. color" and w = w and h = h]
    have "fb_fillrect x y w h color fb = fold (\<lambda>row. fill_row (fb_index fb x y + row * unat (fb_stride_pixels fb))
        (unat (clip_extent (fb_width fb) x w)) (\<lambda>_. color)) [0..<unat (clip_extent (fb_height fb) y h)] fb"
      using go by (simp add: fb_fillrect_def Let_def clip_extent_def)
    then show ?thesis using p by simp
  qed (auto simp: fb_fillrect_def word_le_nat_alt word_less_nat_alt)
  then show "fb_frame fb (fb_fillrect x y w h color fb)"
    "\<lbrakk>px < fb_width fb; py < fb_height fb; fb_pixels fb \<noteq> 0\<rbrakk> \<Longrightarrow> pixel (fb_fillrect x y w h color fb) px py =
      (if unat x \<le> unat px \<and> unat px < unat x + unat w \<and> unat y \<le> unat py \<and> unat py < unat y + unat h then color else pixel fb px py)"
    by blast+
qed

lemma blit_paints:
  assumes ok: "fb_ok fb"
  shows "fb_frame fb (fb_blit x y src w h fb)"
    and "\<lbrakk>px < fb_width fb; py < fb_height fb; fb_pixels fb \<noteq> 0\<rbrakk> \<Longrightarrow> pixel (fb_blit x y src w h fb) px py =
      (if unat x \<le> unat px \<and> unat px < unat x + unat w \<and> unat y \<le> unat py \<and> unat py < unat y + unat h
       then src ((unat py - unat y) * unat w + (unat px - unat x)) else pixel fb px py)"
proof -
  consider (null) "fb_pixels fb = 0" | (nop) "w = 0 \<or> h = 0 \<or> x \<ge> fb_width fb \<or> y \<ge> fb_height fb"
    | (go) "fb_pixels fb \<noteq> 0" "w \<noteq> 0" "h \<noteq> 0" "x < fb_width fb" "y < fb_height fb" by force
  then have "fb_frame fb (fb_blit x y src w h fb) \<and>
      (px < fb_width fb \<longrightarrow> py < fb_height fb \<longrightarrow> fb_pixels fb \<noteq> 0 \<longrightarrow> pixel (fb_blit x y src w h fb) px py =
      (if unat x \<le> unat px \<and> unat px < unat x + unat w \<and> unat y \<le> unat py \<and> unat py < unat y + unat h
       then src ((unat py - unat y) * unat w + (unat px - unat x)) else pixel fb px py))"
  proof cases
    case go
    note p = paint_rect [OF ok go(4,5) refl, where c = "\<lambda>row col. src (row * unat w + col)" and w = w and h = h]
    have "fb_blit x y src w h fb = fold (\<lambda>row. fill_row (fb_index fb x y + row * unat (fb_stride_pixels fb))
        (unat (clip_extent (fb_width fb) x w)) (\<lambda>col. src (row * unat w + col))) [0..<unat (clip_extent (fb_height fb) y h)] fb"
      using go by (simp add: fb_blit_def Let_def clip_extent_def)
    then show ?thesis using p by simp
  qed (auto simp: fb_blit_def word_le_nat_alt word_less_nat_alt)
  then show "fb_frame fb (fb_blit x y src w h fb)"
    "\<lbrakk>px < fb_width fb; py < fb_height fb; fb_pixels fb \<noteq> 0\<rbrakk> \<Longrightarrow> pixel (fb_blit x y src w h fb) px py =
      (if unat x \<le> unat px \<and> unat px < unat x + unat w \<and> unat y \<le> unat py \<and> unat py < unat y + unat h
       then src ((unat py - unat y) * unat w + (unat px - unat x)) else pixel fb px py)"
    by blast+
qed

lemma frame_chain:
  assumes "fb_ok fb" and "fb_frame fb (f fb)" and "\<And>fb. fb_ok fb \<Longrightarrow> fb_frame fb (g fb)"
  shows "fb_frame fb (g (f fb))"
  using assms fb_frame_ok fb_frame_trans by blast

lemma draw_rect_frame: "fb_ok fb \<Longrightarrow> fb_frame fb (fb_draw_rect x y w h color fb)"
proof -
  assume ok: "fb_ok fb"
  have two: "fb_frame fb (if b then fb_putpixel p q color (fb_putpixel r s color fb) else fb_putpixel r s color fb)" if "fb_ok fb" for b p q r s fb
    using that fb_putpixel_frame frame_chain [of fb "fb_putpixel r s color" "fb_putpixel p q color"] by simp
  show ?thesis unfolding fb_draw_rect_def Let_def
    by (auto intro: ok intro!: frame_chain [OF ok, where g = "fold _ _"] fb_frame_fold two)
qed

section \<open>Lines and circles\<close>

definition paint_points :: "u32 \<Rightarrow> (int \<times> int) list \<Rightarrow> fb \<Rightarrow> fb" where
  "paint_points color ps fb = fold (\<lambda>(x, y). fb_putpixel_i32 x y color) ps fb"

definition adjacent :: "int \<times> int \<Rightarrow> int \<times> int \<Rightarrow> bool" where
  "adjacent p q \<longleftrightarrow> p \<noteq> q \<and> \<bar>fst p - fst q\<bar> \<le> 1 \<and> \<bar>snd p - snd q\<bar> \<le> 1"

text \<open>A connected path of points in the box between its first and its last point.\<close>

definition line_path :: "(int \<times> int) list \<Rightarrow> int \<times> int \<Rightarrow> int \<times> int \<Rightarrow> bool" where
  "line_path ps p q \<longleftrightarrow> ps \<noteq> [] \<and> hd ps = p \<and> last ps = q \<and> successively adjacent ps \<and>
     (\<forall>r\<in>set ps. min (fst p) (fst q) \<le> fst r \<and> fst r \<le> max (fst p) (fst q) \<and>
        min (snd p) (snd q) \<le> snd r \<and> snd r \<le> max (snd p) (snd q))"

lemma line_path_step:
  assumes "line_path ps (x', y') (x1, y1)" and "adjacent (x, y) (x', y')"
    and "min x x1 \<le> x'" "x' \<le> max x x1" "min y y1 \<le> y'" "y' \<le> max y y1"
  shows "line_path ((x, y) # ps) (x, y) (x1, y1)"
proof -
  obtain p rest where ps: "ps = p # rest" "p = (x', y')" using assms(1) by (cases ps) (auto simp: line_path_def)
  have "min x x1 \<le> fst r \<and> fst r \<le> max x x1 \<and> min y y1 \<le> snd r \<and> snd r \<le> max y y1" if "r \<in> set ps" for r
    using assms(1,3-6) that by (fastforce simp: line_path_def)
  then show ?thesis using assms(1,2) ps by (auto simp: line_path_def)
qed

text \<open>
  The invariant of the loop, with \<open>a\<close> and \<open>b\<close> the columns and rows still to go. It excludes a step past the end in either direction
  and an iteration without a step.
\<close>

lemma draw_line_loop_path:
  fixes a b dx dd :: int
  assumes "x1 = x + sx * a" "y1 = y + sy * b" "0 \<le> a" "a \<le> dx" "0 \<le> b" "b \<le> dd" "\<bar>sx\<bar> = 1" "\<bar>sy\<bar> = 1"
    and "err = dx * (1 - b) - dd * (1 - a)"
  shows "\<exists>ps. draw_line_loop dx (- dd) sx sy x1 y1 color x y err fb = Some (paint_points color ps fb) \<and> line_path ps (x, y) (x1, y1)"
  using assms
proof (induction "nat (a + b)" arbitrary: a b x y err fb rule: less_induct)
  case less
  let ?fb = "fb_putpixel_i32 x y color fb"
  show ?case
  proof (cases "a = 0 \<and> b = 0")
    case True
    then have "draw_line_loop dx (- dd) sx sy x1 y1 color x y err fb = Some ?fb" using less.prems by (subst draw_line_loop.simps) simp
    then show ?thesis using True less.prems by (intro exI [of _ "[(x, y)]"]) (simp add: paint_points_def line_path_def)
  next
    case False
    define px where "px \<longleftrightarrow> 2 * err \<ge> - dd"
    define py where "py \<longleftrightarrow> 2 * err \<le> dx"
    define a' b' where "a' = (if px then a - 1 else a)" and "b' = (if py then b - 1 else b)"
    define x' y' err' where "x' = (if px then x + sx else x)" and "y' = (if py then y + sy else y)"
      and "err' = err + (if px then - dd else 0) + (if py then dx else 0)"
    have xa: "a > 0" if px
    proof (rule ccontr)
      assume "\<not> a > 0"
      then have "a = 0" "b > 0" using less.prems False by auto
      moreover have "dx * (1 - b) \<le> 0" using less.prems(4) \<open>a = 0\<close> \<open>b > 0\<close> by (intro mult_nonneg_nonpos) auto
      ultimately show False using less.prems(6,9) that by (simp add: px_def)
    qed
    have yb: "b > 0" if py
    proof (rule ccontr)
      assume "\<not> b > 0"
      then have "b = 0" "a > 0" using less.prems False by auto
      moreover have "dd * (1 - a) \<le> 0" using less.prems(6) \<open>b = 0\<close> \<open>a > 0\<close> by (intro mult_nonneg_nonpos) auto
      ultimately show False using less.prems(4,9) that by (simp add: py_def)
    qed
    have some: "px \<or> py" using less.prems(3-6) by (auto simp: px_def py_def)
    have lt: "nat (a' + b') < nat (a + b)" using xa yb some less.prems(3,5) by (auto simp: a'_def b'_def)
    have inv: "x1 = x' + sx * a'" "y1 = y' + sy * b'" "0 \<le> a'" "a' \<le> dx" "0 \<le> b'" "b' \<le> dd" "err' = dx * (1 - b') - dd * (1 - a')"
      using less.prems xa yb by (auto simp: a'_def b'_def x'_def y'_def err'_def algebra_simps)
    have ne: "\<not> (x = x1 \<and> y = y1)" using False less.prems(1,2,7,8) by auto
    have "draw_line_loop dx (- dd) sx sy x1 y1 color x y err fb = draw_line_loop dx (- dd) sx sy x1 y1 color x' y' err' ?fb"
      using ne by (subst draw_line_loop.simps) (auto simp: Let_def px_def py_def x'_def y'_def err'_def)
    moreover obtain ps where ps: "draw_line_loop dx (- dd) sx sy x1 y1 color x' y' err' ?fb = Some (paint_points color ps ?fb)"
      "line_path ps (x', y') (x1, y1)" using less.hyps [OF lt inv(1-6) less.prems(7,8) inv(7)] by blast
    moreover have "line_path ((x, y) # ps) (x, y) (x1, y1)"
      using ps(2) some less.prems(1,2,7,8) xa yb
      by (intro line_path_step) (auto simp: adjacent_def x'_def y'_def abs_if min_def max_def split: if_splits)
    ultimately show ?thesis by (intro exI [of _ "(x, y) # ps"]) (simp add: paint_points_def)
  qed
qed

lemma line_is_path:
  "\<exists>ps. fb_draw_line x0 y0 x1 y1 color fb = Some (paint_points color ps fb) \<and> line_path ps (x0, y0) (x1, y1)"
proof -
  define a b sx sy where "a = iabs32 (x1 - x0)" and "b = iabs32 (y1 - y0)" and "sx = (if x0 < x1 then 1 else -1 :: int)"
    and "sy = (if y0 < y1 then 1 else -1 :: int)"
  have "x1 = x0 + sx * a" "y1 = y0 + sy * b" "0 \<le> a" "0 \<le> b" "\<bar>sx\<bar> = 1" "\<bar>sy\<bar> = 1"
    by (auto simp: a_def b_def sx_def sy_def iabs32_def)
  moreover have "a + - b = a * (1 - b) - b * (1 - a)" by (simp add: algebra_simps)
  ultimately show ?thesis
    unfolding fb_draw_line_def Let_def a_def [symmetric] b_def [symmetric] sx_def [symmetric] sy_def [symmetric]
    by (intro draw_line_loop_path [where a = a and b = b]) auto
qed

lemma paint_points_frame: "fb_ok fb \<Longrightarrow> fb_frame fb (paint_points color ps fb)"
  unfolding paint_points_def by (rule fb_frame_fold) (auto simp: putpixel_i32_frame)

lemma draw_line_frame:
  assumes "fb_ok fb" and "fb_draw_line x0 y0 x1 y1 color fb = Some fb'"
  shows "fb_frame fb fb'"
  using line_is_path [of x0 y0 x1 y1 color fb] paint_points_frame [OF assms(1)] assms(2) by auto

lemma draw_circle_frame: "fb_ok fb \<Longrightarrow> fb_frame fb (draw_circle_loop cx cy color x y err fb)"
proof (induction cx cy color x y err fb rule: draw_circle_loop.induct)
  case (1 cx cy color x y err fb)
  have f: "fb_frame fb (fb_draw_circle_points cx cy x y color fb)"
    unfolding fb_draw_circle_points_def using 1(3) by (intro fb_frame_fold) (auto simp: putpixel_i32_frame)
  have ok: "fb_ok (fb_draw_circle_points cx cy x y color fb)" using f 1(3) fb_frame_ok by blast
  show ?case
  proof (cases "x \<ge> y")
    case True
    from 1(1) [OF True refl refl refl _ ok] 1(2) [OF True refl refl refl _ ok] show ?thesis
      using True fb_frame_trans [OF f] by (subst draw_circle_loop.simps) (simp add: Let_def)
  next
    case False
    then show ?thesis by (subst draw_circle_loop.simps) simp
  qed
qed


text \<open>C38 A filled rectangle gives its colour to exactly the pixels of the rectangle that lie in the buffer, whatever its position
  and size, even when position plus size exceeds 32 bits, and no memory outside the buffer changes.\<close>

theorem fb_fillrect_exact:
  assumes "fb_ok fb" and "fb_pixels fb \<noteq> 0" and "px < fb_width fb" and "py < fb_height fb"
  shows "fb_frame fb (fb_fillrect x y w h color fb) \<and> pixel (fb_fillrect x y w h color fb) px py =
    (if unat x \<le> unat px \<and> unat px < unat x + unat w \<and> unat y \<le> unat py \<and> unat py < unat y + unat h then color else pixel fb px py)"
  using fillrect_paints [OF assms(1)] assms by blast

definition fb_demo :: fb where
  "fb_demo = \<lparr>fb_pixels = 0x80000, fb_width = 8, fb_height = 4, fb_stride_pixels = 10, fb_mem = (\<lambda>_. 0)\<rparr>"

theorem fb_fillrect_exact_witness:
  "pixel (fb_fillrect 5 1 0xffffffff 2 7 fb_demo) 6 2 = 7 \<and> pixel (fb_fillrect 5 1 0xffffffff 2 7 fb_demo) 4 2 = 0"
proof -
  have ok: "fb_ok fb_demo" "fb_pixels fb_demo \<noteq> 0" "6 < fb_width fb_demo" "4 < fb_width fb_demo" "2 < fb_height fb_demo"
    by (simp_all add: fb_demo_def fb_ok_def)
  show ?thesis
    using fb_fillrect_exact [OF ok(1,2,3,5), of 5 1 "0xffffffff" 2 7] fb_fillrect_exact [OF ok(1,2,4,5), of 5 1 "0xffffffff" 2 7]
    by (simp add: pixel_def fb_demo_def)
qed

end
