(* ===== verification/Compositor.thy ===== *)
theory Compositor
  imports GuiInput Fb "HOL-Library.Signed_Division"
begin

text \<open>
  Drawing the desktop: the rest of \<open>kernel/gui_compositor.c\<close>. Programs draw into the backing buffer of a window, \<open>gw_pixels\<close>; \<open>gui_draw\<close>
  composes the background, the windows from the lowest to the topmost and the cursor into the frame buffer, the whole of it or the damaged rectangles.
  A function that draws a line or fills the background returns an option, \<open>None\<close> being a loop that never ends; the theorems show when it cannot occur.
  Coordinates of type \<open>int32_t\<close> are integers.
\<close>

abbreviation GUI_CURSOR_SIZE :: nat where "GUI_CURSOR_SIZE \<equiv> 16"

definition g_cursor :: "u8 list list" where
  "g_cursor =
    [[1, 0, 0, 0, 0, 0, 0, 0, 0, 0, 0, 0, 0, 0, 0, 0],
     [1, 1, 0, 0, 0, 0, 0, 0, 0, 0, 0, 0, 0, 0, 0, 0],
     [1, 2, 1, 0, 0, 0, 0, 0, 0, 0, 0, 0, 0, 0, 0, 0],
     [1, 2, 2, 1, 0, 0, 0, 0, 0, 0, 0, 0, 0, 0, 0, 0],
     [1, 2, 2, 2, 1, 0, 0, 0, 0, 0, 0, 0, 0, 0, 0, 0],
     [1, 2, 2, 2, 2, 1, 0, 0, 0, 0, 0, 0, 0, 0, 0, 0],
     [1, 2, 2, 2, 2, 2, 1, 0, 0, 0, 0, 0, 0, 0, 0, 0],
     [1, 2, 2, 2, 2, 2, 2, 1, 0, 0, 0, 0, 0, 0, 0, 0],
     [1, 2, 2, 2, 2, 2, 2, 2, 1, 0, 0, 0, 0, 0, 0, 0],
     [1, 2, 2, 2, 2, 2, 2, 2, 2, 1, 0, 0, 0, 0, 0, 0],
     [1, 2, 2, 2, 2, 2, 2, 2, 2, 2, 1, 0, 0, 0, 0, 0],
     [1, 2, 2, 2, 1, 1, 1, 1, 1, 1, 1, 0, 0, 0, 0, 0],
     [1, 2, 1, 0, 1, 1, 1, 0, 0, 1, 1, 0, 0, 0, 0, 0],
     [1, 1, 0, 0, 0, 1, 1, 0, 0, 0, 1, 1, 0, 0, 0, 0],
     [0, 0, 0, 0, 0, 1, 1, 0, 0, 0, 0, 1, 1, 0, 0, 0],
     [0, 0, 0, 0, 0, 0, 1, 1, 0, 0, 0, 0, 1, 0, 0, 0]]"

definition g_cursor_hand :: "u8 list list" where
  "g_cursor_hand =
    [[0, 0, 0, 0, 1, 1, 0, 0, 0, 0, 0, 0, 0, 0, 0, 0],
     [0, 0, 0, 1, 2, 2, 1, 0, 0, 0, 0, 0, 0, 0, 0, 0],
     [0, 0, 0, 1, 2, 2, 1, 0, 0, 0, 0, 0, 0, 0, 0, 0],
     [0, 0, 0, 1, 2, 2, 1, 0, 1, 1, 0, 0, 0, 0, 0, 0],
     [0, 0, 0, 1, 2, 2, 1, 1, 2, 2, 1, 0, 0, 0, 0, 0],
     [0, 0, 0, 1, 2, 2, 1, 2, 2, 2, 1, 1, 0, 0, 0, 0],
     [0, 0, 0, 1, 2, 2, 1, 2, 2, 2, 1, 2, 1, 0, 0, 0],
     [0, 0, 1, 1, 2, 2, 1, 2, 2, 2, 1, 2, 1, 0, 0, 0],
     [0, 1, 2, 2, 2, 2, 2, 2, 2, 2, 1, 2, 1, 0, 0, 0],
     [0, 1, 2, 2, 2, 2, 2, 2, 2, 2, 2, 2, 1, 0, 0, 0],
     [0, 0, 1, 2, 2, 2, 2, 2, 2, 2, 2, 1, 0, 0, 0, 0],
     [0, 0, 1, 2, 2, 2, 2, 2, 2, 2, 2, 1, 0, 0, 0, 0],
     [0, 0, 0, 1, 2, 2, 2, 2, 2, 2, 1, 0, 0, 0, 0, 0],
     [0, 0, 0, 1, 2, 2, 2, 2, 2, 2, 1, 0, 0, 0, 0, 0],
     [0, 0, 0, 0, 1, 2, 2, 2, 2, 1, 0, 0, 0, 0, 0, 0],
     [0, 0, 0, 0, 1, 1, 1, 1, 1, 1, 0, 0, 0, 0, 0, 0]]"

section \<open>Drawing into a window\<close>

definition gui_window_backing_fb :: "gui_window \<Rightarrow> fb" where
  "gui_window_backing_fb w =
     \<lparr>fb_pixels = gw_backing w, fb_width = gw_w w, fb_height = gui_content_h w, fb_stride_pixels = gw_w w, fb_mem = gw_pixels w\<rparr>"

text \<open>Drawing through the buffer of a window changes the pixels of that window.\<close>

definition draw_backing :: "(fb \<Rightarrow> fb) \<Rightarrow> gui_window \<Rightarrow> gui_window" where
  "draw_backing draw w = w\<lparr>gw_pixels := fb_mem (draw (gui_window_backing_fb w))\<rparr>"

definition window_owner_drawn :: "nat \<Rightarrow> gui_window \<Rightarrow> kheap \<Rightarrow> gui \<Rightarrow> gui" where
  "window_owner_drawn i w h g = g\<lparr>gd_windows := (gd_windows g)[i := w\<lparr>gw_owner_drawn := True\<rparr>], gui_heap := h\<rparr>"

definition gui_window_draw_text :: "u32 \<Rightarrow> int \<Rightarrow> int \<Rightarrow> string \<Rightarrow> u32 \<Rightarrow> pmm \<Rightarrow> gui \<Rightarrow> bool \<times> pmm \<times> gui" where
  "gui_window_draw_text window_id x0 y0 txt color p g =
     (if window_id \<ge> of_nat GUI_MAX_WINDOWS \<or> \<not> gw_used (gd_windows g ! unat window_id) then (False, p, g)
      else case gui_window_ensure_backing (gd_windows g ! unat window_id) p (gui_heap g) of
          (False, w, p1, h1) \<Rightarrow> (False, p1, g\<lparr>gd_windows := (gd_windows g)[unat window_id := w], gui_heap := h1\<rparr>)
        | (True, w, p1, h1) \<Rightarrow>
            (let g1 = window_owner_drawn (unat window_id) w h1 g;
                 content_h = gui_content_h w;
                 x = (if x0 < 0 then 0 else x0); y = (if y0 < 0 then 0 else y0)
             in if of_int x \<ge> gw_w w \<or> of_int y \<ge> content_h then (True, p1, g1)
                else
                  (let g2 = set_window (unat window_id) (draw_backing (font_draw_text (of_int x) (of_int y) txt color)) g1;
                       dw0 = sint (font_text_width txt); dh0 = 8;
                       dw = (if x + dw0 > sint (gw_w w) then sint (gw_w w) - x else dw0);
                       dh = (if y + dh0 > sint content_h then sint content_h - y else dh0)
                   in (True, p1, gui_damage_add (sint (gw_x w) + x) (sint (gw_y w) + sint (gw_title_h w) + y) dw dh g2))))"

definition gui_window_draw_rect :: "u32 \<Rightarrow> int \<Rightarrow> int \<Rightarrow> u32 \<Rightarrow> u32 \<Rightarrow> u32 \<Rightarrow> pmm \<Rightarrow> gui \<Rightarrow> bool \<times> pmm \<times> gui" where
  "gui_window_draw_rect window_id x y w h color p g =
     (if window_id \<ge> of_nat GUI_MAX_WINDOWS \<or> \<not> gw_used (gd_windows g ! unat window_id) then (False, p, g)
      else if w = 0 \<or> h = 0 then (True, p, g)
      else case gui_window_ensure_backing (gd_windows g ! unat window_id) p (gui_heap g) of
          (False, win, p1, h1) \<Rightarrow> (False, p1, g\<lparr>gd_windows := (gd_windows g)[unat window_id := win], gui_heap := h1\<rparr>)
        | (True, win, p1, h1) \<Rightarrow>
            (let g1 = window_owner_drawn (unat window_id) win h1 g;
                 content_h = gui_content_h win;
                 x0 = (if x < 0 then 0 else x); y0 = (if y < 0 then 0 else y);
                 x1 = (if x + uint w > uint (gw_w win) then uint (gw_w win) else x + uint w);
                 y1 = (if y + uint h > uint content_h then uint content_h else y + uint h)
             in if x1 \<le> x0 \<or> y1 \<le> y0 then (True, p1, g1)
                else
                  (let g2 = set_window (unat window_id)
                         (draw_backing (fb_fillrect (of_int x0) (of_int y0) (of_int (x1 - x0)) (of_int (y1 - y0)) color)) g1
                   in (True, p1, gui_damage_add (sint (gw_x win) + x0) (sint (gw_y win) + sint (gw_title_h win) + y0)
                        (x1 - x0) (y1 - y0) g2))))"

definition gui_window_clear :: "u32 \<Rightarrow> u32 \<Rightarrow> pmm \<Rightarrow> gui \<Rightarrow> bool \<times> pmm \<times> gui" where
  "gui_window_clear window_id color p g =
     (if window_id \<ge> of_nat GUI_MAX_WINDOWS \<or> \<not> gw_used (gd_windows g ! unat window_id) then (False, p, g)
      else case gui_window_ensure_backing (gd_windows g ! unat window_id) p (gui_heap g) of
          (False, w, p1, h1) \<Rightarrow> (False, p1, g\<lparr>gd_windows := (gd_windows g)[unat window_id := w], gui_heap := h1\<rparr>)
        | (True, w, p1, h1) \<Rightarrow>
            (let g1 = window_owner_drawn (unat window_id) w h1 g;
                 g2 = set_window (unat window_id) (draw_backing (fb_fillrect 0 0 (gw_w w) (gui_content_h w) color)) g1
             in (True, p1, gui_damage_add (sint (gw_x w)) (sint (gw_y w) + sint (gw_title_h w)) (sint (gw_w w)) (sint (gui_content_h w)) g2)))"

section \<open>Drawing the desktop\<close>

definition gui_blend_color :: "u32 \<Rightarrow> u32 \<Rightarrow> u32 \<Rightarrow> u32 \<Rightarrow> u32" where
  "gui_blend_color top_c bottom_c num denom =
     (let channel = (\<lambda>n c. drop_bit n c AND 0xff :: u32);
          mix = (\<lambda>n. of_int (sint (channel n top_c) +
                   ((sint (channel n bottom_c) - sint (channel n top_c)) * sint num) sdiv sint denom) :: u32)
      in if denom = 0 then top_c
         else if num \<ge> denom
         then (top_c AND 0xff000000) OR push_bit 16 (channel 16 bottom_c) OR push_bit 8 (channel 8 bottom_c) OR channel 0 bottom_c
         else (top_c AND 0xff000000) OR push_bit 16 (mix 16) OR push_bit 8 (mix 8) OR mix 0)"

definition gui_draw_cursor :: "int \<Rightarrow> int \<Rightarrow> u8 \<Rightarrow> fb \<Rightarrow> fb" where
  "gui_draw_cursor x y shape fb =
     (let bitmap = (if shape = ucast GUI_CURSOR_HAND then g_cursor_hand else g_cursor)
      in fold (\<lambda>row. fold (\<lambda>col fb.
           let v = bitmap ! row ! col
           in if v = 0 then fb
              else fb_putpixel (of_int (x + int col)) (of_int (y + int row)) (if v = 1 then 0xff101010 else 0xffe0e0e0) fb)
           [0..<GUI_CURSOR_SIZE]) [0..<GUI_CURSOR_SIZE] fb)"

definition draw_frame :: "gui_window \<Rightarrow> u32 \<Rightarrow> fb \<Rightarrow> fb" where
  "draw_frame w border fb =
     (let fb1 = fb_fillrect (gw_x w) (gw_y w) (gw_w w) 1 border fb;
          fb2 = (if gw_h w > 1 then fb_fillrect (gw_x w) (gw_y w + gw_h w - 1) (gw_w w) 1 border fb1 else fb1)
      in if gw_h w > 2
         then
           (let fb3 = fb_fillrect (gw_x w) (gw_y w + 1) 1 (gw_h w - 2) border fb2
            in if gw_w w > 1 then fb_fillrect (gw_x w + gw_w w - 1) (gw_y w + 1) 1 (gw_h w - 2) border fb3 else fb3)
         else fb2)"

definition draw_close_box :: "gui_window \<Rightarrow> u32 \<Rightarrow> fb \<Rightarrow> fb option" where
  "draw_close_box w cls_bg fb =
     (case gui_close_box_rect w of
        None \<Rightarrow> Some fb
      | Some (cx, cy, cw, ch) \<Rightarrow>
          (case fb_draw_line (sint (cx + 2)) (sint (cy + 2)) (sint (cx + cw - 3)) (sint (cy + ch - 3)) 0xfff8f8f8
                  (fb_fillrect cx cy cw ch cls_bg fb) of
             None \<Rightarrow> None
           | Some fb1 \<Rightarrow> fb_draw_line (sint (cx + cw - 3)) (sint (cy + 2)) (sint (cx + 2)) (sint (cy + ch - 3)) 0xfff8f8f8 fb1))"

definition draw_title_bar :: "gui_window \<Rightarrow> u32 \<Rightarrow> bool \<Rightarrow> fb \<Rightarrow> fb option" where
  "draw_title_bar w border focused fb =
     (let bar_color = gui_blend_color border 0xff000000 2 3;
          text_y = gw_y w + (if gw_title_h w > 8 then (gw_title_h w - 8) div 2 else 0);
          fb1 = fb_fillrect (gw_x w) (gw_y w) (gw_w w) (gw_title_h w) bar_color fb;
          fb2 = (if gw_h w > gw_title_h w + 1 then fb_fillrect (gw_x w) (gw_y w + gw_title_h w) (gw_w w) 1 border fb1 else fb1);
          fb3 = font_draw_text_clipped (gw_x w + 2) text_y (gw_title_h w) (gw_title w) 0xfff0f4f8 fb2;
          min_bg = (if focused then 0xffa0a8b8 else 0xff586070);
          max_bg = (if focused then 0xffa0a8b8 else 0xff586070);
          cls_bg = (if focused then 0xffe04a4a else 0xff8a3030);
          fb4 = (case gui_minimize_button_rect w of
                   None \<Rightarrow> fb3
                 | Some (mx, my, mw, mh) \<Rightarrow>
                     fb_fillrect (mx + 2) (my + mh - 3) (mw - 4) 1 0xfff0f4f8 (fb_fillrect mx my mw mh min_bg fb3));
          fb5 = (case gui_maximize_button_rect w of
                   None \<Rightarrow> fb4
                 | Some (xx, xy, xw, xh) \<Rightarrow>
                     fb_draw_rect (xx + 2) (xy + 2) (xw - 4) (xh - 4) 0xfff0f4f8 (fb_fillrect xx xy xw xh max_bg fb4))
      in draw_close_box w cls_bg fb5)"

definition gui_draw_window :: "gui \<Rightarrow> nat \<Rightarrow> fb \<Rightarrow> fb option" where
  "gui_draw_window g i fb =
     (let w = gd_windows g ! i
      in if \<not> gw_used w then Some fb
         else if gw_minimized w then Some fb
         else
           (let border = (if gd_focused_window_id g = of_nat i \<and> gw_flags w AND GUI_WINDOW_NO_FOCUS = 0
                          then 0xffe0e8f0 else gw_border_color w);
                fb1 = (if gw_owner_drawn w \<and> gw_backing w \<noteq> 0
                       then fb_blit (gw_x w) (gw_y w + gw_title_h w) (gw_pixels w) (gw_w w) (gui_content_h w) fb
                       else
                         (let fb0 = fb_fillrect (gw_x w) (gw_y w) (gw_w w) (gw_h w) border fb
                          in if gw_w w > 2 \<and> gw_h w > 2
                             then fb_fillrect (gw_x w + 1) (gw_y w + 1) (gw_w w - 2) (gw_h w - 2) (gw_bg_color w) fb0 else fb0));
                fb2 = draw_frame w border fb1
            in if gw_title_h w > 0 \<and> gw_title w \<noteq> [] then draw_title_bar w border (gd_focused_window_id g = of_nat i) fb2
               else Some fb2))"

definition visible :: "gui \<Rightarrow> nat \<Rightarrow> bool" where
  "visible g i \<longleftrightarrow> gw_used (gd_windows g ! i) \<and> \<not> gw_minimized (gd_windows g ! i)"

text \<open>The two scans keep the first window with the least key among those that qualify; \<open>UINT32_MAX\<close> is the initial best.\<close>

definition least_step :: "(nat \<Rightarrow> bool) \<Rightarrow> (nat \<Rightarrow> u32) \<Rightarrow> nat \<Rightarrow> nat option \<times> u32 \<Rightarrow> nat option \<times> u32" where
  "least_step P key i best = (if P i \<and> key i < snd best then (Some i, key i) else best)"

definition gui_next_window_at_or_after :: "gui \<Rightarrow> u32 \<Rightarrow> u32 \<Rightarrow> nat option" where
  "gui_next_window_at_or_after g row x =
     fst (fold (least_step
            (\<lambda>i. let w = gd_windows g ! i
                 in visible g i \<and> \<not> (gw_y w > row \<or> gw_y w + gw_h w \<le> row) \<and> \<not> gw_x w + gw_w w \<le> x \<and> gw_x w \<ge> x)
            (\<lambda>i. gw_x (gd_windows g ! i))) [0..<GUI_MAX_WINDOWS] (None, - 1))"

definition gui_next_window_above_z :: "gui \<Rightarrow> u32 \<Rightarrow> nat option" where
  "gui_next_window_above_z g min_z =
     fst (fold (least_step (\<lambda>i. visible g i \<and> \<not> gw_z (gd_windows g ! i) \<le> min_z) (\<lambda>i. gw_z (gd_windows g ! i)))
            [0..<GUI_MAX_WINDOWS] (None, - 1))"

text \<open>One row of the background between the windows. The loop of the code has no bound of its own.\<close>

partial_function (option) background_row :: "gui \<Rightarrow> u32 \<Rightarrow> u32 \<Rightarrow> u32 \<Rightarrow> fb \<Rightarrow> fb option" where
  "background_row g row color x fb =
     (if x < fb_width fb
      then case gui_next_window_at_or_after g row x of
          None \<Rightarrow> Some (fb_fillrect x row (fb_width fb - x) 1 color fb)
        | Some i \<Rightarrow>
            (let next = gw_x (gd_windows g ! i);
                 fb1 = (if next > x then fb_fillrect x row (next - x) 1 color fb else fb)
             in background_row g row color (gw_x (gd_windows g ! i) + gw_w (gd_windows g ! i)) fb1)
      else Some fb)"

declare background_row.simps [code]

definition row_color :: "gui \<Rightarrow> fb \<Rightarrow> u32 \<Rightarrow> u32" where
  "row_color g fb row =
     gui_blend_color (gd_background_color g) (gui_blend_color (gd_background_color g) 0xff000000 3 4) row (fb_height fb - 1)"

primrec background :: "gui \<Rightarrow> nat list \<Rightarrow> fb \<Rightarrow> fb option" where
  "background g [] fb = Some fb"
| "background g (row # rows) fb =
     (case background_row g (of_nat row) (row_color g fb (of_nat row)) 0 fb of None \<Rightarrow> None | Some fb1 \<Rightarrow> background g rows fb1)"

lemma least_fold:
  "\<forall>i. fst st = Some i \<longrightarrow> P i \<Longrightarrow> \<forall>i. fst (fold (least_step P key) is st) = Some i \<longrightarrow> P i"
proof (induction "is" arbitrary: st)
  case (Cons i js)
  have "\<forall>j. fst (least_step P key i st) = Some j \<longrightarrow> P j" using Cons.prems by (simp add: least_step_def)
  from Cons.IH [OF this] show ?case by simp
qed simp

lemma least_fold_Some: "fst (fold (least_step P key) is (None, - 1)) = Some i \<Longrightarrow> P i"
  using least_fold [of "(None, - 1)" P key "is"] by simp

lemma next_above_z: "gui_next_window_above_z g z = Some i \<Longrightarrow> visible g i \<and> z < gw_z (gd_windows g ! i)"
  unfolding gui_next_window_above_z_def by (drule least_fold_Some) (simp add: not_le)

lemma next_at_or_after:
  "gui_next_window_at_or_after g row x = Some i \<Longrightarrow> visible g i \<and> x \<le> gw_x (gd_windows g ! i)"
  unfolding gui_next_window_at_or_after_def by (drule least_fold_Some) (simp add: Let_def)

text \<open>Windows are drawn in the order of their z values, each strictly above the last one.\<close>

function draw_windows_above :: "gui \<Rightarrow> u32 \<Rightarrow> fb \<Rightarrow> fb option" where
  "draw_windows_above g last_z fb =
     (case gui_next_window_above_z g last_z of
        None \<Rightarrow> Some fb
      | Some i \<Rightarrow>
          (case gui_draw_window g i fb of
             None \<Rightarrow> None
           | Some fb1 \<Rightarrow> draw_windows_above g (gw_z (gd_windows g ! i)) fb1))"
  by pat_completeness auto
termination
proof (relation "measure (\<lambda>(g, z, fb). 2 ^ 32 - unat z)")
  fix g z fb i fb1
  assume "gui_next_window_above_z g z = Some i"
  then have "unat z < unat (gw_z (gd_windows g ! i))" using next_above_z by (simp add: word_less_nat_alt)
  moreover have "unat (gw_z (gd_windows g ! i)) < 2 ^ 32" using unsigned_less [of "gw_z (gd_windows g ! i)", where 'a = nat] by simp
  ultimately show "((g, gw_z (gd_windows g ! i), fb1), (g, z, fb)) \<in> measure (\<lambda>(g, z, fb). 2 ^ 32 - unat z)" by simp
qed simp

declare draw_windows_above.simps [simp del]

definition draw_full :: "gui \<Rightarrow> fb \<Rightarrow> fb option" where
  "draw_full g fb =
     (case background g [0..<unat (fb_height fb)] fb of
        None \<Rightarrow> None
      | Some fb1 \<Rightarrow>
          map_option (\<lambda>fb2. if cur_visible (gd_cursor g)
                            then gui_draw_cursor (cur_x (gd_cursor g)) (cur_y (gd_cursor g)) (cur_shape (gd_cursor g)) fb2 else fb2)
            (draw_windows_above g 0 fb1))"

definition draw_damaged :: "gui \<Rightarrow> damage_rect \<Rightarrow> fb \<Rightarrow> fb option" where
  "draw_damaged g r fb =
     (let x0 = (if dr_x r < 0 then 0 else dr_x r); y0 = (if dr_y r < 0 then 0 else dr_y r);
          x1 = (if dr_x r + dr_w r > sint (fb_width fb) then sint (fb_width fb) else dr_x r + dr_w r);
          y1 = (if dr_y r + dr_h r > sint (fb_height fb) then sint (fb_height fb) else dr_y r + dr_h r)
      in if x1 \<le> x0 \<or> y1 \<le> y0 then Some fb
         else
           (let fb1 = fold (\<lambda>row fb. fb_fillrect (of_int x0) (of_int row) (of_int (x1 - x0)) 1 (row_color g fb (of_int row)) fb) [y0..y1 - 1] fb
            in map_option (\<lambda>fb2.
                 let cx0 = cur_x (gd_cursor g); cy0 = cur_y (gd_cursor g); cx1 = cx0 + int GUI_CURSOR_SIZE; cy1 = cy0 + int GUI_CURSOR_SIZE
                 in if cur_visible (gd_cursor g) \<and> cx1 > x0 \<and> cx0 < x1 \<and> cy1 > y0 \<and> cy0 < y1
                    then gui_draw_cursor (cur_x (gd_cursor g)) (cur_y (gd_cursor g)) (cur_shape (gd_cursor g)) fb2 else fb2)
               (draw_windows_above g 0 fb1)))"

primrec draw_damage_list :: "gui \<Rightarrow> damage_rect list \<Rightarrow> fb \<Rightarrow> fb option" where
  "draw_damage_list g [] fb = Some fb"
| "draw_damage_list g (r # rs) fb = (case draw_damaged g r fb of None \<Rightarrow> None | Some fb1 \<Rightarrow> draw_damage_list g rs fb1)"

definition gui_draw :: "gui \<Rightarrow> fb \<Rightarrow> fb option" where
  "gui_draw g fb =
     (if gd_fb g = None then Some fb
      else if gd_damage_full g then draw_full g fb
      else draw_damage_list g (gd_damage_rects g) fb)"

definition gui_render :: "fb \<Rightarrow> gui \<Rightarrow> (gui \<times> fb) option" where
  "gui_render fb g =
     (if \<not> g_gui_active g then Some (g, fb)
      else
        (let g1 = g\<lparr>gd_fb := Some (fb_width fb, fb_height fb)\<rparr>
         in map_option (\<lambda>fb1. (g1, fb1)) (gui_draw g1 fb)))"

definition gui_init_for_framebuffer :: "fb option \<Rightarrow> gui \<Rightarrow> (gui \<times> fb option) option" where
  "gui_init_for_framebuffer fb_opt g =
     (let g1 = g\<lparr>g_gui_active := False, g_gui_dirty := False\<rparr>
      in case fb_opt of
           None \<Rightarrow> Some (g1, None)
         | Some fb \<Rightarrow>
             if fb_pixels fb = 0 then Some (g1, Some fb)
             else case gui_init (Some (fb_width fb, fb_height fb)) 0xff202428 g1 of
                 (False, g2) \<Rightarrow> Some (g2, Some fb)
               | (True, g2) \<Rightarrow>
                   map_option (\<lambda>fb1. ((gui_damage_clear g2)\<lparr>g_gui_active := True\<rparr>, Some fb1)) (gui_draw g2 fb))"

section \<open>Drawing stays in the frame buffer and ends\<close>

text \<open>The drawing steps that are total: they end, and change nothing but pixels of the buffer.\<close>

definition draws :: "(fb \<Rightarrow> fb option) \<Rightarrow> bool" where
  "draws f \<longleftrightarrow> (\<forall>fb. fb_ok fb \<longrightarrow> (\<exists>fb'. f fb = Some fb' \<and> fb_frame fb fb'))"

lemma drawsD: "draws f \<Longrightarrow> fb_ok fb \<Longrightarrow> \<exists>fb'. f fb = Some fb' \<and> fb_frame fb fb'"
  by (simp add: draws_def)

lemma draws_pure: "(\<And>fb. fb_ok fb \<Longrightarrow> fb_frame fb (f fb)) \<Longrightarrow> draws (\<lambda>fb. Some (f fb))"
  by (simp add: draws_def)

lemma draws_then:
  assumes "draws f" and "draws g"
  shows "draws (\<lambda>fb. case f fb of None \<Rightarrow> None | Some fb1 \<Rightarrow> g fb1)"
  unfolding draws_def
proof (intro allI impI)
  fix fb assume ok: "fb_ok fb"
  obtain fb1 where 1: "f fb = Some fb1" "fb_frame fb fb1" using drawsD [OF assms(1) ok] by blast
  then obtain fb2 where "g fb1 = Some fb2" "fb_frame fb1 fb2" using drawsD [OF assms(2)] fb_frame_ok ok by blast
  then show "\<exists>fb'. (case f fb of None \<Rightarrow> None | Some fb1 \<Rightarrow> g fb1) = Some fb' \<and> fb_frame fb fb'"
    using 1 fb_frame_trans by (intro exI [of _ fb2]) auto
qed

lemma draws_map: "draws f \<Longrightarrow> (\<And>fb. fb_ok fb \<Longrightarrow> fb_frame fb (g fb)) \<Longrightarrow> draws (\<lambda>fb. map_option g (f fb))"
  using draws_then [OF _ draws_pure, of f g] by (simp add: map_option_case cong: option.case_cong)

lemma draws_line: "draws (fb_draw_line x0 y0 x1 y1 color)"
  unfolding draws_def using line_is_path paint_points_frame by metis

lemma fillrect_frame: "fb_ok fb \<Longrightarrow> fb_frame fb (fb_fillrect x y w h color fb)"
  by (rule fillrect_paints(1))

lemma blit_frame: "fb_ok fb \<Longrightarrow> fb_frame fb (fb_blit x y src w h fb)"
  by (rule blit_paints(1))

lemma text_clipped_frame: "fb_ok fb \<Longrightarrow> fb_frame fb (font_draw_text_clipped x y mh ts color fb)"
  by (simp add: font_draw_text_clipped_def draw_clipped_frame)

lemma cursor_frame: "fb_ok fb \<Longrightarrow> fb_frame fb (gui_draw_cursor x y shape fb)"
  unfolding gui_draw_cursor_def Let_def by (intro fb_frame_fold) (simp_all add: fb_putpixel_frame)

text \<open>Steps that are composed from framed steps.\<close>

lemma framed_comp:
  assumes "\<And>fb. fb_ok fb \<Longrightarrow> fb_frame fb (f fb)" and "\<And>fb. fb_ok fb \<Longrightarrow> fb_frame fb (g fb)"
  shows "fb_ok fb \<Longrightarrow> fb_frame fb (g (f fb))"
  by (rule frame_chain) (auto intro: assms)

lemma draw_frame_framed: "fb_ok fb \<Longrightarrow> fb_frame fb (draw_frame w border fb)"
  unfolding draw_frame_def Let_def
  by (auto intro!: framed_comp [where g = "fb_fillrect _ _ _ _ _"] fillrect_frame)

lemma draws_close_box: "draws (draw_close_box w c)"
proof (cases "gui_close_box_rect w")
  case None
  then show ?thesis by (simp add: draws_def draw_close_box_def)
next
  case (Some r)
  obtain cx cy cw ch where r: "r = (cx, cy, cw, ch)" by (metis prod_cases4)
  have "draws (\<lambda>fb. case fb_draw_line (sint (cx + 2)) (sint (cy + 2)) (sint (cx + cw - 3)) (sint (cy + ch - 3)) 0xfff8f8f8 fb of
      None \<Rightarrow> None | Some fb1 \<Rightarrow> fb_draw_line (sint (cx + cw - 3)) (sint (cy + 2)) (sint (cx + 2)) (sint (cy + ch - 3)) 0xfff8f8f8 fb1)"
    by (rule draws_then [OF draws_line draws_line])
  from draws_then [OF draws_pure [where f = "fb_fillrect cx cy cw ch c", OF fillrect_frame] this] show ?thesis
    unfolding draw_close_box_def Some r by simp
qed

lemma draws_comp:
  assumes "\<And>fb. fb_ok fb \<Longrightarrow> fb_frame fb (f fb)" and "draws g"
  shows "draws (\<lambda>fb. g (f fb))"
  using draws_then [OF draws_pure [OF assms(1)] assms(2)] by simp

lemma draws_title_bar: "draws (draw_title_bar w border focused)"
proof -
  define bar where "bar = fb_fillrect (gw_x w) (gw_y w) (gw_w w) (gw_title_h w) (gui_blend_color border 0xff000000 2 3)"
  define sep where "sep fb = (if gw_h w > gw_title_h w + 1 then fb_fillrect (gw_x w) (gw_y w + gw_title_h w) (gw_w w) 1 border fb else fb)" for fb
  define title where "title = font_draw_text_clipped (gw_x w + 2) (gw_y w + (if gw_title_h w > 8 then (gw_title_h w - 8) div 2 else 0))
    (gw_title_h w) (gw_title w) 0xfff0f4f8"
  define minb where "minb fb = (case gui_minimize_button_rect w of None \<Rightarrow> fb | Some (mx, my, mw, mh) \<Rightarrow>
      fb_fillrect (mx + 2) (my + mh - 3) (mw - 4) 1 0xfff0f4f8 (fb_fillrect mx my mw mh (if focused then 0xffa0a8b8 else 0xff586070) fb))" for fb
  define maxb where "maxb fb = (case gui_maximize_button_rect w of None \<Rightarrow> fb | Some (xx, xy, xw, xh) \<Rightarrow>
      fb_draw_rect (xx + 2) (xy + 2) (xw - 4) (xh - 4) 0xfff0f4f8 (fb_fillrect xx xy xw xh (if focused then 0xffa0a8b8 else 0xff586070) fb))" for fb
  have f: "fb_ok fb \<Longrightarrow> fb_frame fb (bar fb)" "fb_ok fb \<Longrightarrow> fb_frame fb (sep fb)" "fb_ok fb \<Longrightarrow> fb_frame fb (title fb)" for fb
    by (simp_all add: bar_def sep_def title_def fillrect_frame text_clipped_frame)
  have m: "fb_ok fb \<Longrightarrow> fb_frame fb (minb fb)" for fb
    unfolding minb_def by (auto intro: framed_comp fillrect_frame split: option.split)
  have x: "fb_ok fb \<Longrightarrow> fb_frame fb (maxb fb)" for fb
    unfolding maxb_def by (auto intro: framed_comp fillrect_frame draw_rect_frame split: option.split)
  note d = draws_comp [where f = minb, OF m draws_comp [where f = maxb, OF x draws_close_box [of w "if focused then 0xffe04a4a else 0xff8a3030"]]]
  note d = draws_comp [where f = bar, OF f(1) draws_comp [where f = sep, OF f(2) draws_comp [where f = title, OF f(3) d]]]
  then show ?thesis unfolding draws_def draw_title_bar_def Let_def bar_def sep_def title_def minb_def maxb_def .
qed

lemma draws_window: "draws (gui_draw_window g i)"
proof (cases "gw_used (gd_windows g ! i) \<and> \<not> gw_minimized (gd_windows g ! i)")
  case False
  then show ?thesis by (auto simp: draws_def gui_draw_window_def Let_def)
next
  case True
  define w where "w = gd_windows g ! i"
  define border where "border = (if gd_focused_window_id g = of_nat i \<and> gw_flags w AND GUI_WINDOW_NO_FOCUS = 0 then 0xffe0e8f0 else gw_border_color w)"
  define content where "content fb = (if gw_owner_drawn w \<and> gw_backing w \<noteq> 0
      then fb_blit (gw_x w) (gw_y w + gw_title_h w) (gw_pixels w) (gw_w w) (gui_content_h w) fb
      else let fb0 = fb_fillrect (gw_x w) (gw_y w) (gw_w w) (gw_h w) border fb
        in if gw_w w > 2 \<and> gw_h w > 2
           then fb_fillrect (gw_x w + 1) (gw_y w + 1) (gw_w w - 2) (gw_h w - 2) (gw_bg_color w) fb0 else fb0)" for fb
  have c: "fb_ok fb \<Longrightarrow> fb_frame fb (content fb)" for fb
    unfolding content_def Let_def by (auto intro: framed_comp fillrect_frame blit_frame)
  have "draws (\<lambda>fb. if gw_title_h w > 0 \<and> gw_title w \<noteq> [] then draw_title_bar w border (gd_focused_window_id g = of_nat i) fb else Some fb)"
    using draws_title_bar by (simp add: draws_def)
  from draws_comp [where f = content, OF c draws_comp [where f = "draw_frame w border", OF draw_frame_framed this]] True show ?thesis
    unfolding draws_def gui_draw_window_def Let_def w_def [symmetric] border_def [symmetric] content_def by simp
qed

lemma draws_windows_above: "fb_ok fb \<Longrightarrow> \<exists>fb'. draw_windows_above g z fb = Some fb' \<and> fb_frame fb fb'"
proof (induction g z fb rule: draw_windows_above.induct)
  case (1 g z fb)
  show ?case
  proof (cases "gui_next_window_above_z g z")
    case None
    then show ?thesis by (subst draw_windows_above.simps) simp
  next
    case (Some i)
    obtain fb1 where 1: "gui_draw_window g i fb = Some fb1" "fb_frame fb fb1" using drawsD [OF draws_window "1.prems"] by blast
    then obtain fb2 where "draw_windows_above g (gw_z (gd_windows g ! i)) fb1 = Some fb2" "fb_frame fb1 fb2"
      using "1.IH" [OF Some 1(1)] fb_frame_ok "1.prems" by blast
    then show ?thesis using 1 Some fb_frame_trans by (subst draw_windows_above.simps) (auto intro: fb_frame_trans)
  qed
qed

text \<open>Windows with a width, inside the 32-bit plane.\<close>

definition windows_fit :: "gui \<Rightarrow> bool" where
  "windows_fit g \<longleftrightarrow> (\<forall>i<GUI_MAX_WINDOWS. visible g i \<longrightarrow>
     gw_w (gd_windows g ! i) > 0 \<and> unat (gw_x (gd_windows g ! i)) + unat (gw_w (gd_windows g ! i)) < 2 ^ 32)"

lemma least_fold_index: "\<forall>i. fst st = Some i \<longrightarrow> i \<in> S \<Longrightarrow> set is \<subseteq> S \<Longrightarrow> \<forall>i. fst (fold (least_step P key) is st) = Some i \<longrightarrow> i \<in> S"
proof (induction "is" arbitrary: st)
  case (Cons i js)
  have "\<forall>j. fst (least_step P key i st) = Some j \<longrightarrow> j \<in> S" using Cons.prems by (simp add: least_step_def)
  from Cons.IH [OF this] Cons.prems(2) show ?case by simp
qed simp

lemma next_at_or_after_index: "gui_next_window_at_or_after g row x = Some i \<Longrightarrow> i < GUI_MAX_WINDOWS"
  unfolding gui_next_window_at_or_after_def using least_fold_index [of "(None, - 1)" "{..<GUI_MAX_WINDOWS}" "[0..<GUI_MAX_WINDOWS]"] by fastforce

lemma background_row_draws:
  assumes fit: "windows_fit g" and "fb_ok fb"
  shows "\<exists>fb'. background_row g row color x fb = Some fb' \<and> fb_frame fb fb'"
  using assms(2)
proof (induction "2 ^ 32 - unat x" arbitrary: x fb rule: less_induct)
  case less
  show ?case
  proof (cases "x < fb_width fb")
    case False
    then show ?thesis by (subst background_row.simps) simp
  next
    case True
    show ?thesis
    proof (cases "gui_next_window_at_or_after g row x")
      case None
      then show ?thesis using True fillrect_frame [OF less.prems] by (subst background_row.simps) simp
    next
      case (Some i)
      let ?w = "gd_windows g ! i"
      let ?fb = "if gw_x ?w > x then fb_fillrect x row (gw_x ?w - x) 1 color fb else fb"
      have f: "fb_frame fb ?fb" using fillrect_frame [OF less.prems] by simp
      then have ok: "fb_ok ?fb" using fb_frame_ok less.prems by blast
      have lt: "gw_w ?w > 0" "unat (gw_x ?w) + unat (gw_w ?w) < 2 ^ 32"
        using fit next_at_or_after [OF Some] next_at_or_after_index [OF Some] by (simp_all add: windows_fit_def)
      have "x \<le> gw_x ?w" using next_at_or_after [OF Some] by simp
      then have "unat x < unat (gw_x ?w + gw_w ?w)" "unat (gw_x ?w + gw_w ?w) < 2 ^ 32"
        using lt by (simp_all add: unat_word_ariths word_le_nat_alt word_less_nat_alt)
      then have "2 ^ 32 - unat (gw_x ?w + gw_w ?w) < 2 ^ 32 - unat x" by simp
      from less.hyps [OF this ok] obtain fb' where "background_row g row color (gw_x ?w + gw_w ?w) ?fb = Some fb'" "fb_frame ?fb fb'" by blast
      then show ?thesis using Some True fb_frame_trans [OF f] by (subst background_row.simps) (simp add: Let_def)
    qed
  qed
qed

lemma background_draws:
  assumes "windows_fit g"
  shows "fb_ok fb \<Longrightarrow> \<exists>fb'. background g rows fb = Some fb' \<and> fb_frame fb fb'"
proof (induction rows arbitrary: fb)
  case (Cons row rows)
  obtain fb1 where 1: "background_row g (of_nat row) (row_color g fb (of_nat row)) 0 fb = Some fb1" "fb_frame fb fb1"
    using background_row_draws [OF assms Cons.prems] by blast
  then obtain fb2 where "background g rows fb1 = Some fb2" "fb_frame fb1 fb2" using Cons.IH Cons.prems fb_frame_ok by blast
  then show ?case using 1 fb_frame_trans by (intro exI [of _ fb2]) auto
qed simp

lemma draw_full_draws: "windows_fit g \<Longrightarrow> draws (draw_full g)"
proof -
  assume fit: "windows_fit g"
  have bg: "draws (\<lambda>fb. background g [0..<unat (fb_height fb)] fb)" using background_draws [OF fit] by (simp add: draws_def)
  have win: "draws (draw_windows_above g 0)" using draws_windows_above by (simp add: draws_def)
  have cur: "fb_ok fb \<Longrightarrow> fb_frame fb (if cur_visible (gd_cursor g)
      then gui_draw_cursor (cur_x (gd_cursor g)) (cur_y (gd_cursor g)) (cur_shape (gd_cursor g)) fb else fb)" for fb
    by (simp add: cursor_frame)
  from draws_then [OF bg draws_map [OF win cur]] show ?thesis unfolding draws_def draw_full_def by simp
qed

lemma draw_damaged_draws: "draws (draw_damaged g r)"
  unfolding draws_def
proof (intro allI impI)
  fix fb assume ok: "fb_ok fb"
  define x0 y0 x1 y1 where "x0 = (if dr_x r < 0 then 0 else dr_x r)" and "y0 = (if dr_y r < 0 then 0 else dr_y r)"
    and "x1 = (if dr_x r + dr_w r > sint (fb_width fb) then sint (fb_width fb) else dr_x r + dr_w r)"
    and "y1 = (if dr_y r + dr_h r > sint (fb_height fb) then sint (fb_height fb) else dr_y r + dr_h r)"
  define fb1 where "fb1 = fold (\<lambda>row fb. fb_fillrect (of_int x0) (of_int row) (of_int (x1 - x0)) 1 (row_color g fb (of_int row)) fb) [y0..y1 - 1] fb"
  have f1: "fb_frame fb fb1" unfolding fb1_def by (rule fb_frame_fold) (simp_all add: fillrect_frame ok)
  then have ok1: "fb_ok fb1" using ok fb_frame_ok by blast
  define cur where "cur fb2 = (let cx0 = cur_x (gd_cursor g); cy0 = cur_y (gd_cursor g); cx1 = cx0 + int GUI_CURSOR_SIZE; cy1 = cy0 + int GUI_CURSOR_SIZE
      in if cur_visible (gd_cursor g) \<and> cx1 > x0 \<and> cx0 < x1 \<and> cy1 > y0 \<and> cy0 < y1
         then gui_draw_cursor (cur_x (gd_cursor g)) (cur_y (gd_cursor g)) (cur_shape (gd_cursor g)) fb2 else fb2)" for fb2
  have "draws (draw_windows_above g 0)" using draws_windows_above by (simp add: draws_def)
  moreover have "fb_frame fb (cur fb)" if "fb_ok fb" for fb using that by (simp add: cur_def Let_def cursor_frame)
  ultimately have "draws (\<lambda>fb. map_option cur (draw_windows_above g 0 fb))" by (rule draws_map)
  from drawsD [OF this ok1] obtain fb2 where fb2: "map_option cur (draw_windows_above g 0 fb1) = Some fb2" "fb_frame fb1 fb2" by blast
  have "draw_damaged g r fb = (if x1 \<le> x0 \<or> y1 \<le> y0 then Some fb else map_option cur (draw_windows_above g 0 fb1))"
    unfolding draw_damaged_def Let_def x0_def [symmetric] y0_def [symmetric] x1_def [symmetric] y1_def [symmetric] fb1_def [symmetric]
    by (simp add: cur_def [abs_def] Let_def)
  then show "\<exists>fb'. draw_damaged g r fb = Some fb' \<and> fb_frame fb fb'"
    using fb2 fb_frame_trans [OF f1] by (cases "x1 \<le> x0 \<or> y1 \<le> y0") auto
qed

lemma draw_damage_list_draws: "fb_ok fb \<Longrightarrow> \<exists>fb'. draw_damage_list g rs fb = Some fb' \<and> fb_frame fb fb'"
proof (induction rs arbitrary: fb)
  case (Cons r rs)
  obtain fb1 where 1: "draw_damaged g r fb = Some fb1" "fb_frame fb fb1" using drawsD [OF draw_damaged_draws Cons.prems] by blast
  then obtain fb2 where "draw_damage_list g rs fb1 = Some fb2" "fb_frame fb1 fb2" using Cons.IH Cons.prems fb_frame_ok by blast
  then show ?case using 1 fb_frame_trans by (intro exI [of _ fb2]) auto
qed simp

text \<open>Drawing the desktop always ends and never writes outside the frame buffer. This covers the full redraw and the redraw of the damaged
  rectangles, all decorations, titles and the cursor, wherever the windows and the cursor are; the one condition is that the visible windows
  have a width and do not reach past the 32-bit plane, without which the loop over a background row need not advance.\<close>

theorem gui_draw_safe:
  assumes "fb_ok fb" and "windows_fit g"
  shows "\<exists>fb'. gui_draw g fb = Some fb' \<and> fb_frame fb fb'"
  using drawsD [OF draw_full_draws [OF assms(2)] assms(1)] draw_damage_list_draws [OF assms(1)]
  by (auto simp: gui_draw_def)

section \<open>Drawing into the buffer of a window\<close>

text \<open>
  What drawing may do to a window: buffer, capacity and pixels may change, no pixel beyond the buffer does. The product of the sizes must not
  exceed 64 bits, as is the case for every window that fits a screen.
\<close>

definition repainted :: "gui_window \<Rightarrow> gui_window \<Rightarrow> bool" where
  "repainted w w' \<longleftrightarrow> (\<exists>b c px d. w' = w\<lparr>gw_backing := b, gw_backing_capacity := c, gw_pixels := px, gw_owner_drawn := d\<rparr> \<and>
     (\<forall>i. unat c < 4 * (i + 1) \<longrightarrow> px i = gw_pixels w i))"

definition buffer_fits :: "gui_window \<Rightarrow> bool" where
  "buffer_fits w \<longleftrightarrow> 4 * (unat (gw_w w) * unat (gui_content_h w)) \<le> unat (gw_backing_capacity w)"

lemma backing_size_nat:
  assumes small: "unat (gw_w w) * unat (gw_h w) < 2 ^ 62" and eq: "gui_window_backing_size w = Some n"
  shows "unat n = 4 * (unat (gw_w w) * unat (gui_content_h w))"
proof -
  let ?a = "unat (gw_w w)" and ?b = "unat (gui_content_h w)"
  have "?b \<le> unat (gw_h w)" by (auto simp: gui_content_h_def unat_sub_if_size word_less_nat_alt)
  then have ab: "?a * ?b < 2 ^ 62" using small mult_le_mono2 [of ?b "unat (gw_h w)" ?a] by linarith
  have "ucast (gw_w w) * ucast (gui_content_h w) * (4 :: u64) = of_nat (?a * ?b * 4)"
    by simp
  then have u: "unat (ucast (gw_w w) * ucast (gui_content_h w) * (4 :: u64)) = 4 * (?a * ?b)" 
  proof -
    have "x < 2 ^ 62 \<Longrightarrow> x * 4 < 2 ^ 64" for x :: nat by simp
    from this [OF ab] have "?a * ?b * 4 < 2 ^ 64" .
    from unat_of_nat_u64 [OF this] \<open>_ = of_nat (?a * ?b * 4)\<close> show ?thesis by (simp only: mult.commute)
  qed
  have le: "ucast (gw_w w) * ucast (gui_content_h w) * (4 :: u64) \<le> 0xffffffff" "n = ucast (ucast (gw_w w) * ucast (gui_content_h w) * (4 :: u64))"
    using eq by (simp_all add: gui_window_backing_size_def Let_def not_less split: if_splits)
  have "y \<le> 0xffffffff \<Longrightarrow> unat y < 2 ^ 32" for y :: u64 by (simp add: word_le_nat_alt)
  from this [OF le(1)] have "4 * (?a * ?b) < 2 ^ 32" unfolding u .
  then show ?thesis using u le(2) by (simp add: unsigned_ucast_eq take_bit_nat_eq_self)
qed

lemma ensure_backing_repaints:
  assumes small: "unat (gw_w w) * unat (gw_h w) < 2 ^ 62" and eq: "gui_window_ensure_backing w p h = (r, w', p', h')"
  shows "repainted w w'" and "r \<Longrightarrow> buffer_fits w' \<and> gw_backing w' \<noteq> 0"
proof -
  consider (fail) "w' = w" "\<not> r" | (keep) n where "gui_window_backing_size w = Some n" "n \<le> gw_backing_capacity w" "w' = w" "gw_backing w \<noteq> 0"
    | (alloc) n b where "gui_window_backing_size w = Some n" "w' = (gui_backing_fill w)\<lparr>gw_backing := b, gw_backing_capacity := n\<rparr>" "b \<noteq> 0"
  proof (cases "gui_window_backing_size w")
    case None
    then show ?thesis using that(1) eq by (simp add: gui_window_ensure_backing_def)
  next
    case (Some n)
    obtain b p1 h1 where k: "kmalloc (ucast n) p h = (b, p1, h1)" by (metis prod_cases3)
    show ?thesis
    proof (cases "gw_backing w \<noteq> 0 \<and> gw_backing_capacity w \<ge> n")
      case True
      then show ?thesis using that(2) [OF Some] eq Some by (simp add: gui_window_ensure_backing_def)
    next
      case False
      then have "gui_window_alloc_backing n w p h = (r, w', p', h')" using eq Some unfolding gui_window_ensure_backing_def by auto
      then show ?thesis using that(1) that(3) [OF Some, of b] k
        by (cases "b = 0") (simp_all add: gui_window_alloc_backing_def Let_def)
    qed
  qed
  then have "repainted w w' \<and> (r \<longrightarrow> buffer_fits w' \<and> gw_backing w' \<noteq> 0)"
  proof cases
    case fail
    then show ?thesis unfolding repainted_def
      by (intro conjI exI [of _ "gw_backing w"] exI [of _ "gw_backing_capacity w"] exI [of _ "gw_pixels w"] exI [of _ "gw_owner_drawn w"]) simp_all
  next
    case keep
    have "repainted w w'" unfolding repainted_def keep
      by (intro conjI exI [of _ "gw_backing w"] exI [of _ "gw_backing_capacity w"] exI [of _ "gw_pixels w"] exI [of _ "gw_owner_drawn w"]) simp_all
    then show ?thesis using keep backing_size_nat [OF small keep(1)] by (simp add: buffer_fits_def word_le_nat_alt)
  next
    case alloc
    note n = backing_size_nat [OF small alloc(1)]
    have "repainted w w'" unfolding repainted_def alloc(2) gui_backing_fill_def using n
      by (intro exI [of _ b] exI [of _ n] exI [of _ "\<lambda>i. if i < unat (gw_w w) * unat (gui_content_h w) then gw_bg_color w else gw_pixels w i"]
        exI [of _ "gw_owner_drawn w"]) auto
    then show ?thesis using alloc n by (simp add: buffer_fits_def gui_backing_fill_def gui_content_h_def)
  qed
  then show "repainted w w'" "r \<Longrightarrow> buffer_fits w' \<and> gw_backing w' \<noteq> 0" by auto
qed

lemma backing_fb_ok:
  assumes "buffer_fits w"
  shows "fb_ok (gui_window_backing_fb w)"
proof -
  have "unat (gw_w w) * unat (gui_content_h w) \<le> 2 ^ 32"
    using assms unsigned_less [of "gw_backing_capacity w", where 'a = nat] by (simp add: buffer_fits_def)
  then show ?thesis by (simp add: fb_ok_def gui_window_backing_fb_def)
qed

lemma draw_backing_repaints:
  assumes fit: "buffer_fits w" and f: "\<And>fb. fb_ok fb \<Longrightarrow> fb_frame fb (f fb)"
  shows "repainted w (draw_backing f w)"
proof -
  let ?fb = "gui_window_backing_fb w"
  have fr: "fb_frame ?fb (f ?fb)" using f backing_fb_ok [OF fit] by blast
  have "fb_mem (f ?fb) i = gw_pixels w i" if "unat (gw_backing_capacity w) < 4 * (i + 1)" for i
  proof -
    have "\<not> in_fb ?fb i"
    proof
      assume "in_fb ?fb i"
      then obtain x y :: u32 where "unat x < unat (gw_w w)" "unat y < unat (gui_content_h w)" "i = unat y * unat (gw_w w) + unat x"
        unfolding in_fb_def gui_window_backing_fb_def by (auto simp: word_less_nat_alt)
      then show False using row_bound [of "unat x" "unat (gw_w w)" "unat y" "unat (gui_content_h w)"] fit that by (simp add: buffer_fits_def)
    qed
    then show ?thesis using fr by (simp add: fb_frame_def gui_window_backing_fb_def)
  qed
  then show ?thesis unfolding repainted_def draw_backing_def
    by (intro exI [of _ "gw_backing w"] exI [of _ "gw_backing_capacity w"] exI [of _ "fb_mem (f ?fb)"] exI [of _ "gw_owner_drawn w"]) simp
qed

lemma repainted_refl: "repainted w w"
  unfolding repainted_def
  by (intro exI [of _ "gw_backing w"] exI [of _ "gw_backing_capacity w"] exI [of _ "gw_pixels w"] exI [of _ "gw_owner_drawn w"]) simp

lemma repainted_trans_same:
  assumes "repainted u v" and "repainted v w" and "gw_backing_capacity w = gw_backing_capacity v"
  shows "repainted u w"
proof -
  obtain b c px d where v: "v = u\<lparr>gw_backing := b, gw_backing_capacity := c, gw_pixels := px, gw_owner_drawn := d\<rparr>"
    "\<forall>i. unat c < 4 * (i + 1) \<longrightarrow> px i = gw_pixels u i" using assms(1) by (auto simp: repainted_def)
  obtain b' c' px' d' where w: "w = v\<lparr>gw_backing := b', gw_backing_capacity := c', gw_pixels := px', gw_owner_drawn := d'\<rparr>"
    "\<forall>i. unat c' < 4 * (i + 1) \<longrightarrow> px' i = gw_pixels v i" using assms(2) by (auto simp: repainted_def)
  have "c' = c" using assms(3) v(1) w(1) by simp
  then show ?thesis unfolding repainted_def using v w
    by (intro exI [of _ b'] exI [of _ c'] exI [of _ px'] exI [of _ d']) simp
qed

lemma drawn_repaints: "repainted w (w\<lparr>gw_owner_drawn := d\<rparr>)"
  unfolding repainted_def
  by (intro exI [of _ "gw_backing w"] exI [of _ "gw_backing_capacity w"] exI [of _ "gw_pixels w"] exI [of _ d]) simp

text \<open>The whole desktop after drawing in window \<open>i\<close>.\<close>

definition painted_window :: "nat \<Rightarrow> pmm \<Rightarrow> gui \<Rightarrow> pmm \<Rightarrow> gui \<Rightarrow> bool" where
  "painted_window i p g p' g' \<longleftrightarrow> gui_ok p' g' \<and> gd_focused_window_id g' = gd_focused_window_id g \<and> gd_next_z g' = gd_next_z g \<and>
     (\<exists>w. gd_windows g' = (gd_windows g)[i := w] \<and> repainted (gd_windows g ! i) w)"

lemma painted_refl: "gui_ok p g \<Longrightarrow> painted_window i p g p g"
  unfolding painted_window_def using repainted_refl by (intro conjI exI [of _ "gd_windows g ! i"]) simp_all

lemma painted_ensure:
  assumes ok: "gui_ok p g" and i: "i < length (gd_windows g)" "gw_used (gd_windows g ! i)"
    and small: "unat (gw_w (gd_windows g ! i)) * unat (gw_h (gd_windows g ! i)) < 2 ^ 62"
    and eq: "gui_window_ensure_backing (gd_windows g ! i) p (gui_heap g) = (r, w, p', h')"
  shows "painted_window i p g p' (g\<lparr>gd_windows := (gd_windows g)[i := w], gui_heap := h'\<rparr>)"
    and "r \<Longrightarrow> painted_window i p g p' (window_owner_drawn i w h' g)"
    and "r \<Longrightarrow> (\<And>fb. fb_ok fb \<Longrightarrow> fb_frame fb (f fb)) \<Longrightarrow>
      painted_window i p g p' (gui_damage_add dx dy dw dh (set_window i (draw_backing f) (window_owner_drawn i w h' g)))"
proof -
  note e = ensure_backing_repaints [OF small eq]
  have wok: "win_ok (gd_windows g ! i)" and bufs: "bufs_ok p (gd_windows g) (gui_heap g)" using ok i by (simp_all add: gui_ok_def)
  have "same_buffer (gd_windows g ! i) (gd_windows g ! i)" by (simp add: same_buffer_def)
  from backing_bufs [OF bufs i this disjI2 [OF eq]] wok
  have b: "bufs_ok p' ((gd_windows g)[i := w]) h'" "gw_used w" "win_ok w" by simp_all
  have gok: "gui_ok p' (g\<lparr>gd_windows := (gd_windows g)[i := w], gui_heap := h'\<rparr>)" by (rule gui_ok_buffer [OF ok i(1)]) (simp_all add: b)
  have upd: "gui_ok p' g'" if "same_buffer w v" "win_ok v" "gd_windows g' = (gd_windows g)[i := v]" "gui_heap g' = h'"
    "gd_focused_window_id g' = gd_focused_window_id g" "gd_drag_window_id g' = gd_drag_window_id g" for v g'
    by (rule gui_ok_window [OF gok, of i v]) (use that i in simp_all)
  show "painted_window i p g p' (g\<lparr>gd_windows := (gd_windows g)[i := w], gui_heap := h'\<rparr>)"
    unfolding painted_window_def using gok e(1) by (intro conjI exI [of _ w]) simp_all
  let ?v = "w\<lparr>gw_owner_drawn := True\<rparr>"
  have v: "same_buffer w ?v" "win_ok ?v" "repainted (gd_windows g ! i) ?v"
    using b(3) repainted_trans_same [OF e(1) drawn_repaints [of w True]] by (simp_all add: same_buffer_def win_ok_def)
  show "painted_window i p g p' (window_owner_drawn i w h' g)"
    unfolding painted_window_def window_owner_drawn_def using upd [OF v(1,2)] v(3) by (intro conjI exI [of _ ?v]) simp_all
  assume r: r and f: "\<And>fb. fb_ok fb \<Longrightarrow> fb_frame fb (f fb)"
  let ?u = "draw_backing f ?v"
  have fit: "buffer_fits ?v" using e(2) [OF r] by (auto simp: buffer_fits_def gui_content_h_def)
  have u: "same_buffer w ?u" "win_ok ?u" "repainted (gd_windows g ! i) ?u"
    using b(3) repainted_trans_same [OF v(3) draw_backing_repaints [OF fit f]] by (simp_all add: draw_backing_def same_buffer_def win_ok_def)
  show "painted_window i p g p' (gui_damage_add dx dy dw dh (set_window i (draw_backing f) (window_owner_drawn i w h' g)))"
    unfolding painted_window_def window_owner_drawn_def using upd [OF u(1,2)] u(3) i(1) by (intro conjI exI [of _ ?u]) simp_all
qed

lemma font_draw_text_frame: "fb_ok fb \<Longrightarrow> fb_frame fb (font_draw_text x y ts color fb)"
  by (simp add: font_draw_text_def draw_text_frame)

text \<open>Programs draw only into their own window buffer. Text, rectangles and clearing, at any coordinates and with any size, keep the invariant
  of the window system, change no other window, neither focus nor stacking, and of the window itself only its buffer; no pixel beyond the
  capacity of the buffer is written. A buffer that is missing or too small is allocated first, and when that fails nothing is drawn.\<close>

theorem gui_window_draw_safe:
  assumes "gui_ok p g" and "unat (gw_w (gd_windows g ! unat k)) * unat (gw_h (gd_windows g ! unat k)) < 2 ^ 62"
  shows "(case gui_window_draw_text k x y ts color p g of (r, p', g') \<Rightarrow> painted_window (unat k) p g p' g') \<and>
    (case gui_window_draw_rect k x y w h color p g of (r, p', g') \<Rightarrow> painted_window (unat k) p g p' g') \<and>
    (case gui_window_clear k color p g of (r, p', g') \<Rightarrow> painted_window (unat k) p g p' g')"
proof (cases "k \<ge> of_nat GUI_MAX_WINDOWS \<or> \<not> gw_used (gd_windows g ! unat k)")
  case True
  then show ?thesis using painted_refl [OF assms(1)] by (auto simp: gui_window_draw_text_def gui_window_draw_rect_def gui_window_clear_def)
next
  case False
  obtain r win p1 h1 where e: "gui_window_ensure_backing (gd_windows g ! unat k) p (gui_heap g) = (r, win, p1, h1)" by (metis prod_cases4)
  have i: "unat k < length (gd_windows g)" "gw_used (gd_windows g ! unat k)" using False win_in [OF assms(1), of k] by auto
  note op = painted_ensure [OF assms(1) i assms(2) e]
  have "case gui_window_draw_text k x y ts color p g of (r, p', g') \<Rightarrow> painted_window (unat k) p g p' g'"
    using False unfolding gui_window_draw_text_def e by (cases r) (auto simp: Let_def intro!: op font_draw_text_frame)
  moreover have "case gui_window_draw_rect k x y w h color p g of (r, p', g') \<Rightarrow> painted_window (unat k) p g p' g'"
    using False painted_refl [OF assms(1)] unfolding gui_window_draw_rect_def e by (cases r) (auto simp: Let_def intro!: op fillrect_frame)
  moreover have "case gui_window_clear k color p g of (r, p', g') \<Rightarrow> painted_window (unat k) p g p' g'"
    using False unfolding gui_window_clear_def e by (cases r) (auto simp: Let_def intro!: op fillrect_frame)
  ultimately show ?thesis by blast
qed

section \<open>Witnesses and a redraw that loses the cursor\<close>

lemma desktop_demo_fit: "windows_fit desktop_demo"
  unfolding windows_fit_def
proof (intro allI impI)
  fix i assume "i < GUI_MAX_WINDOWS" "visible desktop_demo i"
  then have "i = 0 \<or> i = 1"
    by (auto simp: visible_def desktop_demo_def blank_window_def nth_Cons nth_append split: nat.splits if_splits)
  then show "gw_w (gd_windows desktop_demo ! i) > 0 \<and>
      unat (gw_x (gd_windows desktop_demo ! i)) + unat (gw_w (gd_windows desktop_demo ! i)) < 2 ^ 32"
    by (auto simp: desktop_demo_def blank_window_def)
qed

theorem gui_draw_safe_witness:
  "\<exists>fb'. gui_draw (desktop_demo\<lparr>gd_damage_full := True\<rparr>) fb_demo = Some fb' \<and> fb_mem fb' 8 = 0"
proof -
  have ok: "fb_ok fb_demo" by (simp add: fb_ok_def fb_demo_def)
  have "windows_fit (desktop_demo\<lparr>gd_damage_full := True\<rparr>)" using desktop_demo_fit by (simp add: windows_fit_def visible_def)
  from gui_draw_safe [OF ok this] obtain fb' where "gui_draw (desktop_demo\<lparr>gd_damage_full := True\<rparr>) fb_demo = Some fb'" "fb_frame fb_demo fb'" by blast
  moreover have "\<not> in_fb fb_demo 8"
  proof
    assume "in_fb fb_demo 8"
    then show False unfolding in_fb_def fb_demo_def by (auto simp: word_less_nat_alt) presburger
  qed
  ultimately show ?thesis by (auto simp: fb_frame_def fb_demo_def)
qed

theorem gui_window_draw_safe_witness:
  "case gui_window_draw_rect 1 5 5 10 10 7 (pmm_init 0x40000000 0x3000) desktop_demo of
     (r, p', g') \<Rightarrow> gd_windows g' ! 0 = gd_windows desktop_demo ! 0 \<and> gui_ok p' g'"
proof -
  have len: "length (gd_windows desktop_demo) = 16" by (simp add: desktop_demo_def)
  have small: "unat (gw_w (gd_windows desktop_demo ! unat (1 :: u32))) * unat (gw_h (gd_windows desktop_demo ! unat (1 :: u32))) < 2 ^ 62"
    by (simp add: desktop_demo_def blank_window_def)
  have ok: "gui_ok (pmm_init 0x40000000 0x3000) desktop_demo" by (rule desktop_demo_ok) (rule pmm_demo(1))
  obtain r p' g' where e: "gui_window_draw_rect 1 5 5 10 10 7 (pmm_init 0x40000000 0x3000) desktop_demo = (r, p', g')" by (metis prod_cases3)
  have "painted_window (unat (1 :: u32)) (pmm_init 0x40000000 0x3000) desktop_demo p' g'"
    using gui_window_draw_safe [OF ok small, where x = 5 and y = 5 and w = 10 and h = 10 and color = 7 and ts = "[]"] unfolding e by simp
  then show ?thesis using len unfolding e by (auto simp: painted_window_def)
qed

definition cursor_demo :: gui where
  "cursor_demo = desktop_demo\<lparr>gd_fb := Some (20, 1),
     gd_windows := blank_window\<lparr>gw_used := True, gw_w := 20, gw_h := 1, gw_z := 1, gw_border_color := 5\<rparr> # replicate 15 blank_window,
     gd_cursor := (gd_cursor desktop_demo)\<lparr>cur_x := 0, cur_y := 0\<rparr>,
     gd_damage_rects := [\<lparr>dr_x = 18, dr_y = 0, dr_w = 1, dr_h = 1\<rparr>]\<rparr>"

definition row_demo :: fb where
  "row_demo = \<lparr>fb_pixels = 0x80000, fb_width = 20, fb_height = 1, fb_stride_pixels = 20, fb_mem = (\<lambda>_. 0)\<rparr>"

lemma cursor_demo_windows:
  "gui_next_window_above_z cursor_demo 0 = Some 0" "gui_next_window_above_z cursor_demo 1 = None"
  by code_simp+

lemma cursor_demo_draw: "draw_windows_above cursor_demo 0 fb = Some (fb_fillrect 0 0 20 1 5 (fb_fillrect 0 0 20 1 5 fb))"
proof -
  have z: "gw_z (gd_windows cursor_demo ! 0) = 1" by (simp add: cursor_demo_def blank_window_def)
  have "gui_draw_window cursor_demo 0 fb = Some (fb_fillrect 0 0 20 1 5 (fb_fillrect 0 0 20 1 5 fb))"
    by (simp add: gui_draw_window_def draw_frame_def Let_def cursor_demo_def desktop_demo_def blank_window_def)
  moreover have "draw_windows_above cursor_demo 1 fb' = Some fb'" for fb'
    by (subst draw_windows_above.simps) (simp add: cursor_demo_windows(2))
  ultimately show ?thesis by (subst draw_windows_above.simps) (simp add: cursor_demo_windows(1) z)
qed

text \<open>A redraw of damaged rectangles can wipe out the cursor. All windows are repainted in full, but the cursor is drawn again
  only if it meets the damaged rectangle: here a single damaged pixel at the right end of a row repaints the window over the visible
  cursor at the left end, whose tip then shows the window and not the cursor bitmap.\<close>

theorem partial_redraw_hides_cursor:
  "cur_visible (gd_cursor cursor_demo) \<and> cur_x (gd_cursor cursor_demo) = 0 \<and> cur_y (gd_cursor cursor_demo) = 0 \<and> g_cursor ! 0 ! 0 = 1 \<and>
   map_option (\<lambda>fb. pixel fb 0 0) (gui_draw cursor_demo row_demo) = Some 5"
proof -
  let ?fb = "fb_fillrect 18 0 1 1 (row_color cursor_demo row_demo 0) row_demo"
  have ok: "fb_ok ?fb" "fb_width ?fb = 20" "fb_height ?fb = 1" "fb_pixels ?fb = 0x80000"
    using fillrect_frame [of row_demo 18 0 1 1] fb_frame_ok by (auto simp: fb_frame_def same_fb_def row_demo_def fb_ok_def)
  have ok2: "fb_ok (fb_fillrect 0 0 20 1 5 ?fb)" "fb_width (fb_fillrect 0 0 20 1 5 ?fb) = 20" "fb_height (fb_fillrect 0 0 20 1 5 ?fb) = 1"
    "fb_pixels (fb_fillrect 0 0 20 1 5 ?fb) = 0x80000"
    using fillrect_frame [OF ok(1), of 0 0 20 1 5] fb_frame_ok ok by (auto simp: fb_frame_def same_fb_def)
  have "draw_damaged cursor_demo \<lparr>dr_x = 18, dr_y = 0, dr_w = 1, dr_h = 1\<rparr> row_demo = Some (fb_fillrect 0 0 20 1 5 (fb_fillrect 0 0 20 1 5 ?fb))"
    unfolding draw_damaged_def cursor_demo_draw by (simp add: cursor_demo_def desktop_demo_def row_demo_def)
  then have "gui_draw cursor_demo row_demo = Some (fb_fillrect 0 0 20 1 5 (fb_fillrect 0 0 20 1 5 ?fb))"
    by (simp add: gui_draw_def cursor_demo_def desktop_demo_def)
  moreover have "pixel (fb_fillrect 0 0 20 1 5 (fb_fillrect 0 0 20 1 5 ?fb)) 0 0 = 5"
    using fillrect_paints(2) [OF ok2(1), of 0 0 0 0 20 1 5] ok2 by simp
  ultimately show ?thesis by (simp add: cursor_demo_def desktop_demo_def g_cursor_def)
qed

end
