(* ===== verification/Syscall.thy ===== *)
theory Syscall
  imports Spawn Compositor Ipc Sched
begin

text \<open>
  The system calls: \<open>kernel/syscall.c\<close> and \<open>kernel/syscall_helpers.c\<close>. The record \<open>system\<close> collects the state of the components that the calls reach.
  \<open>sy_mem\<close> is the memory as the kernel sees it while it serves the call: user addresses in the address space of the caller, kernel memory mapped one to one.
  A call returns an error or a 64-bit value, which the dispatcher encodes in register \<open>x0\<close>. The caller is the slot of the current process, if there is one.

  What the calls use and the model does not contain is the record \<open>platform\<close>: addresses that the linker chooses, the images of the boot
  programs, the FAT32 operations behind \<open>open\<close>, \<open>unlink\<close> and \<open>rename\<close>, the devices that are polled for input, the kernel console and the network.
\<close>

datatype sys_error = ERR_NOENT | ERR_BADF | ERR_INVAL | ERR_AGAIN | ERR_PERM | ERR_USER_VM user_vm_error

fun err_code :: "sys_error \<Rightarrow> int" where
  "err_code ERR_NOENT = -3"
| "err_code ERR_BADF = -5"
| "err_code ERR_INVAL = -7"
| "err_code ERR_AGAIN = -11"
| "err_code ERR_PERM = -13"
| "err_code (ERR_USER_VM USER_VM_ERR_NOMEM) = -2"
| "err_code (ERR_USER_VM USER_VM_ERR_INVAL) = -7"

record 'b system =
  sy_kernel :: kernel
  sy_vfs :: "'b vfs"
  sy_ipc :: ipc
  sy_input :: input
  sy_sched :: sched
  sy_launcher :: launcher
  sy_mem :: memory
  sy_uart :: "u8 list"
  sy_ticks :: u64

record 'b platform =
  pf_blobs :: "(u64 \<times> u64) list"
  pf_el0_return :: u64
  pf_thread_trampoline :: u64
  pf_yield_return :: u64
  pf_fat32_lookup :: "string option \<Rightarrow> u32 \<Rightarrow> 'b vfs \<Rightarrow> nat option \<times> 'b vfs"
  pf_unlink :: "string \<Rightarrow> 'b vfs \<Rightarrow> bool \<times> 'b vfs"
  pf_rename :: "string \<Rightarrow> string \<Rightarrow> 'b vfs \<Rightarrow> bool \<times> 'b vfs"
  pf_poll_devices :: "'b system \<Rightarrow> 'b system"
  pf_console :: "u8 \<Rightarrow> 'b system \<Rightarrow> 'b system"
  pf_net_poll :: "'b system \<Rightarrow> 'b system"

type_synonym sys_result = "sys_error + u64"

abbreviation FD_FILE_BASE :: u64 where "FD_FILE_BASE \<equiv> 3"
abbreviation INT32_MAX :: u64 where "INT32_MAX \<equiv> 0x7fffffff"
abbreviation UINT32_MAX :: u64 where "UINT32_MAX \<equiv> 0xffffffff"

section \<open>User memory\<close>

definition user_bytes :: "memory \<Rightarrow> u64 \<Rightarrow> u64 \<Rightarrow> u8 list" where
  "user_bytes m a n = map (\<lambda>i. m (a + of_nat i)) [0..<unat n]"

definition store_bytes :: "u64 \<Rightarrow> u8 list \<Rightarrow> memory \<Rightarrow> memory" where
  "store_bytes a bs m = fold (\<lambda>i m. m(a + of_nat i := bs ! i)) [0..<length bs] m"

definition le_bytes :: "nat \<Rightarrow> u64 \<Rightarrow> u8 list" where
  "le_bytes n v = map (\<lambda>i. ucast (drop_bit (i * 8) v)) [0..<n]"

definition caller :: "nat option \<Rightarrow> 'b system \<Rightarrow> process option" where
  "caller cur s = map_option (\<lambda>i. g_processes (sy_kernel s) ! i) cur"

definition user_buf_range :: "process option \<Rightarrow> u64 \<Rightarrow> u64 \<Rightarrow> bool" where
  "user_buf_range p ptr len =
     (case p of
        None \<Rightarrow> False
      | Some p \<Rightarrow> if ptr = 0 \<and> len \<noteq> 0 then False else process_user_range_contains ptr len p)"

definition sys_user_buf_in :: "process option \<Rightarrow> u64 \<Rightarrow> u64 \<Rightarrow> bool" where
  "sys_user_buf_in p ptr len = user_buf_range p ptr len"

definition sys_user_buf_out :: "process option \<Rightarrow> u64 \<Rightarrow> u64 \<Rightarrow> bool" where
  "sys_user_buf_out p ptr len = user_buf_range p ptr len"

text \<open>The loop over the bytes of a string from index \<open>i\<close>, \<open>n\<close> of them left: the bytes before the terminating NUL.\<close>

fun copy_cstr_loop :: "process option \<Rightarrow> memory \<Rightarrow> u64 \<Rightarrow> nat \<Rightarrow> nat \<Rightarrow> u8 list option" where
  "copy_cstr_loop p m ptr i 0 = None"
| "copy_cstr_loop p m ptr i (Suc n) =
     (if ptr > - 1 - of_nat i then None
      else if \<not> sys_user_buf_in p (ptr + of_nat i) 1 then None
      else if m (ptr + of_nat i) = 0 then Some []
      else map_option (Cons (m (ptr + of_nat i))) (copy_cstr_loop p m ptr (Suc i) n))"

definition sys_user_copy_cstr :: "process option \<Rightarrow> memory \<Rightarrow> u64 \<Rightarrow> nat \<Rightarrow> string option" where
  "sys_user_copy_cstr p m ptr capacity =
     (if p = None \<or> ptr = 0 \<or> capacity = 0 then None
      else map_option (map (\<lambda>b. char_of (unat b))) (copy_cstr_loop p m ptr 0 capacity))"

section \<open>Windows of the caller\<close>

definition gui_desktop :: "'b system \<Rightarrow> gui option" where
  "gui_desktop s = (if g_gui_active (k_gui (sy_kernel s)) then Some (k_gui (sy_kernel s)) else None)"

definition owner_window_lookup :: "process option \<Rightarrow> u64 \<Rightarrow> sys_error \<Rightarrow> 'b system \<Rightarrow> sys_error + gui_window" where
  "owner_window_lookup p window_id missing_error s =
     (case p of
        None \<Rightarrow> Inl ERR_INVAL
      | Some p \<Rightarrow>
          if window_id \<ge> of_nat GUI_MAX_WINDOWS then Inl ERR_INVAL
          else case gui_desktop s of
              None \<Rightarrow> Inl ERR_AGAIN
            | Some g \<Rightarrow>
                (let window = gd_windows g ! unat window_id
                 in if \<not> gw_used window then Inl missing_error
                    else if gw_owner_pid window \<noteq> p_pid p then Inl ERR_BADF
                    else Inr window))"

definition sys_owner_window :: "process option \<Rightarrow> u64 \<Rightarrow> 'b system \<Rightarrow> sys_error + gui_window" where
  "sys_owner_window p window_id s = owner_window_lookup p window_id ERR_NOENT s"

definition sys_owner_window_badf :: "process option \<Rightarrow> u64 \<Rightarrow> 'b system \<Rightarrow> sys_error + gui_window" where
  "sys_owner_window_badf p window_id s = owner_window_lookup p window_id ERR_BADF s"

definition set_gui :: "gui \<Rightarrow> 'b system \<Rightarrow> 'b system" where
  "set_gui g s = s\<lparr>sy_kernel := (sy_kernel s)\<lparr>k_gui := g\<rparr>\<rparr>"

definition set_gui_pmm :: "pmm \<Rightarrow> gui \<Rightarrow> 'b system \<Rightarrow> 'b system" where
  "set_gui_pmm p g s = s\<lparr>sy_kernel := (sy_kernel s)\<lparr>k_gui := g, k_vmm := (k_vmm (sy_kernel s))\<lparr>vpmm := p\<rparr>\<rparr>\<rparr>"

abbreviation sy_gui :: "'b system \<Rightarrow> gui" where "sy_gui s \<equiv> k_gui (sy_kernel s)"
abbreviation sy_pmm :: "'b system \<Rightarrow> pmm" where "sy_pmm s \<equiv> vpmm (k_vmm (sy_kernel s))"

section \<open>Files\<close>

text \<open>The descriptor is passed to functions that take an \<open>int\<close>, so it is cut to 32 bits.\<close>

definition vfs_fd :: "u64 \<Rightarrow> int" where
  "vfs_fd fd = sint (ucast (fd - FD_FILE_BASE) :: 32 word)"

definition sys_write :: "nat option \<Rightarrow> u64 \<Rightarrow> u64 \<Rightarrow> u64 \<Rightarrow> 'b system \<Rightarrow> sys_result \<times> 'b system" where
  "sys_write cur fd buf len s =
     (if \<not> sys_user_buf_in (caller cur s) buf len then (Inl ERR_INVAL, s)
      else if fd \<ge> FD_FILE_BASE
      then case vfs_write_fd (vfs_fd fd) (if buf = 0 then None else Some (user_bytes (sy_mem s) buf len)) len (sy_vfs s) of
          ((status, written), v) \<Rightarrow> ((if status \<noteq> 0 then Inl ERR_BADF else Inr written), s\<lparr>sy_vfs := v\<rparr>)
      else if fd \<noteq> 1 \<and> fd \<noteq> 2 then (Inl ERR_BADF, s)
      else (Inr len, s\<lparr>sy_uart := sy_uart s @ user_bytes (sy_mem s) buf len\<rparr>))"

definition sys_open :: "'b platform \<Rightarrow> nat option \<Rightarrow> u64 \<Rightarrow> u64 \<Rightarrow> 'b system \<Rightarrow> sys_result \<times> 'b system" where
  "sys_open pf cur path_ptr flags s =
     (if flags AND NOT 0x43 \<noteq> 0 \<or> flags AND 3 = 3 then (Inl ERR_INVAL, s)
      else case sys_user_copy_cstr (caller cur s) (sy_mem s) path_ptr VFS_MAX_PATH of
          None \<Rightarrow> (Inl ERR_INVAL, s)
        | Some path \<Rightarrow>
            (case vfs_open_flags (pf_fat32_lookup pf) (Some path) (ucast flags) (sy_vfs s) of
               (fd, v) \<Rightarrow> ((if fd < 0 then Inl ERR_NOENT else Inr (of_int fd + FD_FILE_BASE)), s\<lparr>sy_vfs := v\<rparr>)))"

definition sys_close :: "u64 \<Rightarrow> 'b system \<Rightarrow> sys_result \<times> 'b system" where
  "sys_close fd s =
     (if fd < FD_FILE_BASE then (Inl ERR_BADF, s)
      else case vfs_close (vfs_fd fd) (sy_vfs s) of
          (okay, v) \<Rightarrow> ((if okay then Inr 0 else Inl ERR_BADF), s\<lparr>sy_vfs := v\<rparr>))"

definition sys_seek :: "u64 \<Rightarrow> u64 \<Rightarrow> u64 \<Rightarrow> 'b system \<Rightarrow> sys_result \<times> 'b system" where
  "sys_seek fd offset whence s =
     (if fd < FD_FILE_BASE \<or> whence \<noteq> 0 then (Inl ERR_INVAL, s)
      else case vfs_seek (vfs_fd fd) offset (sy_vfs s) of
          (okay, v) \<Rightarrow> ((if okay then Inr offset else Inl ERR_BADF), s\<lparr>sy_vfs := v\<rparr>))"

text \<open>A read callback stores the bytes that it reports.\<close>

definition sys_read :: "nat option \<Rightarrow> u64 \<Rightarrow> u64 \<Rightarrow> u64 \<Rightarrow> 'b system \<Rightarrow> sys_result \<times> 'b system" where
  "sys_read cur fd buf len s =
     (if fd = 0
      then
        if \<not> sys_user_buf_out (caller cur s) buf len then (Inl ERR_INVAL, s)
        else if len = 0 then (Inr 0, s)
        else case input_queue_poll_char (sy_input s) of
            (c, inp) \<Rightarrow>
              if c < 0 then (Inl ERR_AGAIN, s\<lparr>sy_input := inp\<rparr>)
              else (Inr 1, s\<lparr>sy_input := inp, sy_mem := store_bytes buf [of_int c] (sy_mem s)\<rparr>)
      else if fd < FD_FILE_BASE then (Inl ERR_BADF, s)
      else if \<not> sys_user_buf_out (caller cur s) buf len then (Inl ERR_INVAL, s)
      else if buf = 0 then (Inl ERR_BADF, s)
      else case vfs_read_fd (vfs_fd fd) len (sy_vfs s) of
          ((status, n, bytes), v) \<Rightarrow>
            if status \<noteq> 0 then (Inl ERR_BADF, s\<lparr>sy_vfs := v\<rparr>)
            else (Inr n, s\<lparr>sy_vfs := v, sy_mem := store_bytes buf (take (unat n) bytes) (sy_mem s)\<rparr>))"

definition sys_stat :: "nat option \<Rightarrow> u64 \<Rightarrow> u64 \<Rightarrow> 'b system \<Rightarrow> sys_result \<times> 'b system" where
  "sys_stat cur path_ptr stat_ptr s =
     (case sys_user_copy_cstr (caller cur s) (sy_mem s) path_ptr VFS_MAX_PATH of
        None \<Rightarrow> (Inl ERR_INVAL, s)
      | Some path \<Rightarrow>
          if \<not> sys_user_buf_out (caller cur s) stat_ptr 8 then (Inl ERR_INVAL, s)
          else case vfs_stat (Some path) (sy_vfs s) of
              None \<Rightarrow> (Inl ERR_NOENT, s)
            | Some sz \<Rightarrow> (Inr 0, s\<lparr>sy_mem := store_bytes stat_ptr (le_bytes 8 sz) (sy_mem s)\<rparr>))"

definition sys_readdir :: "nat option \<Rightarrow> u64 \<Rightarrow> u64 \<Rightarrow> u64 \<Rightarrow> 'b system \<Rightarrow> sys_result \<times> 'b system" where
  "sys_readdir cur path_ptr buf len s =
     (case sys_user_copy_cstr (caller cur s) (sy_mem s) path_ptr VFS_MAX_PATH of
        None \<Rightarrow> (Inl ERR_INVAL, s)
      | Some path \<Rightarrow>
          if \<not> sys_user_buf_out (caller cur s) buf len then (Inl ERR_INVAL, s)
          else if buf = 0 then (Inl ERR_NOENT, s)
          else case vfs_list (Some path) len (sy_vfs s) of
              (status, n, bytes) \<Rightarrow>
                if status \<noteq> 0 then (Inl ERR_NOENT, s)
                else (Inr n, s\<lparr>sy_mem := store_bytes buf (take (unat n) bytes) (sy_mem s)\<rparr>))"

definition sys_unlink :: "'b platform \<Rightarrow> nat option \<Rightarrow> u64 \<Rightarrow> 'b system \<Rightarrow> sys_result \<times> 'b system" where
  "sys_unlink pf cur path_ptr s =
     (case sys_user_copy_cstr (caller cur s) (sy_mem s) path_ptr VFS_MAX_PATH of
        None \<Rightarrow> (Inl ERR_INVAL, s)
      | Some path \<Rightarrow>
          (case pf_unlink pf path (sy_vfs s) of (okay, v) \<Rightarrow> ((if okay then Inr 0 else Inl ERR_NOENT), s\<lparr>sy_vfs := v\<rparr>)))"

definition sys_rename :: "'b platform \<Rightarrow> nat option \<Rightarrow> u64 \<Rightarrow> u64 \<Rightarrow> 'b system \<Rightarrow> sys_result \<times> 'b system" where
  "sys_rename pf cur old_ptr new_ptr s =
     (case (sys_user_copy_cstr (caller cur s) (sy_mem s) old_ptr VFS_MAX_PATH, sys_user_copy_cstr (caller cur s) (sy_mem s) new_ptr VFS_MAX_PATH) of
        (Some old_path, Some new_path) \<Rightarrow>
          (case pf_rename pf old_path new_path (sy_vfs s) of (okay, v) \<Rightarrow> ((if okay then Inr 0 else Inl ERR_NOENT), s\<lparr>sy_vfs := v\<rparr>))
      | _ \<Rightarrow> (Inl ERR_INVAL, s))"

section \<open>Processes, memory and messages\<close>

definition sys_spawn_result :: "int \<Rightarrow> sys_result" where
  "sys_spawn_result pid = (if pid < 0 then Inl ERR_NOENT else Inr (of_int pid))"

text \<open>The outer \<open>None\<close> is a call that does not return, as in \<open>app_spawn_vfs\<close>.\<close>

definition spawn_call :: "'b platform \<Rightarrow> string \<Rightarrow> u32 \<Rightarrow> u64 \<Rightarrow> u32 \<Rightarrow> 'b system \<Rightarrow> (sys_result \<times> 'b system) option" where
  "spawn_call pf path entry_index argv_ptr argc s =
     map_option (\<lambda>(pid, l, k, m). (sys_spawn_result pid, s\<lparr>sy_launcher := l, sy_kernel := k, sy_mem := m\<rparr>))
       (app_spawn_vfs (pf_blobs pf) path entry_index argv_ptr argc (sy_launcher s) (sy_kernel s) (sy_mem s))"

definition sys_spawn :: "'b platform \<Rightarrow> nat option \<Rightarrow> u64 \<Rightarrow> u64 \<Rightarrow> 'b system \<Rightarrow> (sys_result \<times> 'b system) option" where
  "sys_spawn pf cur path_ptr entry_index s =
     (if entry_index > UINT32_MAX then Some (Inl ERR_INVAL, s)
      else case sys_user_copy_cstr (caller cur s) (sy_mem s) path_ptr VFS_MAX_PATH of
          None \<Rightarrow> Some (Inl ERR_INVAL, s)
        | Some path \<Rightarrow> spawn_call pf path (ucast entry_index) 0 0 s)"

definition sys_spawn_argv :: "'b platform \<Rightarrow> nat option \<Rightarrow> u64 \<Rightarrow> u64 \<Rightarrow> u64 \<Rightarrow> u64 \<Rightarrow> 'b system \<Rightarrow> (sys_result \<times> 'b system) option" where
  "sys_spawn_argv pf cur path_ptr entry_index argv_ptr argc s =
     (if entry_index > UINT32_MAX \<or> argc > ucast PANEL_BOOT_ARGV_MAX_STRINGS then Some (Inl ERR_INVAL, s)
      else case sys_user_copy_cstr (caller cur s) (sy_mem s) path_ptr VFS_MAX_PATH of
          None \<Rightarrow> Some (Inl ERR_INVAL, s)
        | Some path \<Rightarrow>
            if (if argc = 0 then argv_ptr \<noteq> 0 else argv_ptr = 0 \<or> \<not> sys_user_buf_in (caller cur s) argv_ptr (argc * 8))
            then Some (Inl ERR_INVAL, s)
            else spawn_call pf path (ucast entry_index) argv_ptr (ucast argc) s)"

definition sys_wait :: "u64 \<Rightarrow> 'b system \<Rightarrow> sys_result \<times> 'b system" where
  "sys_wait pid s =
     (if pid = 0 \<or> pid > UINT32_MAX then (Inl ERR_INVAL, s)
      else case process_find (ucast pid) (sy_kernel s) of
          None \<Rightarrow> (Inl ERR_NOENT, s)
        | Some i \<Rightarrow>
            if p_state (g_processes (sy_kernel s) ! i) \<noteq> PROCESS_ZOMBIE then (Inl ERR_AGAIN, s)
            else case process_wait_zombie (ucast pid) (sy_kernel s) of
                (None, k) \<Rightarrow> (Inl ERR_INVAL, s\<lparr>sy_kernel := k\<rparr>)
              | (Some exit_code, k) \<Rightarrow> (Inr exit_code, s\<lparr>sy_kernel := k\<rparr>))"

definition sys_kill :: "u64 \<Rightarrow> 'b system \<Rightarrow> sys_result \<times> 'b system" where
  "sys_kill pid s =
     (if pid = 0 \<or> pid > UINT32_MAX then (Inl ERR_INVAL, s)
      else if process_find (ucast pid) (sy_kernel s) = None then (Inl ERR_NOENT, s)
      else case process_kill (ucast pid) 0x80 (sy_kernel s) of
          (okay, k) \<Rightarrow> ((if okay then Inr 0 else Inl ERR_INVAL), s\<lparr>sy_kernel := k\<rparr>))"

definition sys_meminfo :: "nat option \<Rightarrow> u64 \<Rightarrow> 'b system \<Rightarrow> sys_result \<times> 'b system" where
  "sys_meminfo cur info_ptr s =
     (if \<not> sys_user_buf_out (caller cur s) info_ptr 16 then (Inl ERR_INVAL, s)
      else (Inr 0, s\<lparr>sy_mem := store_bytes info_ptr (le_bytes 8 (pmm_total_count (sy_pmm s)) @ le_bytes 8 (pmm_free_count (sy_pmm s))) (sy_mem s)\<rparr>))"

definition sys_timeinfo :: "nat option \<Rightarrow> u64 \<Rightarrow> 'b system \<Rightarrow> sys_result \<times> 'b system" where
  "sys_timeinfo cur info_ptr s =
     (if \<not> sys_user_buf_out (caller cur s) info_ptr 24 then (Inl ERR_INVAL, s)
      else (Inr 0, s\<lparr>sy_mem := store_bytes info_ptr
             (le_bytes 8 (sy_ticks s) @ le_bytes 8 (sched_ticks (sy_sched s)) @ le_bytes 8 (sched_quantums (sy_sched s))) (sy_mem s)\<rparr>))"

fun state_code :: "process_state \<Rightarrow> u64" where
  "state_code PROCESS_UNUSED = 0"
| "state_code PROCESS_READY = 1"
| "state_code PROCESS_RUNNING = 2"
| "state_code PROCESS_BLOCKED = 3"
| "state_code PROCESS_ZOMBIE = 4"

text \<open>An entry of the list: \<open>syscall_proc_entry_t\<close>, 24 bytes.\<close>

definition proc_entry :: "process \<Rightarrow> u8 list" where
  "proc_entry p =
     (let name = take 15 (p_name p)
      in le_bytes 4 (ucast (p_pid p)) @ le_bytes 4 (state_code (p_state p)) @ map of_char name @ replicate (16 - length name) 0)"

fun proclist_loop :: "kernel \<Rightarrow> u64 \<Rightarrow> nat \<Rightarrow> nat list \<Rightarrow> nat \<Rightarrow> memory \<Rightarrow> nat \<times> memory" where
  "proclist_loop k entries_ptr max_entries [] written m = (written, m)"
| "proclist_loop k entries_ptr max_entries (i # is) written m =
     (if written \<ge> max_entries then (written, m)
      else case process_at i k of
          None \<Rightarrow> proclist_loop k entries_ptr max_entries is written m
        | Some slot \<Rightarrow>
            proclist_loop k entries_ptr max_entries is (written + 1)
              (store_bytes (entries_ptr + of_nat written * 24) (proc_entry slot) m))"

definition sys_proclist :: "nat option \<Rightarrow> u64 \<Rightarrow> u64 \<Rightarrow> 'b system \<Rightarrow> sys_result \<times> 'b system" where
  "sys_proclist cur entries_ptr max_entries s =
     (if max_entries = 0 then (Inr 0, s)
      else if max_entries > of_nat PROCESS_MAX_PROCESSES then (Inl ERR_INVAL, s)
      else if \<not> sys_user_buf_out (caller cur s) entries_ptr (max_entries * 24) then (Inl ERR_INVAL, s)
      else case proclist_loop (sy_kernel s) entries_ptr (unat max_entries) [0..<PROCESS_MAX_PROCESSES] 0 (sy_mem s) of
          (written, m) \<Rightarrow> (Inr (of_nat written), s\<lparr>sy_mem := m\<rparr>))"

definition user_vm_result :: "user_vm_error + u64 \<Rightarrow> sys_result" where
  "user_vm_result r = (case r of Inl e \<Rightarrow> Inl (ERR_USER_VM e) | Inr v \<Rightarrow> Inr v)"

definition set_caller :: "nat \<Rightarrow> process \<Rightarrow> vmm \<Rightarrow> 'b system \<Rightarrow> 'b system" where
  "set_caller i p v s = s\<lparr>sy_kernel := (sy_kernel s)\<lparr>g_processes := (g_processes (sy_kernel s))[i := p], k_vmm := v\<rparr>\<rparr>"

definition sys_munmap :: "nat option \<Rightarrow> u64 \<Rightarrow> u64 \<Rightarrow> 'b system \<Rightarrow> sys_result \<times> 'b system" where
  "sys_munmap cur addr sz s =
     (case cur of
        None \<Rightarrow> (Inl (ERR_USER_VM USER_VM_ERR_INVAL), s)
      | Some i \<Rightarrow>
          (case user_vm_unmap_anonymous addr sz (g_processes (sy_kernel s) ! i) (k_vmm (sy_kernel s)) of
             (r, p, v) \<Rightarrow> (user_vm_result (map_sum id (\<lambda>_. 0) r), set_caller i p v s)))"

definition sys_mmap :: "nat option \<Rightarrow> u64 \<Rightarrow> u64 \<Rightarrow> u64 \<Rightarrow> 'b system \<Rightarrow> sys_result \<times> 'b system" where
  "sys_mmap cur hint sz flags s =
     (case cur of
        None \<Rightarrow> (Inl (ERR_USER_VM USER_VM_ERR_INVAL), s)
      | Some i \<Rightarrow>
          (case user_vm_map_anonymous hint sz flags (g_processes (sy_kernel s) ! i) (k_vmm (sy_kernel s)) of
             (r, p, v) \<Rightarrow> (user_vm_result r, set_caller i p v s)))"

definition sys_ipc_send :: "nat option \<Rightarrow> u64 \<Rightarrow> u64 \<Rightarrow> u64 \<Rightarrow> 'b system \<Rightarrow> sys_result \<times> 'b system" where
  "sys_ipc_send cur target buf len s =
     (case caller cur s of
        None \<Rightarrow> (Inl ERR_INVAL, s)
      | Some p \<Rightarrow>
          if target = 0 \<or> len = 0 \<or> target > UINT32_MAX \<or> len > of_nat IPC_MAX_MESSAGE_SIZE then (Inl ERR_INVAL, s)
          else if \<not> sys_user_buf_in (Some p) buf len then (Inl ERR_INVAL, s)
          else case ipc_send (p_pid p) (ucast target) (Some (user_bytes (sy_mem s) buf len)) (ucast len) (sy_ipc s) of
              None \<Rightarrow> (Inl ERR_AGAIN, s)
            | Some q \<Rightarrow> (Inr len, s\<lparr>sy_ipc := q\<rparr>))"

definition sys_ipc_recv :: "nat option \<Rightarrow> u64 \<Rightarrow> u64 \<Rightarrow> 'b system \<Rightarrow> sys_result \<times> 'b system" where
  "sys_ipc_recv cur buf capacity s =
     (case caller cur s of
        None \<Rightarrow> (Inl ERR_INVAL, s)
      | Some p \<Rightarrow>
          if capacity \<noteq> of_nat IPC_MAX_MESSAGE_SIZE then (Inl ERR_INVAL, s)
          else if \<not> sys_user_buf_out (Some p) buf capacity then (Inl ERR_INVAL, s)
          else case ipc_recv (p_pid p) (sy_ipc s) of
              None \<Rightarrow> (Inl ERR_AGAIN, s)
            | Some (msg, q) \<Rightarrow>
                if ucast (msg_size msg) > capacity then (Inl ERR_INVAL, s\<lparr>sy_ipc := q\<rparr>)
                else (Inr (ucast (msg_size msg)),
                      s\<lparr>sy_ipc := q, sy_mem := store_bytes buf (take (unat (msg_size msg)) (msg_data msg)) (sy_mem s)\<rparr>))"

section \<open>Windows\<close>

definition sys_window_create :: "nat option \<Rightarrow> u64 \<Rightarrow> u64 \<Rightarrow> u64 \<Rightarrow> u64 \<Rightarrow> u64 \<Rightarrow> u64 \<Rightarrow> u64 \<Rightarrow> 'b system \<Rightarrow> sys_result \<times> 'b system" where
  "sys_window_create cur x y w h bg border title_ptr s =
     (case caller cur s of
        None \<Rightarrow> (Inl ERR_INVAL, s)
      | Some p \<Rightarrow>
          if x > UINT32_MAX \<or> y > UINT32_MAX \<or> w > UINT32_MAX \<or> h > UINT32_MAX \<or> w < 8 \<or> h < 8 \<or> bg > UINT32_MAX \<or> border > UINT32_MAX
          then (Inl ERR_INVAL, s)
          else case (if title_ptr = 0 then Some [] else sys_user_copy_cstr (Some p) (sy_mem s) title_ptr GUI_TITLE_LEN) of
              None \<Rightarrow> (Inl ERR_INVAL, s)
            | Some title \<Rightarrow>
                (case gui_desktop s of
                   None \<Rightarrow> (Inl ERR_AGAIN, s)
                 | Some g \<Rightarrow>
                     (case gui_create_window_for_pid (p_pid p) (ucast x) (ucast y) (ucast w) (ucast h) (ucast bg) (ucast border) (Some title) g of
                        (None, g1) \<Rightarrow> (Inl ERR_AGAIN, set_gui g1 s)
                      | (Some window_id, g1) \<Rightarrow> (Inr (of_nat window_id), set_gui (gui_request_redraw g1) s))))"

definition sys_window_destroy :: "nat option \<Rightarrow> u64 \<Rightarrow> 'b system \<Rightarrow> sys_result \<times> 'b system" where
  "sys_window_destroy cur window_id s =
     (case sys_owner_window (caller cur s) window_id s of
        Inl e \<Rightarrow> (Inl e, s)
      | Inr window \<Rightarrow>
          (case gui_destroy_window (ucast window_id) (sy_gui s) of
             (False, g) \<Rightarrow> (Inl ERR_BADF, set_gui g s)
           | (True, g) \<Rightarrow> (Inr 0, set_gui (gui_request_redraw g) s)))"

definition sys_window_draw_text :: "nat option \<Rightarrow> u64 \<Rightarrow> u64 \<Rightarrow> u64 \<Rightarrow> u64 \<Rightarrow> u64 \<Rightarrow> 'b system \<Rightarrow> sys_result \<times> 'b system" where
  "sys_window_draw_text cur window_id x y color str_ptr s =
     (if cur = None \<or> window_id \<ge> of_nat GUI_MAX_WINDOWS \<or> x > INT32_MAX \<or> y > INT32_MAX \<or> color > UINT32_MAX then (Inl ERR_INVAL, s)
      else case sys_owner_window_badf (caller cur s) window_id s of
          Inl e \<Rightarrow> (Inl e, s)
        | Inr window \<Rightarrow>
            (case sys_user_copy_cstr (caller cur s) (sy_mem s) str_ptr 128 of
               None \<Rightarrow> (Inl ERR_INVAL, s)
             | Some str \<Rightarrow>
                 (case gui_window_draw_text (ucast window_id) (uint x) (uint y) str (ucast color) (sy_pmm s) (sy_gui s) of
                    (okay, p, g) \<Rightarrow> ((if okay then Inr 0 else Inl ERR_BADF), set_gui_pmm p g s))))"

definition sys_window_draw_rect :: "nat option \<Rightarrow> u64 \<Rightarrow> u64 \<Rightarrow> u64 \<Rightarrow> u64 \<Rightarrow> u64 \<Rightarrow> u64 \<Rightarrow> 'b system \<Rightarrow> sys_result \<times> 'b system" where
  "sys_window_draw_rect cur window_id x y w h color s =
     (if cur = None \<or> window_id \<ge> of_nat GUI_MAX_WINDOWS \<or> x > INT32_MAX \<or> y > INT32_MAX \<or> w > UINT32_MAX \<or> h > UINT32_MAX \<or> color > UINT32_MAX
      then (Inl ERR_INVAL, s)
      else case sys_owner_window_badf (caller cur s) window_id s of
          Inl e \<Rightarrow> (Inl e, s)
        | Inr window \<Rightarrow>
            (case gui_window_draw_rect (ucast window_id) (uint x) (uint y) (ucast w) (ucast h) (ucast color) (sy_pmm s) (sy_gui s) of
               (okay, p, g) \<Rightarrow> ((if okay then Inr 0 else Inl ERR_BADF), set_gui_pmm p g s)))"

definition sys_window_set_title :: "nat option \<Rightarrow> u64 \<Rightarrow> u64 \<Rightarrow> u64 \<Rightarrow> 'b system \<Rightarrow> sys_result \<times> 'b system" where
  "sys_window_set_title cur window_id title_ptr title_h s =
     (if cur = None \<or> window_id \<ge> of_nat GUI_MAX_WINDOWS then (Inl ERR_INVAL, s)
      else case sys_owner_window_badf (caller cur s) window_id s of
          Inl e \<Rightarrow> (Inl e, s)
        | Inr window \<Rightarrow>
            (case sys_user_copy_cstr (caller cur s) (sy_mem s) title_ptr GUI_TITLE_LEN of
               None \<Rightarrow> (Inl ERR_INVAL, s)
             | Some title \<Rightarrow>
                 (case gui_window_set_title_internal (ucast window_id) (Some title) (sy_gui s) of
                    (False, g) \<Rightarrow> (Inl ERR_BADF, set_gui g s)
                  | (True, g) \<Rightarrow>
                      (let g1 = gui_request_redraw g
                       in if title_h > 0
                          then case gui_window_set_title_bar_internal (ucast window_id) (ucast title_h) g1 of
                              (okay, g2) \<Rightarrow> ((if okay then Inr 0 else Inl ERR_INVAL), set_gui g2 s)
                          else (Inr 0, set_gui g1 s)))))"

definition sys_window_redraw :: "nat option \<Rightarrow> u64 \<Rightarrow> 'b system \<Rightarrow> sys_result \<times> 'b system" where
  "sys_window_redraw cur window_id s =
     (case sys_owner_window_badf (caller cur s) window_id s of
        Inl e \<Rightarrow> (Inl e, s)
      | Inr window \<Rightarrow> (Inr 0, set_gui (gui_request_redraw (sy_gui s)) s))"

definition sys_window_focus :: "nat option \<Rightarrow> u64 \<Rightarrow> 'b system \<Rightarrow> sys_result \<times> 'b system" where
  "sys_window_focus cur window_id s =
     (if cur = None \<or> window_id \<ge> of_nat GUI_MAX_WINDOWS then (Inl ERR_INVAL, s)
      else case gui_desktop s of
          None \<Rightarrow> (Inl ERR_AGAIN, s)
        | Some g \<Rightarrow>
            if \<not> gw_used (gd_windows g ! unat window_id) then (Inl ERR_NOENT, s)
            else case gui_focus_window (ucast window_id) g of
                (False, g1) \<Rightarrow> (Inl ERR_INVAL, set_gui g1 s)
              | (True, g1) \<Rightarrow> (Inr 0, set_gui (gui_request_redraw g1) s))"

definition sys_window_for_pid :: "nat option \<Rightarrow> u64 \<Rightarrow> u64 \<Rightarrow> 'b system \<Rightarrow> sys_result \<times> 'b system" where
  "sys_window_for_pid cur owner_pid index s =
     (if cur = None \<or> owner_pid > UINT32_MAX \<or> index \<ge> of_nat GUI_MAX_WINDOWS then (Inl ERR_INVAL, s)
      else case gui_desktop s of
          None \<Rightarrow> (Inl ERR_AGAIN, s)
        | Some g \<Rightarrow>
            (case gui_window_for_pid (ucast owner_pid) (ucast index) g of
               None \<Rightarrow> (Inl ERR_NOENT, s)
             | Some i \<Rightarrow> (Inr (of_nat i), s)))"

definition sys_cursor_set_shape :: "nat option \<Rightarrow> u64 \<Rightarrow> 'b system \<Rightarrow> sys_result \<times> 'b system" where
  "sys_cursor_set_shape cur shape s =
     (if cur = None \<or> shape > UINT32_MAX then (Inl ERR_INVAL, s)
      else case gui_desktop s of
          None \<Rightarrow> (Inl ERR_AGAIN, s)
        | Some g \<Rightarrow>
            (case gui_set_cursor_shape (ucast shape) g of
               (False, g1) \<Rightarrow> (Inl ERR_INVAL, set_gui g1 s)
             | (True, g1) \<Rightarrow> (Inr 0, set_gui (gui_request_redraw g1) s)))"

definition sys_cursor_register_region ::
    "nat option \<Rightarrow> u64 \<Rightarrow> u64 \<Rightarrow> u64 \<Rightarrow> u64 \<Rightarrow> u64 \<Rightarrow> u64 \<Rightarrow> u64 \<Rightarrow> 'b system \<Rightarrow> sys_result \<times> 'b system" where
  "sys_cursor_register_region cur win slot x y w h shape s =
     (case caller cur s of
        None \<Rightarrow> (Inl ERR_INVAL, s)
      | Some p \<Rightarrow>
          if win > UINT32_MAX \<or> slot > UINT32_MAX \<or> x > INT32_MAX \<or> y > INT32_MAX \<or> w > INT32_MAX \<or> h > INT32_MAX \<or> shape > UINT32_MAX
          then (Inl ERR_INVAL, s)
          else case gui_desktop s of
              None \<Rightarrow> (Inl ERR_AGAIN, s)
            | Some g \<Rightarrow>
                (case gui_window_lookup (ucast win) g of
                   None \<Rightarrow> (Inl ERR_NOENT, s)
                 | Some i \<Rightarrow>
                     (let window = gd_windows g ! i
                      in if gw_owner_pid window \<noteq> GUI_NO_OWNER \<and> gw_owner_pid window \<noteq> p_pid p then (Inl ERR_PERM, s)
                         else case gui_register_cursor_region (ucast win) (ucast slot) (uint x) (uint y) (ucast w) (ucast h) (ucast shape) g of
                             (False, g1) \<Rightarrow> (Inl ERR_INVAL, set_gui g1 s)
                           | (True, g1) \<Rightarrow> (Inr 0, set_gui (gui_request_redraw g1) s))))"

definition sys_window_flush :: "nat option \<Rightarrow> u64 \<Rightarrow> u64 \<Rightarrow> u64 \<Rightarrow> u64 \<Rightarrow> u64 \<Rightarrow> 'b system \<Rightarrow> sys_result \<times> 'b system" where
  "sys_window_flush cur window_id x y w h s =
     (if cur = None \<or> window_id \<ge> of_nat GUI_MAX_WINDOWS \<or> x > INT32_MAX \<or> y > INT32_MAX \<or> w > INT32_MAX \<or> h > INT32_MAX then (Inl ERR_INVAL, s)
      else case sys_owner_window_badf (caller cur s) window_id s of
          Inl e \<Rightarrow> (Inl e, s)
        | Inr window \<Rightarrow>
            if w = 0 \<or> h = 0 then (Inr 0, s)
            else (Inr 0, set_gui (gui_damage_add (sint (gw_x window) + uint x) (sint (gw_y window) + sint (gw_title_h window) + uint y)
                   (uint w) (uint h) (sy_gui s)) s))"

definition sys_window_get_bounds :: "nat option \<Rightarrow> u64 \<Rightarrow> u64 \<Rightarrow> 'b system \<Rightarrow> sys_result \<times> 'b system" where
  "sys_window_get_bounds cur window_id out_ptr s =
     (if \<not> sys_user_buf_out (caller cur s) out_ptr 16 then (Inl ERR_INVAL, s)
      else case sys_owner_window (caller cur s) window_id s of
          Inl e \<Rightarrow> (Inl e, s)
        | Inr window \<Rightarrow>
            (Inr 0, s\<lparr>sy_mem := store_bytes out_ptr (le_bytes 4 (ucast (gw_x window)) @ le_bytes 4 (ucast (gw_y window)) @
                       le_bytes 4 (ucast (gw_w window)) @ le_bytes 4 (ucast (gw_h window))) (sy_mem s)\<rparr>))"

definition sys_window_set_bounds :: "nat option \<Rightarrow> u64 \<Rightarrow> u64 \<Rightarrow> u64 \<Rightarrow> u64 \<Rightarrow> u64 \<Rightarrow> 'b system \<Rightarrow> sys_result \<times> 'b system" where
  "sys_window_set_bounds cur window_id x y w h s =
     (if cur = None \<or> window_id \<ge> of_nat GUI_MAX_WINDOWS \<or> x > INT32_MAX \<or> y > INT32_MAX \<or> w > UINT32_MAX \<or> h > UINT32_MAX then (Inl ERR_INVAL, s)
      else case sys_owner_window (caller cur s) window_id s of
          Inl e \<Rightarrow> (Inl e, s)
        | Inr window \<Rightarrow>
            (case gui_resize_window (ucast window_id) (ucast x) (ucast y) (ucast w) (ucast h) (sy_pmm s) (sy_gui s) of
               (okay, p, g) \<Rightarrow> ((if okay then Inr 0 else Inl ERR_INVAL), set_gui_pmm p g s)))"

definition sys_window_minimize :: "nat option \<Rightarrow> u64 \<Rightarrow> 'b system \<Rightarrow> sys_result \<times> 'b system" where
  "sys_window_minimize cur window_id s =
     (case sys_owner_window (caller cur s) window_id s of
        Inl e \<Rightarrow> (Inl e, s)
      | Inr window \<Rightarrow>
          (case gui_window_minimize (ucast window_id) (sy_gui s) of
             (okay, g) \<Rightarrow> ((if okay then Inr 0 else Inl ERR_INVAL), set_gui g s)))"

definition sys_window_restore :: "nat option \<Rightarrow> u64 \<Rightarrow> 'b system \<Rightarrow> sys_result \<times> 'b system" where
  "sys_window_restore cur window_id s =
     (if cur = None \<or> window_id \<ge> of_nat GUI_MAX_WINDOWS then (Inl ERR_INVAL, s)
      else case gui_desktop s of
          None \<Rightarrow> (Inl ERR_AGAIN, s)
        | Some g \<Rightarrow>
            if \<not> gw_used (gd_windows g ! unat window_id) then (Inl ERR_NOENT, s)
            else case gui_window_restore (ucast window_id) g of
                (okay, g1) \<Rightarrow> ((if okay then Inr 0 else Inl ERR_INVAL), set_gui g1 s))"

definition sys_window_state :: "nat option \<Rightarrow> u64 \<Rightarrow> u64 \<Rightarrow> 'b system \<Rightarrow> sys_result \<times> 'b system" where
  "sys_window_state cur window_id out_ptr s =
     (if \<not> sys_user_buf_out (caller cur s) out_ptr 4 then (Inl ERR_INVAL, s)
      else if cur = None \<or> window_id \<ge> of_nat GUI_MAX_WINDOWS then (Inl ERR_INVAL, s)
      else case gui_desktop s of
          None \<Rightarrow> (Inl ERR_AGAIN, s)
        | Some g \<Rightarrow>
            (let window = gd_windows g ! unat window_id
             in if \<not> gw_used window then (Inl ERR_NOENT, s)
                else
                  (let state0 = (if gw_minimized window then 1 else 0);
                       state = (if gd_focused_window_id g = ucast window_id \<and> gw_flags window AND GUI_WINDOW_NO_FOCUS = 0
                                then state0 OR 2 else state0)
                   in (Inr 0, s\<lparr>sy_mem := store_bytes out_ptr (le_bytes 4 state) (sy_mem s)\<rparr>))))"

text \<open>The loop that hands out queued events, at most \<open>n\<close> more of them: 12 bytes each.\<close>

fun event_loop :: "u64 \<Rightarrow> nat \<Rightarrow> nat \<Rightarrow> gui_window \<Rightarrow> memory \<Rightarrow> nat \<times> gui_window \<times> memory" where
  "event_loop out 0 done_count w m = (done_count, w, m)"
| "event_loop out (Suc n) done_count w m =
     (if gw_event_count w = 0 then (done_count, w, m)
      else case gui_window_pop_event w of
          None \<Rightarrow> (done_count, w, m)
        | Some (ev, w1) \<Rightarrow>
            event_loop out n (done_count + 1) w1
              (store_bytes (out + of_nat done_count * 12)
                 (le_bytes 4 (ucast (ev_type ev)) @ le_bytes 4 (of_int (ev_data1 ev)) @ le_bytes 4 (of_int (ev_data2 ev))) m))"

definition sys_window_event :: "nat option \<Rightarrow> u64 \<Rightarrow> u64 \<Rightarrow> u64 \<Rightarrow> 'b system \<Rightarrow> sys_result \<times> 'b system" where
  "sys_window_event cur window_id buf_ptr buf_count s =
     (if cur = None \<or> window_id \<ge> of_nat GUI_MAX_WINDOWS \<or> buf_count = 0 \<or> buf_count > 64 then (Inl ERR_INVAL, s)
      else if \<not> sys_user_buf_out (caller cur s) buf_ptr (buf_count * 3 * 4) then (Inl ERR_INVAL, s)
      else case sys_owner_window_badf (caller cur s) window_id s of
          Inl e \<Rightarrow> (Inl e, s)
        | Inr window \<Rightarrow>
            if gw_event_count window = 0 then (Inl ERR_AGAIN, s)
            else case event_loop buf_ptr (unat buf_count) 0 window (sy_mem s) of
                (n, w, m) \<Rightarrow> (Inr (of_nat n), (set_gui (set_window (unat window_id) (\<lambda>_. w) (sy_gui s)) s)\<lparr>sy_mem := m\<rparr>))"

section \<open>The dispatcher\<close>

definition hex_digit :: "u64 \<Rightarrow> u8" where
  "hex_digit d = (if d < 10 then 48 + ucast d else 87 + ucast d)"

definition print_hex64 :: "u64 \<Rightarrow> u8 list" where
  "print_hex64 v = map of_char ''0x'' @ map (\<lambda>i. hex_digit (drop_bit (60 - 4 * i) v AND 0xf)) [0..<16]"

definition sys_exit :: "'b platform \<Rightarrow> exception_frame \<Rightarrow> u64 \<Rightarrow> 'b system \<Rightarrow> exception_frame \<times> 'b system" where
  "sys_exit pf f code s =
     (let cur = process_current (sy_kernel s);
          k1 = (case cur of None \<Rightarrow> sy_kernel s | Some i \<Rightarrow> process_mark_exited i code (sy_kernel s));
          s1 = s\<lparr>sy_kernel := k1, sy_uart := sy_uart s @ map of_char ''USER exit: '' @ print_hex64 code @ [10]\<rparr>
      in case process_dispatch_next cur f PROCESS_DISPATCH_EXIT k1 of
           (True, f1, k2) \<Rightarrow> (f1, s1\<lparr>sy_kernel := k2\<rparr>)
         | (False, f1, k2) \<Rightarrow>
             (f1\<lparr>fr_x := (fr_x f1)[0 := code], fr_elr := pf_el0_return pf, fr_spsr := 0x3c5\<rparr>, s1\<lparr>sy_kernel := k2\<rparr>))"

definition sys_yield_process :: "exception_frame \<Rightarrow> 'b system \<Rightarrow> bool \<times> exception_frame \<times> 'b system" where
  "sys_yield_process f s =
     (case process_current (sy_kernel s) of
        None \<Rightarrow> (False, f, s)
      | Some i \<Rightarrow>
          (let k1 = set_process i (\<lambda>p. p\<lparr>p_regs := (p_regs p)[0 := 0]\<rparr>) (sy_kernel s)
           in case process_dispatch_next (Some i) f PROCESS_DISPATCH_PREEMPT k1 of
                (okay, f1, k2) \<Rightarrow> (okay, f1, s\<lparr>sy_kernel := k2\<rparr>)))"

definition sys_getpid :: "nat option \<Rightarrow> 'b system \<Rightarrow> sys_result" where
  "sys_getpid cur s = (case caller cur s of None \<Rightarrow> Inl ERR_INVAL | Some p \<Rightarrow> Inr (ucast (p_pid p)))"

text \<open>The calls that return a value, by number; \<open>x\<close> gives the argument registers.\<close>

definition syscall_value :: "'b platform \<Rightarrow> nat option \<Rightarrow> u64 \<Rightarrow> (nat \<Rightarrow> u64) \<Rightarrow> 'b system \<Rightarrow> (sys_result \<times> 'b system) option" where
  "syscall_value pf cur nr x s =
     (if nr = 3 then Some (sys_getpid cur s, s)
      else if nr = 4 then sys_spawn pf cur (x 0) (x 1) s
      else if nr = 8 then sys_spawn_argv pf cur (x 0) (x 1) (x 2) (x 3) s
      else if nr = 6 then Some (sys_wait (x 0) s)
      else if nr = 7 then Some (sys_kill (x 0) s)
      else if nr = 40 then Some (sys_open pf cur (x 0) (x 1) s)
      else if nr = 41 then Some (sys_close (x 0) s)
      else if nr = 42 then Some (sys_read cur (x 0) (x 1) (x 2) s)
      else if nr = 20 then Some (sys_mmap cur (x 0) (x 1) (x 2) s)
      else if nr = 21 then Some (sys_munmap cur (x 0) (x 1) s)
      else if nr = 43 then Some (sys_write cur (x 0) (x 1) (x 2) s)
      else if nr = 44 then Some (sys_seek (x 0) (x 1) (x 2) s)
      else if nr = 45 then Some (sys_stat cur (x 0) (x 1) s)
      else if nr = 46 then Some (sys_readdir cur (x 0) (x 1) (x 2) s)
      else if nr = 47 then Some (sys_unlink pf cur (x 0) s)
      else if nr = 48 then Some (sys_rename pf cur (x 0) (x 1) s)
      else if nr = 60 then Some (sys_ipc_send cur (x 0) (x 1) (x 2) s)
      else if nr = 61 then Some (sys_ipc_recv cur (x 0) (x 1) s)
      else if nr = 70 then Some (sys_window_create cur (x 0) (x 1) (x 2) (x 3) (x 4) (x 5) (x 6) s)
      else if nr = 71 then Some (sys_window_destroy cur (x 0) s)
      else if nr = 72 then Some (sys_window_draw_text cur (x 0) (x 1) (x 2) (x 3) (x 4) s)
      else if nr = 73 then Some (sys_window_draw_rect cur (x 0) (x 1) (x 2) (x 3) (x 4) (x 5) s)
      else if nr = 74 then Some (sys_window_event cur (x 0) (x 1) (x 2) s)
      else if nr = 75 then Some (sys_window_set_title cur (x 0) (x 1) (x 2) s)
      else if nr = 76 then Some (sys_window_redraw cur (x 0) s)
      else if nr = 77 then Some (sys_window_focus cur (x 0) s)
      else if nr = 78 then Some (sys_window_for_pid cur (x 0) (x 1) s)
      else if nr = 79 then Some (sys_cursor_set_shape cur (x 0) s)
      else if nr = 80 then Some (sys_window_flush cur (x 0) (x 1) (x 2) (x 3) (x 4) s)
      else if nr = 81 then Some (sys_window_get_bounds cur (x 0) (x 1) s)
      else if nr = 82 then Some (sys_window_set_bounds cur (x 0) (x 1) (x 2) (x 3) (x 4) s)
      else if nr = 83 then Some (sys_window_minimize cur (x 0) s)
      else if nr = 84 then Some (sys_window_restore cur (x 0) s)
      else if nr = 85 then Some (sys_window_state cur (x 0) (x 1) s)
      else if nr = 86 then Some (sys_cursor_register_region cur (x 0) (x 1) (x 2) (x 3) (x 4) (x 5) (x 6) s)
      else if nr = 100 then Some (sys_timeinfo cur (x 0) s)
      else if nr = 101 then Some (sys_meminfo cur (x 0) s)
      else if nr = 102 then Some (sys_proclist cur (x 0) (x 1) s)
      else Some (Inl ERR_INVAL, s))"

definition x0_of :: "sys_result \<Rightarrow> u64" where
  "x0_of r = (case r of Inl e \<Rightarrow> of_int (err_code e) | Inr v \<Rightarrow> v)"

definition save_caller :: "nat option \<Rightarrow> exception_frame \<Rightarrow> 'b system \<Rightarrow> 'b system" where
  "save_caller cur f s =
     (case cur of
        None \<Rightarrow> s
      | Some i \<Rightarrow> s\<lparr>sy_kernel := set_process i (process_save_context (fr_x f) (fr_elr f) (fr_spsr f) (fr_sp_el0 f)) (sy_kernel s)\<rparr>)"

definition update_after :: "exception_frame \<Rightarrow> 'b system \<Rightarrow> 'b system" where
  "update_after f s =
     (case process_current (sy_kernel s) of
        None \<Rightarrow> s
      | Some i \<Rightarrow> s\<lparr>sy_kernel := set_process i (\<lambda>p. p\<lparr>p_regs := (p_regs p)[0 := fr_x f ! 0], p_pc := fr_elr f, p_pstate := fr_spsr f,
                      p_sp := fr_sp_el0 f\<rparr>) (sy_kernel s)\<rparr>)"

text \<open>The call itself, once pending input has been handled.\<close>

definition syscall_serve :: "'b platform \<Rightarrow> nat option \<Rightarrow> exception_frame \<Rightarrow> 'b system \<Rightarrow> (exception_frame \<times> 'b system) option" where
  "syscall_serve pf cur f s0 =
     (let s = save_caller cur f s0;
          nr = fr_x f ! 8
      in map_option (\<lambda>(f1, s1). (f1, update_after f1 s1))
           (if nr = 1 then Some (sys_exit pf f (fr_x f ! 0) s)
            else if nr = 2
            then case sys_yield_process f s of
                (True, f1, s1) \<Rightarrow> Some (f1, s1)
              | (False, f1, s1) \<Rightarrow>
                  Some (f1\<lparr>fr_x := (fr_x f1)[0 := 0]\<rparr>,
                        s1\<lparr>sy_sched := sched_yield (pf_thread_trampoline pf) (pf_yield_return pf) (sy_sched s1)\<rparr>)
            else map_option (\<lambda>(r, s1). (f\<lparr>fr_x := (fr_x f)[0 := x0_of r]\<rparr>, s1)) (syscall_value pf cur nr (\<lambda>i. fr_x f ! i) s)))"

text \<open>Pending input goes to the console, if no window has the focus, and to the window system.\<close>

definition drain_event :: "'b platform \<Rightarrow> input_event \<Rightarrow> 'b system \<Rightarrow> 'b system" where
  "drain_event pf event s =
     (let s1 = (case event of
                  INPUT_EVENT_KEY_PRESS ts key \<Rightarrow>
                    if gui_desktop s = None \<or> gd_focused_window_id (sy_gui s) = GUI_NO_WINDOW then pf_console pf (ucast key) s else s
                | _ \<Rightarrow> s)
      in s1\<lparr>sy_kernel := snd (gui_handle_input event (sy_kernel s1))\<rparr>)"

partial_function (option) drain_input :: "'b platform \<Rightarrow> 'b system \<Rightarrow> 'b system option" where
  "drain_input pf s =
     (case input_queue_poll (sy_input s) of
        None \<Rightarrow> Some s
      | Some (event, inp) \<Rightarrow> drain_input pf (drain_event pf event (s\<lparr>sy_input := inp\<rparr>)))"

definition syscall_dispatch :: "'b platform \<Rightarrow> exception_frame \<Rightarrow> 'b system \<Rightarrow> (exception_frame \<times> 'b system) option" where
  "syscall_dispatch pf f s =
     (let cur = process_current (sy_kernel s);
          s1 = pf_poll_devices pf s
      in case (if fr_x f ! 8 \<noteq> 42 then drain_input pf s1 else Some s1) of
           None \<Rightarrow> None
         | Some s2 \<Rightarrow> syscall_serve pf cur f (pf_net_poll pf s2))"

section \<open>Writes to user memory\<close>






lemma le_bytes_length [simp]: "length (le_bytes n v) = n"
  by (simp add: le_bytes_def)

lemma proc_entry_length [simp]: "length (proc_entry p) = 24"
  by (simp add: proc_entry_def Let_def)





lemma set_gui_fields [simp]:
  "sy_mem (set_gui g s) = sy_mem s" "sy_mem (set_gui_pmm p g s) = sy_mem s" "sy_mem (set_caller i q v s) = sy_mem s"
  "sy_ipc (set_gui g s) = sy_ipc s" "sy_ipc (set_gui_pmm p g s) = sy_ipc s" "sy_ipc (set_caller i q v s) = sy_ipc s"
  "k_gui (sy_kernel (set_gui g s)) = g" "k_gui (sy_kernel (set_gui_pmm p g s)) = g" "k_gui (sy_kernel (set_caller i q v s)) = k_gui (sy_kernel s)"
  by (simp_all add: set_gui_def set_gui_pmm_def set_caller_def)









lemma save_context_regions [simp]: "regions (process_save_context x pc ps sp p) = regions p" "region_ok (process_save_context x pc ps sp p) = region_ok p"
  "p_pid (process_save_context x pc ps sp p) = p_pid p"
  by (simp_all add: process_save_context_def regions_def region_ok_def)

lemma save_caller_fields [simp]:
  "sy_mem (save_caller cur f s) = sy_mem s" "sy_vfs (save_caller cur f s) = sy_vfs s" "sy_ipc (save_caller cur f s) = sy_ipc s"
  "k_gui (sy_kernel (save_caller cur f s)) = k_gui (sy_kernel s)" "sy_input (save_caller cur f s) = sy_input s"
  by (simp_all add: save_caller_def set_process_def split: option.split)

lemma update_after_fields [simp]:
  "sy_mem (update_after f s) = sy_mem s" "sy_ipc (update_after f s) = sy_ipc s" "k_gui (sy_kernel (update_after f s)) = k_gui (sy_kernel s)"
  by (simp_all add: update_after_def set_process_def split: option.split)

lemma caller_saved:
  "\<exists>x pc ps sp. caller cur (save_caller cur f s) = map_option (process_save_context x pc ps sp) (caller cur s) \<or>
     caller cur (save_caller cur f s) = caller cur s"
proof (cases cur)
  case (Some i)
  show ?thesis
  proof (cases "i < length (g_processes (sy_kernel s))")
    case True
    then show ?thesis using Some by (simp add: caller_def save_caller_def set_process_def) blast
  next
    case False
    then show ?thesis using Some by (simp add: caller_def save_caller_def set_process_def list_update_beyond)
  qed
qed (simp add: caller_def)



lemma exit_mem [simp]: "sy_mem (snd (sys_exit pf f code s)) = sy_mem s"
  by (simp add: sys_exit_def Let_def split: prod.split bool.split)

lemma yield_mem [simp]: "sy_mem (snd (snd (sys_yield_process f s))) = sy_mem s"
  by (simp add: sys_yield_process_def Let_def split: option.split prod.split)

lemma serve_cases:
  assumes "syscall_serve pf cur f s = Some (f', s')"
  obtains (exit) "fr_x f ! 8 = 1" "s' = update_after f' (snd (sys_exit pf f (fr_x f ! 0) (save_caller cur f s)))"
  | (yield) q where "fr_x f ! 8 = 2" "s' = update_after f' ((snd (snd (sys_yield_process f (save_caller cur f s))))\<lparr>sy_sched := q\<rparr>)"
  | (call) r s1 where "fr_x f ! 8 \<noteq> 1" "fr_x f ! 8 \<noteq> 2" "syscall_value pf cur (fr_x f ! 8) (\<lambda>i. fr_x f ! i) (save_caller cur f s) = Some (r, s1)"
      "s' = update_after f' s1" "f' = f\<lparr>fr_x := (fr_x f)[0 := x0_of r]\<rparr>"
proof -
  consider (exit) "fr_x f ! 8 = 1" | (yield) "fr_x f ! 8 = 2" | (call) "fr_x f ! 8 \<noteq> 1" "fr_x f ! 8 \<noteq> 2" by blast
  then show thesis
  proof cases
    case exit
    then show ?thesis using that(1) assms by (auto simp: syscall_serve_def Let_def case_prod_beta)
  next
    case yield
    obtain b f1 s1 where y: "sys_yield_process f (save_caller cur f s) = (b, f1, s1)" by (metis prod_cases3)
    show ?thesis
    proof (cases b)
      case True
      then show ?thesis using that(2) [OF yield, of "sy_sched s1"] assms yield y by (auto simp: syscall_serve_def Let_def)
    next
      case False
      then show ?thesis using that(2) [OF yield] assms yield y by (auto simp: syscall_serve_def Let_def)
    qed
  next
    case call
    then show ?thesis using that(3) assms by (auto simp: syscall_serve_def Let_def)
  qed
qed


section \<open>Windows of other processes\<close>

lemma focus_ensure_windows [simp]: "gd_windows (snd (gui_focus_window_ensure g)) = gd_windows g"
  by (simp add: gui_focus_window_ensure_def split: option.split)

text \<open>Operations on one window leave the others alone.\<close>

lemma gui_other_window:
  assumes "j \<noteq> unat k"
  shows "gd_windows (snd (gui_destroy_window k g)) ! j = gd_windows g ! j"
    "gd_windows (snd (gui_window_set_title_internal k t g)) ! j = gd_windows g ! j"
    "gd_windows (snd (gui_window_set_title_bar_internal k th g)) ! j = gd_windows g ! j"
    "gd_windows (snd (gui_window_minimize k g)) ! j = gd_windows g ! j"
    "gd_windows (snd (gui_register_cursor_region k sl x y w h sh g)) ! j = gd_windows g ! j"
    "gd_windows (snd (snd (gui_resize_window k u v wd ht p g))) ! j = gd_windows g ! j"
    "gd_windows (snd (snd (gui_window_draw_text k x y ts c p g))) ! j = gd_windows g ! j"
    "gd_windows (snd (snd (gui_window_draw_rect k x y wd ht c p g))) ! j = gd_windows g ! j"
proof -
  show "gd_windows (snd (gui_destroy_window k g)) ! j = gd_windows g ! j"
    using assms by (auto simp: gui_destroy_window_def Let_def case_prod_beta)
  show "gd_windows (snd (gui_window_set_title_internal k t g)) ! j = gd_windows g ! j"
    "gd_windows (snd (gui_window_set_title_bar_internal k th g)) ! j = gd_windows g ! j"
    using assms by (auto simp: gui_window_set_title_internal_def gui_window_set_title_bar_internal_def gui_window_lookup_def Let_def)
  show "gd_windows (snd (gui_window_minimize k g)) ! j = gd_windows g ! j"
    using assms by (auto simp: gui_window_minimize_def Let_def)
  show "gd_windows (snd (gui_register_cursor_region k sl x y w h sh g)) ! j = gd_windows g ! j"
    using assms by (auto simp: gui_register_cursor_region_def Let_def)
  show "gd_windows (snd (snd (gui_resize_window k u v wd ht p g))) ! j = gd_windows g ! j"
  proof -
    have upd: "(ws[unat k := z]) ! j = ws ! j" for ws z using assms by simp
    show ?thesis unfolding gui_resize_window_def Let_def by (simp add: upd split: prod.split bool.split)
  qed
  show "gd_windows (snd (snd (gui_window_draw_text k x y ts c p g))) ! j = gd_windows g ! j"
    "gd_windows (snd (snd (gui_window_draw_rect k x y wd ht c p g))) ! j = gd_windows g ! j"
  proof -
    have upd: "(ws[unat k := z]) ! j = ws ! j" for ws z using assms by simp
    obtain r win p1 h1 where e: "gui_window_ensure_backing (gd_windows g ! unat k) p (gui_heap g) = (r, win, p1, h1)" by (metis prod_cases4)
    have drawn: "gd_windows (window_owner_drawn (unat k) z h g) ! j = gd_windows g ! j" for z h by (simp add: window_owner_drawn_def upd)
    have failed: "gd_windows (g\<lparr>gd_windows := (gd_windows g)[unat k := z], gui_heap := h\<rparr>) ! j = gd_windows g ! j" for z h by (simp add: upd)
    have dist: "gd_windows (snd (snd (if b then u else v))) ! j = (if b then gd_windows (snd (snd u)) ! j else gd_windows (snd (snd v)) ! j)"
      for b and u v :: "bool \<times> pmm \<times> gui" by simp
    note simps = dist prod.case bool.case snd_conv damage_fields set_window_fields
      upd drawn failed if_cancel
    show "gd_windows (snd (snd (gui_window_draw_text k x y ts c p g))) ! j = gd_windows g ! j"
      unfolding gui_window_draw_text_def Let_def e by (cases r) (simp_all only: simps)
    show "gd_windows (snd (snd (gui_window_draw_rect k x y wd ht c p g))) ! j = gd_windows g ! j"
      unfolding gui_window_draw_rect_def Let_def e by (cases r) (simp_all only: simps)
  qed
qed

lemma create_keeps_used:
  assumes "gw_used (gd_windows g ! j)"
  shows "gd_windows (snd (gui_create_window_for_pid pid x y w h bg bo t g)) ! j = gd_windows g ! j"
proof (cases "first_index GUI_MAX_WINDOWS (\<lambda>i. \<not> gw_used (gd_windows g ! i))")
  case None
  then show ?thesis by (simp add: gui_create_window_for_pid_def split: option.split)
next
  case (Some i)
  then have "i \<noteq> j" using assms by (auto simp: first_index_Some_iff)
  then show ?thesis using Some by (auto simp: gui_create_window_for_pid_def Let_def split: option.split)
qed

text \<open>Window \<open>j\<close> belongs to another process than the caller.\<close>

definition foreign_window :: "nat option \<Rightarrow> 'b system \<Rightarrow> nat \<Rightarrow> bool" where
  "foreign_window cur s j \<longleftrightarrow> gw_used (gd_windows (sy_gui s) ! j) \<and> gw_owner_pid (gd_windows (sy_gui s) ! j) \<noteq> GUI_NO_OWNER \<and>
     (\<forall>p. caller cur s = Some p \<longrightarrow> gw_owner_pid (gd_windows (sy_gui s) ! j) \<noteq> p_pid p)"

lemma owner_lookup_own:
  assumes "owner_window_lookup (caller cur s) i err s = Inr w" and "foreign_window cur s j"
  shows "j \<noteq> unat (ucast i :: u32)" and "unat (ucast i :: u32) = unat i" and "w = gd_windows (sy_gui s) ! unat i" and "gui_desktop s = Some (sy_gui s)"
proof -
  obtain p where p: "caller cur s = Some p" "\<not> i \<ge> of_nat GUI_MAX_WINDOWS" "gui_desktop s = Some (sy_gui s)"
    "gw_owner_pid (gd_windows (sy_gui s) ! unat i) = p_pid p" "w = gd_windows (sy_gui s) ! unat i"
    using assms(1) by (auto simp: owner_window_lookup_def gui_desktop_def Let_def split: option.splits if_splits)
  have "unat i < 16" using p(2) by (simp add: not_le word_less_nat_alt)
  then show u: "unat (ucast i :: u32) = unat i" by (simp add: unsigned_ucast_eq take_bit_nat_eq_self)
  show "j \<noteq> unat (ucast i :: u32)" using assms(2) p(1,4) unfolding u by (auto simp: foreign_window_def)
  show "w = gd_windows (sy_gui s) ! unat i" "gui_desktop s = Some (sy_gui s)" using p by simp_all
qed

lemma set_shape_windows [simp]: "gd_windows (snd (gui_set_cursor_shape sh g)) = gd_windows g"
  by (simp add: gui_set_cursor_shape_def)

lemma release_gui [simp]: "k_gui (process_release i k) = k_gui k"
  by (simp add: process_release_def Let_def set_process_def case_prod_beta)

lemma reclaim_gui [simp]: "k_gui (process_reclaim_zombies k) = k_gui k"
proof -
  have "k_gui (fold (\<lambda>i k. if p_state (g_processes k ! i) = PROCESS_ZOMBIE then process_release i k else k) is k) = k_gui k" for "is"
    by (induction "is" arbitrary: k) auto
  then show ?thesis by (simp add: process_reclaim_zombies_def)
qed

lemma set_process_gui [simp]: "k_gui (set_process i f k) = k_gui k"
  by (simp add: set_process_def)

lemma alloc_gui: "process_alloc pid n k = (r, k') \<Longrightarrow> k_gui k' = k_gui k"
  by (auto simp: process_alloc_def split: if_splits option.splits)

lemma spawn_slot_gui: "spawn_slot blobs n idx ap argc l i k m = Some (r, k', m') \<Longrightarrow> k_gui k' = k_gui k"
  unfolding spawn_slot_def Let_def by (auto split: option.splits prod.splits bool.splits if_splits)

lemma app_spawn_gui: "app_spawn_vfs blobs path idx ap argc l k m = Some (r, l', k', m') \<Longrightarrow> k_gui k' = k_gui k"
  unfolding app_spawn_vfs_def Let_def
  by (auto dest!: alloc_gui spawn_slot_gui split: option.splits prod.splits if_splits)

lemma other_calls_windows:
  "sy_gui (snd (sys_wait pid s)) = sy_gui s" "sy_gui (snd (sys_open pf cur pp fl s)) = sy_gui s"
  "sy_gui (snd (sys_close fd s)) = sy_gui s" "sy_gui (snd (sys_seek fd off wh s)) = sy_gui s" "sy_gui (snd (sys_write cur fd b n s)) = sy_gui s"
  "sy_gui (snd (sys_unlink pf cur pp s)) = sy_gui s" "sy_gui (snd (sys_rename pf cur op np s)) = sy_gui s"
  "sy_gui (snd (sys_mmap cur hint sz fl s)) = sy_gui s" "sy_gui (snd (sys_munmap cur ad sz s)) = sy_gui s"
  "sy_gui (snd (sys_ipc_send cur tg b n s)) = sy_gui s" "sy_gui (snd (sys_ipc_recv cur b n s)) = sy_gui s"
  "sy_gui (snd (sys_read cur fd b n s)) = sy_gui s" "sy_gui (snd (sys_stat cur pp sp s)) = sy_gui s" "sy_gui (snd (sys_readdir cur pp b n s)) = sy_gui s"
  "sy_gui (snd (sys_meminfo cur ip s)) = sy_gui s" "sy_gui (snd (sys_timeinfo cur ip s)) = sy_gui s" "sy_gui (snd (sys_proclist cur ip n s)) = sy_gui s"
  "sy_gui (snd (sys_window_for_pid cur op ix s)) = sy_gui s" "sy_gui (snd (sys_window_get_bounds cur i op s)) = sy_gui s"
  "sy_gui (snd (sys_window_state cur i op s)) = sy_gui s"
  unfolding sys_wait_def sys_open_def sys_close_def sys_seek_def sys_write_def sys_unlink_def sys_rename_def sys_mmap_def
    sys_munmap_def sys_ipc_send_def sys_ipc_recv_def sys_read_def sys_stat_def sys_readdir_def sys_meminfo_def sys_timeinfo_def sys_proclist_def
    sys_window_for_pid_def sys_window_get_bounds_def sys_window_state_def Let_def process_wait_zombie_def
  by (auto split: option.split prod.split sum.split)

lemma spawn_calls_windows:
  "sys_spawn pf cur pp ei s = Some (r, s') \<Longrightarrow> sy_gui s' = sy_gui s"
  "sys_spawn_argv pf cur pp ei ap ac s = Some (r, s') \<Longrightarrow> sy_gui s' = sy_gui s"
proof -
  have "sy_gui t = sy_gui s" if "spawn_call pf path i ap ac s = Some (r, t)" for path i ap ac r t
    using that by (auto simp: spawn_call_def dest: app_spawn_gui)
  then show "sys_spawn pf cur pp ei s = Some (r, s') \<Longrightarrow> sy_gui s' = sy_gui s"
    "sys_spawn_argv pf cur pp ei ap ac s = Some (r, s') \<Longrightarrow> sy_gui s' = sy_gui s"
    unfolding sys_spawn_def sys_spawn_argv_def by (auto split: option.splits if_splits)
qed

lemma own_calls_windows:
  assumes fw: "foreign_window cur s j"
  shows "gd_windows (sy_gui (snd (sys_window_destroy cur i s))) ! j = gd_windows (sy_gui s) ! j"
    "gd_windows (sy_gui (snd (sys_window_draw_text cur i x y c sp s))) ! j = gd_windows (sy_gui s) ! j"
    "gd_windows (sy_gui (snd (sys_window_draw_rect cur i x y w h c s))) ! j = gd_windows (sy_gui s) ! j"
    "gd_windows (sy_gui (snd (sys_window_set_title cur i tp th s))) ! j = gd_windows (sy_gui s) ! j"
    "gd_windows (sy_gui (snd (sys_window_redraw cur i s))) ! j = gd_windows (sy_gui s) ! j"
    "gd_windows (sy_gui (snd (sys_window_flush cur i x y w h s))) ! j = gd_windows (sy_gui s) ! j"
    "gd_windows (sy_gui (snd (sys_window_set_bounds cur i x y w h s))) ! j = gd_windows (sy_gui s) ! j"
    "gd_windows (sy_gui (snd (sys_window_minimize cur i s))) ! j = gd_windows (sy_gui s) ! j"
    "gd_windows (sy_gui (snd (sys_window_event cur i op cnt s))) ! j = gd_windows (sy_gui s) ! j"
proof -
  have own: "j \<noteq> unat (ucast i :: u32)" "j \<noteq> unat i" if "owner_window_lookup (caller cur s) i err s = Inr win" for err win
    using owner_lookup_own [OF that fw] by simp_all
  note simps = sys_owner_window_def sys_owner_window_badf_def Let_def
  note g = gui_other_window [where k = "ucast i :: u32" and g = "sy_gui s"]
  show "gd_windows (sy_gui (snd (sys_window_destroy cur i s))) ! j = gd_windows (sy_gui s) ! j"
    unfolding sys_window_destroy_def simps by (auto dest!: own(1) g(1) split: sum.split prod.split bool.split)
  show "gd_windows (sy_gui (snd (sys_window_draw_text cur i x y c sp s))) ! j = gd_windows (sy_gui s) ! j"
    using g(7) unfolding sys_window_draw_text_def simps by (auto dest!: own(1) simp: case_prod_beta split: sum.split option.split)
  show "gd_windows (sy_gui (snd (sys_window_draw_rect cur i x y w h c s))) ! j = gd_windows (sy_gui s) ! j"
    using g(8) unfolding sys_window_draw_rect_def simps by (auto dest!: own(1) simp: case_prod_beta split: sum.split option.split)
  show "gd_windows (sy_gui (snd (sys_window_redraw cur i s))) ! j = gd_windows (sy_gui s) ! j"
    "gd_windows (sy_gui (snd (sys_window_flush cur i x y w h s))) ! j = gd_windows (sy_gui s) ! j"
    unfolding sys_window_redraw_def sys_window_flush_def simps by (auto split: sum.split)
  show "gd_windows (sy_gui (snd (sys_window_set_bounds cur i x y w h s))) ! j = gd_windows (sy_gui s) ! j"
    using g(6) unfolding sys_window_set_bounds_def simps by (auto dest!: own(1) simp: case_prod_beta split: sum.split)
  show "gd_windows (sy_gui (snd (sys_window_minimize cur i s))) ! j = gd_windows (sy_gui s) ! j"
    using g(4) unfolding sys_window_minimize_def simps by (auto dest!: own(1) simp: case_prod_beta split: sum.split)
  show "gd_windows (sy_gui (snd (sys_window_event cur i op cnt s))) ! j = gd_windows (sy_gui s) ! j"
    unfolding sys_window_event_def simps by (auto dest!: own(2) simp: case_prod_beta split: sum.split)
  show "gd_windows (sy_gui (snd (sys_window_set_title cur i tp th s))) ! j = gd_windows (sy_gui s) ! j"
  proof (cases "\<exists>win title. owner_window_lookup (caller cur s) i ERR_BADF s = Inr win \<and> sys_user_copy_cstr (caller cur s) (sy_mem s) tp GUI_TITLE_LEN = Some title")
    case False
    then show ?thesis unfolding sys_window_set_title_def simps by (auto split: sum.split option.split)
  next
    case True
    then obtain win title where t: "owner_window_lookup (caller cur s) i ERR_BADF s = Inr win"
      "sys_user_copy_cstr (caller cur s) (sy_mem s) tp GUI_TITLE_LEN = Some title" by blast
    obtain b g1 where st: "gui_window_set_title_internal (ucast i) (Some title) (sy_gui s) = (b, g1)" by fastforce
    then have g1: "gd_windows g1 ! j = gd_windows (sy_gui s) ! j" using g(2) [OF own(1) [OF t(1)], of "Some title"] by simp
    obtain b2 g2 where sb: "gui_window_set_title_bar_internal (ucast i) (ucast th) (gui_request_redraw g1) = (b2, g2)" by fastforce
    then have "gd_windows g2 ! j = gd_windows (gui_request_redraw g1) ! j"
      using gui_other_window(3) [OF own(1) [OF t(1)], of "ucast th" "gui_request_redraw g1"] by simp
    then show ?thesis unfolding sys_window_set_title_def simps t using g1 by (cases b) (simp_all add: t st sb)
  qed
qed

lemma open_calls_windows:
  assumes fw: "foreign_window cur s j"
  shows "gd_windows (sy_gui (snd (sys_window_create cur x y w h bg bo tp s))) ! j = gd_windows (sy_gui s) ! j"
    "gd_windows (sy_gui (snd (sys_cursor_set_shape cur sh s))) ! j = gd_windows (sy_gui s) ! j"
    "gd_windows (sy_gui (snd (sys_cursor_register_region cur i sl x y w h sh s))) ! j = gd_windows (sy_gui s) ! j"
proof -
  have used: "gw_used (gd_windows (sy_gui s) ! j)" using fw by (simp add: foreign_window_def)
  have d: "gui_desktop s = Some g \<Longrightarrow> g = sy_gui s" for g by (simp add: gui_desktop_def split: if_splits)
  have c: "gd_windows g1 ! j = gd_windows (sy_gui s) ! j"
    if "gui_create_window_for_pid pid x y w h bg bo t (sy_gui s) = (r, g1)" for pid x y w h bg bo t r g1
    using create_keeps_used [OF used, of pid x y w h bg bo t] that by simp
  show "gd_windows (sy_gui (snd (sys_window_create cur x y w h bg bo tp s))) ! j = gd_windows (sy_gui s) ! j"
    unfolding sys_window_create_def by (auto dest!: d c split: option.split prod.split)
  have sc: "gui_set_cursor_shape sh' g = (b, g1) \<Longrightarrow> gd_windows g1 = gd_windows g" for sh' g b g1 by (metis set_shape_windows snd_conv)
  show "gd_windows (sy_gui (snd (sys_cursor_set_shape cur sh s))) ! j = gd_windows (sy_gui s) ! j"
    unfolding sys_cursor_set_shape_def by (auto dest!: d sc split: option.split prod.split bool.split)
  show "gd_windows (sy_gui (snd (sys_cursor_register_region cur i sl x y w h sh s))) ! j = gd_windows (sy_gui s) ! j"
  proof (cases "\<exists>p k. caller cur s = Some p \<and> gui_desktop s = Some (sy_gui s) \<and> gui_window_lookup (ucast i) (sy_gui s) = Some k \<and>
      \<not> (gw_owner_pid (gd_windows (sy_gui s) ! k) \<noteq> GUI_NO_OWNER \<and> gw_owner_pid (gd_windows (sy_gui s) ! k) \<noteq> p_pid p)")
    case False
    then show ?thesis unfolding sys_cursor_register_region_def Let_def by (auto dest: d split: option.split)
  next
    case True
    then obtain p k where p: "caller cur s = Some p" "gui_desktop s = Some (sy_gui s)" "gui_window_lookup (ucast i) (sy_gui s) = Some k"
      "gw_owner_pid (gd_windows (sy_gui s) ! k) = GUI_NO_OWNER \<or> gw_owner_pid (gd_windows (sy_gui s) ! k) = p_pid p" by blast
    then have "k = unat (ucast i :: u32)" "j \<noteq> k" using fw by (auto simp: gui_window_lookup_def foreign_window_def split: if_splits)
    then have j: "j \<noteq> unat (ucast i :: u32)" by simp
    obtain b g1 where r: "gui_register_cursor_region (ucast i) (ucast sl) (uint x) (uint y) (ucast w) (ucast h) (ucast sh) (sy_gui s) = (b, g1)" by fastforce
    then have "gd_windows g1 ! j = gd_windows (sy_gui s) ! j"
      using gui_other_window(5) [OF j, of "ucast sl" "uint x" "uint y" "ucast w" "ucast h" "ucast sh" "sy_gui s"] by simp
    then show ?thesis unfolding sys_cursor_register_region_def Let_def using p r by (cases b) auto
  qed
qed

lemma syscall_value_windows:
  assumes fw: "foreign_window cur s j" and nr: "nr \<noteq> 7" "nr \<noteq> 77" "nr \<noteq> 84"
    and eq: "syscall_value pf cur nr x s = Some (r, s')"
  shows "gd_windows (sy_gui s') ! j = gd_windows (sy_gui s) ! j"
proof (cases "nr = 4 \<or> nr = 8")
  case True
  then have "sy_gui s' = sy_gui s" using eq by (auto simp: syscall_value_def dest: spawn_calls_windows)
  then show ?thesis by simp
next
  case False
  have "pred_option (\<lambda>c. gd_windows (sy_gui (snd c)) ! j = gd_windows (sy_gui s) ! j) (syscall_value pf cur nr x s)"
    unfolding syscall_value_def using nr False own_calls_windows [OF fw] open_calls_windows [OF fw] by (simp add: other_calls_windows)
  then show ?thesis using eq by simp
qed

lemma foreign_saved: "foreign_window cur (save_caller cur f s) j = foreign_window cur s j"
  using caller_saved [of cur f s] by (cases "caller cur s") (auto simp: foreign_window_def)

lemma yield_gui: "sy_gui (snd (snd (sys_yield_process f s))) = sy_gui s"
  by (auto simp: sys_yield_process_def process_dispatch_next_def process_activate_context_def process_set_current_def Let_def
      split: option.split prod.split)

text \<open>C8 Windows are isolated between processes. Whatever a process passes to a system call, a window that another process owns is
  exactly as before, its geometry, title, pixels and queued events included. The exceptions are the calls that the taskbar needs, focus and restore,
  killing the owner, and the exit of the caller itself, which is described by another property.\<close>

theorem syscall_window_isolation:
  assumes "syscall_serve pf cur f s = Some (f', s')" and "foreign_window cur s j"
    and "fr_x f ! 8 \<noteq> 1" and "fr_x f ! 8 \<noteq> 7" and "fr_x f ! 8 \<noteq> 77" and "fr_x f ! 8 \<noteq> 84"
  shows "gd_windows (sy_gui s') ! j = gd_windows (sy_gui s) ! j"
  using assms(1)
proof (cases rule: serve_cases)
  case exit
  then show ?thesis using assms(3) by simp
next
  case (yield q)
  then show ?thesis by (simp add: yield_gui)
next
  case (call r s1)
  from syscall_value_windows [OF _ assms(4-6) call(3)] assms(2) show ?thesis by (simp add: foreign_saved call(4))
qed

section \<open>The process table\<close>

lemma table_ok_other [simp]:
  "table_ok (k\<lparr>k_gui := g\<rparr>) = table_ok k" "table_ok (k\<lparr>k_gui := g, k_vmm := v\<rparr>) = table_ok k"
  by (simp_all add: table_ok_def)

lemma gui_calls_table [simp]:
  "table_ok (sy_kernel (set_gui g s)) = table_ok (sy_kernel s)" "table_ok (sy_kernel (set_gui_pmm p g s)) = table_ok (sy_kernel s)"
  by (simp_all add: set_gui_def set_gui_pmm_def)

lemma map_anonymous_region_steps:
  assumes "user_vm_map_anonymous hint sz fl p v = (r, p', v')"
  shows "region_step\<^sup>*\<^sup>* p p'"
proof -
  have a: "process_alloc_user_region z q = (x, q') \<Longrightarrow> region_step\<^sup>*\<^sup>* q q'" for z q x q' by (metis region_step.alloc r_into_rtranclp snd_conv)
  have s: "process_set_user_region_mapping b z pa fl q = (x, q') \<Longrightarrow> region_step\<^sup>*\<^sup>* q q'" for b z pa fl q x q'
    by (metis region_step.mapping r_into_rtranclp snd_conv)
  have d: "region_step\<^sup>*\<^sup>* q (snd (process_remove_user_region b z q))" for b z q by (blast intro: region_step.remove)
  show ?thesis using assms unfolding user_vm_map_anonymous_def Let_def
    by (auto dest!: a s intro: rtranclp_trans d rtranclp.rtrancl_refl split: option.splits prod.splits if_splits bool.splits)
qed

lemma unmap_anonymous_region_steps:
  assumes "user_vm_unmap_anonymous ad sz p v = (r, p', v')"
  shows "region_step\<^sup>*\<^sup>* p p'"
proof -
  have d: "process_remove_user_region b z q = (x, q') \<Longrightarrow> region_step\<^sup>*\<^sup>* q q'" for b z q x q' by (metis region_step.remove r_into_rtranclp snd_conv)
  show ?thesis using assms unfolding user_vm_unmap_anonymous_def Let_def
    by (auto dest!: d split: option.splits prod.splits if_splits bool.splits)
qed

lemma region_steps_frame:
  assumes "region_step\<^sup>*\<^sup>* p p'"
  shows "p_pid p' = p_pid p \<and> p_state p' = p_state p \<and> p_regs p' = p_regs p \<and> (region_ok p \<longrightarrow> region_ok p')"
  using assms
proof (induction rule: rtranclp_induct)
  case (step q r)
  then show ?case using region_step_frame [OF step(2)] region_step_ok [OF step(2)] by simp
qed simp

lemma set_caller_table:
  assumes t: "table_ok (sy_kernel s)" and cur: "g_current_process (sy_kernel s) = Some i"
    and r: "region_step\<^sup>*\<^sup>* (g_processes (sy_kernel s) ! i) p"
  shows "table_ok (sy_kernel (set_caller i p v s))"
proof -
  have i: "i < 16" "in_use (g_processes (sy_kernel s) ! i)" using t cur by (auto simp: table_ok_def current_ok_def)
  have ok: "process_ok (g_processes (sy_kernel s) ! i)" by (rule table_ok_slot [OF t i(1)])
  have p: "process_ok p" "in_use p" using ok i(2) region_steps_frame [OF r] by (simp_all add: process_ok_def in_use_def)
  show ?thesis
    by (rule table_ok_set [OF t i p, where k' = "sy_kernel (set_caller i p v s)"])
      (use region_steps_frame [OF r] cur in \<open>simp_all add: set_caller_def\<close>)
qed

lemma plain_calls_table:
  assumes "table_ok (sy_kernel s)"
  shows "table_ok (sy_kernel (snd (sys_wait pid s)))" "table_ok (sy_kernel (snd (sys_kill pid s)))" "table_ok (sy_kernel (snd (sys_open pf cur pp fl s)))"
    "table_ok (sy_kernel (snd (sys_close fd s)))" "table_ok (sy_kernel (snd (sys_seek fd off wh s)))" "table_ok (sy_kernel (snd (sys_write cur fd b n s)))"
    "table_ok (sy_kernel (snd (sys_unlink pf cur pp s)))" "table_ok (sy_kernel (snd (sys_rename pf cur op np s)))"
    "table_ok (sy_kernel (snd (sys_ipc_send cur tg b n s)))" "table_ok (sy_kernel (snd (sys_ipc_recv cur b n s)))"
    "table_ok (sy_kernel (snd (sys_read cur fd b n s)))" "table_ok (sy_kernel (snd (sys_stat cur pp sp s)))" "table_ok (sy_kernel (snd (sys_readdir cur pp b n s)))"
    "table_ok (sy_kernel (snd (sys_meminfo cur ip s)))" "table_ok (sy_kernel (snd (sys_timeinfo cur ip s)))" "table_ok (sy_kernel (snd (sys_proclist cur ip n s)))"
proof -
  have w: "process_wait_zombie q (sy_kernel s) = (x, k') \<Longrightarrow> table_ok k'" for q x k' using process_wait_ok [OF assms, of q] by simp
  have k: "process_kill q c (sy_kernel s) = (x, k') \<Longrightarrow> table_ok k'" for q c x k' using process_kill_ok [OF assms, of q c] by simp
  show "table_ok (sy_kernel (snd (sys_wait pid s)))" "table_ok (sy_kernel (snd (sys_kill pid s)))"
    unfolding sys_wait_def sys_kill_def using assms by (auto dest!: w k split: option.split prod.split)
qed (use assms in \<open>auto simp: sys_open_def sys_close_def sys_seek_def sys_write_def sys_unlink_def sys_rename_def sys_ipc_send_def sys_ipc_recv_def
  sys_read_def sys_stat_def sys_readdir_def sys_meminfo_def sys_timeinfo_def sys_proclist_def split: option.split prod.split\<close>)

lemma window_calls_table:
  assumes "table_ok (sy_kernel s)"
  shows "table_ok (sy_kernel (snd (sys_window_create cur x y w h bg bo tp s)))" "table_ok (sy_kernel (snd (sys_window_destroy cur i s)))"
  "table_ok (sy_kernel (snd (sys_window_draw_text cur i x y c sp s)))" "table_ok (sy_kernel (snd (sys_window_draw_rect cur i x y w h c s)))"
  "table_ok (sy_kernel (snd (sys_window_set_title cur i tp th s)))" "table_ok (sy_kernel (snd (sys_window_redraw cur i s)))"
  "table_ok (sy_kernel (snd (sys_window_focus cur i s)))" "table_ok (sy_kernel (snd (sys_window_for_pid cur op ix s)))"
  "table_ok (sy_kernel (snd (sys_cursor_set_shape cur sh s)))" "table_ok (sy_kernel (snd (sys_cursor_register_region cur i sl x y w h sh s)))"
  "table_ok (sy_kernel (snd (sys_window_flush cur i x y w h s)))" "table_ok (sy_kernel (snd (sys_window_set_bounds cur i x y w h s)))"
  "table_ok (sy_kernel (snd (sys_window_minimize cur i s)))" "table_ok (sy_kernel (snd (sys_window_restore cur i s)))"
  "table_ok (sy_kernel (snd (sys_window_get_bounds cur i op s)))" "table_ok (sy_kernel (snd (sys_window_state cur i op s)))"
  "table_ok (sy_kernel (snd (sys_window_event cur i op cnt s)))"
  using assms unfolding sys_window_create_def sys_window_destroy_def sys_window_draw_text_def sys_window_draw_rect_def sys_window_set_title_def
    sys_window_redraw_def sys_window_focus_def sys_window_for_pid_def sys_cursor_set_shape_def sys_cursor_register_region_def
    sys_window_flush_def sys_window_set_bounds_def sys_window_minimize_def sys_window_restore_def sys_window_get_bounds_def sys_window_state_def
    sys_window_event_def Let_def
  by (auto split: option.split prod.split sum.split bool.split)

lemma memory_calls_table:
  assumes t: "table_ok (sy_kernel s)" and cur: "cur = process_current (sy_kernel s)"
  shows "table_ok (sy_kernel (snd (sys_mmap cur hint sz fl s)))" and "table_ok (sy_kernel (snd (sys_munmap cur ad sz s)))"
  using t cur unfolding sys_mmap_def sys_munmap_def process_current_def
  by (auto split: option.split prod.split intro!: set_caller_table dest: map_anonymous_region_steps unmap_anonymous_region_steps)

definition spawn_ready :: "u64 set \<Rightarrow> 'b system \<Rightarrow> bool" where
  "spawn_ready R s \<longleftrightarrow> vm_ok R (k_vmm (process_reclaim_zombies (sy_kernel s))) \<and> 0 \<notin> R \<and>
     (\<forall>f. g_spawn_map_mmio (sy_launcher s) = Some f \<longrightarrow> mmio_mapper f)"

lemma spawn_call_table:
  assumes t: "table_ok (sy_kernel s)" and r: "spawn_ready R s" and eq: "spawn_call pf path idx ap argc s = Some (x, s')"
  shows "table_ok (sy_kernel s')"
proof -
  obtain pid l k m where e: "app_spawn_vfs (pf_blobs pf) path idx ap argc (sy_launcher s) (sy_kernel s) (sy_mem s) = Some (pid, l, k, m)"
    and s': "sy_kernel s' = k"
    using eq by (auto simp: spawn_call_def)
  have rec: "table_ok (process_reclaim_zombies (sy_kernel s))" unfolding process_reclaim_zombies_def by (rule reclaim_ok [OF t]) auto
  have "case Some (pid, l, k, m) of None \<Rightarrow> argc \<noteq> 0 | Some (r, l', k', m') \<Rightarrow>
      r = -1 \<and> (k' = sy_kernel s \<or> k' = process_reclaim_zombies (sy_kernel s)) \<or>
        (\<exists>i<16. let k1 = process_reclaim_zombies (sy_kernel s) in \<not> in_use (g_processes k1 ! i) \<and> slot_only i k1 k' \<and>
           spawn_outcome R (g_next_spawn_pid (sy_launcher s)) i (k_vmm k1) r k')"
    unfolding e [symmetric] by (rule spawn_effect) (use t r in \<open>simp_all add: spawn_ready_def\<close>)
  then show ?thesis using t rec by (auto simp: s' Let_def slot_only_def)
qed

lemma spawn_calls_table:
  assumes "table_ok (sy_kernel s)" and "spawn_ready R s"
  shows "sys_spawn pf cur pp ix s = Some (x, s') \<Longrightarrow> table_ok (sy_kernel s')"
    and "sys_spawn_argv pf cur pp ix ap argc s = Some (x, s') \<Longrightarrow> table_ok (sy_kernel s')"
  using assms by (auto simp: sys_spawn_def sys_spawn_argv_def intro: spawn_call_table split: if_splits option.splits)

lemma syscall_value_table:
  assumes t: "table_ok (sy_kernel s)" and cur: "cur = process_current (sy_kernel s)"
    and r: "nr = 4 \<or> nr = 8 \<Longrightarrow> spawn_ready R s" and eq: "syscall_value pf cur nr x s = Some (v, s')"
  shows "table_ok (sy_kernel s')"
proof (cases "nr = 4 \<or> nr = 8")
  case True
  then show ?thesis using eq spawn_calls_table [OF t r] by (auto simp: syscall_value_def)
next
  case False
  have "pred_option (\<lambda>c. table_ok (sy_kernel (snd c))) (syscall_value pf cur nr x s)"
    unfolding syscall_value_def using False t memory_calls_table [OF t cur] by (simp add: plain_calls_table window_calls_table)
  then show ?thesis using eq by simp
qed

lemma save_caller_table:
  assumes "table_ok (sy_kernel s)" and "cur = process_current (sy_kernel s)"
  shows "table_ok (sy_kernel (save_caller cur f s))" and "process_current (sy_kernel (save_caller cur f s)) = cur"
proof -
  show "table_ok (sy_kernel (save_caller cur f s))"
    using assms process_step_ok [OF process_step.save] by (auto simp: save_caller_def split: option.split)
  show "process_current (sy_kernel (save_caller cur f s)) = cur"
    using assms by (simp add: save_caller_def set_process_def process_current_def split: option.split)
qed

lemma register_update_table:
  assumes t: "table_ok k" and cur: "process_current k = Some i"
  shows "table_ok (set_process i (\<lambda>p. p\<lparr>p_regs := (p_regs p)[0 := v], p_pc := pc, p_pstate := ps, p_sp := sp\<rparr>) k)"
    and "table_ok (set_process i (\<lambda>p. p\<lparr>p_regs := (p_regs p)[0 := v]\<rparr>) k)"
proof -
  note i = current_slot [OF t cur]
  show "table_ok (set_process i (\<lambda>p. p\<lparr>p_regs := (p_regs p)[0 := v], p_pc := pc, p_pstate := ps, p_sp := sp\<rparr>) k)"
    by (rule set_process_ok [OF t i]) (use table_ok_slot [OF t i(1)] in \<open>simp_all add: process_ok_def in_use_def region_ok_def regions_def\<close>)
  show "table_ok (set_process i (\<lambda>p. p\<lparr>p_regs := (p_regs p)[0 := v]\<rparr>) k)"
    by (rule set_process_ok [OF t i]) (use table_ok_slot [OF t i(1)] in \<open>simp_all add: process_ok_def in_use_def region_ok_def regions_def\<close>)
qed

lemma update_after_table: "table_ok (sy_kernel s) \<Longrightarrow> table_ok (sy_kernel (update_after f s))"
  by (auto simp: update_after_def intro: register_update_table split: option.split)

lemma sys_yield_table:
  assumes t: "table_ok (sy_kernel s)"
  shows "table_ok (sy_kernel (snd (snd (sys_yield_process f s))))"
proof (cases "process_current (sy_kernel s)")
  case (Some i)
  let ?k = "set_process i (\<lambda>p. p\<lparr>p_regs := (p_regs p)[0 := 0]\<rparr>) (sy_kernel s)"
  obtain r f1 k2 where e: "process_dispatch_next (Some i) f PROCESS_DISPATCH_PREEMPT ?k = (r, f1, k2)" by (rule prod_cases3)
  moreover have "process_current ?k = Some i" using Some by (simp add: process_current_def set_process_def)
  ultimately have "process_step ?k k2" using process_step.preempt [of ?k f r f1 k2] by simp
  then have "table_ok k2" by (rule process_step_ok) (rule register_update_table(2) [OF t Some])
  then show ?thesis using Some e by (simp add: sys_yield_process_def Let_def)
qed (simp add: sys_yield_process_def t)

lemma running_is_current: "table_ok k \<Longrightarrow> i < 16 \<Longrightarrow> p_state (g_processes k ! i) = PROCESS_RUNNING \<Longrightarrow> g_current_process k = Some i"
  by (simp add: table_ok_def current_ok_def)

lemma sys_exit_table:
  assumes t: "table_ok (sy_kernel s)"
  shows "table_ok (sy_kernel (snd (sys_exit pf f code s)))"
proof -
  define k1 where "k1 = (case process_current (sy_kernel s) of None \<Rightarrow> sy_kernel s | Some i \<Rightarrow> process_mark_exited i code (sy_kernel s))"
  have cur: "process_current k1 = process_current (sy_kernel s)"
    by (simp add: k1_def process_current_def process_mark_exited_def Let_def set_process_def split: option.split)
  have t1: "table_ok k1" using t process_step_ok [OF process_step.exit] by (auto simp: k1_def split: option.split)
  have "p_state (g_processes k1 ! i) = PROCESS_ZOMBIE" if "process_current (sy_kernel s) = Some i" for i
    using that current_slot [OF t that] t
    by (auto simp: k1_def process_mark_exited_def Let_def set_process_def table_ok_def)
  then have run: "\<forall>i<16. p_state (g_processes k1 ! i) \<noteq> PROCESS_RUNNING"
    using running_is_current [OF t1] cur by (fastforce simp: process_current_def)
  obtain r f1 k2 where e: "process_dispatch_next (process_current (sy_kernel s)) f PROCESS_DISPATCH_EXIT k1 = (r, f1, k2)" by (rule prod_cases3)
  have "table_ok k2" using process_dispatch_next_ok [OF t1 _ _ e] run cur by (simp add: process_current_def)
  then show ?thesis using e by (simp add: sys_exit_def Let_def k1_def [symmetric] split: bool.split)
qed

text \<open>C9 The process table stays well formed under every system call: the context of the caller is saved, the call is served, the caller exits or
  yields where it asked for that, and the registers of whoever runs next are updated; before and after, slots are well formed, process ids
  are unique, the count is right and the current process is the only running one. For the two calls that start a process the
  address spaces must be well formed and the board's mapping function must keep its contract.\<close>

theorem syscall_table_invariant:
  assumes "table_ok (sy_kernel s)" and "cur = process_current (sy_kernel s)" and "syscall_serve pf cur f s = Some (f', s')"
    and "fr_x f ! 8 = 4 \<or> fr_x f ! 8 = 8 \<Longrightarrow> spawn_ready R (save_caller cur f s)"
  shows "table_ok (sy_kernel s')"
  using assms(3)
proof (cases rule: serve_cases)
  case exit
  then show ?thesis by (simp add: update_after_table sys_exit_table save_caller_table(1) [OF assms(1,2)])
next
  case (yield q)
  then show ?thesis by (simp add: update_after_table sys_yield_table save_caller_table(1) [OF assms(1,2)])
next
  case (call r s1)
  note t = save_caller_table [OF assms(1,2), of f]
  have "table_ok (sy_kernel s1)" by (rule syscall_value_table [OF t(1) t(2) [symmetric] assms(4) call(3)])
  then show ?thesis by (simp add: call(4) update_after_table)
qed

section \<open>Messages between processes\<close>

lemma of_nat_eq_iff_u64: "i < 2 ^ 64 \<Longrightarrow> j < 2 ^ 64 \<Longrightarrow> (of_nat i :: u64) = of_nat j \<longleftrightarrow> i = j"
  by (metis unat_of_nat_u64)

lemma store_bytes_at:
  assumes "i < length bs" and "length bs \<le> 2 ^ 64"
  shows "store_bytes a bs m (a + of_nat i) = bs ! i"
proof -
  have inj: "a + of_nat j = a + of_nat i \<longleftrightarrow> j = i" if "j < length bs" for j
  proof -
    have "(of_nat j :: u64) = of_nat i \<longleftrightarrow> j = i"
      using that assms by (simp add: of_nat_eq_iff_u64)
    then show ?thesis by simp
  qed
  have "fold (\<lambda>i m. m(a + of_nat i := bs ! i)) js m (a + of_nat i) = (if i \<in> set js then bs ! i else m (a + of_nat i))"
    if "set js \<subseteq> {..<length bs}" for js
    using that
  proof (induction js arbitrary: m)
    case (Cons j js)
    then show ?case using inj [of j] inj [of i] by auto
  qed simp
  from this [of "[0..<length bs]"] show ?thesis using assms(1) by (simp add: store_bytes_def lessThan_atLeast0)
qed

lemma user_bytes_length: "length (user_bytes m a n) = unat n"
  by (simp add: user_bytes_def)

lemma user_bytes_stored:
  assumes "unat n \<le> length bs" and "length bs \<le> 2 ^ 64"
  shows "user_bytes (store_bytes a bs m) a n = take (unat n) bs"
  using assms by (intro nth_equalityI) (simp_all add: user_bytes_def store_bytes_at)

lemma message_received:
  assumes "ipc_ok (Suc n) (sy_ipc s)" and "p_pid q \<noteq> 0" and "mailbox (sy_ipc s) (p_pid q) = []"
    and "sys_ipc_send cur (ucast (p_pid q)) buf len s = (Inr v, s1)"
    and "sy_ipc s2 = sy_ipc s1" and "caller cur2 s2 = Some q" and "sys_user_buf_out (Some q) buf2 16"
  shows "\<exists>s3. v = len \<and> sys_ipc_recv cur2 buf2 16 s2 = (Inr len, s3) \<and> user_bytes (sy_mem s3) buf2 len = user_bytes (sy_mem s) buf len"
proof -
  have pid: "ucast (ucast (p_pid q) :: u64) = p_pid q" by (rule bit_word_eqI) (simp add: bit_ucast_iff)
  obtain p b where p: "caller cur s = Some p" and len: "len \<le> 16" "v = len"
    and send: "ipc_send (p_pid p) (p_pid q) (Some (user_bytes (sy_mem s) buf len)) (ucast len) (sy_ipc s) = Some b" "sy_ipc s1 = b"
    using assms(4) by (auto simp: sys_ipc_send_def not_less pid split: option.splits if_splits)
  have l: "unat len \<le> 16" using len(1) by (simp add: word_le_nat_alt)
  have small: "unat (ucast len :: u32) = unat len" using l by (simp add: unsigned_ucast_eq take_bit_nat_eq_self)
  have rt: "ucast (ucast len :: u32) = len" using small by (simp add: word_unat_eq_iff)
  let ?m = "letter (p_pid p) (p_pid q) (user_bytes (sy_mem s) buf len) (ucast len)"
  note box = ipc_send_ok [OF assms(1) send(1)]
  have "mailbox b (p_pid q) = [?m]" using box(2) assms(3) by simp
  then obtain c where c: "ipc_recv (p_pid q) b = Some (?m, c)"
    using ipc_recv_empty [OF box(1) assms(2)] ipc_recv_ok(2) [OF box(1)] by (cases "ipc_recv (p_pid q) b") fastforce+
  have d: "take (unat len) (msg_data ?m) = user_bytes (sy_mem s) buf len"
    by (intro nth_equalityI) (simp_all add: letter_def ipc_copy_payload_def small user_bytes_def nth_append)
  let ?s3 = "s2\<lparr>sy_ipc := c, sy_mem := store_bytes buf2 (take (unat len) (msg_data ?m)) (sy_mem s2)\<rparr>"
  have "sys_ipc_recv cur2 buf2 16 s2 = (Inr len, ?s3)"
    using assms(5-7) send(2) c len(1) by (simp add: sys_ipc_recv_def letter_def small rt not_less)
  moreover have "user_bytes (sy_mem ?s3) buf2 len = user_bytes (sy_mem s) buf len"
    using l unfolding d by (simp add: user_bytes_stored user_bytes_length)
  ultimately show ?thesis using len(2) by blast
qed

lemma message_accepted:
  assumes "ipc_ok (Suc n) (sy_ipc s)" and "slots_in_use (sy_ipc s) < 8"
    and "caller cur s = Some p" and "p_pid p \<noteq> 0" and "sys_user_buf_in (Some p) buf len" and "0 < len" and "len \<le> 16"
    and "p_pid q \<noteq> 0"
  shows "\<exists>s1. sys_ipc_send cur (ucast (p_pid q)) buf len s = (Inr len, s1) \<and> sy_mem s1 = sy_mem s"
proof -
  have l: "0 < unat len" "unat len \<le> 16" using assms(6,7) by (simp_all add: word_le_nat_alt word_less_nat_alt)
  have small: "unat (ucast len :: u32) = unat len" using l by (simp add: unsigned_ucast_eq take_bit_nat_eq_self)
  have sz: "(ucast len :: u32) \<noteq> 0" "\<not> (ucast len :: u32) > of_nat IPC_MAX_MESSAGE_SIZE"
    using l small by (auto simp: word_less_nat_alt)
  have pid: "ucast (ucast (p_pid q) :: u64) = p_pid q" by (rule bit_word_eqI) (simp add: bit_ucast_iff)
  have "unat (p_pid q) < 2 ^ 32" using unsigned_less [of "p_pid q", where 'a = nat] by simp
  then have target: "(ucast (p_pid q) :: u64) \<noteq> 0" "\<not> (ucast (p_pid q) :: u64) > UINT32_MAX"
    using assms(8) pid by (auto simp: word_less_nat_alt)
  have "ipc_find_free_slot (sy_ipc s) \<noteq> None" using find_free_iff [OF assms(1)] assms(2) by simp
  then obtain b where "ipc_send (p_pid p) (p_pid q) (Some (user_bytes (sy_mem s) buf len)) (ucast len) (sy_ipc s) = Some b"
    using assms(4,8) sz by (auto simp: ipc_send_def)
  then show ?thesis using assms(3,5-7) target pid by (auto simp: sys_ipc_send_def)
qed

text \<open>C10 A message that one process sends through the system call arrives unchanged in the memory of the process it names. A process that
  sends 1 to 16 bytes of its own memory while a message slot is free succeeds, and its call reports the length. When the
  receiver, which had no pending messages, asks next, with any 16-byte buffer of its own, its call returns that length and its buffer
  holds the bytes that the sender's buffer had when it sent.\<close>

theorem syscall_message_delivery:
  fixes s :: "'b system"
  assumes "ipc_ok (Suc n) (sy_ipc s)" and "slots_in_use (sy_ipc s) < 8"
    and "caller cur s = Some p" and "p_pid p \<noteq> 0" and "sys_user_buf_in (Some p) buf len" and "0 < len" and "len \<le> 16"
    and "p_pid q \<noteq> 0" and "mailbox (sy_ipc s) (p_pid q) = []" and "sys_user_buf_out (Some q) buf2 16"
  shows "\<exists>s1. sys_ipc_send cur (ucast (p_pid q)) buf len s = (Inr len, s1) \<and> sy_mem s1 = sy_mem s \<and>
    (\<forall>s2 :: 'b system. sy_ipc s2 = sy_ipc s1 \<longrightarrow> caller cur2 s2 = Some q \<longrightarrow>
       (\<exists>s3. sys_ipc_recv cur2 buf2 16 s2 = (Inr len, s3) \<and> user_bytes (sy_mem s3) buf2 len = user_bytes (sy_mem s) buf len))"
proof -
  obtain s1 where s1: "sys_ipc_send cur (ucast (p_pid q)) buf len s = (Inr len, s1)" "sy_mem s1 = sy_mem s"
    using message_accepted [OF assms(1-8)] by blast
  show ?thesis using s1 message_received [OF assms(1,8,9) s1(1) _ _ assms(10)] by blast
qed

section \<open>A system with two processes\<close>

definition platform_demo :: "fs_state platform" where
  "platform_demo = \<lparr>pf_blobs = [], pf_el0_return = 0x80000, pf_thread_trampoline = 0x80100, pf_yield_return = 0x80200,
     pf_fat32_lookup = (\<lambda>_ _ v. (None, v)), pf_unlink = (\<lambda>_ v. (False, v)), pf_rename = (\<lambda>_ _ v. (False, v)),
     pf_poll_devices = id, pf_console = (\<lambda>_. id), pf_net_poll = id\<rparr>"

definition input_blank :: input where
  "input_blank = input_queue_init \<lparr>g_event_queue = replicate 64 (INPUT_EVENT_KEY_PRESS 0 0), g_event_head = 0, g_event_tail = 0,
     g_event_count = 0, g_esc_state = ESC_STATE_IDLE, g_esc_discard = 0\<rparr>"

definition region_two :: process_user_region where
  "region_two = \<lparr>ur_start = 0x500000, ur_end = 0x501000, ur_paddr = 0x40002000, ur_flags = 1\<rparr>"

definition kernel_pair :: kernel where
  "kernel_pair =
     set_process 1 (\<lambda>p. p\<lparr>p_user_regions := region_two # replicate 7 region_clear, p_user_region_count := 1\<rparr>)
      (set_process 0 (\<lambda>p. p\<lparr>p_user_regions := owned_region # replicate 7 region_clear, p_user_region_count := 1\<rparr>) kernel_two)"

definition system_demo :: "fs_state system" where
  "system_demo = \<lparr>sy_kernel = kernel_pair, sy_vfs = fs_blank, sy_ipc = ipc_init, sy_input = input_blank, sy_sched = blank_sched,
     sy_launcher = launcher_demo, sy_mem = (\<lambda>a. if a = 0x400000 then 65 else 0), sy_uart = [], sy_ticks = 0\<rparr>"

definition frame_of :: "u64 \<Rightarrow> u64 \<Rightarrow> exception_frame" where
  "frame_of nr x0 = frame_demo\<lparr>fr_x := (fr_x frame_demo)[8 := nr, 0 := x0]\<rparr>"

lemma frame_of_regs [simp]: "fr_x (frame_of nr x0) ! 8 = nr" "fr_x (frame_of nr x0) ! 0 = x0"
  by (simp_all add: frame_of_def frame_demo_def)

lemma with_region_ok:
  assumes t: "table_ok k" and i: "i < 16" and u: "in_use (g_processes k ! i)" and r: "r = owned_region \<or> r = region_two"
  shows "table_ok (set_process i (\<lambda>p. p\<lparr>p_user_regions := r # replicate 7 region_clear, p_user_region_count := 1\<rparr>) k)"
  by (rule set_process_ok [OF t i u]) (use table_ok_slot [OF t i] u r in
    \<open>auto simp: process_ok_def in_use_def region_ok_def regions_def owned_region_def region_two_def\<close>)

lemma kernel_pair_ok:
  "table_ok kernel_pair" "g_current_process kernel_pair = Some 0" "k_gui kernel_pair = desktop_demo"
  "p_pid (g_processes kernel_pair ! 0) = 7" "p_pid (g_processes kernel_pair ! 1) = 9"
  "regions (g_processes kernel_pair ! 0) = [owned_region]" "regions (g_processes kernel_pair ! 1) = [region_two]"
proof -
  have z: "p_state (g_processes kernel_two ! 0) = PROCESS_RUNNING" using kernel_two_ok(1,2) by (simp add: running_ok_def)
  have len: "length (g_processes kernel_two) = 16" using kernel_two_ok(6) by (simp add: table_ok_def)
  have u: "in_use (g_processes kernel_two ! 0)" "in_use (g_processes kernel_two ! 1)" using z kernel_two_ok(3) by (simp_all add: in_use_def)
  show "table_ok kernel_pair" unfolding kernel_pair_def
    by (intro with_region_ok kernel_two_ok(6)) (use u len in \<open>simp_all add: set_process_def\<close>)
  show "g_current_process kernel_pair = Some 0" "k_gui kernel_pair = desktop_demo"
    "p_pid (g_processes kernel_pair ! 0) = 7" "p_pid (g_processes kernel_pair ! 1) = 9"
    "regions (g_processes kernel_pair ! 0) = [owned_region]" "regions (g_processes kernel_pair ! 1) = [region_two]"
    using len kernel_two_ok(2-5,7) by (simp_all add: kernel_pair_def set_process_def regions_def)
qed

lemma value_returns:
  assumes "nr \<noteq> 4" and "nr \<noteq> 8"
  shows "syscall_value pf cur nr x s \<noteq> None"
  unfolding syscall_value_def using assms by simp

lemma serve_returns:
  assumes "fr_x f ! 8 \<noteq> 4" and "fr_x f ! 8 \<noteq> 8"
  shows "\<exists>f' s'. syscall_serve pf cur f s = Some (f', s')"
proof -
  have "syscall_serve pf cur f s \<noteq> None"
    unfolding syscall_serve_def Let_def using value_returns [OF assms, of pf cur "\<lambda>i. fr_x f ! i" "save_caller cur f s"]
    by (auto split: prod.split bool.split)
  then show ?thesis by auto
qed

lemma system_demo_caller:
  "caller (Some 0) system_demo = Some (g_processes kernel_pair ! 0)" "process_current (sy_kernel system_demo) = Some 0"
  "table_ok (sy_kernel system_demo)" "sy_gui system_demo = desktop_demo"
  using kernel_pair_ok by (simp_all add: caller_def system_demo_def process_current_def)


theorem syscall_window_isolation_witness:
  "\<exists>f' s'. syscall_serve platform_demo (Some 0) (frame_of 71 1) system_demo = Some (f', s') \<and> gw_used (gd_windows (sy_gui s') ! 1)"
proof -
  obtain f' s' where e: "syscall_serve platform_demo (Some 0) (frame_of 71 1) system_demo = Some (f', s')"
    using serve_returns [of "frame_of 71 1" platform_demo "Some 0" system_demo] by auto
  have "foreign_window (Some 0) system_demo 1" unfolding foreign_window_def system_demo_caller
    by (simp add: kernel_pair_ok desktop_demo_def)
  from syscall_window_isolation [OF e this] have "gd_windows (sy_gui s') ! 1 = gd_windows desktop_demo ! 1" by (simp add: system_demo_caller)
  then show ?thesis using e by (simp add: desktop_demo_def)
qed

theorem syscall_table_invariant_witness:
  "\<exists>f' s'. syscall_serve platform_demo (Some 0) (frame_of 1 3) system_demo = Some (f', s') \<and> table_ok (sy_kernel s')"
proof -
  obtain f' s' where e: "syscall_serve platform_demo (Some 0) (frame_of 1 3) system_demo = Some (f', s')"
    using serve_returns [of "frame_of 1 3" platform_demo "Some 0" system_demo] by auto
  from syscall_table_invariant [OF system_demo_caller(3) system_demo_caller(2) [symmetric] e] show ?thesis using e by simp
qed

lemma system_demo_mem:
  "sy_mem system_demo = (\<lambda>a. if a = 0x400000 then 65 else 0)" "sy_ipc system_demo = ipc_init" "p_pid (g_processes kernel_pair ! Suc 0) = 9"
  using kernel_pair_ok(5) by (simp_all add: system_demo_def)

lemma pair_buffers:
  "sys_user_buf_in (Some (g_processes kernel_pair ! 0)) 0x400000 1" "sys_user_buf_out (Some (g_processes kernel_pair ! 1)) 0x500000 16"
proof -
  have one: "process_user_range_contains a n q" if "regions q = [r]" "user_region_end a n = Some e" "ur_start r \<le> a" "e \<le> ur_end r" for a n q r e
  proof -
    have c: "0 < p_user_region_count q" using that(1) by (cases "p_user_region_count q") (simp_all add: regions_def)
    then have "p_user_regions q ! 0 = regions q ! 0" by (simp add: regions_def)
    then have "0 < p_user_region_count q" "p_user_regions q ! 0 = r" using that(1) c by simp_all
    then show ?thesis using that(2-4) by (auto simp: process_user_range_contains_def first_index_None_iff)
  qed
  show "sys_user_buf_in (Some (g_processes kernel_pair ! 0)) 0x400000 1"
    using one [OF kernel_pair_ok(6), where a = "0x400000" and n = 1] by (simp add: sys_user_buf_in_def user_buf_range_def owned_region_def user_region_end_def)
  show "sys_user_buf_out (Some (g_processes kernel_pair ! 1)) 0x500000 16"
    using one [OF kernel_pair_ok(7), where a = "0x500000" and n = 16] by (simp add: sys_user_buf_out_def user_buf_range_def region_two_def user_region_end_def)
qed

theorem syscall_message_delivery_witness:
  "\<exists>s1 s3. sys_ipc_send (Some 0) 9 0x400000 1 system_demo = (Inr 1, s1) \<and> sys_ipc_recv (Some 1) 0x500000 16 s1 = (Inr 1, s3) \<and>
     user_bytes (sy_mem s3) 0x500000 1 = [65]"
proof -
  let ?p = "g_processes kernel_pair ! 0" and ?q = "g_processes kernel_pair ! 1"
  have ok: "ipc_ok (Suc 0) (sy_ipc system_demo)" using ipc_init_ok [of "Suc 0"] by (simp add: system_demo_def)
  have box: "mailbox (sy_ipc system_demo) (p_pid ?q) = []" "slots_in_use (sy_ipc system_demo) < 8"
    by (simp_all add: system_demo_def ipc_init_def ipc_clear_slot_def mailbox_def mailbox_of_def held_def slots_in_use_def)
  have pids: "p_pid ?p \<noteq> 0" "p_pid ?q \<noteq> 0" using kernel_pair_ok(4,5) by simp_all
  obtain s1 where s1: "sys_ipc_send (Some 0) (ucast (p_pid ?q)) 0x400000 1 system_demo = (Inr 1, s1)"
    and r: "\<And>s2 :: fs_state system. sy_ipc s2 = sy_ipc s1 \<Longrightarrow> caller (Some 1) s2 = Some ?q \<Longrightarrow>
      \<exists>s3. sys_ipc_recv (Some 1) 0x500000 16 s2 = (Inr 1, s3) \<and> user_bytes (sy_mem s3) 0x500000 1 = user_bytes (sy_mem system_demo) 0x400000 1"
    using syscall_message_delivery [OF ok box(2) system_demo_caller(1) pids(1) pair_buffers(1) _ _ pids(2) box(1) pair_buffers(2), where ?cur2.0 = "Some 1"]
    by (auto simp del: One_nat_def)
  have "sy_kernel s1 = kernel_pair" using s1 by (auto simp: sys_ipc_send_def system_demo_def split: option.splits if_splits)
  then have "caller (Some 1) s1 = Some ?q" by (simp add: caller_def)
  from r [OF HOL.refl this] show ?thesis using s1 by (auto simp: system_demo_mem user_bytes_def)
qed

end
