(* ===== verification/Spec2Isabelle.thy ===== *)
theory Spec2Isabelle
  imports Pmm Ipc Input Sched Vfs Vmm Kheap Gui Process GuiInput UserVm Loader Spawn Fb Compositor Syscall
begin

text \<open>
  A verification library for KolibriARM, a small AArch64 kernel in C with user processes, a window system and an in-memory file
  system. The theories follow the source files; each definition bears the name of the C function, or of the loop in it, that it translates.

  \<^bold>\<open>The program and its theories.\<close>

  \<^item> Memory. \<open>Pmm\<close> (\<open>kernel/mm/pmm.c\<close>) is the page allocator, a bitmap and a count. \<open>Vmm\<close> (\<open>kernel/mm/vmm.c\<close>) is the page-table
    manager over physical memory as a function from cell addresses to 64-bit words; it takes its tables from \<open>Pmm\<close>. \<open>Kheap\<close>
    (\<open>kernel/mm/kheap.c\<close>) is the kernel heap, a list of blocks in arenas taken from \<open>Pmm\<close>. \<open>UserVm\<close> (\<open>kernel/user_vm.c\<close>) joins page
    allocator, page tables and process regions into the anonymous mappings of a process.
  \<^item> Processes. \<open>Region\<close> is the process control block of \<open>kernel/process.c\<close> with its memory regions, \<open>Process\<close> the table of
    sixteen slots, the dispatcher, exit, wait and kill. \<open>Loader\<close> (\<open>user_image.c\<close>, \<open>boot_program.c\<close>, \<open>bootfs.c\<close>, \<open>panel_boot_argv.c\<close>)
    checks and copies program images and packs arguments on a new stack; \<open>Spawn\<close> (\<open>panel_boot.c\<close> and \<open>board_map_mmio\<close> of both boards)
    puts a new process together. \<open>Sched\<close> (\<open>kernel/sched/sched.c\<close>) schedules the kernel's own threads.
  \<^item> Communication. \<open>Ipc\<close> (\<open>kernel/ipc.c\<close>) is the mailbox, \<open>Input\<close> (\<open>drivers/input/input.c\<close>) the queue of input events with the
    parser for escape sequences, \<open>Tmpfs\<close> (\<open>kernel/tmpfs.c\<close>) and \<open>Vfs\<close> (\<open>kernel/vfs.c\<close>) the files and descriptors.
  \<^item> Windows. \<open>Gui\<close> (\<open>gui_pool.c\<close>, \<open>gui_events.c\<close>, \<open>gui_cursor.c\<close>, \<open>gui_backing.c\<close>, parts of \<open>gui_compositor.c\<close>) holds the desktop: sixteen
    windows with event queues and pixel buffers in the kernel heap, focus and stacking, damage, cursor and drag. \<open>GuiInput\<close>
    (\<open>gui_input.c\<close>) routes events to windows; \<open>Fb\<close> (\<open>drivers/fb/fb.c\<close>, \<open>kernel/font.c\<close>) draws into a frame buffer; \<open>Compositor\<close> (the rest of
    \<open>gui_compositor.c\<close>) draws windows, desktop and cursor.
  \<^item> System calls. \<open>Syscall\<close> (\<open>syscall.c\<close>, \<open>syscall_helpers.c\<close>) joins all of them: the record \<open>system\<close> has the state of each component as a
    field, every call is a function on it, and \<open>syscall_dispatch\<close> drains the input, saves the context of the caller, serves the call
    and updates the registers of the process that runs next.
  \<^item> Shared. \<open>Prelude\<close> has the types, the first index that satisfies a test, and the lemmas on words and lists; \<open>Ring\<close> the
    lemmas on ring buffers and the locale of a bounded queue; \<open>RoundRobin\<close> the locale of a rotating scan, with the bound after which everyone has been served.

  \<^bold>\<open>How the code is translated.\<close> Static variables are fields of a record that the operations take and return. Unsigned integers are words of their
  width, so additions wrap around as in C; indices that the code bounds are natural numbers; \<open>int32_t\<close> coordinates are unbounded
  integers, since signed overflow has no meaning in C, and where the code casts to \<open>uint32_t\<close> the model does. A null pointer is \<open>None\<close> or the
  address 0, an error return is a value. A pointer into a static array is its index. A function pointer is a field that holds a function. Loops are
  structural recursion, folds over index lists, or \<open>function\<close> with a measure; the three loops whose end depends on the data
  (\<open>draw_line_loop\<close>, \<open>background_row\<close>, \<open>drain_input\<close>) and the argument copy are \<open>partial_function\<close> into \<open>option\<close>, where \<open>None\<close> is a loop that runs
  forever; for the line routine it is proved that this never happens, for the background rows under the condition that visible windows have a width. No
  definition has fuel. The bounds (16 processes, 8 regions, 16 windows, 8 messages, 8 descriptors, 64 input events) are those of the headers.

  \<^bold>\<open>What is shown.\<close> For each component with state an invariant holds initially and is kept by every operation: \<open>pmm_ready\<close>,
  \<open>vm_ok\<close> (page tables form disjoint trees of pages that are not free), \<open>heap_ok\<close>, \<open>region_ok\<close>, \<open>table_ok\<close>, \<open>gui_ok\<close>, \<open>ipc_ok\<close>, \<open>vfs_ok\<close>, \<open>fb_ok\<close>. On top of these:

  \<^item> Memory: first fit and completeness of the page allocator; a mapping changes exactly one translation of one address space; ranges are mapped
    entirely or not at all; an address space gives back the pages it took; the heap hands out disjoint memory and
    refuses only when it has none; anonymous mappings can be undone.
  \<^item> Processes: unique ids, an exact count, at most one running process, through every sequence of operations; release frees exactly what
    the process owns; an interrupted process resumes with the frame it was interrupted with; round robin dispatch is fair; range checks are
    exact; starting a process is all or nothing; arguments arrive.
  \<^item> Communication: the mailbox is a queue per receiver; what is typed or written is read back; descriptors stay within bounds; mounting is atomic.
  \<^item> Windows: the invariant over all operations, event queues, no lost damage, focus raises, drawing stays inside its buffer and ends.
  \<^item> System calls: no call writes memory outside the regions of its caller or touches a window of another process, all of them keep the
    process table well formed, and a message is delivered unchanged.

  \<^bold>\<open>Interfaces.\<close> What a component promises its clients is a locale, interpreted on the model: the page allocator (\<open>page_allocator\<close> in
  \<open>Pmm\<close>), the heap and the runs of its clients (\<open>allocator\<close> in \<open>Kheap\<close>), the bounded queue (\<open>fifo\<close> in \<open>Ring\<close>, interpreted in \<open>Input\<close>), queues per
  receiver (\<open>mailboxes\<close> in \<open>Ipc\<close>), named files (\<open>file_store\<close> in \<open>Tmpfs\<close>), the rotating scan (\<open>round_robin\<close>, interpreted in \<open>Sched\<close> and \<open>Process\<close>),
  and the device mapping of a board (\<open>mmio_mapper\<close> in \<open>Spawn\<close>, interpreted for both boards).

  \<^bold>\<open>What is not modelled.\<close> FAT32 and the kernel console are arguments of the theories that reach them, as are the polling of devices and network. Drivers (USB,
  virtio, eMMC, PCI, UART, interrupt controller), exception entry and the other assembly, the device tree, the boot sequence and the user programs
  are left out: they are device registers, assembly or clients. The kernel is modelled as it runs on one core with interrupts handled between
  operations. User memory in \<open>Syscall\<close> is the address space of the caller; that the pages of different processes are disjoint is the content of
  the properties of \<open>Vmm\<close>, \<open>UserVm\<close> and \<open>Spawn\<close>.
\<close>

end
